(* ===== verification/Prelude.thy ===== *)
theory Prelude
  imports Main "HOL-Library.Word" "HOL-Library.List_Lexorder" "HOL-Library.Sublist"
begin

text \<open>
  Shared types and automation. Every string, key, value and file of the program is a
  list of bytes; a Rust \<^verbatim>\<open>Result<T>\<close> is a sum with the error on the left; an operation that
  mutates a \<^verbatim>\<open>&mut\<close> argument is a function from the old state to a result and the new state,
  so that the partial effects of an operation that returns an error are part of the model.
\<close>

type_synonym byte = "8 word"
type_synonym bytes = "byte list"

text \<open>The order of byte strings is the lexicographic one (Rust's \<^verbatim>\<open>Ord for [u8]\<close>).\<close>

named_theorems codec_simps "decoding of encoded data"
named_theorems size_simps "sizes of encoded data"

section \<open>Results and state-passing operations\<close>

definition bindE :: "'e + 'a \<Rightarrow> ('a \<Rightarrow> 'e + 'b) \<Rightarrow> 'e + 'b" where
  "bindE r f = (case r of Inl e \<Rightarrow> Inl e | Inr x \<Rightarrow> f x)"

lemma bindE_simps [simp]:
  "bindE (Inl e) f = Inl e"
  "bindE (Inr x) f = f x"
  by (simp_all add: bindE_def)

lemma bindE_eq_Inr: "bindE r f = Inr y \<longleftrightarrow> (\<exists>x. r = Inr x \<and> f x = Inr y)"
  by (cases r) auto

lemma bindE_eq_Inl: "bindE r f = Inl e \<longleftrightarrow> r = Inl e \<or> (\<exists>x. r = Inr x \<and> f x = Inl e)"
  by (cases r) auto

text \<open>Run a fallible function on each element, stopping at the first error.\<close>

fun mapE :: "('a \<Rightarrow> 'e + 'b) \<Rightarrow> 'a list \<Rightarrow> 'e + 'b list" where
  "mapE f [] = Inr []"
| "mapE f (x # xs) = bindE (f x) (\<lambda>y. bindE (mapE f xs) (\<lambda>ys. Inr (y # ys)))"

lemma mapE_Inr: "(\<And>x. x \<in> set xs \<Longrightarrow> f x = Inr (g x)) \<Longrightarrow> mapE f xs = Inr (map g xs)"
  by (induction xs) auto

lemma mapE_append:
  "mapE f (xs @ ys) = bindE (mapE f xs) (\<lambda>a. bindE (mapE f ys) (\<lambda>b. Inr (a @ b)))"
proof (induction xs)
  case Nil
  then show ?case by (cases "mapE f ys") auto
next
  case (Cons x xs)
  then show ?case
    by (cases "f x"; cases "mapE f xs"; cases "mapE f ys") auto
qed

lemma mapE_length: "mapE f xs = Inr ys \<Longrightarrow> length ys = length xs"
  by (induction xs arbitrary: ys) (auto simp: bindE_eq_Inr)

text \<open>An operation on a state \<open>'s\<close>: the result, or the error, and the state it leaves.\<close>

type_synonym ('s, 'e, 'a) op = "'s \<Rightarrow> ('e + 'a) \<times> 's"

definition retS :: "'a \<Rightarrow> ('s, 'e, 'a) op" where
  "retS x s = (Inr x, s)"

definition failS :: "'e \<Rightarrow> ('s, 'e, 'a) op" where
  "failS e s = (Inl e, s)"

definition bindS :: "('s, 'e, 'a) op \<Rightarrow> ('a \<Rightarrow> ('s, 'e, 'b) op) \<Rightarrow> ('s, 'e, 'b) op" where
  "bindS m f s = (case m s of (Inl e, s') \<Rightarrow> (Inl e, s') | (Inr x, s') \<Rightarrow> f x s')"

text \<open>A pure fallible step inside an operation (Rust's \<^verbatim>\<open>?\<close> on a value).\<close>

definition liftS :: "'e + 'a \<Rightarrow> ('s, 'e, 'a) op" where
  "liftS r s = (r, s)"

definition getS :: "('s \<Rightarrow> 'a) \<Rightarrow> ('s, 'e, 'a) op" where
  "getS f s = (Inr (f s), s)"

definition modS :: "('s \<Rightarrow> 's) \<Rightarrow> ('s, 'e, unit) op" where
  "modS f s = (Inr (), f s)"

fun forS :: "'a list \<Rightarrow> ('a \<Rightarrow> ('s, 'e, unit) op) \<Rightarrow> ('s, 'e, unit) op" where
  "forS [] f = retS ()"
| "forS (x # xs) f = bindS (f x) (\<lambda>_. forS xs f)"

lemma op_simps [simp]:
  "retS x s = (Inr x, s)"
  "failS e s = (Inl e, s)"
  "liftS r s = (r, s)"
  "getS g s = (Inr (g s), s)"
  "modS h s = (Inr (), h s)"
  by (simp_all add: retS_def failS_def liftS_def getS_def modS_def)

lemma bindS_Inr: "m s = (Inr x, s') \<Longrightarrow> bindS m f s = f x s'"
  by (simp add: bindS_def)

lemma bindS_Inl: "m s = (Inl e, s') \<Longrightarrow> bindS m f s = (Inl e, s')"
  by (simp add: bindS_def)

lemma bindS_simps [simp]:
  "bindS (retS x) f s = f x s"
  "bindS (failS e) f s = (Inl e, s)"
  "bindS (getS g) f s = f (g s) s"
  "bindS (modS h) f s = f () (h s)"
  "bindS (liftS (Inr x)) f s = f x s"
  "bindS (liftS (Inl e)) f s = (Inl e, s)"
  by (simp_all add: bindS_def)

lemma bindS_eq_Inr:
  "bindS m f s = (Inr y, s'') \<longleftrightarrow> (\<exists>x s'. m s = (Inr x, s') \<and> f x s' = (Inr y, s''))"
  by (auto simp: bindS_def split: prod.splits sum.splits)

section \<open>Comparison\<close>

text \<open>Rust's \<^verbatim>\<open>std::cmp::Ordering\<close> and \<^verbatim>\<open>Ord::cmp\<close>.\<close>

datatype cmp_result = CLess | CEqual | CGreater

definition cmp :: "'a::linorder \<Rightarrow> 'a \<Rightarrow> cmp_result" where
  "cmp a b = (if a < b then CLess else if a = b then CEqual else CGreater)"

definition cmp_then :: "cmp_result \<Rightarrow> cmp_result \<Rightarrow> cmp_result" where
  "cmp_then c d = (if c = CEqual then d else c)"

lemma cmp_simps [simp]:
  "cmp a b = CLess \<longleftrightarrow> a < b"
  "cmp a b = CEqual \<longleftrightarrow> a = b"
  "cmp a b = CGreater \<longleftrightarrow> b < a"
  by (auto simp: cmp_def)

lemma cmp_cong: "(a < b \<longleftrightarrow> c < d) \<Longrightarrow> (a = b \<longleftrightarrow> c = d) \<Longrightarrow> cmp a b = cmp c d"
  by (simp add: cmp_def)

section \<open>Lists\<close>

text \<open>Rust's \<^verbatim>\<open>first()\<close> and \<^verbatim>\<open>Iterator::next\<close>: the first element, if there is one.\<close>

definition head_opt :: "'a list \<Rightarrow> 'a option" where
  "head_opt xs = (case xs of [] \<Rightarrow> None | x # _ \<Rightarrow> Some x)"

lemma head_opt_simps [simp]:
  "head_opt [] = None"
  "head_opt (x # xs) = Some x"
  by (simp_all add: head_opt_def)

lemma head_opt_eq [simp]: "head_opt xs = None \<longleftrightarrow> xs = []"
  by (cases xs) simp_all

abbreviation ssorted :: "'a::linorder list \<Rightarrow> bool" where
  "ssorted xs \<equiv> sorted_wrt (<) xs"

lemma ssorted_distinct: "ssorted xs \<Longrightarrow> distinct xs"
  by (simp add: strict_sorted_iff)

lemma sorted_keys_distinct: "ssorted (map fst xs) \<Longrightarrow> distinct (map fst xs)"
  by (rule ssorted_distinct)

lemma ssorted_map_filter: "ssorted (map fst xs) \<Longrightarrow> ssorted (map fst (filter P xs))"
  by (induction xs) auto

text \<open>A strictly sorted association list is determined by the map it represents.\<close>

lemma sorted_assoc_unique:
  assumes "ssorted (map fst xs)" and "ssorted (map fst ys)" and "map_of xs = map_of ys"
  shows "xs = ys"
proof -
  have "fst ` set xs = fst ` set ys"
    using assms(3) by (metis dom_map_of_conv_image_fst)
  then have "map fst xs = map fst ys"
    using assms(1,2) by (simp add: strict_sorted_equal)
  moreover have "set xs = set ys"
    using assms by (metis map_of_inject_set ssorted_distinct)
  ultimately show ?thesis
    using assms(1) by (metis sorted_keys_distinct
        map_of_zip_inject zip_map_fst_snd length_map assms(3))
qed

lemma map_of_filter_key:
  "map_of (filter (\<lambda>(k, v). P k) xs) k = (if P k then map_of xs k else None)"
  by (induction xs) auto

lemma map_of_None_less: "ssorted (k # map fst xs) \<Longrightarrow> map_of xs k = None"
  by (metis (no_types) less_irrefl list.set_map map_of_eq_None_iff sorted_wrt.simps(2))

text \<open>Rust's \<^verbatim>\<open>BTreeMap\<close> is an association list with strictly increasing keys.\<close>

fun bt_insert :: "'k::linorder \<Rightarrow> 'v \<Rightarrow> ('k \<times> 'v) list \<Rightarrow> ('k \<times> 'v) list" where
  "bt_insert k v [] = [(k, v)]"
| "bt_insert k v ((a, b) # m) =
     (if k < a then (k, v) # (a, b) # m
      else if k = a then (k, v) # m
      else (a, b) # bt_insert k v m)"

lemma keys_bt_insert: "fst ` set (bt_insert k v m) = insert k (fst ` set m)"
  by (induction k v m rule: bt_insert.induct) (simp_all add: insert_commute)

lemma ssorted_bt_insert [simp]: "ssorted (map fst m) \<Longrightarrow> ssorted (map fst (bt_insert k v m))"
proof (induction m)
  case Nil
  then show ?case by simp
next
  case (Cons p m)
  obtain a b where p: "p = (a, b)" by (cases p)
  have "\<forall>x \<in> set (map fst (bt_insert k v m)). x = k \<or> a < x"
    using Cons.prems p keys_bt_insert[of k v m] by auto
  with Cons p show ?case by auto
qed

lemma map_of_bt_insert [simp]: "ssorted (map fst m) \<Longrightarrow> map_of (bt_insert k v m) = (map_of m)(k \<mapsto> v)"
  by (induction m) (auto simp: fun_eq_iff)

lemma bt_insert_nonempty [simp]: "bt_insert k v m \<noteq> []"
  by (cases m) (auto split: if_splits)

lemma lex_append:
  fixes xs ys :: "'a::linorder list"
  assumes "length xs = length ys"
  shows "xs @ us < ys @ vs \<longleftrightarrow> xs < ys \<or> xs = ys \<and> us < vs"
  using assms by (induction xs ys rule: list_induct2) auto

lemma lex_append_same [simp]:
  fixes p :: "'a::linorder list"
  shows "p @ us < p @ vs \<longleftrightarrow> us < vs" "p @ us \<le> p @ vs \<longleftrightarrow> us \<le> vs"
  by (induction p) auto

lemma lex_prefix_le: "prefix p xs \<Longrightarrow> p \<le> (xs :: 'a::linorder list)"
  by (metis (no_types) append.right_neutral lex_append_same(2) Nil_le_Cons list.exhaust order_refl prefix_def)


section \<open>Binary search\<close>

text \<open>
  The loop \<^verbatim>\<open>while lo < hi { mid = (lo + hi) / 2; if p(mid) { lo = mid + 1 } else { hi = mid } }\<close>
  of the program's two binary searches: the first index in \<open>[lo, hi)\<close> where \<open>p\<close> fails.
\<close>

function bsearch :: "(nat \<Rightarrow> bool) \<Rightarrow> nat \<Rightarrow> nat \<Rightarrow> nat" where
  "bsearch p lo hi =
     (if lo < hi then
        (let mid = (lo + hi) div 2 in if p mid then bsearch p (mid + 1) hi else bsearch p lo mid)
      else lo)"
  by pat_completeness auto
termination
  by (relation "measure (\<lambda>(_, lo, hi). hi - lo)") auto

declare bsearch.simps [simp del]

lemma bsearch_partition:
  assumes "lo \<le> hi" and "\<And>i j. lo \<le> i \<Longrightarrow> i \<le> j \<Longrightarrow> j < hi \<Longrightarrow> p j \<Longrightarrow> p i"
  shows "lo \<le> bsearch p lo hi \<and> bsearch p lo hi \<le> hi \<and>
     (\<forall>i. lo \<le> i \<longrightarrow> i < bsearch p lo hi \<longrightarrow> p i) \<and> (\<forall>i. bsearch p lo hi \<le> i \<longrightarrow> i < hi \<longrightarrow> \<not> p i)"
  using assms
proof (induction p lo hi rule: bsearch.induct)
  case (1 p lo hi)
  show ?case
  proof (cases "lo < hi")
    case False
    moreover from False have "bsearch p lo hi = lo" by (simp add: bsearch.simps[of p lo hi])
    ultimately show ?thesis using "1.prems"(1) by simp
  next
    case lt: True
    let ?mid = "(lo + hi) div 2"
    have m: "lo \<le> ?mid" "?mid < hi" using lt by auto
    show ?thesis
    proof (cases "p ?mid")
      case True
      let ?b = "bsearch p (?mid + 1) hi"
      have ih: "?mid + 1 \<le> ?b \<and> ?b \<le> hi \<and> (\<forall>i. ?mid + 1 \<le> i \<longrightarrow> i < ?b \<longrightarrow> p i) \<and>
          (\<forall>i. ?b \<le> i \<longrightarrow> i < hi \<longrightarrow> \<not> p i)"
        using "1.IH"(1)[OF lt refl True] m "1.prems"(2) by simp
      have "p i" if "lo \<le> i" "i < ?b" for i
      proof (cases "i \<le> ?mid")
        case True
        then show ?thesis using "1.prems"(2)[of i ?mid] that(1) m \<open>p ?mid\<close> by blast
      next
        case False
        then show ?thesis using ih that(2) by simp
      qed
      moreover have "bsearch p lo hi = ?b"
        using lt True by (simp add: bsearch.simps[of p lo hi] Let_def)
      moreover have "lo \<le> ?b" using ih m by linarith
      ultimately show ?thesis using ih by simp
    next
      case False
      let ?b = "bsearch p lo ?mid"
      have ih: "lo \<le> ?b \<and> ?b \<le> ?mid \<and> (\<forall>i. lo \<le> i \<longrightarrow> i < ?b \<longrightarrow> p i) \<and>
          (\<forall>i. ?b \<le> i \<longrightarrow> i < ?mid \<longrightarrow> \<not> p i)"
        using "1.IH"(2)[OF lt refl False] m "1.prems"(2) by simp
      have "\<not> p i" if "?b \<le> i" "i < hi" for i
      proof (cases "i < ?mid")
        case True
        then show ?thesis using ih that(1) by simp
      next
        case ge: False
        then have "?mid \<le> i" by simp
        then show ?thesis using "1.prems"(2)[of ?mid i] m(1) that(2) False by blast
      qed
      moreover have "bsearch p lo hi = ?b"
        using lt False by (simp add: bsearch.simps[of p lo hi] Let_def)
      moreover have "?b \<le> hi" using ih m by linarith
      ultimately show ?thesis using ih by simp
    qed
  qed
qed

end
