(* ===== verification/Bytes.thy ===== *)
theory Bytes
  imports Prelude
begin

text \<open>
  The encodings of the standard library the program relies on: little- and big-endian
  integers, string literals as bytes, and the well-formedness of UTF-8
  (Rust's \<^verbatim>\<open>std::str::from_utf8\<close>, table 3-7 of the Unicode standard).
\<close>

section \<open>Integers\<close>

fun to_le :: "nat \<Rightarrow> nat \<Rightarrow> bytes" where
  "to_le 0 n = []"
| "to_le (Suc k) n = word_of_nat (n mod 256) # to_le k (n div 256)"

fun from_le :: "bytes \<Rightarrow> nat" where
  "from_le [] = 0"
| "from_le (b # bs) = unat b + 256 * from_le bs"

definition to_be :: "nat \<Rightarrow> nat \<Rightarrow> bytes" where
  "to_be k n = rev (to_le k n)"

definition from_be :: "bytes \<Rightarrow> nat" where
  "from_be bs = from_le (rev bs)"

lemma unat_byte_of_nat: "unat (word_of_nat n :: byte) = n mod 256"
  by (simp add: unat_of_nat)

lemma byte_bound [simp]: "unat (b :: byte) < 256"
  using unsigned_less[of b, where ?'a = nat] by simp

lemma u32_bound [simp]: "unat (w :: 32 word) < 4294967296"
  using unsigned_less[of w, where ?'a = nat] by simp

lemma u64_bound [simp]: "unat (w :: 64 word) < 18446744073709551616"
  using unsigned_less[of w, where ?'a = nat] by simp

lemma length_to_le [simp, size_simps]: "length (to_le k n) = k"
  by (induction k arbitrary: n) auto

lemma length_to_be [simp, size_simps]: "length (to_be k n) = k"
  by (simp add: to_be_def)

lemma from_le_bound: "from_le bs < 256 ^ length bs"
proof (induction bs)
  case Nil
  then show ?case by simp
next
  case (Cons b bs)
  have "unat b + 256 * from_le bs < 256 + 256 * from_le bs"
    by simp
  also have "\<dots> \<le> 256 * 256 ^ length bs"
    using Cons.IH by (metis Suc_leI mult_Suc_right mult_le_mono2)
  finally show ?case by simp
qed

lemma from_to_le: "from_le (to_le k n) = n mod 256 ^ k"
proof (induction k arbitrary: n)
  case 0
  then show ?case by simp
next
  case (Suc k)
  have "n mod 256 ^ Suc k = n mod 256 + 256 * (n div 256 mod 256 ^ k)"
    by (simp add: mod_mult2_eq)
  with Suc show ?case by (simp add: unat_byte_of_nat)
qed

lemma to_from_le: "to_le (length bs) (from_le bs) = bs"
proof (induction bs)
  case Nil
  then show ?case by simp
next
  case (Cons b bs)
  have "(unat b + 256 * from_le bs) mod 256 = unat b"
    by simp
  moreover have "(unat b + 256 * from_le bs) div 256 = from_le bs"
    by simp
  ultimately show ?case using Cons by simp
qed

text \<open>The fixed-width integers of the formats.\<close>

definition u32_le :: "32 word \<Rightarrow> bytes" where
  "u32_le w = to_le 4 (unat w)"

definition le_u32 :: "bytes \<Rightarrow> 32 word" where
  "le_u32 bs = word_of_nat (from_le bs)"

definition u64_le :: "64 word \<Rightarrow> bytes" where
  "u64_le w = to_le 8 (unat w)"

definition le_u64 :: "bytes \<Rightarrow> 64 word" where
  "le_u64 bs = word_of_nat (from_le bs)"

definition u64_be :: "64 word \<Rightarrow> bytes" where
  "u64_be w = to_be 8 (unat w)"

definition be_u64 :: "bytes \<Rightarrow> 64 word" where
  "be_u64 bs = word_of_nat (from_be bs)"

text \<open>Rust's \<^verbatim>\<open>n as u32\<close> on a length.\<close>

definition as_u32 :: "nat \<Rightarrow> 32 word" where
  "as_u32 n = word_of_nat n"

lemma length_int_enc [simp, size_simps]:
  "length (u32_le a) = 4" "length (u64_le b) = 8" "length (u64_be b) = 8"
  by (simp_all add: u32_le_def u64_le_def u64_be_def)

lemma int_enc_nonempty [simp]: "u32_le a \<noteq> []" "u64_le b \<noteq> []" "u64_be b \<noteq> []"
  by (metis length_int_enc list.size(3) zero_neq_numeral)+

lemma le_u32_u32_le [simp, codec_simps]: "le_u32 (u32_le w) = w"
proof -
  have "unat w mod 256 ^ 4 = unat w"
    by simp
  then show ?thesis by (simp add: le_u32_def u32_le_def from_to_le)
qed

lemma le_u64_u64_le [simp, codec_simps]: "le_u64 (u64_le w) = w"
proof -
  have "unat w mod 256 ^ 8 = unat w"
    by simp
  then show ?thesis by (simp add: le_u64_def u64_le_def from_to_le)
qed

lemma be_u64_u64_be [simp, codec_simps]: "be_u64 (u64_be w) = w"
proof -
  have "unat w mod 256 ^ 8 = unat w"
    by simp
  then show ?thesis by (simp add: be_u64_def u64_be_def from_be_def to_be_def from_to_le)
qed

lemma unat_as_u32 [simp]: "n < 2 ^ 32 \<Longrightarrow> unat (as_u32 n) = n"
  by (simp add: as_u32_def unat_of_nat)

lemma from_le_u32 [simp]: "from_le (u32_le w) = unat w"
  by (simp add: u32_le_def from_to_le)

lemma from_le_u64 [simp]: "from_le (u64_le w) = unat w"
  by (simp add: u64_le_def from_to_le)

lemma u32_le_inject [simp]: "u32_le a = u32_le b \<longleftrightarrow> a = b"
  by (metis le_u32_u32_le)

lemma u64_le_inject [simp]: "u64_le a = u64_le b \<longleftrightarrow> a = b"
  by (metis le_u64_u64_le)

lemma div_mod_less:
  "(m :: nat) div 256 < n div 256 \<or> m div 256 = n div 256 \<and> m mod 256 < n mod 256 \<longleftrightarrow> m < n"
proof -
  have "m = 256 * (m div 256) + m mod 256" "n = 256 * (n div 256) + n mod 256"
    by simp_all
  moreover have "m mod 256 < 256" "n mod 256 < 256"
    by simp_all
  ultimately show ?thesis by linarith
qed

text \<open>Big-endian encodings of equal width compare as the numbers they encode.\<close>

lemma to_be_less:
  assumes "m < 256 ^ k" and "n < 256 ^ k"
  shows "to_be k m < to_be k n \<longleftrightarrow> m < n"
  using assms
proof (induction k arbitrary: m n)
  case 0
  then show ?case by (simp add: to_be_def)
next
  case (Suc k)
  let ?x = "word_of_nat (m mod 256) :: byte" and ?y = "word_of_nat (n mod 256) :: byte"
  have d: "m div 256 < 256 ^ k" "n div 256 < 256 ^ k"
    using Suc.prems by (simp_all add: less_mult_imp_div_less mult.commute)
  have b: "?x < ?y \<longleftrightarrow> m mod 256 < n mod 256"
    by (simp add: word_less_nat_alt unat_byte_of_nat)
  have e: "to_be k (m div 256) = to_be k (n div 256) \<longleftrightarrow> m div 256 = n div 256"
    using Suc.IH[OF d] Suc.IH[OF d(2,1)] by (metis less_irrefl linorder_neqE_nat)
  have "to_be (Suc k) m < to_be (Suc k) n \<longleftrightarrow>
        m div 256 < n div 256 \<or> m div 256 = n div 256 \<and> m mod 256 < n mod 256"
    using lex_append[of "to_be k (m div 256)" "to_be k (n div 256)" "[?x]" "[?y]"]
    by (simp add: to_be_def b Suc.IH[OF d, unfolded to_be_def] e[unfolded to_be_def, simplified])
  also have "\<dots> \<longleftrightarrow> m < n"
    by (rule div_mod_less)
  finally show ?case .
qed

lemma u64_be_less [simp]: "u64_be a < u64_be b \<longleftrightarrow> a < b"
  by (simp add: u64_be_def to_be_less word_less_nat_alt)

lemma u64_be_inject [simp]: "u64_be a = u64_be b \<longleftrightarrow> a = b"
  by (metis be_u64_u64_be)

section \<open>Text\<close>

text \<open>A string literal of the program, as the bytes of its (ASCII) characters.\<close>

definition str :: "string \<Rightarrow> bytes" where
  "str s = map of_char s"

lemma length_str [simp, size_simps]: "length (str s) = length s"
  by (simp add: str_def)

definition utf8_cont :: "byte \<Rightarrow> bool" where
  "utf8_cont b \<longleftrightarrow> 0x80 \<le> b \<and> b \<le> 0xBF"

fun utf8_valid :: "bytes \<Rightarrow> bool" where
  "utf8_valid [] = True"
| "utf8_valid (b # bs) =
    (if b < 0x80 then utf8_valid bs
     else (case bs of [] \<Rightarrow> False | c1 # bs1 \<Rightarrow>
       (if 0xC2 \<le> b \<and> b \<le> 0xDF then utf8_cont c1 \<and> utf8_valid bs1
        else (case bs1 of [] \<Rightarrow> False | c2 # bs2 \<Rightarrow>
          (if b = 0xE0 then 0xA0 \<le> c1 \<and> c1 \<le> 0xBF \<and> utf8_cont c2 \<and> utf8_valid bs2
           else if b = 0xED then 0x80 \<le> c1 \<and> c1 \<le> 0x9F \<and> utf8_cont c2 \<and> utf8_valid bs2
           else if 0xE1 \<le> b \<and> b \<le> 0xEF then utf8_cont c1 \<and> utf8_cont c2 \<and> utf8_valid bs2
           else (case bs2 of [] \<Rightarrow> False | c3 # bs3 \<Rightarrow>
             (if b = 0xF0 then 0x90 \<le> c1 \<and> c1 \<le> 0xBF else
              if b = 0xF4 then 0x80 \<le> c1 \<and> c1 \<le> 0x8F else
              0xF1 \<le> b \<and> b \<le> 0xF3 \<and> utf8_cont c1) \<and>
             utf8_cont c2 \<and> utf8_cont c3 \<and> utf8_valid bs3))))))"

lemma utf8_valid_ascii: "\<forall>b \<in> set bs. b < 0x80 \<Longrightarrow> utf8_valid bs"
  by (induction bs) auto

lemma utf8_valid_append_ascii:
  "\<forall>b \<in> set as. b < 0x80 \<Longrightarrow> utf8_valid (as @ bs) = utf8_valid bs"
  by (induction as) auto

end
