(* ===== verification/Text.thy ===== *)
theory Text
  imports Bytes
begin

text \<open>
  The text functions of the standard library used by the text formats (manifest, schema,
  version file) on UTF-8 bytes: decimal printing and parsing of unsigned integers,
  \<^verbatim>\<open>split_whitespace\<close>, \<^verbatim>\<open>trim\<close> and \<^verbatim>\<open>lines\<close>.
\<close>

section \<open>Decimal numbers\<close>

definition digit :: "nat \<Rightarrow> byte" where
  "digit d = word_of_nat (48 + d)"

fun dec :: "nat \<Rightarrow> bytes" where
  "dec n = (if n < 10 then [digit n] else dec (n div 10) @ [digit (n mod 10)])"

declare dec.simps [simp del]

definition is_digit :: "byte \<Rightarrow> bool" where
  "is_digit b \<longleftrightarrow> 48 \<le> b \<and> b \<le> 57"

fun parse_digits :: "nat \<Rightarrow> bytes \<Rightarrow> nat option" where
  "parse_digits acc [] = Some acc"
| "parse_digits acc (b # bs) =
     (if is_digit b then parse_digits (acc * 10 + (unat b - 48)) bs else None)"

text \<open>\<^verbatim>\<open>s.parse::<uN>()\<close>: an optional plus sign, at least one digit, no overflow.\<close>

definition parse_uint :: "nat \<Rightarrow> bytes \<Rightarrow> nat option" where
  "parse_uint bound s =
     (let ds = (case s of [] \<Rightarrow> [] | b # r \<Rightarrow> if b = 43 then r else s) in
      if ds = [] then None
      else case parse_digits 0 ds of None \<Rightarrow> None
           | Some n \<Rightarrow> if n < bound then Some n else None)"

lemma unat_digit: "d < 10 \<Longrightarrow> unat (digit d) = 48 + d"
  using unat_byte_of_nat[of "48 + d"] by (simp add: digit_def del: of_nat_add)

lemma is_digit_digit [simp]: "d < 10 \<Longrightarrow> is_digit (digit d)"
  by (simp add: is_digit_def word_le_nat_alt unat_digit)

lemma dec_digits: "b \<in> set (dec n) \<Longrightarrow> is_digit b"
proof (induction n rule: dec.induct)
  case (1 n)
  show ?case
    using 1 by (cases "n < 10") (auto simp: dec.simps[of n])
qed

lemma dec_nonempty [simp]: "dec n \<noteq> []"
  by (subst dec.simps) simp

lemma parse_digits_append:
  "parse_digits acc (xs @ ys) =
     (case parse_digits acc xs of None \<Rightarrow> None | Some a \<Rightarrow> parse_digits a ys)"
  by (induction xs arbitrary: acc) auto

lemma parse_digits_dec: "parse_digits 0 (dec n) = Some n"
proof (induction n rule: dec.induct)
  case (1 n)
  show ?case
  proof (cases "n < 10")
    case True
    then show ?thesis by (simp add: dec.simps[of n] unat_digit)
  next
    case False
    with 1 have "parse_digits 0 (dec (n div 10)) = Some (n div 10)"
      by simp
    with False show ?thesis
      by (simp add: dec.simps[of n] parse_digits_append unat_digit)
  qed
qed

lemma parse_uint_dec [simp]: "n < bound \<Longrightarrow> parse_uint bound (dec n) = Some n"
proof -
  assume n: "n < bound"
  obtain b r where br: "dec n = b # r"
    using dec_nonempty by (cases "dec n") auto
  have "is_digit b"
    using dec_digits[of b n] br by simp
  then have "b \<noteq> 43"
    by (auto simp: is_digit_def)
  then show ?thesis
    using n br parse_digits_dec[of n] by (simp add: parse_uint_def)
qed

lemma dec_inject [simp]: "dec m = dec n \<longleftrightarrow> m = n"
  by (metis option.inject parse_digits_dec)

section \<open>White space and lines\<close>

text \<open>Length of the white space character (Unicode \<^verbatim>\<open>White_Space\<close>) a text starts with, or 0.\<close>

definition ws_len :: "bytes \<Rightarrow> nat" where
  "ws_len s = (case s of [] \<Rightarrow> 0 | b0 # r0 \<Rightarrow>
     if 9 \<le> b0 \<and> b0 \<le> 13 \<or> b0 = 32 then 1
     else (case r0 of [] \<Rightarrow> 0 | b1 # r1 \<Rightarrow>
       if b0 = 0xC2 \<and> (b1 = 0x85 \<or> b1 = 0xA0) then 2
       else (case r1 of [] \<Rightarrow> 0 | b2 # _ \<Rightarrow>
         if b0 = 0xE1 \<and> b1 = 0x9A \<and> b2 = 0x80
            \<or> b0 = 0xE2 \<and> b1 = 0x80 \<and> (0x80 \<le> b2 \<and> b2 \<le> 0x8A \<or> b2 = 0xA8 \<or> b2 = 0xA9 \<or> b2 = 0xAF)
            \<or> b0 = 0xE2 \<and> b1 = 0x81 \<and> b2 = 0x9F
            \<or> b0 = 0xE3 \<and> b1 = 0x80 \<and> b2 = 0x80 then 3 else 0)))"

lemma ws_len_Nil [simp]: "ws_len [] = 0"
  by (simp add: ws_len_def)

text \<open>\<open>split_ws cur s\<close> are the words of \<open>s\<close>, \<open>cur\<close> being the part of a word already read.\<close>

function split_ws :: "bytes \<Rightarrow> bytes \<Rightarrow> bytes list" where
  "split_ws cur [] = (if cur = [] then [] else [cur])"
| "split_ws cur (b # bs) =
     (let n = ws_len (b # bs) in
      if n = 0 then split_ws (cur @ [b]) bs
      else (if cur = [] then [] else [cur]) @ split_ws [] (drop (n - 1) bs))"
  by pat_completeness auto
termination
  by (relation "measure (\<lambda>(_, s). length s)") simp_all

definition split_whitespace :: "bytes \<Rightarrow> bytes list" where
  "split_whitespace s = split_ws [] s"

text \<open>\<^verbatim>\<open>str::trim\<close>: white space at both ends is removed.\<close>

function trim_start :: "bytes \<Rightarrow> bytes" where
  "trim_start s = (if ws_len s = 0 then s else trim_start (drop (ws_len s) s))"
  by pat_completeness auto
termination
  by (relation "measure length") (simp, metis diff_less in_measure length_drop length_greater_0_conv
      neq0_conv ws_len_Nil)

declare trim_start.simps [simp del]

fun trim_end :: "bytes \<Rightarrow> bytes" where
  "trim_end [] = []"
| "trim_end (b # bs) = (if trim_start (b # bs) = [] then [] else b # trim_end bs)"

definition trim :: "bytes \<Rightarrow> bytes" where
  "trim s = trim_end (trim_start s)"

text \<open>\<^verbatim>\<open>str::lines\<close>: split at line feeds; a carriage return before the line feed goes too.\<close>

definition strip_cr :: "bytes \<Rightarrow> bytes" where
  "strip_cr s = (if s \<noteq> [] \<and> last s = 13 then butlast s else s)"

fun lines_from :: "bytes \<Rightarrow> bytes \<Rightarrow> bytes list" where
  "lines_from cur [] = (if cur = [] then [] else [cur])"
| "lines_from cur (b # bs) =
     (if b = 10 then strip_cr cur # lines_from [] bs else lines_from (cur @ [b]) bs)"

definition lines :: "bytes \<Rightarrow> bytes list" where
  "lines s = lines_from [] s"

text \<open>
  A word of a text format: a non-empty run of visible ASCII characters, which no separator
  of the formats can cut.
\<close>

definition visible :: "bytes \<Rightarrow> bool" where
  "visible s \<longleftrightarrow> (\<forall>b \<in> set s. 33 \<le> b \<and> b < 0x80)"

definition word_ok :: "bytes \<Rightarrow> bool" where
  "word_ok s \<longleftrightarrow> s \<noteq> [] \<and> visible s"

lemma visible_simps [simp]:
  "visible []"
  "visible (b # s) \<longleftrightarrow> 33 \<le> b \<and> b < 0x80 \<and> visible s"
  "visible (s @ t) \<longleftrightarrow> visible s \<and> visible t"
  by (auto simp: visible_def)

lemma word_ok_dec [simp]: "word_ok (dec n)"
proof -
  have "33 \<le> b \<and> b < 0x80" if "is_digit b" for b :: byte
    using that unfolding is_digit_def word_le_nat_alt word_less_nat_alt by simp
  then show ?thesis
    using dec_digits by (auto simp: word_ok_def visible_def)
qed

lemma ws_len_visible: "33 \<le> b \<Longrightarrow> b < 0x80 \<Longrightarrow> ws_len (b # s) = 0"
proof -
  assume a: "33 \<le> b" "b < 0x80"
  then have "\<not> b \<le> 13" "b \<noteq> 32" "b \<noteq> 0xC2" "b \<noteq> 0xE1" "b \<noteq> 0xE2" "b \<noteq> 0xE3"
    unfolding word_le_nat_alt word_less_nat_alt by auto
  then show ?thesis by (auto simp: ws_len_def split: list.splits)
qed

lemma split_ws_visible: "visible w \<Longrightarrow> split_ws cur (w @ s) = split_ws (cur @ w) s"
proof (induction w arbitrary: cur)
  case Nil
  then show ?case by simp
next
  case (Cons b w)
  then have "ws_len (b # w @ s) = 0"
    by (simp add: ws_len_visible)
  with Cons show ?case by simp
qed

lemma split_whitespace_word [simp]: "word_ok w \<Longrightarrow> split_whitespace w = [w]"
  using split_ws_visible[of w "[]" "[]"] by (simp add: split_whitespace_def word_ok_def)

lemma split_whitespace_Cons [simp]:
  "word_ok w \<Longrightarrow> split_whitespace (w @ 32 # s) = w # split_whitespace s"
  using split_ws_visible[of w "[]" "32 # s"]
  by (simp add: split_whitespace_def word_ok_def ws_len_def)

lemma split_whitespace_Nil [simp]: "split_whitespace [] = []"
  by (simp add: split_whitespace_def)

lemma lines_from_app: "10 \<notin> set l \<Longrightarrow> lines_from cur (l @ s) = lines_from (cur @ l) s"
  by (induction l arbitrary: cur) auto

lemma lines_Cons: "10 \<notin> set l \<Longrightarrow> 13 \<notin> set l \<Longrightarrow> lines (l @ 10 # s) = l # lines s"
proof -
  assume a: "10 \<notin> set l" "13 \<notin> set l"
  have "strip_cr l = l"
    using a(2) last_in_set[of l] unfolding strip_cr_def by metis
  then show ?thesis
    using lines_from_app[of l "[]" "10 # s"] a(1) by (simp add: lines_def)
qed

lemma lines_Nil [simp]: "lines [] = []"
  by (simp add: lines_def)

lemma lines_concat:
  assumes "\<forall>l \<in> set ls. 10 \<notin> set l \<and> 13 \<notin> set l"
  shows "lines (concat (map (\<lambda>l. l @ [10]) ls)) = ls"
  using assms by (induction ls) (auto simp: lines_Cons)

end
