(* ===== verification/Errors.thy ===== *)
theory Errors
  imports Text
begin

text \<open>
  The errors of the engine (\<^verbatim>\<open>src/error.rs\<close>). \<open>Panic\<close> has no counterpart in the enum: it stands for
  a Rust panic (a slice out of range, an \<^verbatim>\<open>unwrap\<close> of \<^verbatim>\<open>None\<close>), so that a run that aborts is a
  value of the model. Of \<^verbatim>\<open>std::io::Error\<close> the model keeps the kinds the code can meet.
\<close>

datatype conflict_reason =
    ExpectedAbsentButExists
  | ExpectedValueMismatch
  | ExpectedFieldMismatch

datatype io_error = FileNotFound | UnexpectedEof | InvalidData

datatype error =
    Io io_error
  | Corrupt bytes
  | UnsupportedFormatVersion (found: "32 word") (min_supported: "32 word") (max_supported: "32 word")
  | NotFound
  | InvalidFormat bytes
  | InvalidArgument bytes
  | Conflict (conflict_collection: "32 word") (conflict_entity: bytes) (conflict_reason: conflict_reason)
  | Panic bytes

type_synonym 'a result = "error + 'a"

text \<open>Rust's \<^verbatim>\<open>opt.ok_or_else(|| e)?\<close>.\<close>

definition ok_or :: "'a option \<Rightarrow> error \<Rightarrow> 'a result" where
  "ok_or x e = (case x of None \<Rightarrow> Inl e | Some v \<Rightarrow> Inr v)"

lemma ok_or_simps [simp]: "ok_or None e = Inl e" "ok_or (Some v) e = Inr v"
  by (simp_all add: ok_or_def)

lemma ok_or_eq_Inr [simp]: "ok_or x e = Inr v \<longleftrightarrow> x = Some v"
  by (cases x) auto

section \<open>Messages\<close>

definition reason_name :: "conflict_reason \<Rightarrow> bytes" where
  "reason_name r = (case r of
     ExpectedAbsentButExists \<Rightarrow> str ''ExpectedAbsentButExists''
   | ExpectedValueMismatch \<Rightarrow> str ''ExpectedValueMismatch''
   | ExpectedFieldMismatch \<Rightarrow> str ''ExpectedFieldMismatch'')"

text \<open>
  \<^verbatim>\<open>impl Display for Error\<close>. The text of an \<^verbatim>\<open>io::Error\<close> is the operating system's: it is
  the parameter \<open>io_text\<close>. A panic has no message of this kind.
\<close>

definition error_display :: "(io_error \<Rightarrow> bytes) \<Rightarrow> error \<Rightarrow> bytes" where
  "error_display io_text e = (case e of
     Io i \<Rightarrow> str ''I/O error: '' @ io_text i
   | Corrupt what \<Rightarrow> str ''corrupt data: '' @ what
   | UnsupportedFormatVersion f mi ma \<Rightarrow>
       str ''unsupported format version '' @ dec (unat f) @ str '' (supported range ''
         @ dec (unat mi) @ str ''..='' @ dec (unat ma) @ str '')''
   | NotFound \<Rightarrow> str ''not found''
   | InvalidFormat s \<Rightarrow> str ''invalid format: '' @ s
   | InvalidArgument s \<Rightarrow> str ''invalid argument: '' @ s
   | Conflict c i r \<Rightarrow> str ''cas conflict on collection '' @ dec (unat c) @ str '' entity '' @ i
         @ str '': '' @ reason_name r
   | Panic s \<Rightarrow> s)"

end
