(* ===== verification/Codec.thy ===== *)
theory Codec
  imports Errors
begin

unbundle bit_operations_syntax

text \<open>
  The typed value codec (\<^verbatim>\<open>src/codec.rs\<close>): a value is a tag byte and a payload. An \<^verbatim>\<open>i64\<close> is a
  64-bit word read as two's complement, an \<^verbatim>\<open>f64\<close> is its IEEE-754 bit pattern, a \<^verbatim>\<open>String\<close> is
  its UTF-8 bytes.
\<close>

datatype val =
    VNull
  | VBool bool
  | VInt "64 word"
  | VFloat "64 word"
  | VString bytes
  | VBytes bytes

definition TAG_NULL :: byte where "TAG_NULL = 0"
definition TAG_BOOL :: byte where "TAG_BOOL = 1"
definition TAG_INT :: byte where "TAG_INT = 2"
definition TAG_FLOAT :: byte where "TAG_FLOAT = 3"
definition TAG_STRING :: byte where "TAG_STRING = 4"
definition TAG_BYTES :: byte where "TAG_BYTES = 5"

lemmas tag_defs = TAG_NULL_def TAG_BOOL_def TAG_INT_def TAG_FLOAT_def TAG_STRING_def TAG_BYTES_def

section \<open>Floats as bit patterns\<close>

definition f64_magnitude :: "64 word \<Rightarrow> 64 word" where
  "f64_magnitude f = f AND 0x7FFFFFFFFFFFFFFF"

definition f64_is_nan :: "64 word \<Rightarrow> bool" where
  "f64_is_nan f \<longleftrightarrow> 0x7FF0000000000000 < f64_magnitude f"

text \<open>IEEE equality: no NaN equals anything, the two zeros are equal.\<close>

definition f64_eq :: "64 word \<Rightarrow> 64 word \<Rightarrow> bool" where
  "f64_eq a b \<longleftrightarrow> \<not> f64_is_nan a \<and> \<not> f64_is_nan b \<and>
     (a = b \<or> f64_magnitude a = 0 \<and> f64_magnitude b = 0)"

text \<open>The derived \<^verbatim>\<open>PartialEq\<close> of \<^verbatim>\<open>Value\<close>.\<close>

fun val_eq :: "val \<Rightarrow> val \<Rightarrow> bool" where
  "val_eq VNull VNull = True"
| "val_eq (VBool a) (VBool b) = (a = b)"
| "val_eq (VInt a) (VInt b) = (a = b)"
| "val_eq (VFloat a) (VFloat b) = f64_eq a b"
| "val_eq (VString a) (VString b) = (a = b)"
| "val_eq (VBytes a) (VBytes b) = (a = b)"
| "val_eq _ _ = False"

section \<open>Encoding and decoding\<close>

fun encode :: "val \<Rightarrow> bytes" where
  "encode VNull = [TAG_NULL]"
| "encode (VBool b) = [TAG_BOOL, if b then 1 else 0]"
| "encode (VInt i) = TAG_INT # u64_le i"
| "encode (VFloat f) = TAG_FLOAT # u64_le f"
| "encode (VString s) = TAG_STRING # u32_le (as_u32 (length s)) @ s"
| "encode (VBytes b) = TAG_BYTES # u32_le (as_u32 (length b)) @ b"

definition read_len_prefix :: "bytes \<Rightarrow> (nat \<times> bytes) result" where
  "read_len_prefix data =
     (if length data < 5 then Inl (InvalidFormat (str ''len-prefixed value too short''))
      else Inr (unat (le_u32 (take 4 (drop 1 data))), drop 5 data))"

text \<open>\<^verbatim>\<open>s.get(..len)\<close>\<close>

definition get_to :: "nat \<Rightarrow> bytes \<Rightarrow> bytes option" where
  "get_to n s = (if n \<le> length s then Some (take n s) else None)"

definition decode :: "bytes \<Rightarrow> val result" where
  "decode data = (case data of [] \<Rightarrow> Inl (InvalidFormat (str ''empty value''))
   | t # _ \<Rightarrow>
     if t = TAG_NULL then Inr VNull
     else if t = TAG_BOOL then
       (if length data < 2 then Inl (InvalidFormat (str ''bool value too short''))
        else Inr (VBool (data ! 1 \<noteq> 0)))
     else if t = TAG_INT then
       (if length data < 9 then Inl (InvalidFormat (str ''int value too short''))
        else Inr (VInt (le_u64 (take 8 (drop 1 data)))))
     else if t = TAG_FLOAT then
       (if length data < 9 then Inl (InvalidFormat (str ''float value too short''))
        else Inr (VFloat (le_u64 (take 8 (drop 1 data)))))
     else if t = TAG_STRING then
       bindE (read_len_prefix data) (\<lambda>(len, s).
       bindE (ok_or (get_to len s) (InvalidFormat (str ''string too short''))) (\<lambda>bs.
         if utf8_valid bs then Inr (VString bs)
         else Inl (InvalidFormat (str ''invalid utf8 string''))))
     else if t = TAG_BYTES then
       bindE (read_len_prefix data) (\<lambda>(len, s).
       bindE (ok_or (get_to len s) (InvalidFormat (str ''bytes too short''))) (\<lambda>bs.
         Inr (VBytes bs)))
     else Inl (InvalidFormat (str ''unknown value tag '' @ dec (unat t))))"

text \<open>
  The values the encoding can represent: strings are UTF-8, lengths fit the 32-bit prefix. A
  Rust \<^verbatim>\<open>String\<close> always satisfies the first; the code does not check the second.
\<close>

fun val_ok :: "val \<Rightarrow> bool" where
  "val_ok (VString s) = (utf8_valid s \<and> length s < 2 ^ 32)"
| "val_ok (VBytes b) = (length b < 2 ^ 32)"
| "val_ok _ = True"

lemma read_len_prefix_encoded:
  "length s < 2 ^ 32 \<Longrightarrow> read_len_prefix (t # u32_le (as_u32 (length s)) @ s @ r) = Inr (length s, s @ r)"
  by (simp add: read_len_prefix_def)

text \<open>Trailing bytes after the encoded value are ignored by the decoder.\<close>

lemma decode_encode_append: "val_ok v \<Longrightarrow> decode (encode v @ r) = Inr v"
  by (cases v) (simp_all add: decode_def tag_defs read_len_prefix_encoded get_to_def)

text \<open>
  decoding inverts encoding, for every value whose strings are UTF-8 and whose lengths
  fit the 32-bit prefix; floats keep their bit pattern, NaN payloads included.
\<close>

theorem codec_roundtrip: "val_ok v \<Longrightarrow> decode (encode v) = Inr v"
  using decode_encode_append[of v "[]"] by simp

theorem codec_roundtrip_witness: "decode (encode (VString (str ''abc''))) = Inr (VString (str ''abc''))"
proof -
  have "val_ok (VString (str ''abc''))"
    by (simp add: str_def)
  then show ?thesis by (rule codec_roundtrip)
qed

end
