(* ===== verification/Ordering.thy ===== *)
theory Ordering
  imports Codec
begin

text \<open>
  The order-preserving encoding of index values (\<^verbatim>\<open>src/ordering.rs\<close>): the comparison of values,
  the encoding whose byte order is that comparison, its decoder and the parser of its length.
\<close>

section \<open>The total order on values\<close>

text \<open>\<^verbatim>\<open>bits >> 63 == 1\<close>\<close>

definition f64_sign :: "64 word \<Rightarrow> bool" where
  "f64_sign f \<longleftrightarrow> drop_bit 63 f = 1"

definition ordered_f64_bits :: "64 word \<Rightarrow> 64 word" where
  "ordered_f64_bits v =
     (if f64_is_nan v then - 1
      else if f64_sign v then NOT v else v XOR push_bit 63 1)"

definition fkey_cmp :: "64 word \<Rightarrow> 64 word \<Rightarrow> cmp_result" where
  "fkey_cmp x y =
     (let fkey = (\<lambda>f. if f64_is_nan f then (2 :: nat, 0) else (0, ordered_f64_bits f)) in
      cmp_then (cmp (fst (fkey x)) (fst (fkey y))) (cmp (snd (fkey x)) (snd (fkey y))))"

fun type_rank :: "val \<Rightarrow> byte" where
  "type_rank VNull = 0"
| "type_rank (VBool _) = 1"
| "type_rank (VInt _) = 2"
| "type_rank (VFloat _) = 3"
| "type_rank (VString _) = 4"
| "type_rank (VBytes _) = 5"

fun value_cmp :: "val \<Rightarrow> val \<Rightarrow> cmp_result" where
  "value_cmp VNull VNull = CEqual"
| "value_cmp (VBool x) (VBool y) = cmp x y"
| "value_cmp (VInt x) (VInt y) = cmp (sint x) (sint y)"
| "value_cmp (VFloat x) (VFloat y) = fkey_cmp x y"
| "value_cmp (VString x) (VString y) = cmp x y"
| "value_cmp (VBytes x) (VBytes y) = cmp x y"
| "value_cmp a b = cmp (type_rank a) (type_rank b)"

section \<open>Encoding\<close>

text \<open>Null-free escaping with the terminator, as the bytes appended to the output.\<close>

fun escape_null_free :: "bytes \<Rightarrow> bytes" where
  "escape_null_free [] = [0, 0]"
| "escape_null_free (b # bs) = (if b = 0 then 0 # 1 # escape_null_free bs else b # escape_null_free bs)"

fun encode_ordered :: "val \<Rightarrow> bytes" where
  "encode_ordered VNull = [TAG_NULL]"
| "encode_ordered (VBool b) = [TAG_BOOL, if b then 1 else 0]"
| "encode_ordered (VInt i) = TAG_INT # u64_be (i XOR push_bit 63 1)"
| "encode_ordered (VFloat f) = TAG_FLOAT # u64_be (ordered_f64_bits f)"
| "encode_ordered (VString s) = TAG_STRING # escape_null_free s"
| "encode_ordered (VBytes b) = TAG_BYTES # escape_null_free b"

section \<open>Length and decoding\<close>

text \<open>The loop over an escaped string: \<open>i\<close> is the offset of the rest.\<close>

fun escaped_len :: "nat \<Rightarrow> bytes \<Rightarrow> nat result" where
  "escaped_len i [] = Inl (InvalidFormat (str ''missing terminator''))"
| "escaped_len i (b # bs) =
     (if b = 0 then
        (case bs of [] \<Rightarrow> Inl (InvalidFormat (str ''truncated terminator''))
         | c # cs \<Rightarrow> if c = 0 then Inr (i + 2)
                   else if c = 1 then escaped_len (i + 2) cs
                   else Inl (InvalidFormat (str ''invalid escape'')))
      else escaped_len (i + 1) bs)"

definition ordered_value_len :: "bytes \<Rightarrow> nat result" where
  "ordered_value_len data = (case data of [] \<Rightarrow> Inl (InvalidFormat (str ''empty ordered value''))
   | t # rest \<Rightarrow>
     if t = TAG_NULL then Inr 1
     else if t = TAG_BOOL then
       (if length data < 2 then Inl (InvalidFormat (str ''bool ordered too short'')) else Inr 2)
     else if t = TAG_INT \<or> t = TAG_FLOAT then
       (if length data < 9 then Inl (InvalidFormat (str ''numeric ordered too short'')) else Inr 9)
     else if t = TAG_STRING \<or> t = TAG_BYTES then escaped_len 1 rest
     else Inl (InvalidFormat (str ''unknown ordered tag '' @ dec (unat t))))"

text \<open>The loop of \<open>unescape_null_free\<close>, with the bytes already unescaped.\<close>

fun unescape_from :: "bytes \<Rightarrow> bytes \<Rightarrow> bytes result" where
  "unescape_from out [] = Inl (InvalidFormat (str ''missing terminator''))"
| "unescape_from out (b # bs) =
     (if b = 0 then
        (case bs of [] \<Rightarrow> Inl (InvalidFormat (str ''truncated terminator''))
         | c # cs \<Rightarrow>
             if c = 0 then
               (if cs \<noteq> [] then Inl (InvalidFormat (str ''trailing bytes after terminator''))
                else Inr out)
             else if c = 1 then unescape_from (out @ [0]) cs
             else Inl (InvalidFormat (str ''invalid escape'')))
      else unescape_from (out @ [b]) bs)"

definition unescape_null_free :: "bytes \<Rightarrow> bytes result" where
  "unescape_null_free data = unescape_from [] data"

definition f64_NAN :: "64 word" where
  "f64_NAN = 0x7FF8000000000000"

definition decode_ordered :: "bytes \<Rightarrow> val result" where
  "decode_ordered data = (case data of [] \<Rightarrow> Inl (InvalidFormat (str ''empty ordered value''))
   | tag # payload \<Rightarrow>
     if tag = TAG_NULL then Inr VNull
     else if tag = TAG_BOOL then
       (if payload = [] then Inl (InvalidFormat (str ''bool ordered too short''))
        else Inr (VBool (payload ! 0 \<noteq> 0)))
     else if tag = TAG_INT then
       (if length payload < 8 then Inl (InvalidFormat (str ''int ordered too short''))
        else Inr (VInt (be_u64 (take 8 payload) XOR push_bit 63 1)))
     else if tag = TAG_FLOAT then
       (if length payload < 8 then Inl (InvalidFormat (str ''float ordered too short''))
        else let bits = be_u64 (take 8 payload) in
          if bits = - 1 then Inr (VFloat f64_NAN)
          else if drop_bit 63 bits = 1 then Inr (VFloat (bits XOR push_bit 63 1))
          else Inr (VFloat (NOT bits)))
     else if tag = TAG_STRING then
       bindE (unescape_null_free payload) (\<lambda>raw.
         if utf8_valid raw then Inr (VString raw)
         else Inl (InvalidFormat (str ''ordered string not utf8'')))
     else if tag = TAG_BYTES then
       bindE (unescape_null_free payload) (\<lambda>raw. Inr (VBytes raw))
     else Inl (InvalidFormat (str ''unknown ordered tag '' @ dec (unat tag))))"

section \<open>Lemmas on 64-bit patterns\<close>

lemma flip_top: "(x :: 64 word) XOR push_bit 63 1 = x + 0x8000000000000000"
proof -
  define p :: "64 word" where "p = push_bit 63 1"
  have num: "p = 0x8000000000000000"
    by (simp add: p_def)
  have bp: "bit p n \<longleftrightarrow> n = 63" for n
    by (simp only: p_def bit_push_bit_iff bit_1_iff) auto
  have "x XOR p = x + p"
  proof (cases "bit x 63")
    case False
    then have "x AND p = 0"
      by (intro bit_eqI) (auto simp: bit_and_iff bp)
    then show ?thesis
      by (simp add: disjunctive_add_eq_xor)
  next
    case True
    let ?y = "x XOR p"
    have "?y AND p = 0"
      using True by (intro bit_eqI) (auto simp: bit_and_iff bit_xor_iff bp)
    then have "?y + p = ?y XOR p"
      by (rule disjunctive_add_eq_xor)
    also have "\<dots> = x"
      by (rule bit_eqI) (auto simp: bit_xor_iff)
    finally have "x + p = ?y + (p + p)"
      by (metis add.assoc)
    moreover have "p + p = 0"
      by (simp add: num)
    ultimately show ?thesis by simp
  qed
  then show ?thesis by (simp add: num)
qed

lemma sint_flip: "sint (x :: 64 word) = uint (x + 0x8000000000000000) - 0x8000000000000000"
  by (simp add: sint_uint signed_take_bit_eq_take_bit_shift uint_word_ariths take_bit_eq_mod)

lemma flip_top_order:
  "(x :: 64 word) XOR push_bit 63 1 < y XOR push_bit 63 1 \<longleftrightarrow> sint x < sint y"
  unfolding flip_top by (simp add: sint_flip word_less_def)

lemma flip_top_eq: "(x :: 64 word) XOR push_bit 63 1 = y XOR push_bit 63 1 \<longleftrightarrow> x = y"
  unfolding flip_top by simp

lemma flip_top_flip: "((x :: 64 word) XOR push_bit 63 1) XOR push_bit 63 1 = x"
  by (rule bit_eqI) (auto simp: bit_xor_iff)

lemmas flip_simps [simp] =
  flip_top_order [simplified push_bit_of_1 power_numeral, simplified]
  flip_top_eq [simplified] flip_top_flip [simplified]


lemma word_le_max: "(w :: 64 word) \<noteq> - 1 \<longleftrightarrow> w < - 1"
  by (simp add: less_le)

text \<open>Only the NaN patterns have the maximal key.\<close>

lemma ordered_bits_max [simp]: "ordered_f64_bits v = - 1 \<longleftrightarrow> f64_is_nan v"
proof (cases "f64_is_nan v")
  case True
  then show ?thesis by (simp add: ordered_f64_bits_def)
next
  case False
  have "NOT v \<noteq> - 1" if "f64_sign v"
  proof
    assume "NOT v = - 1"
    then have "v = 0" by (metis bit.compl_eq_compl_iff bit.compl_zero)
    with that show False by (simp add: f64_sign_def)
  qed
  moreover have "v XOR push_bit 63 1 \<noteq> - 1"
  proof
    assume "v XOR push_bit 63 1 = - 1"
    then have "v + 0x8000000000000000 = - 1" by (simp only: flip_top)
    then have "v = 0x7FFFFFFFFFFFFFFF" by (simp add: eq_diff_eq[symmetric])
    with False show False by (simp add: f64_is_nan_def f64_magnitude_def)
  qed
  ultimately show ?thesis
    using False by (simp add: ordered_f64_bits_def)
qed

lemma ordered_bits_nan: "f64_is_nan v \<Longrightarrow> ordered_f64_bits v = - 1"
  by simp

lemma fkey_cmp_bits: "fkey_cmp x y = cmp (ordered_f64_bits x) (ordered_f64_bits y)"
  using word_le_max[of "ordered_f64_bits x"] word_le_max[of "ordered_f64_bits y"]
  by (cases "f64_is_nan x"; cases "f64_is_nan y")
    (auto simp: fkey_cmp_def Let_def cmp_then_def cmp_def ordered_bits_nan)

section \<open>The encoding preserves the order\<close>

lemma escape_less: "a < b \<Longrightarrow> escape_null_free a @ r < escape_null_free b @ s"
proof (induction a arbitrary: b)
  case Nil
  then obtain y ys where "b = y # ys" by (cases b) auto
  then show ?case by (auto simp: word_gt_0)
next
  case (Cons x xs)
  then obtain y ys where b: "b = y # ys" by (cases b) auto
  with Cons show ?case by (auto simp: word_gt_0)
qed

lemma escape_inject: "escape_null_free a = escape_null_free b \<longleftrightarrow> a = b"
  by (metis append_Nil2 escape_less less_irrefl linorder_neqE)

lemma encode_ordered_tag: "\<exists>p. encode_ordered v = type_rank v # p"
  by (cases v) (auto simp: tag_defs)

lemma encode_ordered_nonempty [simp]: "encode_ordered v \<noteq> []"
  using encode_ordered_tag[of v] by auto

lemma value_cmp_rank: "type_rank a \<noteq> type_rank b \<Longrightarrow> value_cmp a b = cmp (type_rank a) (type_rank b)"
  by (cases a; cases b) simp_all

lemma encode_ordered_less:
  "value_cmp a b = CLess \<Longrightarrow> encode_ordered a @ r < encode_ordered b @ s"
proof (cases "type_rank a = type_rank b")
  case False
  moreover assume "value_cmp a b = CLess"
  ultimately have "type_rank a < type_rank b"
    using value_cmp_rank[OF False] by simp
  then show ?thesis
    using encode_ordered_tag[of a] encode_ordered_tag[of b] by auto
next
  case True
  moreover assume "value_cmp a b = CLess"
  ultimately show ?thesis
    by (cases a; cases b) (auto simp: fkey_cmp_bits escape_less lex_append)
qed

lemma encode_ordered_eq: "value_cmp a b = CEqual \<longleftrightarrow> encode_ordered a = encode_ordered b"
proof (cases "type_rank a = type_rank b")
  case False
  then show ?thesis
    using encode_ordered_tag[of a] encode_ordered_tag[of b] by (auto simp: value_cmp_rank)
next
  case True
  then show ?thesis
    by (cases a; cases b) (auto simp: fkey_cmp_bits escape_inject signed_word_eqI)
qed

lemma value_cmp_greater: "value_cmp a b = CGreater \<longleftrightarrow> value_cmp b a = CLess"
  by (cases a; cases b) (auto simp: fkey_cmp_bits)

section \<open>Lengths and decoding\<close>

lemma escaped_len_escape: "escaped_len i (escape_null_free s @ r) = Inr (i + length (escape_null_free s))"
  by (induction s arbitrary: i) simp_all

lemma unescape_escape: "unescape_from out (escape_null_free s) = Inr (out @ s)"
  by (induction s arbitrary: out) simp_all

lemma drop_bit_63: "drop_bit 63 (w :: 64 word) = 1 \<longleftrightarrow> bit w 63"
proof
  assume "drop_bit 63 w = 1"
  then have "bit (drop_bit 63 w) 0" by simp
  then show "bit w 63" by (simp add: bit_drop_bit_eq)
next
  assume b: "bit w 63"
  show "drop_bit 63 w = 1"
    by (rule bit_eqI) (use b in \<open>auto simp: bit_drop_bit_eq bit_1_iff dest: bit_imp_le_length\<close>)
qed

lemma bit_flip_top: "bit ((w :: 64 word) XOR push_bit 63 1) 63 \<longleftrightarrow> \<not> bit w 63"
  by (simp add: bit_xor_iff bit_push_bit_iff)

lemma f64_sign_bit: "f64_sign f \<longleftrightarrow> bit f 63"
  by (simp add: f64_sign_def drop_bit_63)

lemma ordered_bits_cases:
  "\<not> f64_is_nan v \<Longrightarrow> ordered_f64_bits v = (if bit v 63 then NOT v else v XOR push_bit 63 1)"
  by (simp add: ordered_f64_bits_def f64_sign_bit)

lemma ordered_bits_sign: "\<not> f64_is_nan v \<Longrightarrow> bit (ordered_f64_bits v) 63 \<longleftrightarrow> \<not> bit v 63"
  using bit_flip_top[of v] by (simp add: ordered_bits_cases bit_not_iff)

lemma ordered_bits_inj:
  assumes "\<not> f64_is_nan a" and "\<not> f64_is_nan b"
  shows "ordered_f64_bits a = ordered_f64_bits b \<longleftrightarrow> a = b"
proof
  assume e: "ordered_f64_bits a = ordered_f64_bits b"
  then have "bit a 63 = bit b 63"
    using ordered_bits_sign[OF assms(1)] ordered_bits_sign[OF assms(2)] by simp
  with e assms show "a = b"
    by (auto simp: ordered_bits_cases split: if_splits)
qed simp

text \<open>The value a decoded key denotes: every NaN becomes the canonical one.\<close>

fun canonical :: "val \<Rightarrow> val" where
  "canonical (VFloat f) = VFloat (if f64_is_nan f then f64_NAN else f)"
| "canonical v = v"

lemma decode_ordered_float: "decode_ordered (TAG_FLOAT # u64_be (ordered_f64_bits f)) = Inr (canonical (VFloat f))"
proof (cases "f64_is_nan f")
  case True
  then show ?thesis
    by (simp add: decode_ordered_def tag_defs ordered_bits_nan)
next
  case False
  then have m: "ordered_f64_bits f \<noteq> - 1" by simp
  have r: "(if drop_bit 63 (ordered_f64_bits f) = 1 then ordered_f64_bits f XOR push_bit 63 1
            else NOT (ordered_f64_bits f)) = f"
    unfolding drop_bit_63 ordered_bits_sign[OF False]
    using False by (simp add: ordered_bits_cases)
  have "decode_ordered (TAG_FLOAT # u64_be (ordered_f64_bits f)) =
     (if drop_bit 63 (ordered_f64_bits f) = 1 then Inr (VFloat (ordered_f64_bits f XOR push_bit 63 1))
      else Inr (VFloat (NOT (ordered_f64_bits f))))"
    using m by (simp add: decode_ordered_def tag_defs Let_def)
  also have "\<dots> = Inr (VFloat f)"
    using r by (cases "drop_bit 63 (ordered_f64_bits f) = 1") (simp_all only: if_True if_False refl)
  finally show ?thesis using False by simp
qed

fun val_utf8 :: "val \<Rightarrow> bool" where
  "val_utf8 (VString s) = utf8_valid s"
| "val_utf8 _ = True"

lemma value_cmp_encoded: "value_cmp a b = cmp (encode_ordered a) (encode_ordered b)"
proof (cases "value_cmp a b")
  case CLess
  then show ?thesis using encode_ordered_less[of a b "[]" "[]"] by (simp add: cmp_def)
next
  case CEqual
  then show ?thesis using encode_ordered_eq[of a b] by (simp add: cmp_def)
next
  case CGreater
  then show ?thesis
    using encode_ordered_less[of b a "[]" "[]"] value_cmp_greater[of a b] by (metis append_Nil2 cmp_simps(3))
qed

text \<open>
  C32: the byte order of the encodings is exactly the order of the values: for any
  two values, of the same type or not, \<open>value_cmp\<close> gives what comparing the encoded bytes
  gives, in both directions and with equality.
\<close>

theorem ordered_encoding_order: "value_cmp a b = cmp (encode_ordered a) (encode_ordered b)"
  by (rule value_cmp_encoded)

text \<open>
  The encoding is self-delimiting for the order: two encodings followed by
  anything (the entity id, the further components of a composite key) compare as the values do
  whenever these differ, so no separator is needed in index keys.
\<close>

theorem ordered_encoding_suffix:
  assumes "value_cmp a b = CLess"
  shows "encode_ordered a @ r < encode_ordered b @ s"
  using assms by (rule encode_ordered_less)

theorem ordered_encoding_suffix_witness:
  "encode_ordered (VString (str ''a'')) @ [255] < encode_ordered (VString (str ''ab'')) @ []"
  by (rule ordered_encoding_suffix) (simp add: str_def)

text \<open>
  The length parser finds the end of an encoded value whatever follows it,
  so the entity id of an index key is located without ambiguity.
\<close>

theorem ordered_len_delimits: "ordered_value_len (encode_ordered v @ r) = Inr (length (encode_ordered v))"
  by (cases v) (simp_all add: ordered_value_len_def tag_defs escaped_len_escape)

text \<open>
  decoding an order-preserving encoding gives the value back, except that every
  NaN comes back as the canonical NaN.
\<close>

theorem ordered_roundtrip:
  assumes "val_utf8 v"
  shows "decode_ordered (encode_ordered v) = Inr (canonical v)"
proof (cases v)
  case (VFloat f)
  then show ?thesis using decode_ordered_float[of f] by simp
next
  case (VInt i)
  then show ?thesis by (simp add: decode_ordered_def tag_defs)
qed (use assms in \<open>simp_all add: decode_ordered_def tag_defs unescape_null_free_def unescape_escape\<close>)

theorem ordered_roundtrip_witness:
  "decode_ordered (encode_ordered (VBytes [0, 1, 0])) = Inr (canonical (VBytes [0, 1, 0]))"
  by (rule ordered_roundtrip) simp

text \<open>
  The numeric reading of a pattern: sign and magnitude. For finite and infinite floats the
  magnitude orders as the absolute value does.
\<close>

definition f64_key :: "64 word \<Rightarrow> int" where
  "f64_key f = (if f64_sign f then - int (unat (f64_magnitude f)) else int (unat (f64_magnitude f)))"

lemma unat_magnitude: "unat (f64_magnitude f) = unat f mod 2 ^ 63"
proof -
  have "(mask 63 :: 64 word) = 0x7FFFFFFFFFFFFFFF"
    by (simp add: mask_eq_exp_minus_1)
  then have "f64_magnitude f = take_bit 63 f"
    unfolding f64_magnitude_def take_bit_eq_mask by simp
  then have "unat (f64_magnitude f) = take_bit 63 (unat f)"
    by (simp only: unsigned_take_bit_eq)
  then show ?thesis by (simp only: take_bit_eq_mod)
qed

lemma top_div:
  assumes "(n :: nat) < 2 ^ 64"
  shows "n div 2 ^ 63 = 1 \<longleftrightarrow> 2 ^ 63 \<le> n" and "2 ^ 63 \<le> n \<Longrightarrow> n mod 2 ^ 63 = n - 2 ^ 63"
proof -
  have d: "n div 2 ^ 63 = 1" if "2 ^ 63 \<le> n"
    using that assms by (intro div_nat_eqI) simp_all
  have "n div 2 ^ 63 = 0" if "n < 2 ^ 63"
    using that by (rule div_less)
  with d show "n div 2 ^ 63 = 1 \<longleftrightarrow> 2 ^ 63 \<le> n"
    by (metis not_less zero_neq_one)
  show "n mod 2 ^ 63 = n - 2 ^ 63" if "2 ^ 63 \<le> n"
    using d[OF that] by (simp only: minus_div_mult_eq_mod[symmetric] mult_1)
qed

lemma top_sub:
  assumes "2 ^ 63 \<le> n" and "n < 18446744073709551616"
  shows "int (2 ^ 64 - 1 - n) = 2 ^ 63 - 1 + - int (n - 2 ^ 63)"
proof -
  obtain m where n: "n = 9223372036854775808 + m"
    using assms(1) le_Suc_ex by auto
  have "m \<le> 9223372036854775807"
    using assms(2) n by simp
  then have "int (9223372036854775807 - m) = 9223372036854775807 - int m"
    by (simp add: of_nat_diff)
  then show ?thesis using n by simp
qed

lemma f64_sign_unat: "f64_sign f \<longleftrightarrow> 2 ^ 63 \<le> unat f"
proof -
  have "f64_sign f \<longleftrightarrow> unat (drop_bit 63 f) = 1"
    by (simp only: f64_sign_def word_unat_eq_iff unat_1)
  also have "unat (drop_bit 63 f) = unat f div 2 ^ 63"
    by (simp only: unat_drop_bit_eq) (simp only: drop_bit_eq_div)
  also have "unat f div 2 ^ 63 = 1 \<longleftrightarrow> 2 ^ 63 \<le> unat f"
    by (rule top_div) (simp add: less_imp_le)
  finally show ?thesis .
qed

lemma unat_not64: "unat (NOT (f :: 64 word)) = 2 ^ 64 - 1 - unat f"
proof -
  have "NOT f = - 1 - f"
    by (simp add: not_eq_complement)
  moreover have "unat (- 1 :: 64 word) = 2 ^ 64 - 1"
    by (simp add: unsigned_minus_1_eq_mask mask_eq_exp_minus_1)
  ultimately show ?thesis
    using u64_bound[of f] by (simp add: unat_sub_if' less_Suc_eq_le[symmetric] del: u64_bound)
qed

text \<open>
  on floats other than NaN the comparison is the numeric order of sign and
  magnitude, with the negative zero just below the positive one.
\<close>

theorem float_order:
  assumes "\<not> f64_is_nan a" and "\<not> f64_is_nan b"
  shows "value_cmp (VFloat a) (VFloat b) = CLess \<longleftrightarrow>
     f64_key a < f64_key b \<or> f64_key a = f64_key b \<and> f64_sign a \<and> \<not> f64_sign b"
proof -
  have k: "int (unat (ordered_f64_bits v)) =
      (if f64_sign v then 2 ^ 63 - 1 + f64_key v else 2 ^ 63 + f64_key v)" if "\<not> f64_is_nan v" for v
  proof (cases "f64_sign v")
    case True
    then have b: "2 ^ 63 \<le> unat v"
      by (simp add: f64_sign_unat)
    then have "unat (f64_magnitude v) = unat v - 2 ^ 63"
      using top_div(2)[of "unat v"] by (simp add: unat_magnitude)
    moreover have "unat (ordered_f64_bits v) = 2 ^ 64 - 1 - unat v"
      using that True by (simp add: ordered_f64_bits_def unat_not64)
    ultimately show ?thesis
      using True top_sub[of "unat v"] b u64_bound[of v] by (simp only: f64_key_def if_True)
  next
    case False
    then have b: "unat v < 2 ^ 63"
      by (simp add: f64_sign_unat)
    then have "unat (f64_magnitude v) = unat v"
      by (simp add: unat_magnitude)
    moreover have "unat (v + 0x8000000000000000) = unat v + 2 ^ 63"
      using b by (simp add: unat_word_ariths)
    then have "unat (ordered_f64_bits v) = unat v + 2 ^ 63"
      using that False by (simp only: ordered_f64_bits_def flip_top if_False)
    ultimately show ?thesis
      using False by (simp add: f64_key_def)
  qed
  have p: "0 \<le> f64_key v" if "\<not> f64_sign v" for v
    using that by (simp add: f64_key_def)
  have q: "f64_key v \<le> 0" if "f64_sign v" for v
    using that by (simp add: f64_key_def)
  have "value_cmp (VFloat a) (VFloat b) = CLess \<longleftrightarrow>
      int (unat (ordered_f64_bits a)) < int (unat (ordered_f64_bits b))"
    by (simp only: value_cmp.simps fkey_cmp_bits cmp_simps word_less_nat_alt of_nat_less_iff)
  then show ?thesis
    using k[OF assms(1)] k[OF assms(2)] p[of a] p[of b] q[of a] q[of b]
    by (cases "f64_sign a"; cases "f64_sign b") auto
qed

theorem float_order_witness:
  "value_cmp (VFloat 0x8000000000000000) (VFloat 0) = CLess \<longleftrightarrow>
     f64_key 0x8000000000000000 < f64_key 0 \<or>
     f64_key 0x8000000000000000 = f64_key 0 \<and> f64_sign 0x8000000000000000 \<and> \<not> f64_sign 0"
  by (rule float_order) (simp_all add: f64_is_nan_def f64_magnitude_def)

text \<open>
  the equality that decides whether an index entry has to move
  (\<^verbatim>\<open>PartialEq\<close> of values) disagrees with the equality of index keys in exactly two cases: a NaN
  against a NaN, equal as keys but never equal as values, and the two zeros, equal as values but
  with different keys.
\<close>

theorem equality_against_order:
  "val_eq a b \<noteq> (encode_ordered a = encode_ordered b) \<longleftrightarrow>
     (\<exists>x y. a = VFloat x \<and> b = VFloat y \<and>
        (f64_is_nan x \<and> f64_is_nan y \<or> x \<noteq> y \<and> f64_magnitude x = 0 \<and> f64_magnitude y = 0))"
proof (cases "\<exists>x y. a = VFloat x \<and> b = VFloat y")
  case True
  then obtain x y where v: "a = VFloat x" "b = VFloat y" by blast
  have z: "\<not> f64_is_nan u" if "f64_magnitude u = 0" for u
    using that by (simp add: f64_is_nan_def)
  have n: "ordered_f64_bits u \<noteq> - 1 \<and> - 1 \<noteq> ordered_f64_bits u" if "\<not> f64_is_nan u" for u
    using that by (metis ordered_bits_max)
  show ?thesis
  proof (cases "f64_is_nan x \<or> f64_is_nan y")
    case True
    then show ?thesis
      using v n z by (cases "f64_is_nan x"; cases "f64_is_nan y")
        (auto simp: f64_eq_def ordered_bits_nan)
  next
    case False
    then show ?thesis
      using v by (auto simp: f64_eq_def ordered_bits_inj)
  qed
next
  case False
  then have "val_eq a b = (encode_ordered a = encode_ordered b)"
    by (cases a; cases b) (auto simp: tag_defs escape_inject)
  with False show ?thesis by blast
qed

end
