(* ===== verification/Keycodec.thy ===== *)
theory Keycodec
  imports Ordering
begin

text \<open>
  The binary keys of the entity layer (\<^verbatim>\<open>src/keycodec.rs\<close>): entity-field keys, index keys,
  composite index keys, their prefixes, and the successor of a prefix that closes a scan range.
\<close>

definition ENTITY_TAG :: byte where "ENTITY_TAG = 0x45"
definition INDEX_TAG :: byte where "INDEX_TAG = 0x49"
definition COMPOSITE_FIELD_MARKER :: "32 word" where "COMPOSITE_FIELD_MARKER = 0xFFFFFFFF"

text \<open>\<^verbatim>\<open>&key[a..b]\<close>, for \<open>a \<le> b \<le> length key\<close> (the code checks the length before every slice).\<close>

definition slice :: "nat \<Rightarrow> nat \<Rightarrow> bytes \<Rightarrow> bytes" where
  "slice a b key = take (b - a) (drop a key)"

section \<open>Index keys\<close>

definition encode_index_key :: "32 word \<Rightarrow> 32 word \<Rightarrow> bytes \<Rightarrow> bytes \<Rightarrow> bytes" where
  "encode_index_key collection_id field_id encoded_value entity_id =
     [INDEX_TAG] @ u32_le collection_id @ u32_le field_id @ encoded_value
       @ u32_le (as_u32 (length entity_id)) @ entity_id"

definition decode_index_key :: "bytes \<Rightarrow> (32 word \<times> 32 word \<times> bytes) option" where
  "decode_index_key key =
     (if length key < 1 + 4 + 4 + 4 \<or> key ! 0 \<noteq> INDEX_TAG then None
      else let off = 1;
               collection_id = le_u32 (slice off (off + 4) key);
               off = off + 4;
               field_id = le_u32 (slice off (off + 4) key);
               off = off + 4 in
      (case ordered_value_len (drop off key) of
         Inl _ \<Rightarrow> None
       | Inr value_len \<Rightarrow>
           let off = off + value_len in
           if off + 4 > length key then None
           else let entity_len = unat (le_u32 (slice off (off + 4) key));
                    off = off + 4 in
             if off + entity_len > length key then None
             else Some (collection_id, field_id, slice off (off + entity_len) key)))"

definition index_field_prefix :: "32 word \<Rightarrow> 32 word \<Rightarrow> bytes" where
  "index_field_prefix collection_id field_id = [INDEX_TAG] @ u32_le collection_id @ u32_le field_id"

definition index_value_prefix :: "32 word \<Rightarrow> 32 word \<Rightarrow> bytes \<Rightarrow> bytes" where
  "index_value_prefix collection_id field_id encoded_value =
     index_field_prefix collection_id field_id @ encoded_value"

definition composite_prefix :: "32 word \<Rightarrow> 32 word \<Rightarrow> bytes" where
  "composite_prefix collection_id index_id =
     [INDEX_TAG] @ u32_le collection_id @ u32_le COMPOSITE_FIELD_MARKER @ u32_le index_id"

definition encode_composite_index_key :: "32 word \<Rightarrow> 32 word \<Rightarrow> bytes list \<Rightarrow> bytes \<Rightarrow> bytes" where
  "encode_composite_index_key collection_id index_id components entity_id =
     composite_prefix collection_id index_id @ concat components
       @ u32_le (as_u32 (length entity_id)) @ entity_id"

section \<open>Entity keys\<close>

definition encode_entity_key :: "32 word \<Rightarrow> bytes \<Rightarrow> 32 word \<Rightarrow> bytes" where
  "encode_entity_key collection_id entity_id field_id =
     [ENTITY_TAG] @ u32_le collection_id @ u32_le (as_u32 (length entity_id)) @ entity_id @ u32_le field_id"

definition decode_entity_key :: "bytes \<Rightarrow> (32 word \<times> bytes \<times> 32 word) option" where
  "decode_entity_key key =
     (if length key < 1 + 4 + 4 + 4 \<or> key ! 0 \<noteq> ENTITY_TAG then None
      else let off = 1;
               collection_id = le_u32 (slice off (off + 4) key);
               off = off + 4;
               entity_len = unat (le_u32 (slice off (off + 4) key));
               off = off + 4 in
        if off + entity_len + 4 > length key then None
        else let entity_id = slice off (off + entity_len) key;
                 off = off + entity_len;
                 field_id = le_u32 (slice off (off + 4) key) in
          Some (collection_id, entity_id, field_id))"

definition decode_entity_id :: "bytes \<Rightarrow> bytes result" where
  "decode_entity_id bs =
     (if utf8_valid bs then Inr bs else Inl (InvalidFormat (str ''entity id is not valid utf8'')))"

definition collection_prefix :: "32 word \<Rightarrow> bytes" where
  "collection_prefix collection_id = [ENTITY_TAG] @ u32_le collection_id"

definition entity_prefix :: "32 word \<Rightarrow> bytes \<Rightarrow> bytes" where
  "entity_prefix collection_id entity_id =
     [ENTITY_TAG] @ u32_le collection_id @ u32_le (as_u32 (length entity_id)) @ entity_id"

section \<open>The successor of a prefix\<close>

text \<open>The loop from the last byte down: \<open>i\<close> bytes remain to be looked at.\<close>

fun successor_loop :: "nat \<Rightarrow> bytes \<Rightarrow> bytes option" where
  "successor_loop 0 p = None"
| "successor_loop (Suc i) p =
     (if p ! i \<noteq> 0xFF then Some (take i p @ [p ! i + 1]) else successor_loop i p)"

definition successor :: "bytes \<Rightarrow> bytes option" where
  "successor p = successor_loop (length p) p"

definition entity_range :: "32 word \<Rightarrow> bytes \<Rightarrow> bytes \<times> bytes option" where
  "entity_range collection_id entity_id =
     (let start = entity_prefix collection_id entity_id in (start, successor start))"

text \<open>A key lies in the half-open range of a scan (\<^verbatim>\<open>None\<close> leaves an end open).\<close>

definition in_range :: "bytes option \<Rightarrow> bytes option \<Rightarrow> bytes \<Rightarrow> bool" where
  "in_range start stop k \<longleftrightarrow>
     (case start of None \<Rightarrow> True | Some s \<Rightarrow> s \<le> k) \<and> (case stop of None \<Rightarrow> True | Some e \<Rightarrow> k < e)"

section \<open>Lemmas\<close>

lemma successor_loop_append:
  "i \<le> length p \<Longrightarrow> successor_loop i (p @ q) = successor_loop i p"
  by (induction i) (auto simp: nth_append)

lemma successor_Nil [simp]: "successor [] = None"
  by (simp add: successor_def)

lemma successor_snoc [simp]:
  "successor (p @ [b]) = (if b \<noteq> 0xFF then Some (p @ [b + 1]) else successor p)"
  by (simp add: successor_def successor_loop_append)

lemma byte_succ: "(b :: byte) \<noteq> 0xFF \<Longrightarrow> x < b + 1 \<longleftrightarrow> x \<le> b"
proof -
  assume "b \<noteq> 0xFF"
  then have "unat b \<noteq> 255" by (auto simp: word_unat_eq_iff)
  then have "unat b + 1 < 256" using byte_bound[of b] by linarith
  then have "unat (b + 1) = unat b + 1" by (simp add: unat_word_ariths)
  then show ?thesis by (auto simp: word_less_nat_alt word_le_nat_alt)
qed

lemma byte_max: "(b :: byte) \<le> 0xFF"
proof -
  have "unat b \<le> 255" using byte_bound[of b] by (simp del: byte_bound)
  then show ?thesis by (simp add: word_le_nat_alt)
qed

text \<open>Appending to a string does not change its order against strings it is no prefix of.\<close>

lemma lex_not_prefix:
  fixes p :: "'a::linorder list"
  assumes "\<not> prefix p k"
  shows "p @ u < k \<longleftrightarrow> p < k" and "k < p @ u \<longleftrightarrow> k < p"
  using assms
proof (induction p arbitrary: k)
  case Nil
  {
    case 1
    then show ?case by simp
  next
    case 2
    then show ?case by simp
  }
next
  case (Cons a p)
  {
    case 1
    then show ?case using Cons by (cases k) auto
  next
    case 2
    then show ?case using Cons by (cases k) auto
  }
qed

lemma singleton_le: "[b] \<le> x # r \<longleftrightarrow> (b :: byte) \<le> x"
  by (cases r) (auto simp: order.order_iff_strict)

text \<open>The keys from a prefix up to its successor are exactly those with the prefix.\<close>

lemma prefix_range: "in_range (Some p) (successor p) k \<longleftrightarrow> prefix p k"
proof (induction p rule: rev_induct)
  case Nil
  then show ?case by (simp add: in_range_def)
next
  case (snoc b p)
  show ?case
  proof (cases "prefix p k")
    case False
    then have "p @ [b] \<le> k \<longleftrightarrow> p \<le> k" "k < p @ [b + 1] \<longleftrightarrow> k < p"
      using lex_not_prefix[OF False, of "[b]"] lex_not_prefix[OF False, of "[b + 1]"]
      by (auto simp: not_less[symmetric])
    with False snoc show ?thesis
      by (auto simp: in_range_def prefix_snoc dest: append_prefixD)
  next
    case True
    then obtain q where q: "k = p @ q" by (auto simp: prefix_def)
    show ?thesis
    proof (cases q)
      case Nil
      then show ?thesis by (simp add: q in_range_def lex_append_same(2)[of p "[b]" "[]", simplified] del: lex_append_same)
    next
      case (Cons x r)
      have s: "in_range (Some p) (successor p) k" using snoc True by simp
      show ?thesis
        using s byte_max[of x] byte_succ[of b x]
        by (cases "b = 0xFF") (auto simp: in_range_def q Cons singleton_le split: option.splits)
    qed
  qed
qed


lemma successor_None: "successor p = None \<longleftrightarrow> (\<forall>b \<in> set p. b = 0xFF)"
  by (induction p rule: rev_induct) auto

lemma successor_Cons: "a \<noteq> 0xFF \<Longrightarrow> \<exists>s. successor (a # p) = Some s"
  using successor_None[of "a # p"] by (cases "successor (a # p)") auto

lemma slice_at: "key = p @ q @ r \<Longrightarrow> i = length p \<Longrightarrow> j = i + length q \<Longrightarrow> slice i j key = q"
  by (simp add: slice_def)

lemmas key_defs = encode_entity_key_def entity_prefix_def collection_prefix_def
  encode_index_key_def index_field_prefix_def index_value_prefix_def composite_prefix_def
  encode_composite_index_key_def ENTITY_TAG_def INDEX_TAG_def

lemma entity_key_prefix:
  "encode_entity_key c e f = entity_prefix c e @ u32_le f"
  "entity_prefix c e = collection_prefix c @ u32_le (as_u32 (length e)) @ e"
  by (simp_all add: key_defs)

lemma eight [simp]: "take 4 (u32_le a) = u32_le a" "drop 4 (u32_le a) = []"
  by simp_all

text \<open>
  An entity key decodes to the collection, the entity id and the field it was
  made from, whatever bytes the id contains.
\<close>

theorem entity_key_roundtrip:
  assumes "length e < 2 ^ 32"
  shows "decode_entity_key (encode_entity_key c e f) = Some (c, e, f)"
proof -
  let ?k = "encode_entity_key c e f" and ?n = "u32_le (as_u32 (length e))"
  have "slice 1 5 ?k = u32_le c"
    by (rule slice_at[of _ "[ENTITY_TAG]" _ "?n @ e @ u32_le f"]) (simp_all add: encode_entity_key_def)
  moreover have "slice 5 9 ?k = ?n"
    by (rule slice_at[of _ "[ENTITY_TAG] @ u32_le c" _ "e @ u32_le f"]) (simp_all add: encode_entity_key_def)
  moreover have "slice 9 (9 + length e) ?k = e"
    by (rule slice_at[of _ "[ENTITY_TAG] @ u32_le c @ ?n" _ "u32_le f"]) (simp_all add: encode_entity_key_def)
  moreover have "slice (9 + length e) (9 + length e + 4) ?k = u32_le f"
    by (rule slice_at[of _ "[ENTITY_TAG] @ u32_le c @ ?n @ e" _ "[]"]) (simp_all add: encode_entity_key_def)
  moreover have "length ?k = 13 + length e" "?k ! 0 = ENTITY_TAG"
    by (simp_all add: encode_entity_key_def)
  ultimately show ?thesis
    using assms by (simp add: decode_entity_key_def Let_def)
qed

theorem entity_key_roundtrip_witness:
  "decode_entity_key (encode_entity_key 7 [0, 255] 9) = Some (7, [0, 255], 9)"
  by (rule entity_key_roundtrip) simp

text \<open>
  An index key decodes to the collection, the field and the entity id it was made
  from: the order-preserving value between them delimits itself.
\<close>

theorem index_key_roundtrip:
  assumes "length e < 2 ^ 32"
  shows "decode_index_key (encode_index_key c f (encode_ordered v) e) = Some (c, f, e)"
proof -
  let ?v = "encode_ordered v" and ?n = "u32_le (as_u32 (length e))"
  let ?k = "encode_index_key c f ?v e"
  have "ordered_value_len (drop 9 ?k) = Inr (length ?v)"
    using ordered_len_delimits[of v "?n @ e"] by (simp add: encode_index_key_def)
  moreover have "slice 1 5 ?k = u32_le c"
    by (rule slice_at[of _ "[INDEX_TAG]" _ "u32_le f @ ?v @ ?n @ e"]) (simp_all add: encode_index_key_def)
  moreover have "slice 5 9 ?k = u32_le f"
    by (rule slice_at[of _ "[INDEX_TAG] @ u32_le c" _ "?v @ ?n @ e"]) (simp_all add: encode_index_key_def)
  moreover have "slice (9 + length ?v) (9 + length ?v + 4) ?k = ?n"
    by (rule slice_at[of _ "[INDEX_TAG] @ u32_le c @ u32_le f @ ?v" _ e]) (simp_all add: encode_index_key_def)
  moreover have "slice (9 + length ?v + 4) (9 + length ?v + 4 + length e) ?k = e"
    by (rule slice_at[of _ "[INDEX_TAG] @ u32_le c @ u32_le f @ ?v @ ?n" _ "[]"])
      (simp_all add: encode_index_key_def)
  moreover have "length ?k = 13 + length ?v + length e" "?k ! 0 = INDEX_TAG" "0 < length ?v"
    by (simp_all add: encode_index_key_def)
  ultimately show ?thesis
    using assms by (simp add: decode_index_key_def Let_def)
qed

theorem index_key_roundtrip_witness:
  "decode_index_key (encode_index_key 1 2 (encode_ordered (VString [0])) [5]) = Some (1, 2, [5])"
  by (rule index_key_roundtrip) simp

text \<open>Length-prefixed components are read the same way by any two strings that agree.\<close>

lemma len_prefix_inject:
  assumes "length a < 2 ^ 32" and "length b < 2 ^ 32"
  shows "u32_le (as_u32 (length a)) @ a @ r = u32_le (as_u32 (length b)) @ b @ s \<longleftrightarrow> a = b \<and> r = s"
proof
  assume e: "u32_le (as_u32 (length a)) @ a @ r = u32_le (as_u32 (length b)) @ b @ s"
  then have "as_u32 (length a) = as_u32 (length b)" by simp
  then have "length a = length b" using assms by (metis unat_as_u32)
  with e show "a = b \<and> r = s" by simp
qed simp

lemma entity_prefix_key:
  assumes "length e < 2 ^ 32" and "length e' < 2 ^ 32"
  shows "prefix (entity_prefix c e) (encode_entity_key c' e' f) \<longleftrightarrow> c' = c \<and> e' = e"
proof -
  have "prefix (entity_prefix c e) (encode_entity_key c' e' f) \<longleftrightarrow>
      (\<exists>z. u32_le c' = u32_le c \<and>
         u32_le (as_u32 (length e')) @ e' @ u32_le f = u32_le (as_u32 (length e)) @ e @ z)"
    by (simp add: prefix_def key_defs)
  also have "\<dots> \<longleftrightarrow> c' = c \<and> e' = e"
    using len_prefix_inject[OF assms(2,1)] by simp
  finally show ?thesis .
qed

text \<open>
  C33: the scan range of an entity holds its own field keys and no field key of any other
  entity, even where one id is a prefix of the other.
\<close>

theorem entity_range_exact:
  assumes "length e < 2 ^ 32" and "length e' < 2 ^ 32"
  shows "in_range (Some (fst (entity_range c e))) (snd (entity_range c e)) (encode_entity_key c' e' f)
     \<longleftrightarrow> c' = c \<and> e' = e"
  using entity_prefix_key[OF assms] by (simp add: entity_range_def Let_def prefix_range)

theorem entity_range_exact_witness:
  "in_range (Some (fst (entity_range 1 [97]))) (snd (entity_range 1 [97])) (encode_entity_key 1 [97, 98] 0)
     \<longleftrightarrow> (1 :: 32 word) = 1 \<and> [97, 98] = [97 :: byte]"
  by (rule entity_range_exact) simp_all

lemma collection_range_exact:
  "in_range (Some (collection_prefix c)) (successor (collection_prefix c)) (encode_entity_key c' e f)
     \<longleftrightarrow> c' = c"
  by (auto simp: prefix_range prefix_def key_defs)

text \<open>The key spaces of entities, single-field indexes and composite indexes are disjoint.\<close>

lemma entity_not_index [simp]:
  "encode_entity_key c e f \<noteq> encode_index_key c' f' v e'"
  "encode_entity_key c e f \<noteq> encode_composite_index_key c' i vs e'"
  by (simp_all add: key_defs)

lemma index_not_composite:
  "f \<noteq> COMPOSITE_FIELD_MARKER \<Longrightarrow>
     encode_index_key c f v e \<noteq> encode_composite_index_key c' i vs e'"
  by (simp add: key_defs)

lemma decode_entity_key_index [simp]:
  "decode_entity_key (encode_index_key c f v e) = None"
  "decode_entity_key (encode_composite_index_key c i vs e) = None"
  by (simp_all add: decode_entity_key_def key_defs)

end
