(* ===== verification/Memtable.thy ===== *)
theory Memtable
  imports Keycodec
begin

text \<open>
  The in-memory table (\<^verbatim>\<open>src/memtable.rs\<close>): a byte-sorted map from keys to entries, with the
  estimated size that triggers a flush. An entry that is \<^verbatim>\<open>None\<close> is a tombstone.
\<close>

type_synonym entry = "bytes option"
type_synonym item = "bytes \<times> entry"

record memtable =
  mt_map :: "item list"
  mt_size_bytes :: nat

definition memtable_new :: memtable where
  "memtable_new = \<lparr>mt_map = [], mt_size_bytes = 0\<rparr>"

definition entry_len :: "entry \<Rightarrow> nat" where
  "entry_len v = (case v of None \<Rightarrow> 0 | Some b \<Rightarrow> length b)"

text \<open>
  The sizes are \<^verbatim>\<open>usize\<close> values that the invariant below bounds by the memory in use; the
  subtraction is exact by \<open>mt_size_covers\<close>.
\<close>

definition mt_put :: "bytes \<Rightarrow> entry \<Rightarrow> memtable \<Rightarrow> memtable" where
  "mt_put key v m =
     (let size = (case map_of (mt_map m) key of
                    None \<Rightarrow> mt_size_bytes m
                  | Some old \<Rightarrow> mt_size_bytes m - (entry_len old + length key)) in
      m\<lparr>mt_map := bt_insert key v (mt_map m), mt_size_bytes := size + (entry_len v + length key)\<rparr>)"

definition mt_get :: "memtable \<Rightarrow> bytes \<Rightarrow> entry option" where
  "mt_get m key = map_of (mt_map m) key"

definition mt_is_empty :: "memtable \<Rightarrow> bool" where
  "mt_is_empty m \<longleftrightarrow> mt_map m = []"

definition mt_len :: "memtable \<Rightarrow> nat" where
  "mt_len m = length (mt_map m)"

text \<open>
  \<^verbatim>\<open>BTreeMap::range\<close> with an inclusive or open start and an exclusive or open end: it panics when
  the start is above the end.
\<close>

definition mt_range :: "memtable \<Rightarrow> bytes option \<Rightarrow> bytes option \<Rightarrow> item list result" where
  "mt_range m start stop =
     (case (start, stop) of
        (Some s, Some e) \<Rightarrow>
          if e < s then Inl (Panic (str ''range start is greater than range end in BTreeMap''))
          else Inr (filter (\<lambda>(k, _). in_range start stop k) (mt_map m))
      | _ \<Rightarrow> Inr (filter (\<lambda>(k, _). in_range start stop k) (mt_map m)))"

definition mt_iter :: "memtable \<Rightarrow> item list" where
  "mt_iter m = mt_map m"

text \<open>The invariant: sorted keys, and the size is the sum of the key and value lengths.\<close>

definition item_size :: "item \<Rightarrow> nat" where
  "item_size kv = entry_len (snd kv) + length (fst kv)"

definition mt_inv :: "memtable \<Rightarrow> bool" where
  "mt_inv m \<longleftrightarrow> ssorted (map fst (mt_map m)) \<and> mt_size_bytes m = sum_list (map item_size (mt_map m))"

lemma size_bt_insert:
  assumes "ssorted (map fst m)"
  shows "sum_list (map item_size (bt_insert k v m)) + (case map_of m k of None \<Rightarrow> 0 | Some old \<Rightarrow> item_size (k, old))
       = sum_list (map item_size m) + item_size (k, v)"
  using assms
proof (induction m)
  case Nil
  then show ?case by simp
next
  case (Cons p m)
  obtain a b where p: "p = (a, b)" by (cases p)
  consider "k < a" | "k = a" | "a < k" by fastforce
  then show ?case
  proof cases
    case 1
    then have "map_of m k = None"
      using Cons.prems p by (intro map_of_None_less) (auto dest: less_trans)
    with 1 p show ?thesis by auto
  next
    case 2
    with p show ?thesis by simp
  next
    case 3
    with Cons p show ?thesis by auto
  qed
qed

lemma map_of_size: "map_of m k = Some old \<Longrightarrow> item_size (k, old) \<le> sum_list (map item_size m)"
  by (induction m) (auto split: if_splits)

lemma mt_inv_new [simp]: "mt_inv memtable_new"
  by (simp add: mt_inv_def memtable_new_def)

lemma mt_get_new [simp]: "mt_get memtable_new = Map.empty"
  by (simp add: mt_get_def memtable_new_def fun_eq_iff)

lemma mt_put_simps [simp]:
  assumes "mt_inv m"
  shows "mt_inv (mt_put k v m)" and "mt_get (mt_put k v m) = (mt_get m)(k \<mapsto> v)"
proof -
  have s: "ssorted (map fst (mt_map m))" and z: "mt_size_bytes m = sum_list (map item_size (mt_map m))"
    using assms by (auto simp: mt_inv_def)
  show "mt_inv (mt_put k v m)"
    using s z size_bt_insert[OF s, of k v] map_of_size[of "mt_map m" k]
    by (auto simp: mt_inv_def mt_put_def Let_def item_size_def split: option.splits)
  show "mt_get (mt_put k v m) = (mt_get m)(k \<mapsto> v)"
    using s by (auto simp: mt_get_def mt_put_def Let_def fun_eq_iff)
qed

text \<open>
  writing an entry updates the table as a map at that key only, keeps the keys sorted
  and keeps the size exact; the subtraction of the old entry's size cannot underflow.
\<close>

theorem memtable_put:
  assumes "mt_inv m"
  shows "mt_inv (mt_put k v m) \<and> mt_get (mt_put k v m) = (mt_get m)(k \<mapsto> v) \<and>
     (\<forall>old. mt_get m k = Some old \<longrightarrow> entry_len old + length k \<le> mt_size_bytes m)"
  using assms mt_put_simps[OF assms] map_of_size[of "mt_map m" k]
  by (auto simp: mt_inv_def[of m] mt_get_def[of m] item_size_def)

theorem memtable_put_witness:
  "mt_get (mt_put [1] None \<lparr>mt_map = [([1], Some [2, 3])], mt_size_bytes = 3\<rparr>) = [[1] \<mapsto> None] \<and>
     entry_len (Some [2, 3 :: byte]) + length [1 :: byte] \<le> 3"
proof -
  let ?m = "\<lparr>mt_map = [([1], Some [2, 3])], mt_size_bytes = 3\<rparr>"
  have get: "mt_get ?m = [[1] \<mapsto> Some [2, 3]]"
    by (simp add: mt_get_def fun_eq_iff)
  show ?thesis
    using memtable_put[of ?m "[1]" None] unfolding get
    by (simp add: mt_inv_def item_size_def entry_len_def)
qed

lemma mt_is_empty_get: "mt_is_empty m \<longleftrightarrow> mt_get m = Map.empty"
  by (simp add: mt_is_empty_def mt_get_def fun_eq_iff flip: map_of_eq_empty_iff)

end
