(* ===== verification/Wal.thy ===== *)
theory Wal
  imports Memtable
begin

text \<open>
  The write-ahead log (\<^verbatim>\<open>src/wal.rs\<close>). The log is the file and the buffer of its \<^verbatim>\<open>BufWriter\<close>: a
  crash of the process keeps the file and loses the buffer. The checksum is the function
  \<^verbatim>\<open>crc32fast::hash\<close> of a dependency, the parameter \<open>crc\<close> of the definitions that use it; no
  property assumes anything about it unless stated.
\<close>

definition T_PUT :: byte where "T_PUT = 0"
definition T_DELETE :: byte where "T_DELETE = 1"
definition T_BEGIN :: byte where "T_BEGIN = 2"
definition T_TX_PUT :: byte where "T_TX_PUT = 3"
definition T_TX_DELETE :: byte where "T_TX_DELETE = 4"
definition T_COMMIT :: byte where "T_COMMIT = 5"
definition T_ABORT :: byte where "T_ABORT = 6"

lemmas wal_tag_defs = T_PUT_def T_DELETE_def T_BEGIN_def T_TX_PUT_def T_TX_DELETE_def T_COMMIT_def T_ABORT_def

section \<open>The writer\<close>

record wal =
  wal_file :: bytes
  wal_buf :: bytes

text \<open>The default capacity of \<^verbatim>\<open>BufWriter\<close>.\<close>

definition BUF_CAPACITY :: nat where
  "BUF_CAPACITY = 8192"

text \<open>\<^verbatim>\<open>BufWriter::flush\<close>\<close>

definition wal_flush :: "wal \<Rightarrow> wal" where
  "wal_flush w = w\<lparr>wal_file := wal_file w @ wal_buf w, wal_buf := []\<rparr>"

text \<open>\<^verbatim>\<open>BufWriter::write_all\<close>: the buffer is written out when the data does not fit.\<close>

definition write_all :: "bytes \<Rightarrow> wal \<Rightarrow> wal" where
  "write_all data w =
     (let w = (if BUF_CAPACITY - length (wal_buf w) < length data then wal_flush w else w) in
      if BUF_CAPACITY \<le> length data then w\<lparr>wal_file := wal_file w @ data\<rparr>
      else w\<lparr>wal_buf := wal_buf w @ data\<rparr>)"

text \<open>\<^verbatim>\<open>Wal::create\<close>: opens or creates the file and writes at its end.\<close>

definition wal_create :: "bytes option \<Rightarrow> wal" where
  "wal_create file = \<lparr>wal_file = (case file of None \<Rightarrow> [] | Some f \<Rightarrow> f), wal_buf = []\<rparr>"

definition write_record :: "(bytes \<Rightarrow> 32 word) \<Rightarrow> byte \<Rightarrow> bytes \<Rightarrow> wal \<Rightarrow> wal" where
  "write_record crc record_type payload w =
     (let body = record_type # payload in
      write_all body (write_all (u32_le (crc body)) w))"

definition wal_append :: "(bytes \<Rightarrow> 32 word) \<Rightarrow> bytes \<Rightarrow> bytes option \<Rightarrow> wal \<Rightarrow> wal" where
  "wal_append crc key value w = (case value of
     Some v \<Rightarrow> write_record crc T_PUT (u32_le (as_u32 (length key)) @ u32_le (as_u32 (length v)) @ key @ v) w
   | None \<Rightarrow> write_record crc T_DELETE (u32_le (as_u32 (length key)) @ key) w)"

definition append_begin :: "(bytes \<Rightarrow> 32 word) \<Rightarrow> 64 word \<Rightarrow> wal \<Rightarrow> wal" where
  "append_begin crc tx w = write_record crc T_BEGIN (u64_le tx) w"

definition append_tx_put :: "(bytes \<Rightarrow> 32 word) \<Rightarrow> 64 word \<Rightarrow> bytes \<Rightarrow> bytes \<Rightarrow> wal \<Rightarrow> wal" where
  "append_tx_put crc tx key value w =
     write_record crc T_TX_PUT
       (u64_le tx @ u32_le (as_u32 (length key)) @ u32_le (as_u32 (length value)) @ key @ value) w"

definition append_tx_delete :: "(bytes \<Rightarrow> 32 word) \<Rightarrow> 64 word \<Rightarrow> bytes \<Rightarrow> wal \<Rightarrow> wal" where
  "append_tx_delete crc tx key w =
     write_record crc T_TX_DELETE (u64_le tx @ u32_le (as_u32 (length key)) @ key) w"

definition append_commit :: "(bytes \<Rightarrow> 32 word) \<Rightarrow> 64 word \<Rightarrow> wal \<Rightarrow> wal" where
  "append_commit crc tx w = write_record crc T_COMMIT (u64_le tx) w"

definition append_abort :: "(bytes \<Rightarrow> 32 word) \<Rightarrow> 64 word \<Rightarrow> wal \<Rightarrow> wal" where
  "append_abort crc tx w = write_record crc T_ABORT (u64_le tx) w"

text \<open>\<^verbatim>\<open>Wal::sync\<close>: the buffer is written and the file made durable.\<close>

definition wal_sync :: "wal \<Rightarrow> wal" where
  "wal_sync w = wal_flush w"

definition wal_truncate :: "wal \<Rightarrow> wal" where
  "wal_truncate w = (wal_flush w)\<lparr>wal_file := []\<rparr>"

section \<open>The reader\<close>

record wal_record =
  rec_key :: bytes
  rec_value :: entry

record replay_result =
  records :: "wal_record list"
  max_tx_id :: "64 word"

datatype raw_op =
    RPut bytes bytes
  | RDelete bytes
  | RTxPut "64 word" bytes bytes
  | RTxDelete "64 word" bytes
  | RCommit "64 word"

text \<open>\<^verbatim>\<open>read_n\<close> on the bytes still unread: \<open>None\<close> at a truncated end.\<close>

definition read_n :: "nat \<Rightarrow> bytes \<Rightarrow> (bytes \<times> bytes) option" where
  "read_n n r = (if length r < n then None else Some (take n r, drop n r))"

definition n_head :: "byte \<Rightarrow> nat option" where
  "n_head t =
     (if t = T_PUT then Some 8 else if t = T_DELETE then Some 4 else if t = T_BEGIN then Some 8
      else if t = T_TX_PUT then Some 16 else if t = T_TX_DELETE then Some 12
      else if t = T_COMMIT then Some 8 else if t = T_ABORT then Some 8 else None)"

definition u32_at :: "nat \<Rightarrow> bytes \<Rightarrow> nat" where
  "u32_at i bs = unat (le_u32 (slice i (i + 4) bs))"

definition u64_at :: "nat \<Rightarrow> bytes \<Rightarrow> 64 word" where
  "u64_at i bs = le_u64 (slice i (i + 8) bs)"

definition payload_data_len :: "byte \<Rightarrow> bytes \<Rightarrow> nat" where
  "payload_data_len t head =
     (if t = T_PUT then u32_at 0 head + u32_at 4 head
      else if t = T_DELETE then u32_at 0 head
      else if t = T_TX_PUT then u32_at 8 head + u32_at 12 head
      else if t = T_TX_DELETE then u32_at 8 head
      else 0)"

definition read_payload :: "byte \<Rightarrow> bytes \<Rightarrow> (bytes \<times> bytes) option" where
  "read_payload t r = (case n_head t of
     None \<Rightarrow> Some ([], r)
   | Some n \<Rightarrow> (case read_n n r of
       None \<Rightarrow> None
     | Some (head, r) \<Rightarrow>
         let data_len = payload_data_len t head in
         if 0 < data_len then
           (case read_n data_len r of None \<Rightarrow> None | Some (data, r) \<Rightarrow> Some (head @ data, r))
         else Some (head, r)))"

text \<open>The operation of a record and its transaction id; \<open>None\<close> for an unknown record type.\<close>

definition decode_op :: "byte \<Rightarrow> bytes \<Rightarrow> (raw_op option \<times> 64 word option) option" where
  "decode_op t payload =
     (if t = T_PUT then
        let k = u32_at 0 payload; v = u32_at 4 payload in
        Some (Some (RPut (slice 8 (8 + k) payload) (slice (8 + k) (8 + k + v) payload)), None)
      else if t = T_DELETE then
        let k = u32_at 0 payload in Some (Some (RDelete (slice 4 (4 + k) payload)), None)
      else if t = T_BEGIN then Some (None, Some (u64_at 0 payload))
      else if t = T_TX_PUT then
        let tx = u64_at 0 payload; k = u32_at 8 payload; v = u32_at 12 payload in
        Some (Some (RTxPut tx (slice 16 (16 + k) payload) (slice (16 + k) (16 + k + v) payload)), Some tx)
      else if t = T_TX_DELETE then
        let tx = u64_at 0 payload; k = u32_at 8 payload in
        Some (Some (RTxDelete tx (slice 12 (12 + k) payload)), Some tx)
      else if t = T_COMMIT then let tx = u64_at 0 payload in Some (Some (RCommit tx), Some tx)
      else if t = T_ABORT then Some (None, Some (u64_at 0 payload))
      else None)"

text \<open>One turn of the replay loop: \<open>None\<close> where the code breaks out of it.\<close>

definition read_record :: "(bytes \<Rightarrow> 32 word) \<Rightarrow> bytes \<Rightarrow> ((raw_op option \<times> 64 word option) \<times> bytes) option" where
  "read_record crc r = (case read_n 4 r of None \<Rightarrow> None | Some (crc_buf, r) \<Rightarrow>
     (case read_n 1 r of None \<Rightarrow> None | Some (type_buf, r) \<Rightarrow>
       let t = type_buf ! 0 in
       (case read_payload t r of None \<Rightarrow> None | Some (payload, r) \<Rightarrow>
         if crc (t # payload) \<noteq> le_u32 crc_buf then None
         else map_option (\<lambda>op. (op, r)) (decode_op t payload))))"

lemma read_n_length: "read_n n r = Some (a, r') \<Longrightarrow> length r = n + length r' \<and> length a = n"
  by (auto simp: read_n_def split: if_splits)

lemma read_payload_length: "read_payload t r = Some (p, r') \<Longrightarrow> length r' \<le> length r"
  by (auto simp: read_payload_def Let_def dest!: read_n_length split: option.splits if_splits)

lemma read_record_length: "read_record crc r = Some (op, r') \<Longrightarrow> length r' < length r"
  by (auto simp: read_record_def Let_def dest!: read_n_length read_payload_length
      split: option.splits if_splits)

function replay_loop :: "(bytes \<Rightarrow> 32 word) \<Rightarrow> raw_op list \<Rightarrow> 64 word \<Rightarrow> bytes \<Rightarrow> raw_op list \<times> 64 word" where
  "replay_loop crc ops max_tx r = (case read_record crc r of
     None \<Rightarrow> (ops, max_tx)
   | Some ((op, txn), r') \<Rightarrow>
       replay_loop crc
         (case op of None \<Rightarrow> ops | Some x \<Rightarrow> ops @ [x])
         (case txn of None \<Rightarrow> max_tx | Some tx \<Rightarrow> if max_tx < tx then tx else max_tx)
         r')"
  by pat_completeness auto
termination
  by (relation "measure (\<lambda>(_, _, _, r). length r)") (auto dest: read_record_length)

declare replay_loop.simps [simp del]

definition committed_ids :: "raw_op list \<Rightarrow> 64 word set" where
  "committed_ids ops = set (List.map_filter (\<lambda>op. case op of RCommit tx \<Rightarrow> Some tx | _ \<Rightarrow> None) ops)"

fun resolve_op :: "64 word set \<Rightarrow> raw_op \<Rightarrow> wal_record list" where
  "resolve_op c (RPut key value) = [\<lparr>rec_key = key, rec_value = Some value\<rparr>]"
| "resolve_op c (RDelete key) = [\<lparr>rec_key = key, rec_value = None\<rparr>]"
| "resolve_op c (RTxPut tx key value) = (if tx \<in> c then [\<lparr>rec_key = key, rec_value = Some value\<rparr>] else [])"
| "resolve_op c (RTxDelete tx key) = (if tx \<in> c then [\<lparr>rec_key = key, rec_value = None\<rparr>] else [])"
| "resolve_op c (RCommit tx) = []"

definition replay :: "(bytes \<Rightarrow> 32 word) \<Rightarrow> bytes \<Rightarrow> replay_result" where
  "replay crc file =
     (let (ops, max_tx) = replay_loop crc [] 0 file;
          committed = committed_ids ops in
      \<lparr>records = concat (map (resolve_op committed) ops), max_tx_id = max_tx\<rparr>)"

end
