(* ===== verification/Recovery.thy ===== *)
theory Recovery
  imports Wal
begin

text \<open>
  What replay recovers from a log: the log as a list of abstract records, the reader as the
  inverse of the writer, recovery from a log cut at any byte, and the atomicity of transactions.
\<close>

section \<open>The log as a list of records\<close>

text \<open>What the writer appends, as abstract records, and the bytes of each.\<close>

datatype log_rec =
    LPut bytes bytes
  | LDelete bytes
  | LBegin "64 word"
  | LTxPut "64 word" bytes bytes
  | LTxDelete "64 word" bytes
  | LCommit "64 word"
  | LAbort "64 word"

fun rec_type :: "log_rec \<Rightarrow> byte" where
  "rec_type (LPut _ _) = T_PUT"
| "rec_type (LDelete _) = T_DELETE"
| "rec_type (LBegin _) = T_BEGIN"
| "rec_type (LTxPut _ _ _) = T_TX_PUT"
| "rec_type (LTxDelete _ _) = T_TX_DELETE"
| "rec_type (LCommit _) = T_COMMIT"
| "rec_type (LAbort _) = T_ABORT"

fun rec_head :: "log_rec \<Rightarrow> bytes" where
  "rec_head (LPut k v) = u32_le (as_u32 (length k)) @ u32_le (as_u32 (length v))"
| "rec_head (LDelete k) = u32_le (as_u32 (length k))"
| "rec_head (LBegin tx) = u64_le tx"
| "rec_head (LTxPut tx k v) = u64_le tx @ u32_le (as_u32 (length k)) @ u32_le (as_u32 (length v))"
| "rec_head (LTxDelete tx k) = u64_le tx @ u32_le (as_u32 (length k))"
| "rec_head (LCommit tx) = u64_le tx"
| "rec_head (LAbort tx) = u64_le tx"

fun rec_data :: "log_rec \<Rightarrow> bytes" where
  "rec_data (LPut k v) = k @ v"
| "rec_data (LDelete k) = k"
| "rec_data (LTxPut tx k v) = k @ v"
| "rec_data (LTxDelete tx k) = k"
| "rec_data _ = []"

definition rec_body :: "log_rec \<Rightarrow> bytes" where
  "rec_body r = rec_type r # rec_head r @ rec_data r"

definition rec_bytes :: "(bytes \<Rightarrow> 32 word) \<Rightarrow> log_rec \<Rightarrow> bytes" where
  "rec_bytes crc r = u32_le (crc (rec_body r)) @ rec_body r"

definition log_bytes :: "(bytes \<Rightarrow> 32 word) \<Rightarrow> log_rec list \<Rightarrow> bytes" where
  "log_bytes crc rs = concat (map (rec_bytes crc) rs)"

text \<open>Key and value lengths fit the 32-bit prefixes.\<close>

fun rec_ok :: "log_rec \<Rightarrow> bool" where
  "rec_ok (LPut k v) = (length k < 2 ^ 32 \<and> length v < 2 ^ 32)"
| "rec_ok (LDelete k) = (length k < 2 ^ 32)"
| "rec_ok (LTxPut _ k v) = (length k < 2 ^ 32 \<and> length v < 2 ^ 32)"
| "rec_ok (LTxDelete _ k) = (length k < 2 ^ 32)"
| "rec_ok _ = True"

definition wal_log :: "wal \<Rightarrow> bytes" where
  "wal_log w = wal_file w @ wal_buf w"

text \<open>Every append operation adds the bytes of one record at the end of the log.\<close>

lemma wal_log_write_all [simp]: "wal_log (write_all d w) = wal_log w @ d"
  by (cases "wal_buf w") (auto simp: wal_log_def write_all_def wal_flush_def BUF_CAPACITY_def Let_def)

lemma wal_log_appends [simp]:
  "wal_log (wal_append crc k (Some v) w) = wal_log w @ rec_bytes crc (LPut k v)"
  "wal_log (wal_append crc k None w) = wal_log w @ rec_bytes crc (LDelete k)"
  "wal_log (append_begin crc tx w) = wal_log w @ rec_bytes crc (LBegin tx)"
  "wal_log (append_tx_put crc tx k v w) = wal_log w @ rec_bytes crc (LTxPut tx k v)"
  "wal_log (append_tx_delete crc tx k w) = wal_log w @ rec_bytes crc (LTxDelete tx k)"
  "wal_log (append_commit crc tx w) = wal_log w @ rec_bytes crc (LCommit tx)"
  "wal_log (append_abort crc tx w) = wal_log w @ rec_bytes crc (LAbort tx)"
  by (simp_all add: wal_append_def append_begin_def append_tx_put_def append_tx_delete_def
      append_commit_def append_abort_def write_record_def rec_bytes_def rec_body_def Let_def)

lemma wal_log_sync [simp]:
  "wal_log (wal_sync w) = wal_log w" "wal_file (wal_sync w) = wal_log w"
  "wal_log (wal_flush w) = wal_log w" "wal_file (wal_flush w) = wal_log w"
  "wal_log (wal_truncate w) = []" "wal_file (wal_truncate w) = []" "wal_log (wal_create (Some f)) = f"
  "wal_log (wal_create None) = []"
  by (simp_all add: wal_log_def wal_sync_def wal_flush_def wal_truncate_def wal_create_def)

text \<open>What replay makes of a record: the operation and the transaction id it sees.\<close>

fun rec_op :: "log_rec \<Rightarrow> raw_op option" where
  "rec_op (LPut k v) = Some (RPut k v)"
| "rec_op (LDelete k) = Some (RDelete k)"
| "rec_op (LTxPut tx k v) = Some (RTxPut tx k v)"
| "rec_op (LTxDelete tx k) = Some (RTxDelete tx k)"
| "rec_op (LCommit tx) = Some (RCommit tx)"
| "rec_op _ = None"

fun rec_tx :: "log_rec \<Rightarrow> 64 word option" where
  "rec_tx (LPut _ _) = None"
| "rec_tx (LDelete _) = None"
| "rec_tx (LBegin tx) = Some tx"
| "rec_tx (LTxPut tx _ _) = Some tx"
| "rec_tx (LTxDelete tx _) = Some tx"
| "rec_tx (LCommit tx) = Some tx"
| "rec_tx (LAbort tx) = Some tx"

section \<open>Reading back one record\<close>

lemma read_n_app: "n = length a \<Longrightarrow> read_n n (a @ r) = Some (a, r)"
  by (simp add: read_n_def)

lemma n_head_rec: "n_head (rec_type r) = Some (length (rec_head r))"
  by (cases r) (simp_all add: n_head_def wal_tag_defs)

lemma slice_0: "n = length a \<Longrightarrow> slice 0 n (a @ r) = a"
  by (simp add: slice_def)

lemma slice_skip: "length a \<le> i \<Longrightarrow> slice i j (a @ r) = slice (i - length a) (j - length a) r"
  by (simp add: slice_def)

lemmas slice_simps = slice_0 slice_skip

lemma payload_data_len_rec: "rec_ok r \<Longrightarrow> payload_data_len (rec_type r) (rec_head r) = length (rec_data r)"
  by (cases r) (simp_all add: payload_data_len_def wal_tag_defs u32_at_def slice_simps slice_0[of _ _ "[]", simplified])

lemma decode_op_rec: "rec_ok r \<Longrightarrow> decode_op (rec_type r) (rec_head r @ rec_data r) = Some (rec_op r, rec_tx r)"
  by (cases r) (simp_all add: decode_op_def wal_tag_defs u32_at_def u64_at_def Let_def slice_simps
      slice_0[of _ _ "[]", simplified])

lemma read_payload_rec:
  "rec_ok r \<Longrightarrow> read_payload (rec_type r) (rec_head r @ rec_data r @ rest) = Some (rec_head r @ rec_data r, rest)"
  by (simp add: read_payload_def n_head_rec read_n_app payload_data_len_rec Let_def)

lemma read_record_rec:
  assumes "rec_ok r"
  shows "read_record crc (rec_bytes crc r @ rest) = Some ((rec_op r, rec_tx r), rest)"
  using assms by (simp add: read_record_def rec_bytes_def rec_body_def read_n_app[of 4]
      read_n_app[of 1 "[_]", simplified] read_payload_rec decode_op_rec)

text \<open>A record cut anywhere is not read at all.\<close>

lemma read_n_short: "length r < n \<Longrightarrow> read_n n r = None"
  by (simp add: read_n_def)

lemma read_payload_cut:
  assumes "rec_ok r" and "n < length (rec_head r @ rec_data r)"
  shows "read_payload (rec_type r) (take n (rec_head r @ rec_data r)) = None"
proof (cases "n < length (rec_head r)")
  case True
  then show ?thesis by (simp add: read_payload_def n_head_rec read_n_short)
next
  case False
  then obtain m where n: "n = length (rec_head r) + m"
    using le_Suc_ex not_less by blast
  then have t: "take n (rec_head r @ rec_data r) = rec_head r @ take m (rec_data r)"
    by simp
  have "m < length (rec_data r)" using assms(2) n by simp
  then have "rec_data r \<noteq> []" "m < length (rec_data r)" by auto
  then show ?thesis
    unfolding t by (auto simp: read_payload_def n_head_rec read_n_app payload_data_len_rec[OF assms(1)]
        read_n_short Let_def)
qed

lemma read_record_cut:
  assumes "rec_ok r" and "n < length (rec_bytes crc r)"
  shows "read_record crc (take n (rec_bytes crc r)) = None"
proof -
  consider "n < 4" | "n = 4" | m where "n = 5 + m" "m < length (rec_head r @ rec_data r)"
  proof -
    have l: "n < 5 + length (rec_head r @ rec_data r)"
      using assms(2) by (simp add: rec_bytes_def rec_body_def)
    show ?thesis
    proof (cases "n < 5")
      case True
      then show ?thesis using that(1,2) by linarith
    next
      case False
      then have "n = 5 + (n - 5)" by simp
      then show ?thesis using that(3)[of "n - 5"] l by simp
    qed
  qed
  then show ?thesis
  proof cases
    case 1
    then show ?thesis by (simp add: read_record_def read_n_short)
  next
    case 2
    then show ?thesis
      by (simp add: read_record_def rec_bytes_def read_n_app[of 4 _ "[]", simplified] read_n_short)
  next
    case 3
    then have "take n (rec_bytes crc r) =
        u32_le (crc (rec_body r)) @ [rec_type r] @ take m (rec_head r @ rec_data r)"
      by (simp add: rec_bytes_def rec_body_def)
    then show ?thesis
      using read_payload_cut[OF assms(1) 3(2)]
      by (simp add: read_record_def read_n_app[of 4] read_n_app[of 1 "[_]", simplified])
  qed
qed


section \<open>Recovery\<close>

text \<open>
  The abstract meaning of a log: the mutations outside transactions and those of transactions
  whose commit record is in the log, in log order, and the largest transaction id seen.
\<close>

fun log_effect :: "log_rec list \<Rightarrow> log_rec \<Rightarrow> wal_record list" where
  "log_effect rs (LPut k v) = [\<lparr>rec_key = k, rec_value = Some v\<rparr>]"
| "log_effect rs (LDelete k) = [\<lparr>rec_key = k, rec_value = None\<rparr>]"
| "log_effect rs (LTxPut tx k v) = (if LCommit tx \<in> set rs then [\<lparr>rec_key = k, rec_value = Some v\<rparr>] else [])"
| "log_effect rs (LTxDelete tx k) = (if LCommit tx \<in> set rs then [\<lparr>rec_key = k, rec_value = None\<rparr>] else [])"
| "log_effect rs _ = []"

definition recovered :: "log_rec list \<Rightarrow> replay_result" where
  "recovered rs = \<lparr>records = concat (map (log_effect rs) rs),
                   max_tx_id = fold max (List.map_filter rec_tx rs) 0\<rparr>"

text \<open>The number of whole records within the first \<open>n\<close> bytes of a log.\<close>

fun whole_records :: "(bytes \<Rightarrow> 32 word) \<Rightarrow> nat \<Rightarrow> log_rec list \<Rightarrow> nat" where
  "whole_records crc n [] = 0"
| "whole_records crc n (r # rs) =
     (if length (rec_bytes crc r) \<le> n then Suc (whole_records crc (n - length (rec_bytes crc r)) rs) else 0)"

lemma log_bytes_simps [simp]:
  "log_bytes crc [] = []"
  "log_bytes crc (r # rs) = rec_bytes crc r @ log_bytes crc rs"
  "log_bytes crc (rs @ rs') = log_bytes crc rs @ log_bytes crc rs'"
  by (simp_all add: log_bytes_def)

lemma read_record_Nil [simp]: "read_record crc [] = None"
  by (simp add: read_record_def read_n_short)

lemma map_filter_Cons [simp]:
  "List.map_filter f (x # xs) = (case f x of None \<Rightarrow> List.map_filter f xs | Some y \<Rightarrow> y # List.map_filter f xs)"
  "List.map_filter f [] = []"
  by (simp_all add: List.map_filter_def split: option.split)

lemma replay_loop_log:
  assumes "\<forall>r \<in> set rs. rec_ok r" and "read_record crc tail = None"
  shows "replay_loop crc ops m (log_bytes crc rs @ tail) =
     (ops @ List.map_filter rec_op rs, fold max (List.map_filter rec_tx rs) m)"
  using assms(1)
proof (induction rs arbitrary: ops m)
  case Nil
  then show ?case using assms(2) by (simp add: replay_loop.simps)
next
  case (Cons r rs)
  have "replay_loop crc ops m (rec_bytes crc r @ log_bytes crc rs @ tail) =
      replay_loop crc (case rec_op r of None \<Rightarrow> ops | Some x \<Rightarrow> ops @ [x])
        (case rec_tx r of None \<Rightarrow> m | Some tx \<Rightarrow> if m < tx then tx else m) (log_bytes crc rs @ tail)"
    using Cons.prems by (subst replay_loop.simps) (simp add: read_record_rec)
  also have "(case rec_tx r of None \<Rightarrow> m | Some tx \<Rightarrow> if m < tx then tx else m) =
      (case rec_tx r of None \<Rightarrow> m | Some tx \<Rightarrow> max tx m)"
    by (auto simp: max_def split: option.split)
  finally show ?case
    using Cons by (cases "rec_op r"; cases "rec_tx r") simp_all
qed

lemma commit_in_ops: "tx \<in> committed_ids (List.map_filter rec_op rs) \<longleftrightarrow> LCommit tx \<in> set rs"
proof (induction rs)
  case Nil
  then show ?case by (simp add: committed_ids_def)
next
  case (Cons r rs)
  then show ?case by (cases r) (auto simp: committed_ids_def)
qed

lemma resolve_log:
  "concat (map (resolve_op (committed_ids (List.map_filter rec_op rs0))) (List.map_filter rec_op rs)) =
   concat (map (log_effect rs0) rs)"
proof (induction rs)
  case Nil
  then show ?case by simp
next
  case (Cons r rs)
  then show ?case by (cases r) (auto simp: commit_in_ops)
qed

lemma replay_log:
  assumes "\<forall>r \<in> set rs. rec_ok r" and "read_record crc tail = None"
  shows "replay crc (log_bytes crc rs @ tail) = recovered rs"
  using replay_loop_log[OF assms] by (simp add: replay_def recovered_def resolve_log)

lemma take_log:
  assumes "\<forall>r \<in> set rs. rec_ok r"
  shows "\<exists>tail. take n (log_bytes crc rs) = log_bytes crc (take (whole_records crc n rs) rs) @ tail \<and>
     read_record crc tail = None"
  using assms
proof (induction rs arbitrary: n)
  case Nil
  then show ?case by simp
next
  case (Cons r rs)
  show ?case
  proof (cases "length (rec_bytes crc r) \<le> n")
    case True
    then show ?thesis using Cons by auto
  next
    case False
    then show ?thesis using Cons.prems read_record_cut[of r n crc] by auto
  qed
qed

lemma replay_take:
  assumes "\<forall>r \<in> set rs. rec_ok r"
  shows "replay crc (take n (log_bytes crc rs)) = recovered (take (whole_records crc n rs) rs)"
proof -
  obtain tail where t: "take n (log_bytes crc rs) = log_bytes crc (take (whole_records crc n rs) rs) @ tail"
      "read_record crc tail = None"
    using take_log[OF assms] by blast
  have "\<forall>r \<in> set (take (whole_records crc n rs) rs). rec_ok r"
    using assms by (meson in_set_takeD)
  then show ?thesis using t replay_log by simp
qed

text \<open>
  whatever part of the log file a crash leaves, cut at any byte, replay returns
  exactly the effect of the whole records in it: a torn last record is dropped and nothing
  before it is lost or changed. No assumption on the checksum is needed.
\<close>

theorem wal_prefix_recovery:
  assumes "\<forall>r \<in> set rs. rec_ok r"
  shows "replay crc (take n (log_bytes crc rs)) = recovered (take (whole_records crc n rs) rs)"
  using assms by (rule replay_take)

theorem wal_prefix_recovery_witness:
  "replay (\<lambda>_. 0) (take 17 (log_bytes (\<lambda>_. 0) [LPut [1] [2], LDelete [1]])) =
     recovered (take (whole_records (\<lambda>_. 0) 17 [LPut [1] [2], LDelete [1]]) [LPut [1] [2], LDelete [1]])"
  by (rule wal_prefix_recovery) simp

text \<open>The block of records that \<^verbatim>\<open>Transaction::commit\<close> appends for a transaction.\<close>

fun tx_mutation :: "64 word \<Rightarrow> item \<Rightarrow> log_rec" where
  "tx_mutation tx (k, Some v) = LTxPut tx k v"
| "tx_mutation tx (k, None) = LTxDelete tx k"

definition tx_block :: "64 word \<Rightarrow> item list \<Rightarrow> log_rec list" where
  "tx_block tx muts = LBegin tx # map (tx_mutation tx) muts @ [LCommit tx]"

lemma whole_records_bound: "whole_records crc n rs \<le> length rs"
  by (induction rs arbitrary: n) auto

lemma whole_records_all: "length (log_bytes crc rs) \<le> n \<longleftrightarrow> whole_records crc n rs = length rs"
proof (induction rs arbitrary: n)
  case Nil
  then show ?case by simp
next
  case (Cons r rs)
  show ?case
    using Cons[of "n - length (rec_bytes crc r)"] by auto
qed

lemma log_effect_cong:
  "(\<And>tx. rec_tx r = Some tx \<Longrightarrow> LCommit tx \<in> set rs \<longleftrightarrow> LCommit tx \<in> set rs') \<Longrightarrow>
     log_effect rs r = log_effect rs' r"
  by (cases r) auto

lemma effect_block:
  "LCommit tx \<in> set rs \<Longrightarrow>
     concat (map (log_effect rs) (map (tx_mutation tx) muts)) = map (\<lambda>(k, v). \<lparr>rec_key = k, rec_value = v\<rparr>) muts"
proof (induction muts)
  case Nil
  then show ?case by simp
next
  case (Cons m muts)
  then show ?case by (cases m; cases "snd m") auto
qed

lemma effect_block_none:
  "LCommit tx \<notin> set rs \<Longrightarrow> concat (map (log_effect rs) (map (tx_mutation tx) muts)) = []"
proof (induction muts)
  case Nil
  then show ?case by simp
next
  case (Cons m muts)
  then show ?case by (cases m; cases "snd m") auto
qed

lemma tx_mutation_not_commit [simp]: "LCommit t \<notin> tx_mutation tx ` X" "LCommit t \<noteq> tx_mutation tx m"
proof -
  show "LCommit t \<noteq> tx_mutation tx m" for m by (cases m; cases "snd m") auto
  then show "LCommit t \<notin> tx_mutation tx ` X" by blast
qed

lemma tx_mutation_tx [dest]:
  "LTxPut t k v = tx_mutation tx m \<Longrightarrow> t = tx" "LTxDelete t k = tx_mutation tx m \<Longrightarrow> t = tx"
  "LPut k v = tx_mutation tx m \<Longrightarrow> False" "LDelete k = tx_mutation tx m \<Longrightarrow> False"
  by (cases m; cases "snd m"; auto)+

lemma in_set_takeE: "x \<in> set (take m (tx_block tx muts)) \<Longrightarrow> m < length (tx_block tx muts) \<Longrightarrow> x \<noteq> LCommit t"
  by (auto simp: tx_block_def take_Cons' split: if_splits dest!: in_set_takeD)

lemma whole_records_append:
  "whole_records crc n (a @ b) =
     (if whole_records crc n a = length a then length a + whole_records crc (n - length (log_bytes crc a)) b
      else whole_records crc n a)"
  by (induction a arbitrary: n) (auto simp: diff_diff_add)

lemma effects_cong:
  assumes "\<And>r tx. r \<in> set xs \<Longrightarrow> rec_tx r = Some tx \<Longrightarrow> LCommit tx \<in> set rs \<longleftrightarrow> LCommit tx \<in> set rs'"
  shows "concat (map (log_effect rs) xs) = concat (map (log_effect rs') xs)"
proof -
  have "map (log_effect rs) xs = map (log_effect rs') xs"
    by (rule map_cong[OF refl]) (use assms log_effect_cong in blast)
  then show ?thesis by (simp only:)
qed

lemma in_map_filter: "x \<in> set xs \<Longrightarrow> f x = Some y \<Longrightarrow> y \<in> set (List.map_filter f xs)"
  by (auto simp: List.map_filter_def image_iff)

lemma recovered_full_block:
  assumes "tx \<notin> set (List.map_filter rec_tx pre)"
  shows "records (recovered (pre @ tx_block tx muts)) =
     records (recovered pre) @ map (\<lambda>(k, v). \<lparr>rec_key = k, rec_value = v\<rparr>) muts"
proof -
  let ?rs = "pre @ tx_block tx muts"
  have c: "LCommit tx \<in> set ?rs" by (simp add: tx_block_def)
  have "concat (map (log_effect ?rs) pre) = concat (map (log_effect pre) pre)"
  proof (rule effects_cong)
    fix r t assume "r \<in> set pre" "rec_tx r = Some t"
    then have "t \<noteq> tx" using assms in_map_filter by metis
    then show "LCommit t \<in> set ?rs \<longleftrightarrow> LCommit t \<in> set pre"
      by (auto simp: tx_block_def)
  qed
  moreover have "concat (map (log_effect ?rs) (tx_block tx muts)) = map (\<lambda>(k, v). \<lparr>rec_key = k, rec_value = v\<rparr>) muts"
    using effect_block[OF c, of muts] by (simp add: tx_block_def)
  ultimately show ?thesis by (simp add: recovered_def)
qed

lemma recovered_partial_block:
  assumes "tx \<notin> set (List.map_filter rec_tx pre)" and "j < length (tx_block tx muts)"
  shows "records (recovered (pre @ take j (tx_block tx muts))) = records (recovered pre)"
proof -
  let ?b = "take j (tx_block tx muts)"
  let ?rs = "pre @ ?b"
  have nb: "LCommit t \<notin> set ?b" for t
    using in_set_takeE[of _ j tx muts t] assms(2) by blast
  have np: "LCommit tx \<notin> set pre"
    using assms(1) in_map_filter[of "LCommit tx" pre rec_tx tx] by auto
  have "concat (map (log_effect ?rs) pre) = concat (map (log_effect pre) pre)"
    by (rule effects_cong) (simp add: nb)
  moreover have "log_effect ?rs r = []" if "r \<in> set ?b" for r
  proof -
    have "r \<in> set (tx_block tx muts)" using that by (rule in_set_takeD)
    then have "r = LBegin tx \<or> r = LCommit tx \<or> (\<exists>k v. r = LTxPut tx k v) \<or> (\<exists>k. r = LTxDelete tx k)"
      by (auto simp: tx_block_def) (metis option.exhaust tx_mutation.simps)
    moreover have "LCommit tx \<notin> set ?rs" using nb np by simp
    ultimately show ?thesis using that nb by auto
  qed
  ultimately show ?thesis by (simp add: recovered_def)
qed

lemma recovered_cut_block:
  assumes "tx \<notin> set (List.map_filter rec_tx pre)"
  shows "records (recovered (take (whole_records crc n (pre @ tx_block tx muts)) (pre @ tx_block tx muts))) =
     (if length (log_bytes crc (pre @ tx_block tx muts)) \<le> n
      then records (recovered pre) @ map (\<lambda>(k, v). \<lparr>rec_key = k, rec_value = v\<rparr>) muts
      else records (recovered (take (whole_records crc n pre) pre)))"
proof -
  let ?rs = "pre @ tx_block tx muts" and ?n' = "n - length (log_bytes crc pre)"
  let ?m = "whole_records crc n ?rs"
  show ?thesis
  proof (cases "length (log_bytes crc ?rs) \<le> n")
    case True
    then have "?m = length ?rs" by (simp only: whole_records_all)
    then show ?thesis using True recovered_full_block[OF assms] by simp
  next
    case False
    then have ne: "?m \<noteq> length ?rs" using whole_records_all by metis
    show ?thesis
    proof (cases "whole_records crc n pre = length pre")
      case True
      then have m: "?m = length pre + whole_records crc ?n' (tx_block tx muts)"
        by (simp add: whole_records_append)
      then have "whole_records crc ?n' (tx_block tx muts) < length (tx_block tx muts)"
        using ne whole_records_bound[of crc ?n' "tx_block tx muts"] by simp
      then show ?thesis
        using False True m recovered_partial_block[OF assms] by simp
    next
      case nf: False
      then have "?m = whole_records crc n pre"
        by (simp add: whole_records_append)
      then show ?thesis
        using False whole_records_bound[of crc n pre] by simp
    qed
  qed
qed

text \<open>
  C31: recovery is all or nothing for a transaction: if the log is cut anywhere before
  the end of its commit record, none of its mutations is replayed and the rest is as if it had
  never been written; once the commit record is on disk, all are replayed, in order, after
  everything before them. The transaction's id must be new to the log.
\<close>

theorem tx_atomic_recovery:
  assumes "\<forall>r \<in> set (pre @ tx_block tx muts). rec_ok r" and "tx \<notin> set (List.map_filter rec_tx pre)"
  shows "records (replay crc (take n (log_bytes crc (pre @ tx_block tx muts)))) =
     (if length (log_bytes crc (pre @ tx_block tx muts)) \<le> n
      then records (recovered pre) @ map (\<lambda>(k, v). \<lparr>rec_key = k, rec_value = v\<rparr>) muts
      else records (recovered (take (whole_records crc n pre) pre)))"
  unfolding replay_take[OF assms(1)] by (rule recovered_cut_block[OF assms(2)])

theorem tx_atomic_recovery_witness:
  "records (replay (\<lambda>_. 0) (take 40 (log_bytes (\<lambda>_. 0) ([LDelete [7]] @ tx_block 3 [([1], Some [2])])))) =
     (if length (log_bytes (\<lambda>_. 0) ([LDelete [7]] @ tx_block 3 [([1], Some [2])])) \<le> 40
      then records (recovered [LDelete [7]]) @ map (\<lambda>(k, v). \<lparr>rec_key = k, rec_value = v\<rparr>) [([1], Some [2])]
      else records (recovered (take (whole_records (\<lambda>_. 0) 40 [LDelete [7]]) [LDelete [7]])))"
  by (rule tx_atomic_recovery) (simp_all add: tx_block_def)

end
