(* ===== verification/Bloom.thy ===== *)
theory Bloom
  imports Memtable
begin

text \<open>
  The Bloom filter of a table (\<^verbatim>\<open>BloomFilter\<close> in \<^verbatim>\<open>src/sstable.rs\<close>): double hashing with two
  64-bit rolling hashes, on words with wrap-around. A filter read from a file can be malformed:
  where the code would index out of range or divide by zero, the result is a panic.
\<close>

record bloom =
  bits :: bytes
  nbits :: "32 word"
  nhash :: "32 word"

definition bloom_new :: "32 word \<Rightarrow> 32 word \<Rightarrow> bloom" where
  "bloom_new n k = \<lparr>bits = replicate ((unat n + 7) div 8) 0, nbits = n, nhash = k\<rparr>"

definition hash_step :: "byte \<Rightarrow> 64 word \<times> 64 word \<Rightarrow> 64 word \<times> 64 word" where
  "hash_step b h =
     (case h of (h1, h2) \<Rightarrow>
       ((word_rotl 5 h1 XOR ucast b) * 0x1000000001b3,
        (word_rotl 5 h2 XOR ucast b) * 0x9e3779b97f4a7c15))"

definition hashes :: "bytes \<Rightarrow> 64 word \<times> 64 word" where
  "hashes key = fold hash_step key (0xcbf29ce484222325, 0xbf58476d1ce4e5b9)"

text \<open>The bit of the \<open>i\<close>-th probe: \<^verbatim>\<open>(a + b * i) % nbits\<close>.\<close>

definition probe :: "bloom \<Rightarrow> bytes \<Rightarrow> nat \<Rightarrow> nat" where
  "probe bl key i =
     (case hashes key of (a, b) \<Rightarrow> unat (a + b * word_of_nat i) mod unat (nbits bl))"

definition set_bit_at :: "nat \<Rightarrow> bytes \<Rightarrow> bytes" where
  "set_bit_at n bs = bs[n div 8 := (bs ! (n div 8)) OR push_bit (n mod 8) 1]"

text \<open>
  \<^verbatim>\<open>insert\<close>, for filters made by \<open>bloom_new\<close> with at least one bit: every probe is in range
  (\<open>probe_in_range\<close> below).
\<close>

definition bloom_insert :: "bytes \<Rightarrow> bloom \<Rightarrow> bloom" where
  "bloom_insert key bl =
     bl\<lparr>bits := fold (\<lambda>i. set_bit_at (probe bl key i)) [0..<unat (nhash bl)] (bits bl)\<rparr>"

fun maybe_contains_loop :: "bloom \<Rightarrow> bytes \<Rightarrow> nat list \<Rightarrow> bool result" where
  "maybe_contains_loop bl key [] = Inr True"
| "maybe_contains_loop bl key (i # is) =
     (if nbits bl = 0 then Inl (Panic (str ''remainder with a divisor of zero''))
      else let n = probe bl key i in
        if length (bits bl) \<le> n div 8 then Inl (Panic (str ''index out of bounds''))
        else if (bits bl ! (n div 8)) AND push_bit (n mod 8) 1 = 0 then Inr False
        else maybe_contains_loop bl key is)"

definition maybe_contains :: "bloom \<Rightarrow> bytes \<Rightarrow> bool result" where
  "maybe_contains bl key = maybe_contains_loop bl key [0..<unat (nhash bl)]"

definition bloom_to_bytes :: "bloom \<Rightarrow> bytes" where
  "bloom_to_bytes bl = u32_le (nbits bl) @ u32_le (nhash bl) @ bits bl"

definition bloom_from_bytes :: "bytes \<Rightarrow> bloom result" where
  "bloom_from_bytes data =
     (if length data < 8 then Inl (Panic (str ''range end index out of range''))
      else Inr \<lparr>bits = drop 8 data, nbits = le_u32 (slice 0 4 data), nhash = le_u32 (slice 4 8 data)\<rparr>)"

section \<open>No false negatives\<close>

definition bloom_ok :: "bloom \<Rightarrow> bool" where
  "bloom_ok bl \<longleftrightarrow> nbits bl \<noteq> 0 \<and> unat (nbits bl) \<le> 8 * length (bits bl)"

definition bit_at :: "bytes \<Rightarrow> nat \<Rightarrow> bool" where
  "bit_at bs n \<longleftrightarrow> bit (bs ! (n div 8)) (n mod 8)"

definition has_key :: "bloom \<Rightarrow> bytes \<Rightarrow> bool" where
  "has_key bl key \<longleftrightarrow> (\<forall>i < unat (nhash bl). bit_at (bits bl) (probe bl key i))"

lemma bloom_ok_new: "n \<noteq> 0 \<Longrightarrow> bloom_ok (bloom_new n k)"
  by (simp add: bloom_ok_def bloom_new_def)

lemma probe_in_range: "bloom_ok bl \<Longrightarrow> probe bl key i div 8 < length (bits bl)"
proof -
  assume ok: "bloom_ok bl"
  then have "0 < unat (nbits bl)" by (simp add: bloom_ok_def unat_gt_0)
  then have "probe bl key i < unat (nbits bl)"
    by (simp add: probe_def split: prod.split)
  also have "\<dots> \<le> 8 * length (bits bl)" using ok by (simp add: bloom_ok_def)
  finally show ?thesis by (simp add: less_mult_imp_div_less mult.commute)
qed

lemma mask_bit: "n < 8 \<Longrightarrow> (x :: byte) AND 2 ^ n = 0 \<longleftrightarrow> \<not> bit x n"
proof -
  assume n: "n < 8"
  have b: "bit (x AND 2 ^ n) m \<longleftrightarrow> m = n \<and> bit x n" for m
    using n by (auto simp: bit_and_iff bit_exp_iff)
  show ?thesis
  proof
    assume "x AND 2 ^ n = 0"
    then show "\<not> bit x n" using b[of n] by simp
  next
    assume "\<not> bit x n"
    then show "x AND 2 ^ n = 0" by (intro bit_eqI) (simp add: b)
  qed
qed

lemma bit_at_set [simp]:
  "n div 8 < length bs \<Longrightarrow> bit_at (set_bit_at n bs) m \<longleftrightarrow> bit_at bs m \<or> m = n"
proof -
  assume n: "n div 8 < length bs"
  have e: "m = n \<longleftrightarrow> m div 8 = n div 8 \<and> m mod 8 = n mod 8"
    by (metis div_mult_mod_eq)
  show ?thesis
  proof (cases "m div 8 = n div 8")
    case True
    have "bit (push_bit (n mod 8) 1 :: byte) (m mod 8) \<longleftrightarrow> m mod 8 = n mod 8"
      by (auto simp: push_bit_of_1 bit_exp_iff)
    then show ?thesis
      using n e True by (simp add: bit_at_def set_bit_at_def bit_or_iff)
  next
    case False
    then show ?thesis using n e by (simp add: bit_at_def set_bit_at_def)
  qed
qed

lemma length_set_bit_at [simp]: "length (set_bit_at n bs) = length bs"
  by (simp add: set_bit_at_def)

lemma fold_set_bit:
  "\<forall>n \<in> set ns. n div 8 < length bs \<Longrightarrow>
     length (fold set_bit_at ns bs) = length bs \<and>
     (bit_at (fold set_bit_at ns bs) m \<longleftrightarrow> bit_at bs m \<or> m \<in> set ns)"
  by (induction ns arbitrary: bs) auto

lemma bloom_insert_bits:
  assumes "bloom_ok bl"
  shows "bits (bloom_insert key bl) = fold set_bit_at (map (probe bl key) [0..<unat (nhash bl)]) (bits bl)"
    and "length (bits (bloom_insert key bl)) = length (bits bl)"
    and "bit_at (bits (bloom_insert key bl)) m \<longleftrightarrow>
           bit_at (bits bl) m \<or> m \<in> probe bl key ` {0..<unat (nhash bl)}"
proof -
  show e: "bits (bloom_insert key bl) = fold set_bit_at (map (probe bl key) [0..<unat (nhash bl)]) (bits bl)"
    by (simp add: bloom_insert_def fold_map comp_def)
  have r: "\<forall>n \<in> set (map (probe bl key) [0..<unat (nhash bl)]). n div 8 < length (bits bl)"
    using probe_in_range[OF assms] by auto
  show "length (bits (bloom_insert key bl)) = length (bits bl)"
    unfolding e using fold_set_bit[OF r] by blast
  show "bit_at (bits (bloom_insert key bl)) m \<longleftrightarrow>
           bit_at (bits bl) m \<or> m \<in> probe bl key ` {0..<unat (nhash bl)}"
    unfolding e using fold_set_bit[OF r, of m] by simp
qed

lemma bloom_insert_frame [simp]:
  "nbits (bloom_insert key bl) = nbits bl" "nhash (bloom_insert key bl) = nhash bl"
  "probe (bloom_insert key bl) k i = probe bl k i"
  by (simp_all add: bloom_insert_def probe_def)

lemma bloom_ok_insert [simp]: "bloom_ok bl \<Longrightarrow> bloom_ok (bloom_insert key bl)"
  using bloom_insert_bits(2)[of bl key] by (simp add: bloom_ok_def)

lemma has_key_insert: "bloom_ok bl \<Longrightarrow> has_key (bloom_insert key bl) key"
  by (auto simp: has_key_def bloom_insert_bits(3))

lemma has_key_insert_mono: "bloom_ok bl \<Longrightarrow> has_key bl k \<Longrightarrow> has_key (bloom_insert key bl) k"
  by (auto simp: has_key_def bloom_insert_bits(3))

lemma maybe_contains_loop_true:
  assumes "bloom_ok bl" and "\<forall>i \<in> set is. bit_at (bits bl) (probe bl key i)"
  shows "maybe_contains_loop bl key is = Inr True"
  using assms(2)
proof (induction "is")
  case Nil
  then show ?case by simp
next
  case (Cons i "is")
  then show ?case
    using assms(1) probe_in_range[OF assms(1), of key i]
    by (simp add: Let_def mask_bit bit_at_def bloom_ok_def not_le)
qed

lemma maybe_contains_true: "bloom_ok bl \<Longrightarrow> has_key bl key \<Longrightarrow> maybe_contains bl key = Inr True"
  by (simp add: maybe_contains_def has_key_def maybe_contains_loop_true)

text \<open>A well-formed filter never panics.\<close>

lemma maybe_contains_loop_total: "bloom_ok bl \<Longrightarrow> \<exists>b. maybe_contains_loop bl key is = Inr b"
  using probe_in_range by (induction "is") (auto simp: Let_def bloom_ok_def not_le)

lemma maybe_contains_total: "bloom_ok bl \<Longrightarrow> \<exists>b. maybe_contains bl key = Inr b"
  by (simp add: maybe_contains_def maybe_contains_loop_total)

definition bloom_inserts :: "bytes list \<Rightarrow> bloom \<Rightarrow> bloom" where
  "bloom_inserts keys bl = fold bloom_insert keys bl"

lemma bloom_inserts_keys:
  "bloom_ok bl \<Longrightarrow> bloom_ok (bloom_inserts keys bl) \<and>
     (\<forall>k. has_key bl k \<or> k \<in> set keys \<longrightarrow> has_key (bloom_inserts keys bl) k)"
  unfolding bloom_inserts_def
  by (induction keys arbitrary: bl) (auto simp: has_key_insert has_key_insert_mono)

text \<open>
  a key inserted into the filter is reported as possibly present, whatever was
  inserted before and after it; the filter of a table never hides a record.
\<close>

theorem bloom_no_false_negative:
  assumes "key \<in> set keys" and "n \<noteq> 0"
  shows "maybe_contains (bloom_inserts keys (bloom_new n k)) key = Inr True"
proof -
  have "bloom_ok (bloom_new n k)" using assms(2) by (rule bloom_ok_new)
  then show ?thesis using bloom_inserts_keys assms(1) maybe_contains_true by blast
qed

theorem bloom_no_false_negative_witness:
  "maybe_contains (bloom_inserts [[1], [2, 3]] (bloom_new 1024 4)) [2, 3] = Inr True"
  by (rule bloom_no_false_negative) simp_all

lemma bloom_from_to_bytes [simp]: "bloom_from_bytes (bloom_to_bytes bl) = Inr bl"
proof -
  have "slice 0 4 (bloom_to_bytes bl) = u32_le (nbits bl)"
    by (rule slice_at[of _ "[]" _ "u32_le (nhash bl) @ bits bl"]) (simp_all add: bloom_to_bytes_def)
  moreover have "slice 4 8 (bloom_to_bytes bl) = u32_le (nhash bl)"
    by (rule slice_at[of _ "u32_le (nbits bl)" _ "bits bl"]) (simp_all add: bloom_to_bytes_def)
  moreover have "drop 8 (bloom_to_bytes bl) = bits bl"
    by (simp add: bloom_to_bytes_def)
  moreover have "\<not> length (bloom_to_bytes bl) < 8"
    by (simp add: bloom_to_bytes_def)
  ultimately show ?thesis by (simp add: bloom_from_bytes_def)
qed

end
