(* ===== verification/Sstable.thy ===== *)
theory Sstable
  imports Bloom
begin

text \<open>
  Sorted tables on disk (\<^verbatim>\<open>src/sstable.rs\<close>): the builder, the file layout
  \<^verbatim>\<open>[records][sparse index][bloom][footer]\<close>, the reader with its point lookup, and the lazy
  range iterator. A file is its bytes; an open file is its bytes and a read position.
\<close>

definition MAGIC :: "32 word" where "MAGIC = 0x53535442"
definition DEFAULT_SPACING :: nat where "DEFAULT_SPACING = 16"
definition FOOTER_LEN :: nat where "FOOTER_LEN = 44"

section \<open>The builder\<close>

record table_builder =
  tb_buf :: bytes
  tb_index :: bytes
  tb_spacing :: nat
  keys_since_index :: nat
  tb_num_records :: nat
  tb_bloom :: bloom
  last_key :: "bytes option"
  last_offset :: nat
  last_record_indexed :: bool

definition tb_new :: table_builder where
  "tb_new = \<lparr>tb_buf = [], tb_index = [], tb_spacing = DEFAULT_SPACING, keys_since_index = 0,
     tb_num_records = 0, tb_bloom = bloom_new 1024 4, last_key = None, last_offset = 0,
     last_record_indexed = False\<rparr>"

text \<open>An entry of the sparse index.\<close>

definition index_entry :: "bytes \<Rightarrow> nat \<Rightarrow> bytes" where
  "index_entry key offset = u32_le (as_u32 (length key)) @ key @ u64_le (word_of_nat offset)"

text \<open>The bytes of a record: lengths, the tombstone flag, the key and the value.\<close>

definition table_record :: "bytes \<Rightarrow> entry \<Rightarrow> bytes" where
  "table_record key value =
     u32_le (as_u32 (length key)) @ u32_le (as_u32 (entry_len value))
       @ [if value = None then 1 else 0] @ key @ (case value of None \<Rightarrow> [] | Some v \<Rightarrow> v)"

definition tb_add :: "bytes \<Rightarrow> entry \<Rightarrow> table_builder \<Rightarrow> table_builder" where
  "tb_add key value b =
     (let offset = length (tb_buf b);
          block_start = (keys_since_index b = 0);
          since = keys_since_index b + 1 in
      b\<lparr>tb_index := (if block_start then tb_index b @ index_entry key offset else tb_index b),
        last_record_indexed := block_start,
        keys_since_index := (if since = tb_spacing b then 0 else since),
        tb_bloom := bloom_insert key (tb_bloom b),
        last_key := Some key,
        last_offset := offset,
        tb_buf := tb_buf b @ table_record key value,
        tb_num_records := tb_num_records b + 1\<rparr>)"

text \<open>\<^verbatim>\<open>finish\<close>: the bytes of the file and the number of records.\<close>

definition tb_finish :: "table_builder \<Rightarrow> bytes \<times> nat" where
  "tb_finish b =
     (let index = (if 0 < tb_num_records b \<and> \<not> last_record_indexed b
                   then (case last_key b of None \<Rightarrow> tb_index b
                         | Some lk \<Rightarrow> tb_index b @ index_entry lk (last_offset b))
                   else tb_index b);
          bloom_bytes = bloom_to_bytes (tb_bloom b);
          index_offset = length (tb_buf b);
          index_len = as_u32 (length index);
          bloom_offset = index_offset + unat index_len;
          bloom_len = as_u32 (length bloom_bytes) in
      (tb_buf b @ index @ bloom_bytes
         @ u64_le (word_of_nat index_offset) @ u32_le index_len
         @ u64_le (word_of_nat bloom_offset) @ u32_le bloom_len
         @ u64_le (word_of_nat (tb_spacing b)) @ u64_le (word_of_nat (tb_num_records b))
         @ u32_le MAGIC,
       tb_num_records b))"

text \<open>
  \<^verbatim>\<open>build_table_from_sorted\<close> of \<^verbatim>\<open>src/compaction.rs\<close>, used by the flush and the compaction: all
  records go through one builder, in the order given.
\<close>

definition build_table_from_sorted :: "(bytes \<times> bytes option) list \<Rightarrow> bytes \<times> nat" where
  "build_table_from_sorted records = tb_finish (fold (\<lambda>(key, value). tb_add key value) records tb_new)"

section \<open>The reader\<close>

type_synonym index_entry = "bytes \<times> nat"

record shared_table =
  st_file :: bytes
  st_num_records :: nat
  st_bloom :: "bloom option"
  st_index :: "index_entry list"
  st_data_end :: nat

record table_reader =
  shared :: shared_table
  pos :: nat

text \<open>\<^verbatim>\<open>seek\<close> and \<^verbatim>\<open>read_exact\<close> at an offset of a file.\<close>

definition read_at :: "bytes \<Rightarrow> nat \<Rightarrow> nat \<Rightarrow> bytes result" where
  "read_at file off n =
     (if off + n \<le> length file then Inr (take n (drop off file)) else Inl (Io UnexpectedEof))"

text \<open>\<open>parse_index\<close> slices without checking: a malformed index panics.\<close>

function parse_index :: "bytes \<Rightarrow> index_entry list result" where
  "parse_index raw =
     (if raw = [] then Inr []
      else if length raw < 4 then Inl (Panic (str ''range end index out of range''))
      else let key_len = unat (le_u32 (take 4 raw)); raw1 = drop 4 raw in
        if length raw1 < key_len then Inl (Panic (str ''range end index out of range''))
        else let key = take key_len raw1; raw2 = drop key_len raw1 in
          if length raw2 < 8 then Inl (Panic (str ''range end index out of range''))
          else bindE (parse_index (drop 8 raw2)) (\<lambda>rest. Inr ((key, unat (le_u64 (take 8 raw2))) # rest)))"
  by pat_completeness auto
termination
  by (relation "measure length") auto

declare parse_index.simps [simp del]

definition table_open :: "bytes \<Rightarrow> table_reader result" where
  "table_open file =
     (if length file < FOOTER_LEN then Inl (InvalidFormat (str ''sstable too small''))
      else let footer = drop (length file - FOOTER_LEN) file;
               magic = le_u32 (slice 40 44 footer) in
        if magic \<noteq> MAGIC then Inl (InvalidFormat (str ''bad sstable magic''))
        else let index_offset = unat (le_u64 (slice 0 8 footer));
                 index_len = unat (le_u32 (slice 8 12 footer));
                 bloom_offset = unat (le_u64 (slice 12 20 footer));
                 bloom_len = unat (le_u32 (slice 20 24 footer));
                 num_records = unat (le_u64 (slice 32 40 footer)) in
          bindE (read_at file index_offset index_len) (\<lambda>index.
          bindE (if 0 < bloom_len
                 then bindE (read_at file bloom_offset bloom_len) (\<lambda>b.
                      bindE (bloom_from_bytes b) (\<lambda>bl. Inr (Some bl)))
                 else Inr None) (\<lambda>bloom.
          bindE (parse_index index) (\<lambda>entries.
            Inr \<lparr>shared = \<lparr>st_file = file, st_num_records = num_records, st_bloom = bloom,
                            st_index = entries, st_data_end = index_offset\<rparr>,
                 pos = (if 0 < bloom_len then bloom_offset + bloom_len else index_offset + index_len)\<rparr>))))"

definition table_fork :: "table_reader \<Rightarrow> table_reader" where
  "table_fork r = \<lparr>shared = shared r, pos = pos r\<rparr>"

definition num_records :: "table_reader \<Rightarrow> nat" where
  "num_records r = st_num_records (shared r)"

definition key_bounds :: "table_reader \<Rightarrow> (bytes \<times> bytes) option" where
  "key_bounds r = (case st_index (shared r) of
     [] \<Rightarrow> None
   | e # es \<Rightarrow> Some (fst e, fst (last (e # es))))"

definition block_offset_for :: "index_entry list \<Rightarrow> bytes \<Rightarrow> nat" where
  "block_offset_for entries key =
     (let lo = bsearch (\<lambda>mid. fst (entries ! mid) \<le> key) 0 (length entries) in
      if lo = 0 then (case entries of [] \<Rightarrow> 0 | e # _ \<Rightarrow> snd e)
      else snd (entries ! (lo - 1)))"

text \<open>\<open>read_record\<close> at a position: the record and the position after it.\<close>

definition read_table_record :: "shared_table \<Rightarrow> nat \<Rightarrow> (item option \<times> nat) result" where
  "read_table_record st p =
     (if st_data_end st \<le> p then Inr (None, p)
      else case read_at (st_file st) p 8 of
        Inl _ \<Rightarrow> Inr (None, p)
      | Inr len_buf \<Rightarrow>
          let key_len = unat (le_u32 (slice 0 4 len_buf));
              val_len = unat (le_u32 (slice 4 8 len_buf)) in
          bindE (read_at (st_file st) (p + 8) 1) (\<lambda>flags.
          let deleted = (flags ! 0 = 1) in
          bindE (read_at (st_file st) (p + 9) key_len) (\<lambda>key.
            if deleted then Inr (Some (key, None), p + 9 + key_len)
            else bindE (read_at (st_file st) (p + 9 + key_len) val_len) (\<lambda>v.
              Inr (Some (key, Some v), p + 9 + key_len + val_len)))))"

lemma read_table_record_advances:
  "read_table_record st p = Inr (Some kv, p') \<Longrightarrow> p < st_data_end st \<and> p < p'"
  by (auto simp: read_table_record_def bindE_eq_Inr Let_def split: if_splits sum.splits)

function lookup_loop :: "shared_table \<Rightarrow> bytes \<Rightarrow> nat \<Rightarrow> (entry option \<times> nat) result" where
  "lookup_loop st key p =
     (case read_table_record st p of
        Inl e \<Rightarrow> Inl e
      | Inr (None, p') \<Rightarrow> Inr (None, p')
      | Inr (Some (k, v), p') \<Rightarrow>
          (case cmp k key of
             CEqual \<Rightarrow> Inr (Some v, p')
           | CGreater \<Rightarrow> Inr (None, p')
           | CLess \<Rightarrow> lookup_loop st key p'))"
  by pat_completeness auto
termination
  by (relation "measure (\<lambda>(st, _, p). st_data_end st - p)") (auto dest!: read_table_record_advances)

declare lookup_loop.simps [simp del]

text \<open>
  \<^verbatim>\<open>lookup\<close>: \<open>Some entry\<close> where the key is present (also as a tombstone), \<open>None\<close> where it is not.
  The reader is returned with its new position.
\<close>

definition table_lookup :: "bytes \<Rightarrow> (table_reader, error, entry option) op" where
  "table_lookup key r =
     (case (case st_bloom (shared r) of None \<Rightarrow> Inr True | Some bl \<Rightarrow> maybe_contains bl key) of
        Inl e \<Rightarrow> (Inl e, r)
      | Inr False \<Rightarrow> (Inr None, r)
      | Inr True \<Rightarrow>
          let start = block_offset_for (st_index (shared r)) key in
          (case lookup_loop (shared r) key start of
             Inl e \<Rightarrow> (Inl e, r\<lparr>pos := start\<rparr>)
           | Inr (v, p) \<Rightarrow> (Inr v, r\<lparr>pos := p\<rparr>)))"

definition table_get :: "bytes \<Rightarrow> (table_reader, error, entry) op" where
  "table_get key = bindS (table_lookup key) (\<lambda>e. retS (case e of None \<Rightarrow> None | Some v \<Rightarrow> v))"

text \<open>\<^verbatim>\<open>iter\<close>: at most \<open>n\<close> records from a position.\<close>

fun iter_loop :: "shared_table \<Rightarrow> nat \<Rightarrow> nat \<Rightarrow> (item list \<times> nat) result" where
  "iter_loop st 0 p = Inr ([], p)"
| "iter_loop st (Suc n) p = bindE (read_table_record st p) (\<lambda>(rec, p').
     case rec of
       None \<Rightarrow> Inr ([], p')
     | Some kv \<Rightarrow> bindE (iter_loop st n p') (\<lambda>(kvs, q). Inr (kv # kvs, q)))"

definition table_iter_all :: "table_reader \<Rightarrow> item list result" where
  "table_iter_all r = bindE (iter_loop (shared r) (st_num_records (shared r)) 0) (\<lambda>(kvs, _). Inr kvs)"

section \<open>The range iterator\<close>

record table_iter =
  ti_reader :: table_reader
  ti_start :: "bytes option"
  ti_end :: "bytes option"
  ti_cur :: "item option option"

definition table_iter_from :: "table_reader \<Rightarrow> bytes option \<Rightarrow> bytes option \<Rightarrow> table_iter" where
  "table_iter_from r start stop =
     (let offset = (case start of
            Some s \<Rightarrow> block_offset_for (st_index (shared r)) s
          | None \<Rightarrow> (case st_index (shared r) of [] \<Rightarrow> 0 | e # _ \<Rightarrow> snd e)) in
      \<lparr>ti_reader = r\<lparr>pos := offset\<rparr>, ti_start = start, ti_end = stop, ti_cur = None\<rparr>)"

text \<open>The loop of \<open>load\<close>: the next record in \<open>[start, end)\<close> and the position after it.\<close>

function load_loop :: "shared_table \<Rightarrow> bytes option \<Rightarrow> bytes option \<Rightarrow> nat \<Rightarrow> (item option \<times> nat) result" where
  "load_loop st start stop p =
     (case read_table_record st p of
        Inl e \<Rightarrow> Inl e
      | Inr (None, p') \<Rightarrow> Inr (None, p')
      | Inr (Some (k, v), p') \<Rightarrow>
          if (case stop of Some e \<Rightarrow> e \<le> k | None \<Rightarrow> False) then Inr (None, p')
          else if (case start of Some s \<Rightarrow> k < s | None \<Rightarrow> False) then load_loop st start stop p'
          else Inr (Some (k, v), p'))"
  by pat_completeness auto
termination
  by (relation "measure (\<lambda>(st, _, _, p). st_data_end st - p)") (auto dest!: read_table_record_advances)

declare load_loop.simps [simp del]

definition ti_load :: "(table_iter, error, unit) op" where
  "ti_load t = (case load_loop (shared (ti_reader t)) (ti_start t) (ti_end t) (pos (ti_reader t)) of
     Inl e \<Rightarrow> (Inl e, t)
   | Inr (cur, p) \<Rightarrow> (Inr (), t\<lparr>ti_cur := Some cur, ti_reader := (ti_reader t)\<lparr>pos := p\<rparr>\<rparr>))"

definition ti_peek :: "(table_iter, error, item option) op" where
  "ti_peek t = (case ti_cur t of
     Some cur \<Rightarrow> (Inr cur, t)
   | None \<Rightarrow> (case ti_load t of
        (Inl e, t') \<Rightarrow> (Inl e, t')
      | (Inr _, t') \<Rightarrow> (Inr (case ti_cur t' of None \<Rightarrow> None | Some cur \<Rightarrow> cur), t')))"

definition ti_advance :: "(table_iter, error, unit) op" where
  "ti_advance = modS (\<lambda>t. t\<lparr>ti_cur := None\<rparr>)"

end
