(* ===== verification/Table.thy ===== *)
theory Table
  imports Sstable
begin

text \<open>
  Correctness of tables: the file a builder writes opens to a reader that finds exactly the
  records added, point lookups through the Bloom filter and the sparse index agree with the
  map of the records, and the range iterator yields the records of its range in order.
\<close>

section \<open>What the builder writes\<close>

definition enc_records :: "item list \<Rightarrow> bytes" where
  "enc_records rs = concat (map (\<lambda>(k, v). table_record k v) rs)"

definition rec_off :: "item list \<Rightarrow> nat \<Rightarrow> nat" where
  "rec_off rs i = length (enc_records (take i rs))"

definition indexed :: "nat \<Rightarrow> nat list" where
  "indexed n = filter (\<lambda>i. i mod 16 = 0) [0..<n]"

definition indexed_last :: "nat \<Rightarrow> nat list" where
  "indexed_last n = filter (\<lambda>i. i mod 16 = 0 \<or> Suc i = n) [0..<n]"

definition index_of :: "item list \<Rightarrow> nat list \<Rightarrow> index_entry list" where
  "index_of rs js = map (\<lambda>j. (fst (rs ! j), rec_off rs j)) js"

definition enc_index :: "index_entry list \<Rightarrow> bytes" where
  "enc_index es = concat (map (\<lambda>(k, off). index_entry k off) es)"

definition tb_adds :: "item list \<Rightarrow> table_builder" where
  "tb_adds rs = fold (\<lambda>(k, v). tb_add k v) rs tb_new"

text \<open>The bound under which no 32-bit field of the format overflows: less than 4 GiB per table.\<close>

definition table_size :: "item list \<Rightarrow> nat" where
  "table_size rs = sum_list (map (\<lambda>kv. item_size kv + 21) rs)"

definition table_ok :: "item list \<Rightarrow> bool" where
  "table_ok rs \<longleftrightarrow> ssorted (map fst rs) \<and> table_size rs < 2 ^ 32"

definition table_file :: "item list \<Rightarrow> bytes" where
  "table_file rs = fst (build_table_from_sorted rs)"

definition table_bloom :: "item list \<Rightarrow> bloom" where
  "table_bloom rs = bloom_inserts (map fst rs) (bloom_new 1024 4)"

definition table_shared :: "item list \<Rightarrow> shared_table" where
  "table_shared rs =
     \<lparr>st_file = table_file rs, st_num_records = length rs, st_bloom = Some (table_bloom rs),
      st_index = index_of rs (indexed_last (length rs)), st_data_end = length (enc_records rs)\<rparr>"

lemma enc_records_simps [simp]:
  "enc_records [] = []"
  "enc_records (kv # rs) = table_record (fst kv) (snd kv) @ enc_records rs"
  "enc_records (rs @ rs') = enc_records rs @ enc_records rs'"
  by (simp_all add: enc_records_def split: prod.split)

lemma enc_index_simps [simp]:
  "enc_index [] = []"
  "enc_index (e # es) = index_entry (fst e) (snd e) @ enc_index es"
  "enc_index (es @ es') = enc_index es @ enc_index es'"
  by (simp_all add: enc_index_def split: prod.split)

lemma index_of_simps [simp]:
  "index_of rs [] = []"
  "index_of rs (j # js) = (fst (rs ! j), rec_off rs j) # index_of rs js"
  "index_of rs (js @ js') = index_of rs js @ index_of rs js'"
  by (simp_all add: index_of_def)

lemma length_table_record: "length (table_record k v) = 9 + item_size (k, v)"
  by (cases v) (simp_all add: table_record_def item_size_def entry_len_def)

lemma rec_off_snoc: "j \<le> length rs \<Longrightarrow> rec_off (rs @ [x]) j = rec_off rs j"
  by (simp add: rec_off_def)

lemma index_of_snoc: "\<forall>j \<in> set js. j < length rs \<Longrightarrow> index_of (rs @ [x]) js = index_of rs js"
  by (auto simp: index_of_def nth_append rec_off_snoc)

lemma indexed_Suc: "indexed (Suc n) = indexed n @ (if n mod 16 = 0 then [n] else [])"
  by (simp add: indexed_def)

lemma indexed_bound: "j \<in> set (indexed n) \<Longrightarrow> j < n"
  by (simp add: indexed_def)

lemma indexed_last_eq:
  "indexed_last n = indexed n @ (if 0 < n \<and> (n - 1) mod 16 \<noteq> 0 then [n - 1] else [])"
proof (cases n)
  case 0
  then show ?thesis by (simp add: indexed_def indexed_last_def)
next
  case (Suc m)
  have "filter (\<lambda>i. i mod 16 = 0 \<or> Suc i = Suc m) [0..<m] = filter (\<lambda>i. i mod 16 = 0) [0..<m]"
    by (rule filter_cong) auto
  then show ?thesis using Suc by (simp add: indexed_last_def indexed_Suc) (simp add: indexed_def)
qed

lemma tb_adds_snoc: "tb_adds (rs @ [kv]) = tb_add (fst kv) (snd kv) (tb_adds rs)"
  by (simp add: tb_adds_def split: prod.split)

lemma tb_adds_state:
  "tb_buf (tb_adds rs) = enc_records rs \<and>
   tb_index (tb_adds rs) = enc_index (index_of rs (indexed (length rs))) \<and>
   tb_spacing (tb_adds rs) = 16 \<and>
   keys_since_index (tb_adds rs) = length rs mod 16 \<and>
   tb_num_records (tb_adds rs) = length rs \<and>
   tb_bloom (tb_adds rs) = table_bloom rs \<and>
   (rs \<noteq> [] \<longrightarrow> last_key (tb_adds rs) = Some (fst (last rs)) \<and>
      last_offset (tb_adds rs) = rec_off rs (length rs - 1) \<and>
      last_record_indexed (tb_adds rs) = ((length rs - 1) mod 16 = 0))"
proof (induction rs rule: rev_induct)
  case Nil
  then show ?case
    by (simp add: tb_adds_def tb_new_def DEFAULT_SPACING_def indexed_def table_bloom_def bloom_inserts_def)
next
  case (snoc x rs)
  have i: "index_of (rs @ [x]) (indexed (length rs)) = index_of rs (indexed (length rs))"
    by (rule index_of_snoc) (simp add: indexed_bound)
  have m: "(if Suc (length rs mod 16) = 16 then 0 else Suc (length rs mod 16)) = Suc (length rs) mod 16"
    by (simp add: mod_Suc)
  show ?case
    using snoc i m by (simp add: tb_adds_snoc tb_add_def Let_def indexed_Suc table_bloom_def
        bloom_inserts_def rec_off_snoc rec_off_def)
qed

lemma table_file_adds: "table_file rs = fst (tb_finish (tb_adds rs))"
  by (simp add: table_file_def build_table_from_sorted_def tb_adds_def)

lemma tb_finish_index:
  "table_file rs =
     (let index = enc_index (index_of rs (indexed_last (length rs)));
          bb = bloom_to_bytes (table_bloom rs);
          io = length (enc_records rs);
          il = as_u32 (length index) in
      enc_records rs @ index @ bb
        @ u64_le (word_of_nat io) @ u32_le il
        @ u64_le (word_of_nat (io + unat il)) @ u32_le (as_u32 (length bb))
        @ u64_le (word_of_nat 16) @ u64_le (word_of_nat (length rs)) @ u32_le MAGIC)"
proof (cases "rs = []")
  case True
  then show ?thesis
    using tb_adds_state[of rs] by (simp add: table_file_adds tb_finish_def Let_def indexed_last_eq)
next
  case False
  have l: "rs ! (length rs - 1) = last rs" using False by (simp add: last_conv_nth)
  show ?thesis
    using False tb_adds_state[of rs] l
    by (auto simp: table_file_adds tb_finish_def Let_def indexed_last_eq)
qed

section \<open>Sizes\<close>

lemma sum_list_filter_le: "sum_list (map f (filter P xs)) \<le> (sum_list (map f xs) :: nat)"
  by (induction xs) auto

lemma length_enc_records: "length (enc_records rs) = sum_list (map (\<lambda>kv. 9 + item_size kv) rs)"
  by (induction rs) (simp_all add: length_table_record)

lemma length_enc_index:
  "length (enc_index (index_of rs js)) = sum_list (map (\<lambda>j. 12 + length (fst (rs ! j))) js)"
  by (induction js) (simp_all add: index_entry_def)

lemma length_index_le:
  "length (enc_index (index_of rs (indexed_last (length rs)))) \<le> sum_list (map (\<lambda>kv. 12 + length (fst kv)) rs)"
proof -
  have "sum_list (map (\<lambda>j. 12 + length (fst (rs ! j))) (indexed_last (length rs))) \<le>
      sum_list (map (\<lambda>j. 12 + length (fst (rs ! j))) [0..<length rs])"
    unfolding indexed_last_def by (rule sum_list_filter_le)
  also have "map (\<lambda>j. 12 + length (fst (rs ! j))) [0..<length rs] = map (\<lambda>kv. 12 + length (fst kv)) rs"
    by (rule nth_equalityI) simp_all
  finally show ?thesis by (simp add: length_enc_index)
qed

lemma sum_list_mono_map: "(\<And>x. f x \<le> g x) \<Longrightarrow> sum_list (map f xs) \<le> (sum_list (map g xs) :: nat)"
  by (induction xs) (simp_all add: add_mono)

lemma table_size_bounds:
  assumes "table_size rs < 2 ^ 32"
  shows "length (enc_records rs) < 2 ^ 32"
    and "length (enc_index (index_of rs (indexed_last (length rs)))) < 2 ^ 32"
    and "length rs < 2 ^ 32"
proof -
  have "length (enc_records rs) \<le> table_size rs"
    unfolding length_enc_records table_size_def by (rule sum_list_mono_map) simp
  then show "length (enc_records rs) < 2 ^ 32" using assms by simp
  have "sum_list (map (\<lambda>kv. 12 + length (fst kv)) rs) \<le> table_size rs"
    unfolding table_size_def by (rule sum_list_mono_map) (simp add: item_size_def)
  then show "length (enc_index (index_of rs (indexed_last (length rs)))) < 2 ^ 32"
    using assms length_index_le[of rs] by simp
  have "length rs \<le> table_size rs"
    unfolding table_size_def by (induction rs) simp_all
  then show "length rs < 2 ^ 32" using assms by simp
qed

lemma item_in_size: "kv \<in> set rs \<Longrightarrow> item_size kv \<le> table_size rs"
  unfolding table_size_def by (induction rs) auto

lemma length_table_bloom: "length (bits (table_bloom rs)) = 128"
proof -
  have "bloom_ok bl \<Longrightarrow> length (bits (fold bloom_insert ks bl)) = length (bits bl)" for ks bl
    by (induction ks arbitrary: bl) (simp_all add: bloom_insert_bits(2))
  moreover have "bloom_ok (bloom_new 1024 4)" by (rule bloom_ok_new) simp
  ultimately show ?thesis by (simp add: table_bloom_def bloom_inserts_def bloom_new_def)
qed


section \<open>Opening\<close>

lemma parse_index_Nil [simp]: "parse_index [] = Inr []"
  by (simp add: parse_index.simps[of "[]"])

lemma parse_index_entry:
  assumes "length k < 2 ^ 32" and "off < 2 ^ 64"
  shows "parse_index (index_entry k off @ raw) = bindE (parse_index raw) (\<lambda>es. Inr ((k, off) # es))"
proof -
  let ?n = "u32_le (as_u32 (length k))" and ?o = "u64_le (word_of_nat off)"
  have "index_entry k off @ raw = ?n @ k @ ?o @ raw"
    by (simp add: index_entry_def)
  moreover have "unat (word_of_nat off :: 64 word) = off"
    using assms(2) by (simp add: unat_of_nat)
  ultimately show ?thesis
    using assms(1) by (simp add: parse_index.simps[of "?n @ k @ ?o @ raw"] Let_def)
qed

lemma parse_enc_index:
  "\<forall>e \<in> set es. length (fst e) < 2 ^ 32 \<and> snd e < 2 ^ 64 \<Longrightarrow> parse_index (enc_index es) = Inr es"
  by (induction es) (simp_all add: parse_index_entry)

lemma rec_off_le: "rec_off rs j \<le> length (enc_records rs)"
  by (metis append_take_drop_id enc_records_simps(3) le_add1 length_append rec_off_def)

lemma rec_off_length [simp]: "rec_off rs (length rs) = length (enc_records rs)" "rec_off rs 0 = 0"
  by (simp_all add: rec_off_def)

lemma item_lengths:
  assumes "table_size rs < 2 ^ 32" and "kv \<in> set rs"
  shows "length (fst kv) < 2 ^ 32" and "entry_len (snd kv) < 2 ^ 32"
  using item_in_size[OF assms(2)] assms(1) by (simp_all add: item_size_def)

lemma index_entries_ok:
  assumes "table_size rs < 2 ^ 32" and "e \<in> set (index_of rs (indexed_last (length rs)))"
  shows "length (fst e) < 2 ^ 32 \<and> snd e < 2 ^ 64"
proof -
  obtain j where j: "j < length rs" "e = (fst (rs ! j), rec_off rs j)"
    using assms(2) by (auto simp: index_of_def indexed_last_def)
  then have "length (fst e) < 2 ^ 32"
    using item_lengths[OF assms(1), of "rs ! j"] by simp
  moreover have "snd e < 2 ^ 64"
    using j rec_off_le[of rs j] table_size_bounds(1)[OF assms(1)] by simp
  ultimately show ?thesis ..
qed

text \<open>The footer fields, read back.\<close>

lemma footer_fields:
  fixes a c :: "64 word" and b d e :: "32 word"
  assumes "footer = u64_le a @ u32_le b @ u64_le c @ u32_le d @ u64_le x @ u64_le y @ u32_le e"
  shows "slice 0 8 footer = u64_le a" "slice 8 12 footer = u32_le b" "slice 12 20 footer = u64_le c"
    "slice 20 24 footer = u32_le d" "slice 32 40 footer = u64_le y" "slice 40 44 footer = u32_le e"
    "length footer = 44"
proof -
  show "slice 0 8 footer = u64_le a"
    by (rule slice_at[of _ "[]"]) (simp_all add: assms)
  show "slice 8 12 footer = u32_le b"
    by (rule slice_at[of _ "u64_le a"]) (simp_all add: assms)
  show "slice 12 20 footer = u64_le c"
    by (rule slice_at[of _ "u64_le a @ u32_le b"]) (simp_all add: assms)
  show "slice 20 24 footer = u32_le d"
    by (rule slice_at[of _ "u64_le a @ u32_le b @ u64_le c"]) (simp_all add: assms)
  show "slice 32 40 footer = u64_le y"
    by (rule slice_at[of _ "u64_le a @ u32_le b @ u64_le c @ u32_le d @ u64_le x"]) (simp_all add: assms)
  show "slice 40 44 footer = u32_le e"
    by (rule slice_at[of _ "u64_le a @ u32_le b @ u64_le c @ u32_le d @ u64_le x @ u64_le y" _ "[]"])
      (simp_all add: assms)
  show "length footer = 44" by (simp add: assms)
qed

lemma read_at_app: "off = length a \<Longrightarrow> n = length b \<Longrightarrow> read_at (a @ b @ c) off n = Inr b"
  by (simp add: read_at_def)

lemma table_open_file:
  assumes "table_size rs < 2 ^ 32"
  shows "\<exists>p. table_open (table_file rs) = Inr \<lparr>shared = table_shared rs, pos = p\<rparr>"
proof -
  define index where "index = enc_index (index_of rs (indexed_last (length rs)))"
  define bb where "bb = bloom_to_bytes (table_bloom rs)"
  define io where "io = length (enc_records rs)"
  define footer where "footer = u64_le (word_of_nat io) @ u32_le (as_u32 (length index))
      @ u64_le (word_of_nat (io + length index)) @ u32_le (as_u32 (length bb))
      @ u64_le (word_of_nat 16) @ u64_le (word_of_nat (length rs)) @ u32_le MAGIC"
  have b: "io < 2 ^ 32" "length index < 2 ^ 32" "length rs < 2 ^ 32"
    using table_size_bounds[OF assms] by (simp_all add: io_def index_def)
  have bl: "length bb = 136"
    by (simp add: bb_def bloom_to_bytes_def length_table_bloom)
  have f: "table_file rs = enc_records rs @ index @ bb @ footer"
    by (simp only: tb_finish_index Let_def index_def[symmetric] bb_def[symmetric] io_def[symmetric]
        footer_def unat_as_u32[OF b(2)])
  note ff = footer_fields[OF footer_def]
  have w: "unat (word_of_nat n :: 64 word) = n" if "n < 2 ^ 64" for n
    using that by (simp add: unat_of_nat)
  have u: "unat (word_of_nat io :: 64 word) = io" "unat (word_of_nat (io + length index) :: 64 word) = io + length index"
    "unat (word_of_nat (length rs) :: 64 word) = length rs"
    by (rule w; use b in simp)+
  note u' = u(2)[unfolded of_nat_add]
  have d: "drop (length (table_file rs) - FOOTER_LEN) (table_file rs) = footer"
    using ff(7) by (simp add: f FOOTER_LEN_def)
  have r1: "read_at (table_file rs) io (length index) = Inr index"
    using read_at_app[of io "enc_records rs" "length index" index "bb @ footer"] by (simp add: f io_def)
  have r2: "read_at (table_file rs) (io + length index) (length bb) = Inr bb"
    using read_at_app[of "io + length index" "enc_records rs @ index" "length bb" bb footer] by (simp add: f io_def)
  have pi: "parse_index index = Inr (index_of rs (indexed_last (length rs)))"
    unfolding index_def by (rule parse_enc_index) (use index_entries_ok[OF assms] in blast)
  have nl: "\<not> length (table_file rs) < FOOTER_LEN"
    using ff(7) by (simp add: f FOOTER_LEN_def)
  have ul: "unat (as_u32 (length index)) = length index" "unat (as_u32 (length bb)) = length bb"
    using b bl by (simp_all add: unat_as_u32)
  have fb: "bloom_from_bytes bb = Inr (table_bloom rs)"
    unfolding bb_def by (rule bloom_from_to_bytes)
  have pb: "0 < length bb" using bl by simp
  show ?thesis
    using nl pb by (simp add: table_open_def Let_def d ff u u' ul r1 r2 pi fb table_shared_def
        io_def[symmetric])
qed

section \<open>Reading records\<close>

lemma nth_enc_records:
  assumes "i < length rs"
  shows "enc_records rs = enc_records (take i rs) @ table_record (fst (rs ! i)) (snd (rs ! i)) @ enc_records (drop (Suc i) rs)"
proof -
  have "rs = take i rs @ rs ! i # drop (Suc i) rs"
    using assms by (rule id_take_nth_drop)
  then show ?thesis by (metis enc_records_simps(2,3))
qed

lemma rec_off_Suc:
  "i < length rs \<Longrightarrow> rec_off rs (Suc i) = rec_off rs i + length (table_record (fst (rs ! i)) (snd (rs ! i)))"
  by (simp add: rec_off_def take_Suc_conv_app_nth)

lemma rec_off_less: "i < length rs \<Longrightarrow> rec_off rs i < length (enc_records rs)"
  using rec_off_le[of rs "Suc i"] by (simp add: rec_off_Suc length_table_record)

lemma read_table_record_at:
  assumes f: "st_file st = a @ table_record k v @ c" and p: "p = length a" and e: "p < st_data_end st"
    and "length k < 2 ^ 32" and "entry_len v < 2 ^ 32"
  shows "read_table_record st p = Inr (Some (k, v), p + length (table_record k v))"
proof -
  let ?n = "u32_le (as_u32 (length k))" and ?m = "u32_le (as_u32 (entry_len v))"
  let ?fl = "[if v = None then 1 else 0 :: byte]" and ?v = "case v of None \<Rightarrow> [] | Some b \<Rightarrow> b"
  have le: "entry_len v = length ?v"
    by (simp add: entry_len_def split: option.split)
  have f': "st_file st = a @ ?n @ ?m @ ?fl @ k @ ?v @ c"
    by (simp add: f table_record_def)
  have "read_at (st_file st) p 8 = Inr (?n @ ?m)"
    using read_at_app[of p a 8 "?n @ ?m" "?fl @ k @ ?v @ c"] p by (simp add: f')
  moreover have "read_at (st_file st) (p + 8) 1 = Inr ?fl"
    using read_at_app[of "p + 8" "a @ ?n @ ?m" 1 ?fl "k @ ?v @ c"] p by (simp add: f')
  moreover have "read_at (st_file st) (p + 9) (length k) = Inr k"
    using read_at_app[of "p + 9" "a @ ?n @ ?m @ ?fl" "length k" k "?v @ c"] p by (simp add: f')
  moreover have "read_at (st_file st) (p + 9 + length k) (entry_len v) = Inr ?v"
    using read_at_app[of "p + 9 + length k" "a @ ?n @ ?m @ ?fl @ k" "entry_len v" ?v c] p
    by (simp add: f' le)
  moreover have "slice 0 4 (?n @ ?m) = ?n" "slice 4 8 (?n @ ?m) = ?m"
    by (simp_all add: slice_def)
  ultimately show ?thesis
    using e assms(4,5)
    by (cases v) (simp_all add: read_table_record_def Let_def entry_len_def length_table_record item_size_def)
qed

lemma table_file_prefix: "\<exists>c. table_file rs = enc_records rs @ c"
  by (simp add: tb_finish_index Let_def)

lemma read_table_record_nth:
  assumes "table_size rs < 2 ^ 32" and "i < length rs"
  shows "read_table_record (table_shared rs) (rec_off rs i) = Inr (Some (rs ! i), rec_off rs (Suc i))"
proof -
  obtain c where c: "table_file rs = enc_records rs @ c"
    using table_file_prefix by blast
  have "st_file (table_shared rs) = enc_records (take i rs) @
      table_record (fst (rs ! i)) (snd (rs ! i)) @ enc_records (drop (Suc i) rs) @ c"
    using c nth_enc_records[OF assms(2)] by (simp add: table_shared_def)
  moreover have "rec_off rs i < st_data_end (table_shared rs)"
    using rec_off_less[OF assms(2)] by (simp add: table_shared_def)
  ultimately show ?thesis
    using read_table_record_at[of "table_shared rs" "enc_records (take i rs)"]
      item_lengths[OF assms(1), of "rs ! i"] assms(2) rec_off_Suc[OF assms(2)]
    by (simp add: rec_off_def)
qed

lemma read_table_record_end:
  "read_table_record (table_shared rs) (length (enc_records rs)) = Inr (None, length (enc_records rs))"
  by (simp add: read_table_record_def table_shared_def)


section \<open>Point lookups\<close>

lemma map_of_drop:
  assumes "i < length rs"
  shows "map_of (drop i rs) key = (if fst (rs ! i) = key then Some (snd (rs ! i)) else map_of (drop (Suc i) rs) key)"
proof -
  have "drop i rs = rs ! i # drop (Suc i) rs"
    using assms by (rule Cons_nth_drop_Suc[symmetric])
  then show ?thesis by (cases "rs ! i") simp
qed

lemma keys_increasing: "ssorted (map fst rs) \<Longrightarrow> i < j \<Longrightarrow> j < length rs \<Longrightarrow> fst (rs ! i) < fst (rs ! j)"
  using sorted_wrt_nth_less[of "(<)" "map fst rs" i j] by simp

lemma map_of_later:
  fixes rs :: "item list"
  assumes "ssorted (map fst rs)" and "i < length rs" and "key < fst (rs ! i)"
  shows "map_of (drop i rs) key = None"
proof -
  have "fst kv \<noteq> key" if kv: "kv \<in> set (drop i rs)" for kv
  proof -
    obtain j where j: "j < length rs - i" "kv = rs ! (i + j)"
      using kv by (auto simp: in_set_conv_nth)
    have "fst (rs ! i) \<le> fst (rs ! (i + j))"
      using keys_increasing[OF assms(1), of i "i + j"] j(1) by (cases "j = 0") (auto intro: less_imp_le)
    then show ?thesis using j(2) assms(3) by auto
  qed
  then show ?thesis by (auto simp: map_of_eq_None_iff)
qed

lemma map_of_earlier:
  fixes rs :: "item list"
  assumes "\<And>i. i < j \<Longrightarrow> fst (rs ! i) < key" and "j \<le> length rs"
  shows "map_of rs key = map_of (drop j rs) key"
proof -
  have "map_of (take j rs) key = None"
  proof -
    have "fst kv \<noteq> key" if kv: "kv \<in> set (take j rs)" for kv
    proof -
      obtain i where "i < j" "kv = rs ! i"
        using kv by (auto simp: in_set_conv_nth)
      then show ?thesis using assms(1)[of i] by auto
    qed
    then show ?thesis by (auto simp: map_of_eq_None_iff)
  qed
  then have "(map_of (drop j rs) ++ map_of (take j rs)) key = map_of (drop j rs) key"
    by (simp add: map_add_def)
  then show ?thesis by (simp flip: map_of_append)
qed

lemma lookup_loop_from:
  assumes "table_ok rs" and "i \<le> length rs"
  shows "\<exists>p. lookup_loop (table_shared rs) key (rec_off rs i) = Inr (map_of (drop i rs) key, p)"
  using assms(2)
proof (induction "length rs - i" arbitrary: i)
  case 0
  then have "i = length rs" by simp
  then show ?case
    by (simp add: lookup_loop.simps[of "table_shared rs"] read_table_record_end)
next
  case (Suc n)
  then have i: "i < length rs" by simp
  have srt: "ssorted (map fst rs)" and sz: "table_size rs < 2 ^ 32"
    using assms(1) by (simp_all add: table_ok_def)
  obtain k v where kv: "rs ! i = (k, v)" by (cases "rs ! i")
  have rd: "read_table_record (table_shared rs) (rec_off rs i) = Inr (Some (k, v), rec_off rs (Suc i))"
    using read_table_record_nth[OF sz i] kv by simp
  show ?case
  proof (cases "cmp k key")
    case CLess
    then have "map_of (drop i rs) key = map_of (drop (Suc i) rs) key"
      using map_of_drop[OF i, of key] kv by auto
    moreover obtain p where "lookup_loop (table_shared rs) key (rec_off rs (Suc i)) =
        Inr (map_of (drop (Suc i) rs) key, p)"
      using Suc.hyps(1)[of "Suc i"] Suc.hyps(2) i by (metis Suc_diff_Suc Suc_inject Suc_leI)
    ultimately show ?thesis
      using rd CLess by (simp add: lookup_loop.simps[of "table_shared rs" key "rec_off rs i"] del: cmp_simps)
  next
    case CEqual
    then have "k = key" by simp
    then show ?thesis
      using rd map_of_drop[OF i, of key] kv
      by (simp add: cmp_def lookup_loop.simps[of "table_shared rs" key "rec_off rs i"])
  next
    case CGreater
    then have "map_of (drop i rs) key = None"
      using map_of_later[OF srt i, of key] kv by simp
    then show ?thesis
      using rd CGreater
      by (simp add: lookup_loop.simps[of "table_shared rs" key "rec_off rs i"] del: cmp_simps)
  qed
qed

lemma indexed_last_props:
  "j \<in> set (indexed_last n) \<Longrightarrow> j < n"
  "sorted_wrt (<) (indexed_last n)"
  by (auto simp: indexed_last_def sorted_wrt_filter)

lemma indexed_last_hd: "0 < n \<Longrightarrow> \<exists>js. indexed_last n = 0 # js"
  by (auto simp: indexed_last_def upt_conv_Cons)

text \<open>The block a key is looked for in starts at a record before which all keys are smaller.\<close>

lemma block_offset_for_rec:
  assumes "ssorted (map fst rs)"
  shows "\<exists>j \<le> length rs. block_offset_for (index_of rs (indexed_last (length rs))) key = rec_off rs j \<and>
     (\<forall>i < j. fst (rs ! i) < key)"
proof -
  let ?js = "indexed_last (length rs)" and ?es = "index_of rs (indexed_last (length rs))"
  let ?p = "\<lambda>m. fst (?es ! m) \<le> key"
  define lo where "lo = bsearch ?p 0 (length ?es)"
  have nth: "?es ! m = (fst (rs ! (?js ! m)), rec_off rs (?js ! m))" if "m < length ?js" for m
    using that by (simp add: index_of_def)
  have len: "length ?es = length ?js" by (simp add: index_of_def)
  have jb: "?js ! m < length rs" if "m < length ?js" for m
    using indexed_last_props(1) nth_mem[OF that] by blast
  have mono: "?p i" if "i \<le> j" "j < length ?es" "?p j" for i j
  proof (cases "i = j")
    case False
    then have "?js ! i < ?js ! j"
      using that len sorted_wrt_nth_less[OF indexed_last_props(2)[of "length rs"], of i j] by simp
    then have "fst (rs ! (?js ! i)) < fst (rs ! (?js ! j))"
      using keys_increasing[OF assms] jb that(2) len by simp
    then show ?thesis using that nth len by (simp add: le_less_trans less_imp_le)
  qed (use that in simp)
  have lo: "lo \<le> length ?es" "\<And>i. i < lo \<Longrightarrow> ?p i"
  proof -
    have "0 \<le> lo \<and> lo \<le> length ?es \<and> (\<forall>i. 0 \<le> i \<longrightarrow> i < lo \<longrightarrow> ?p i) \<and>
        (\<forall>i. lo \<le> i \<longrightarrow> i < length ?es \<longrightarrow> \<not> ?p i)"
      unfolding lo_def by (rule bsearch_partition) (simp, rule mono)
    then show "lo \<le> length ?es" "\<And>i. i < lo \<Longrightarrow> ?p i" by blast+
  qed
  have bo: "block_offset_for ?es key =
      (if lo = 0 then (case ?es of [] \<Rightarrow> 0 | e # _ \<Rightarrow> snd e) else snd (?es ! (lo - 1)))"
    by (simp only: block_offset_for_def lo_def Let_def)
  show ?thesis
  proof (cases "lo = 0")
    case True
    have "(case ?es of [] \<Rightarrow> 0 | e # _ \<Rightarrow> snd e) = 0"
    proof (cases "length rs")
      case 0
      then show ?thesis by (simp add: indexed_last_def)
    next
      case (Suc n)
      then obtain js where "?js = 0 # js" using indexed_last_hd[of "length rs"] by auto
      then show ?thesis by simp
    qed
    with True bo have "block_offset_for ?es key = 0" by simp
    then show ?thesis by (intro exI[of _ 0]) simp
  next
    case False
    let ?j = "?js ! (lo - 1)"
    have l: "lo - 1 < length ?js" using False lo(1) len by simp
    have "fst (rs ! ?j) \<le> key" using lo(2)[of "lo - 1"] False nth[OF l] by simp
    then have "fst (rs ! i) < key" if "i < ?j" for i
      using keys_increasing[OF assms that jb[OF l]] by simp
    moreover have "block_offset_for ?es key = rec_off rs ?j"
      using False nth[OF l] bo by simp
    ultimately show ?thesis using jb[OF l] by (intro exI[of _ ?j]) simp
  qed
qed

lemma table_bloom_key:
  assumes "key \<in> fst ` set rs"
  shows "maybe_contains (table_bloom rs) key = Inr True"
proof -
  have "bloom_ok (bloom_new 1024 4)" by (rule bloom_ok_new) simp
  then show ?thesis
    using bloom_inserts_keys[of "bloom_new 1024 4" "map fst rs"] assms maybe_contains_true
    by (auto simp: table_bloom_def)
qed

lemma table_bloom_total: "\<exists>b. maybe_contains (table_bloom rs) key = Inr b"
proof -
  have "bloom_ok (bloom_new 1024 4)" by (rule bloom_ok_new) simp
  then show ?thesis
    using bloom_inserts_keys[of "bloom_new 1024 4" "map fst rs"] maybe_contains_total
    by (auto simp: table_bloom_def)
qed

lemma table_lookup_shared:
  assumes "table_ok rs" and "shared r = table_shared rs"
  shows "\<exists>p. table_lookup key r = (Inr (map_of rs key), r\<lparr>pos := p\<rparr>)"
proof -
  obtain b where b: "maybe_contains (table_bloom rs) key = Inr b"
    using table_bloom_total by blast
  have st: "st_bloom (shared r) = Some (table_bloom rs)"
      "st_index (shared r) = index_of rs (indexed_last (length rs))"
    using assms(2) by (simp_all add: table_shared_def)
  show ?thesis
  proof (cases b)
    case False
    then have "map_of rs key = None"
      using b table_bloom_key[of key rs] by (auto simp: map_of_eq_None_iff)
    then show ?thesis using b False st by (intro exI[of _ "pos r"]) (simp add: table_lookup_def)
  next
    case True
    have srt: "ssorted (map fst rs)" using assms(1) by (simp add: table_ok_def)
    obtain j where j: "j \<le> length rs" "block_offset_for (st_index (shared r)) key = rec_off rs j"
        "\<forall>i < j. fst (rs ! i) < key"
      using block_offset_for_rec[OF srt, of key] st by auto
    obtain p where "lookup_loop (shared r) key (rec_off rs j) = Inr (map_of (drop j rs) key, p)"
      using lookup_loop_from[OF assms(1) j(1)] assms(2) by auto
    moreover have "map_of (drop j rs) key = map_of rs key"
      using map_of_earlier[of j rs key] j by simp
    ultimately show ?thesis
      using b True st j(2) by (intro exI[of _ p]) (simp add: table_lookup_def Let_def)
  qed
qed


lemma table_iter_all_shared:
  assumes "table_ok rs" and "shared r = table_shared rs"
  shows "table_iter_all r = Inr rs"
proof -
  have "iter_loop (table_shared rs) (length rs - i) (rec_off rs i) = Inr (drop i rs, length (enc_records rs))"
    if "i \<le> length rs" for i
    using that
  proof (induction "length rs - i" arbitrary: i)
    case 0
    then have "i = length rs" by simp
    then show ?case by simp
  next
    case (Suc n)
    then have i: "i < length rs" and n: "n = length rs - Suc i" by simp_all
    have "iter_loop (table_shared rs) (length rs - Suc i) (rec_off rs (Suc i)) =
        Inr (drop (Suc i) rs, length (enc_records rs))"
      using Suc.hyps(1)[OF n] i by simp
    then show ?case
      using Suc.hyps(2)[symmetric] n read_table_record_nth[of rs i] i assms(1) Cons_nth_drop_Suc[OF i]
      by (simp add: table_ok_def)
  qed
  from this[of 0] show ?thesis
    using assms(2) by (simp add: table_iter_all_def) (simp add: table_shared_def)
qed

lemma key_bounds_shared:
  assumes "shared r = table_shared rs" and "rs \<noteq> []"
  shows "key_bounds r = Some (fst (hd rs), fst (last rs))"
proof -
  let ?js = "indexed_last (length rs)"
  obtain js where js: "?js = 0 # js" using indexed_last_hd[of "length rs"] assms(2) by auto
  have "last ?js = length rs - 1"
    using assms(2) by (cases "length rs") (simp_all add: indexed_last_eq indexed_Suc)
  moreover have "fst (last (index_of rs ?js)) = fst (rs ! last ?js)"
    using js by (simp add: index_of_def last_map)
  ultimately have "fst (last (index_of rs ?js)) = fst (last rs)"
    using assms(2) last_conv_nth[of rs] by simp
  then show ?thesis
    using js assms by (simp add: key_bounds_def table_shared_def hd_conv_nth)
qed

section \<open>The range iterator\<close>

abbreviation items_in :: "bytes option \<Rightarrow> bytes option \<Rightarrow> item list \<Rightarrow> item list" where
  "items_in start stop rs \<equiv> filter (\<lambda>(k, _). in_range start stop k) rs"

lemma load_loop_from:
  assumes "table_ok rs" and "i \<le> length rs"
  shows "(items_in start stop (drop i rs) = [] \<and>
           (\<exists>p. load_loop (table_shared rs) start stop (rec_off rs i) = Inr (None, p))) \<or>
     (\<exists>j. j < length rs \<and> load_loop (table_shared rs) start stop (rec_off rs i) = Inr (Some (rs ! j), rec_off rs (Suc j)) \<and>
        items_in start stop (drop i rs) = rs ! j # items_in start stop (drop (Suc j) rs))"
  using assms(2)
proof (induction "length rs - i" arbitrary: i)
  case 0
  then have "i = length rs" by simp
  then show ?case
    by (simp add: load_loop.simps[of "table_shared rs"] read_table_record_end)
next
  case (Suc n)
  then have i: "i < length rs" and n: "n = length rs - Suc i" by simp_all
  have srt: "ssorted (map fst rs)" and sz: "table_size rs < 2 ^ 32"
    using assms(1) by (simp_all add: table_ok_def)
  obtain k v where kv: "rs ! i = (k, v)" by (cases "rs ! i")
  have rd: "read_table_record (table_shared rs) (rec_off rs i) = Inr (Some (k, v), rec_off rs (Suc i))"
    using read_table_record_nth[OF sz i] kv by simp
  note step = load_loop.simps[of "table_shared rs" start stop "rec_off rs i"]
  have dr: "drop i rs = (k, v) # drop (Suc i) rs"
    using Cons_nth_drop_Suc[OF i] kv by simp
  show ?case
  proof (cases "\<exists>e. stop = Some e \<and> e \<le> k")
    case True
    then obtain e where e: "stop = Some e" "e \<le> k" by blast
    have "\<not> fst kv < e" if "kv \<in> set (drop i rs)" for kv
    proof -
      have "ssorted (map fst (drop i rs))"
        using srt by (simp flip: drop_map)
      then have "k \<le> fst kv" using that dr by (auto intro: less_imp_le)
      then show ?thesis using e(2) by simp
    qed
    then have "items_in start stop (drop i rs) = []"
      using e(1) by (auto simp: filter_empty_conv in_range_def)
    moreover have "load_loop (table_shared rs) start stop (rec_off rs i) = Inr (None, rec_off rs (Suc i))"
      unfolding step using e by (simp add: rd)
    ultimately show ?thesis by blast
  next
    case stop: False
    show ?thesis
    proof (cases "\<exists>s. start = Some s \<and> k < s")
      case True
      then have "items_in start stop (drop i rs) = items_in start stop (drop (Suc i) rs)"
        by (auto simp: dr in_range_def)
      moreover have "load_loop (table_shared rs) start stop (rec_off rs i) =
          load_loop (table_shared rs) start stop (rec_off rs (Suc i))"
        unfolding step using True stop by (auto simp: rd split: option.split)
      ultimately show ?thesis using Suc.hyps(1)[OF n] i by simp
    next
      case False
      then have "in_range start stop k"
        using stop by (auto simp: in_range_def not_less not_le split: option.split)
      then show ?thesis
        using False stop i kv by (intro disjI2 exI[of _ i]) (auto simp: dr step rd split: option.split)
    qed
  qed
qed

definition ti_view :: "table_iter \<Rightarrow> item list \<Rightarrow> bool" where
  "ti_view t xs \<longleftrightarrow> (\<exists>rs. table_ok rs \<and> shared (ti_reader t) = table_shared rs \<and>
     (case ti_cur t of
        Some None \<Rightarrow> xs = []
      | None \<Rightarrow> \<exists>i \<le> length rs. pos (ti_reader t) = rec_off rs i \<and>
          xs = items_in (ti_start t) (ti_end t) (drop i rs)
      | Some (Some kv) \<Rightarrow> \<exists>i \<le> length rs. pos (ti_reader t) = rec_off rs i \<and>
          xs = kv # items_in (ti_start t) (ti_end t) (drop i rs)))"

lemma ti_peek_view:
  assumes "ti_view t xs"
  shows "\<exists>t'. ti_peek t = (Inr (head_opt xs), t') \<and> ti_view t' xs \<and> ti_cur t' \<noteq> None"
proof -
  obtain rs where rs: "table_ok rs" "shared (ti_reader t) = table_shared rs"
    and c: "case ti_cur t of
        Some None \<Rightarrow> xs = []
      | None \<Rightarrow> \<exists>i \<le> length rs. pos (ti_reader t) = rec_off rs i \<and>
          xs = items_in (ti_start t) (ti_end t) (drop i rs)
      | Some (Some kv) \<Rightarrow> \<exists>i \<le> length rs. pos (ti_reader t) = rec_off rs i \<and>
          xs = kv # items_in (ti_start t) (ti_end t) (drop i rs)"
    using assms unfolding ti_view_def by blast
  show ?thesis
  proof (cases "ti_cur t")
    case (Some cur)
    then have "ti_peek t = (Inr (head_opt xs), t)"
      using c by (cases cur) (auto simp: ti_peek_def head_opt_def)
    then show ?thesis using assms Some by blast
  next
    case None
    then obtain i where i: "i \<le> length rs" "pos (ti_reader t) = rec_off rs i"
        "xs = items_in (ti_start t) (ti_end t) (drop i rs)"
      using c by auto
    from load_loop_from[OF rs(1) i(1), of "ti_start t" "ti_end t"] show ?thesis
    proof (elim disjE exE conjE)
      fix p assume "items_in (ti_start t) (ti_end t) (drop i rs) = []"
        and "load_loop (table_shared rs) (ti_start t) (ti_end t) (rec_off rs i) = Inr (None, p)"
      then show ?thesis using None rs i by (auto simp: ti_peek_def ti_load_def ti_view_def head_opt_def)
    next
      fix j assume "j < length rs"
        and "load_loop (table_shared rs) (ti_start t) (ti_end t) (rec_off rs i) = Inr (Some (rs ! j), rec_off rs (Suc j))"
        and "items_in (ti_start t) (ti_end t) (drop i rs) = rs ! j # items_in (ti_start t) (ti_end t) (drop (Suc j) rs)"
      then show ?thesis using None rs i
        by (auto simp: ti_peek_def ti_load_def ti_view_def head_opt_def intro!: exI[of _ rs] exI[of _ "Suc j"])
    qed
  qed
qed

lemma ti_advance_view:
  assumes "ti_view t (x # xs)" and "ti_cur t \<noteq> None"
  shows "\<exists>t'. ti_advance t = (Inr (), t') \<and> ti_view t' xs"
proof -
  obtain cur where cur: "ti_cur t = Some cur" using assms(2) by blast
  then obtain kv where "cur = Some kv" using assms(1) by (cases cur) (auto simp: ti_view_def)
  then show ?thesis using cur assms(1) by (auto simp: ti_view_def ti_advance_def)
qed

text \<open>An iterator that starts in the block of the lower bound skips no record of the range.\<close>

lemma table_iter_from_view:
  assumes "table_ok rs" and "shared r = table_shared rs"
  shows "ti_view (table_iter_from r start stop) (items_in start stop rs)"
proof -
  have srt: "ssorted (map fst rs)" using assms(1) by (simp add: table_ok_def)
  have idx: "st_index (shared r) = index_of rs (indexed_last (length rs))"
    using assms(2) by (simp add: table_shared_def)
  have "\<exists>j \<le> length rs. (case start of
            Some s \<Rightarrow> block_offset_for (st_index (shared r)) s
          | None \<Rightarrow> (case st_index (shared r) of [] \<Rightarrow> 0 | e # _ \<Rightarrow> snd e)) = rec_off rs j \<and>
      (\<forall>i < j. case start of None \<Rightarrow> False | Some s \<Rightarrow> fst (rs ! i) < s)"
  proof (cases start)
    case None
    have "(case index_of rs (indexed_last (length rs)) of [] \<Rightarrow> 0 | e # _ \<Rightarrow> snd e) = 0"
    proof (cases "length rs")
      case 0
      then show ?thesis by (simp add: indexed_last_def)
    next
      case (Suc n)
      then obtain js where "indexed_last (length rs) = 0 # js" using indexed_last_hd[of "length rs"] by auto
      then show ?thesis by simp
    qed
    then show ?thesis using None idx by (intro exI[of _ 0]) simp
  next
    case (Some s)
    then show ?thesis using block_offset_for_rec[OF srt, of s] idx by simp
  qed
  then obtain j where j: "j \<le> length rs" "(case start of
            Some s \<Rightarrow> block_offset_for (st_index (shared r)) s
          | None \<Rightarrow> (case st_index (shared r) of [] \<Rightarrow> 0 | e # _ \<Rightarrow> snd e)) = rec_off rs j"
      "\<forall>i < j. case start of None \<Rightarrow> False | Some s \<Rightarrow> fst (rs ! i) < s" by blast
  have "items_in start stop (take j rs) = []"
    using j(3) by (force simp: filter_empty_conv in_set_conv_nth in_range_def split: option.splits)
  then have "items_in start stop (take j rs @ drop j rs) = items_in start stop (drop j rs)"
    by (simp only: filter_append append_Nil)
  then have "items_in start stop rs = items_in start stop (drop j rs)" by simp
  then show ?thesis
    using assms j by (auto simp: ti_view_def table_iter_from_def Let_def)
qed

section \<open>Properties\<close>

text \<open>
  The state of a reader just opened on the file built from \<open>rs\<close>; the other facts are about every
  reader of that file, whatever its position.
\<close>

lemma table_open_reader:
  assumes "table_ok rs"
  obtains r where "table_open (table_file rs) = Inr r" and "shared r = table_shared rs"
proof -
  have "table_size rs < 2 ^ 32" using assms by (simp add: table_ok_def)
  then obtain p where "table_open (table_file rs) = Inr \<lparr>shared = table_shared rs, pos = p\<rparr>"
    using table_open_file by blast
  then show thesis by (intro that) auto
qed

lemma build_num_records: "snd (build_table_from_sorted rs) = length rs"
  using tb_adds_state[of rs] by (simp add: build_table_from_sorted_def tb_adds_def tb_finish_def Let_def)

text \<open>
  C30: The file written from strictly sorted records (of less than 4 GiB) opens, and a
  point lookup through its Bloom filter and sparse index returns what the records say: the value or the
  tombstone of a key that was added, and \<^verbatim>\<open>None\<close> for every other key.
\<close>

theorem table_lookup_correct:
  assumes "table_ok rs"
  shows "\<exists>r. table_open (fst (build_table_from_sorted rs)) = Inr r \<and>
     num_records r = snd (build_table_from_sorted rs) \<and>
     (\<forall>key. fst (table_lookup key r) = Inr (map_of rs key))"
proof -
  obtain r where r: "table_open (table_file rs) = Inr r" "shared r = table_shared rs"
    using table_open_reader[OF assms] by blast
  have "fst (table_lookup key r) = Inr (map_of rs key)" for key
    using table_lookup_shared[OF assms r(2), of key] by auto
  then show ?thesis
    using r build_num_records[of rs] by (auto simp: table_file_def num_records_def table_shared_def)
qed

definition sample_records :: "item list" where
  "sample_records = [(str ''a'', Some (str ''1'')), (str ''b'', None), (str ''c'', Some (str ''3''))]"

lemma sample_records_ok: "table_ok sample_records"
  by (simp add: table_ok_def sample_records_def table_size_def item_size_def entry_len_def str_def)

theorem table_lookup_correct_witness:
  "\<exists>r. table_open (fst (build_table_from_sorted sample_records)) = Inr r \<and>
     num_records r = 3 \<and> fst (table_lookup (str ''b'') r) = Inr (Some None) \<and>
     fst (table_lookup (str ''z'') r) = Inr None"
proof -
  obtain r where "table_open (fst (build_table_from_sorted sample_records)) = Inr r"
      "num_records r = snd (build_table_from_sorted sample_records)"
      "\<forall>key. fst (table_lookup key r) = Inr (map_of sample_records key)"
    using table_lookup_correct[OF sample_records_ok] by blast
  then show ?thesis
    by (auto simp: build_num_records) (auto simp: sample_records_def str_def)
qed

text \<open>
  The bounds read from the sparse index of a file just written are the first and the
  last key of its records, for every number of records (also for a multiple of the index spacing), and
  reading all records gives back the list the table was built from.
\<close>

theorem table_bounds_exact:
  assumes "table_ok rs" and "rs \<noteq> []"
  shows "\<exists>r. table_open (fst (build_table_from_sorted rs)) = Inr r \<and>
     key_bounds r = Some (fst (hd rs), fst (last rs)) \<and> table_iter_all r = Inr rs"
proof -
  obtain r where r: "table_open (table_file rs) = Inr r" "shared r = table_shared rs"
    using table_open_reader[OF assms(1)] by blast
  then show ?thesis
    using key_bounds_shared[OF r(2) assms(2)] table_iter_all_shared[OF assms(1) r(2)]
    by (auto simp: table_file_def)
qed

theorem table_bounds_exact_witness:
  "\<exists>r. table_open (fst (build_table_from_sorted sample_records)) = Inr r \<and>
     key_bounds r = Some (str ''a'', str ''c'') \<and> table_iter_all r = Inr sample_records"
  using table_bounds_exact[OF sample_records_ok] by (simp add: sample_records_def)

end
