(* ===== verification/Iterator.thy ===== *)
theory Iterator
  imports Table
begin

text \<open>
  The lazy k-way merge (\<^verbatim>\<open>src/iterator.rs\<close>): the sorted sources, the heap of cursors, one step of
  the merge with its shadowing of older sources, and its collection. The trait \<^verbatim>\<open>ScanSource\<close> is the
  locale \<open>sorted_source\<close>, whose laws the two implementations of the trait satisfy.
\<close>

section \<open>Sources\<close>

record vec_source =
  vs_items :: "item list"
  vs_pos :: nat

definition vs_new :: "item list \<Rightarrow> vec_source" where
  "vs_new items = \<lparr>vs_items = items, vs_pos = 0\<rparr>"

definition vs_subrange :: "item list \<Rightarrow> bytes option \<Rightarrow> bytes option \<Rightarrow> vec_source" where
  "vs_subrange items start stop =
     vs_new (filter (\<lambda>(k, _). (case start of None \<Rightarrow> True | Some s \<Rightarrow> s \<le> k) \<and>
                             (case stop of None \<Rightarrow> True | Some e \<Rightarrow> k < e)) items)"

definition vs_peek :: "(vec_source, error, item option) op" where
  "vs_peek = getS (\<lambda>s. if vs_pos s < length (vs_items s) then Some (vs_items s ! vs_pos s) else None)"

definition vs_advance :: "(vec_source, error, unit) op" where
  "vs_advance = modS (\<lambda>s. s\<lparr>vs_pos := vs_pos s + 1\<rparr>)"

text \<open>A \<^verbatim>\<open>Box<dyn ScanSource>\<close>: one of the two implementations, with dynamic dispatch.\<close>

datatype scan_source = SVec vec_source | STab table_iter

fun source_peek :: "(scan_source, error, item option) op" where
  "source_peek (SVec v) = (case vs_peek v of (r, v') \<Rightarrow> (r, SVec v'))"
| "source_peek (STab t) = (case ti_peek t of (r, t') \<Rightarrow> (r, STab t'))"

fun source_advance :: "(scan_source, error, unit) op" where
  "source_advance (SVec v) = (case vs_advance v of (r, v') \<Rightarrow> (r, SVec v'))"
| "source_advance (STab t) = (case ti_advance t of (r, t') \<Rightarrow> (r, STab t'))"

text \<open>
  \<^verbatim>\<open>memtable_source\<close>: an empty interval is answered before \<^verbatim>\<open>BTreeMap::range\<close>, which would panic on
  a reversed one.
\<close>

definition memtable_source :: "memtable \<Rightarrow> bytes option \<Rightarrow> bytes option \<Rightarrow> vec_source result" where
  "memtable_source m start stop =
     (if (case (start, stop) of (Some s, Some e) \<Rightarrow> e \<le> s | _ \<Rightarrow> False) then Inr (vs_new [])
      else bindE (mt_range m start stop) (\<lambda>items. Inr (vs_new items)))"

section \<open>The merge\<close>

text \<open>
  A heap entry is the current key of a source and its index. Rust's \<^verbatim>\<open>BinaryHeap\<close> is the list of its
  entries, the greatest under \<^verbatim>\<open>Ord for HeapEntry\<close> first: the smallest key, then the smallest index.
\<close>

type_synonym heap_entry = "bytes \<times> nat"

definition heap_cmp :: "heap_entry \<Rightarrow> heap_entry \<Rightarrow> cmp_result" where
  "heap_cmp a b = cmp_then (cmp (fst b) (fst a)) (cmp (snd b) (snd a))"

fun heap_push :: "heap_entry \<Rightarrow> heap_entry list \<Rightarrow> heap_entry list" where
  "heap_push e [] = [e]"
| "heap_push e (x # h) = (if heap_cmp e x = CGreater then e # x # h else x # heap_push e h)"

record merge_iter =
  mi_sources :: "scan_source list"
  mi_heap :: "heap_entry list"
  mi_primed :: bool

definition mi_new :: "scan_source list \<Rightarrow> merge_iter" where
  "mi_new sources = \<lparr>mi_sources = sources, mi_heap = [], mi_primed = False\<rparr>"

text \<open>An operation on \<^verbatim>\<open>self.sources[idx]\<close>.\<close>

definition on_source :: "nat \<Rightarrow> (scan_source, error, 'a) op \<Rightarrow> (merge_iter, error, 'a) op" where
  "on_source idx f m =
     (if idx < length (mi_sources m)
      then (case f (mi_sources m ! idx) of (r, s) \<Rightarrow> (r, m\<lparr>mi_sources := (mi_sources m)[idx := s]\<rparr>))
      else (Inl (Panic (str ''index out of bounds'')), m))"

text \<open>\<^verbatim>\<open>if let Some((k, _)) = self.sources[idx].peek()? { self.heap.push(HeapEntry { key: k, idx }) }\<close>\<close>

definition peek_push :: "nat \<Rightarrow> (merge_iter, error, unit) op" where
  "peek_push idx = bindS (on_source idx source_peek) (\<lambda>p. case p of
     None \<Rightarrow> retS ()
   | Some (k, _) \<Rightarrow> modS (\<lambda>m. m\<lparr>mi_heap := heap_push (k, idx) (mi_heap m)\<rparr>))"

definition prime :: "(merge_iter, error, unit) op" where
  "prime m = forS [0..<length (mi_sources m)] peek_push m"

section \<open>Progress of the sources\<close>

text \<open>
  What a source can still deliver: the records not yet read, and a loaded record counts once more.
  Each peek and advance leaves it or makes it smaller, so the loops of the merge end.
\<close>

fun source_left :: "scan_source \<Rightarrow> nat" where
  "source_left (SVec v) = length (vs_items v) - vs_pos v"
| "source_left (STab t) = 2 * (st_data_end (shared (ti_reader t)) - pos (ti_reader t)) +
     (case ti_cur t of Some (Some _) \<Rightarrow> 1 | _ \<Rightarrow> 0)"

definition mi_left :: "merge_iter \<Rightarrow> nat" where
  "mi_left m = sum_list (map source_left (mi_sources m))"

lemma read_table_record_end_advances:
  "read_table_record st p = Inr (None, p') \<Longrightarrow> p \<le> p'"
  by (auto simp: read_table_record_def bindE_eq_Inr Let_def split: if_splits sum.splits)

lemma load_loop_left:
  "load_loop st start stop p = Inr (cur, p') \<Longrightarrow>
     2 * (st_data_end st - p') + (case cur of None \<Rightarrow> 0 | Some _ \<Rightarrow> 1) \<le> 2 * (st_data_end st - p) \<and>
     (cur \<noteq> None \<longrightarrow> p < st_data_end st \<and> p < p')"
proof (induction st start stop p arbitrary: cur p' rule: load_loop.induct)
  case (1 st start stop p)
  show ?case
  proof (cases "read_table_record st p")
    case (Inl e)
    then show ?thesis using "1.prems" by (simp add: load_loop.simps[of st start stop p])
  next
    case (Inr r)
    obtain rec q where r: "r = (rec, q)" by (cases r)
    show ?thesis
    proof (cases rec)
      case None
      then have "cur = None \<and> p' = q"
        using "1.prems" Inr r by (simp add: load_loop.simps[of st start stop p])
      moreover have "p \<le> q" using read_table_record_end_advances Inr r None by blast
      ultimately show ?thesis by auto
    next
      case (Some kv)
      obtain k v where kv: "kv = (k, v)" by (cases kv)
      have adv: "p < st_data_end st" "p < q"
        using read_table_record_advances[of st p kv q] Inr r Some by auto
      let ?P = "case stop of Some e \<Rightarrow> e \<le> k | None \<Rightarrow> False"
      let ?Q = "case start of Some s \<Rightarrow> k < s | None \<Rightarrow> False"
      have step: "load_loop st start stop p =
          (if ?P then Inr (None, q) else if ?Q then load_loop st start stop q else Inr (Some (k, v), q))"
        by (subst load_loop.simps) (simp add: Inr r Some kv)
      show ?thesis
      proof (cases ?P)
        case True
        then show ?thesis using "1.prems" step adv by simp
      next
        case P: False
        show ?thesis
        proof (cases ?Q)
          case True
          then have "load_loop st start stop q = Inr (cur, p')" using "1.prems" step P by simp
          from "1.IH"[OF Inr r[symmetric] Some kv[symmetric] P True this] show ?thesis using adv by auto
        next
          case False
          then show ?thesis using "1.prems" step P adv by auto
        qed
      qed
    qed
  qed
qed

lemma peek_left: "source_left (snd (source_peek s)) \<le> source_left s"
proof (cases s)
  case (SVec v)
  then show ?thesis by (simp add: vs_peek_def)
next
  case (STab t)
  show ?thesis
  proof (cases "ti_cur t")
    case None
    let ?l = "load_loop (shared (ti_reader t)) (ti_start t) (ti_end t) (pos (ti_reader t))"
    show ?thesis
    proof (cases ?l)
      case (Inl e)
      then show ?thesis using STab None by (simp add: ti_peek_def ti_load_def)
    next
      case (Inr r)
      then show ?thesis using STab None load_loop_left[of _ _ _ _ "fst r" "snd r"]
        by (cases r) (auto simp: ti_peek_def ti_load_def split: option.splits)
    qed
  qed (simp add: STab ti_peek_def)
qed

lemma advance_left: "source_left (snd (source_advance s)) \<le> source_left s"
  by (cases s) (auto simp: vs_advance_def ti_advance_def)

lemma peek_advance_left:
  "source_peek s = (Inr (Some x), s') \<Longrightarrow> source_left (snd (source_advance s')) < source_left s'"
proof (cases s)
  case (SVec v)
  then show "source_peek s = (Inr (Some x), s') \<Longrightarrow> ?thesis"
    by (auto simp: vs_peek_def vs_advance_def split: if_splits)
next
  case (STab t)
  then show "source_peek s = (Inr (Some x), s') \<Longrightarrow> ?thesis"
    by (auto simp: ti_peek_def ti_advance_def ti_load_def split: option.splits sum.splits prod.splits)
qed

lemma advance_peek_left:
  assumes "source_peek (snd (source_advance s)) = (Inr (Some x), s')"
  shows "source_left s' < source_left s"
proof (cases s)
  case (SVec v)
  then show ?thesis using assms by (auto simp: vs_peek_def vs_advance_def split: if_splits)
next
  case (STab t)
  let ?l = "load_loop (shared (ti_reader t)) (ti_start t) (ti_end t) (pos (ti_reader t))"
  show ?thesis
  proof (cases ?l)
    case (Inl e)
    then show ?thesis using STab assms by (simp add: ti_peek_def ti_advance_def ti_load_def)
  next
    case (Inr r)
    obtain cur p where r: "r = (cur, p)" by (cases r)
    show ?thesis
      using load_loop_left[OF Inr[unfolded r]] STab assms Inr r
      by (cases cur) (auto simp: ti_peek_def ti_advance_def ti_load_def)
  qed
qed

lemma sum_list_update_le:
  "i < length xs \<Longrightarrow> f y \<le> f (xs ! i) \<Longrightarrow> sum_list (map f (xs[i := y])) \<le> (sum_list (map f xs) :: nat)"
proof (induction xs arbitrary: i)
  case (Cons x xs)
  then show ?case by (cases i) auto
qed simp

lemma sum_list_update_less:
  "i < length xs \<Longrightarrow> f y < f (xs ! i) \<Longrightarrow> sum_list (map f (xs[i := y])) < (sum_list (map f xs) :: nat)"
proof (induction xs arbitrary: i)
  case (Cons x xs)
  then show ?case by (cases i) auto
qed simp

lemma on_source_left:
  assumes "\<And>s. source_left (snd (f s)) \<le> source_left s"
  shows "mi_left (snd (on_source idx f m)) \<le> mi_left m"
  using assms[of "mi_sources m ! idx"]
  by (auto simp: on_source_def mi_left_def sum_list_update_le split: prod.split)

lemma bindS_left:
  assumes "\<And>m. mi_left (snd (f m)) \<le> mi_left m" and "\<And>x m. mi_left (snd (g x m)) \<le> mi_left m"
  shows "mi_left (snd (bindS f g m)) \<le> mi_left m"
proof (cases "f m")
  case (Pair r m')
  then show ?thesis
    using assms(1)[of m] assms(2)[of _ m'] by (cases r) (auto simp: bindS_def intro: order_trans)
qed

lemma peek_push_left: "mi_left (snd (peek_push idx m)) \<le> mi_left m"
proof -
  have "mi_left (snd ((case p of None \<Rightarrow> retS () | Some (k, v) \<Rightarrow>
      modS (\<lambda>m. m\<lparr>mi_heap := heap_push (k, idx) (mi_heap m)\<rparr>)) m)) \<le> mi_left m" for p m
    by (simp add: mi_left_def split: option.split prod.split)
  then show ?thesis
    unfolding peek_push_def by (intro bindS_left on_source_left peek_left)
qed

lemma forS_left:
  "(\<And>x m. mi_left (snd (f x m)) \<le> mi_left m) \<Longrightarrow> mi_left (snd (forS xs f m)) \<le> mi_left m"
proof (induction xs arbitrary: m)
  case (Cons x xs)
  then show ?case unfolding forS.simps by (intro bindS_left) auto
qed simp

text \<open>One round of the skipping loop: pop, advance, peek.\<close>

definition advance_peek :: "nat \<Rightarrow> (merge_iter, error, item option) op" where
  "advance_peek idx = bindS (on_source idx source_advance) (\<lambda>_. on_source idx source_peek)"

lemma advance_peek_progress:
  assumes "advance_peek idx m = (Inr p, m')"
  shows "mi_heap m' = mi_heap m \<and> mi_left m' \<le> mi_left m \<and> (p \<noteq> None \<longrightarrow> mi_left m' < mi_left m)"
proof -
  have i: "idx < length (mi_sources m)"
    using assms by (auto simp: advance_peek_def on_source_def bindS_def split: if_splits)
  obtain a s1 where a: "source_advance (mi_sources m ! idx) = (a, s1)" by fastforce
  obtain b s2 where b: "source_peek s1 = (b, s2)" by fastforce
  have m': "m' = m\<lparr>mi_sources := (mi_sources m)[idx := s2]\<rparr>" and p: "b = Inr p"
    using assms i a b by (auto simp: advance_peek_def on_source_def bindS_def split: sum.splits)
  have le: "source_left s2 \<le> source_left (mi_sources m ! idx)"
    using advance_left[of "mi_sources m ! idx"] peek_left[of s1] a b by simp
  have "source_left s2 < source_left (mi_sources m ! idx)" if "p \<noteq> None"
    using advance_peek_left[of "mi_sources m ! idx"] a b p that by auto
  then show ?thesis
    using i le m' sum_list_update_le[of idx "mi_sources m" source_left s2]
      sum_list_update_less[of idx "mi_sources m" source_left s2] by (auto simp: mi_left_def)
qed

section \<open>One step of the merge\<close>

text \<open>
  The loop of \<^verbatim>\<open>next\<close> that skips the older sources with the same key.
\<close>

function skip_older :: "bytes \<Rightarrow> (merge_iter, error, unit) op" where
  "skip_older key m =
     (case mi_heap m of
        [] \<Rightarrow> (Inr (), m)
      | e # h \<Rightarrow>
          if fst e \<noteq> key then (Inr (), m)
          else (case advance_peek (snd e) (m\<lparr>mi_heap := h\<rparr>) of
                  (Inl er, m') \<Rightarrow> (Inl er, m')
                | (Inr None, m') \<Rightarrow> skip_older key m'
                | (Inr (Some (nk, _)), m') \<Rightarrow>
                    skip_older key (m'\<lparr>mi_heap := heap_push (nk, snd e) (mi_heap m')\<rparr>)))"
  by pat_completeness auto
termination
  by (relation "inv_image (less_than <*lex*> less_than) (\<lambda>(_, m). (mi_left m, length (mi_heap m)))")
    (auto dest!: sym[of _ "advance_peek _ _"] advance_peek_progress simp: mi_left_def)

declare skip_older.simps [simp del]

definition ensure_primed :: "(merge_iter, error, unit) op" where
  "ensure_primed m =
     (if mi_primed m then (Inr (), m)
      else bindS prime (\<lambda>_. modS (\<lambda>m. m\<lparr>mi_primed := True\<rparr>)) m)"

text \<open>The part of \<^verbatim>\<open>next\<close> after the top of the heap was popped.\<close>

definition take_top :: "bytes \<Rightarrow> nat \<Rightarrow> (merge_iter, error, item option) op" where
  "take_top key idx =
     bindS (on_source idx source_peek) (\<lambda>p.
     case p of
       None \<Rightarrow> failS (Panic (str ''Heap-Eintrag entspricht einem peek''))
     | Some item \<Rightarrow>
         bindS (on_source idx source_advance) (\<lambda>_.
         bindS (skip_older key) (\<lambda>_.
         bindS (peek_push idx) (\<lambda>_. retS (Some item)))))"

definition merge_next :: "(merge_iter, error, item option) op" where
  "merge_next = bindS ensure_primed (\<lambda>_ m.
     case mi_heap m of
       [] \<Rightarrow> (Inr None, m)
     | (key, idx) # h \<Rightarrow> take_top key idx (m\<lparr>mi_heap := h\<rparr>))"

lemma skip_older_left: "mi_left (snd (skip_older key m)) \<le> mi_left m"
proof (induction key m rule: skip_older.induct)
  case (1 key m)
  note step = skip_older.simps[of key m]
  show ?case
  proof (cases "mi_heap m")
    case Nil
    then show ?thesis by (simp add: step)
  next
    case (Cons e h)
    show ?thesis
    proof (cases "fst e = key")
      case False
      then show ?thesis using Cons by (simp add: step)
    next
      case True
      obtain r m' where ap: "advance_peek (snd e) (m\<lparr>mi_heap := h\<rparr>) = (r, m')" by fastforce
      have le: "mi_left m' \<le> mi_left m"
        using bindS_left[of "on_source (snd e) source_advance" "\<lambda>_. on_source (snd e) source_peek" "m\<lparr>mi_heap := h\<rparr>"]
          on_source_left[OF advance_left] on_source_left[OF peek_left] ap
        by (simp add: advance_peek_def mi_left_def)
      consider er where "r = Inl er" | "r = Inr None" | nk v where "r = Inr (Some (nk, v))"
        by (metis option.exhaust sum.exhaust surj_pair)
      then show ?thesis
      proof cases
        case 1
        then show ?thesis using Cons True ap le by (simp add: step)
      next
        case 2
        then show ?thesis
          using "1.IH"(1)[OF Cons _ ap[symmetric], of None] Cons True ap le by (simp add: step)
      next
        case 3
        then show ?thesis
          using "1.IH"(2)[OF Cons _ ap[symmetric], of "Some (nk, v)" "(nk, v)" nk v] Cons True ap le
          by (simp add: step mi_left_def)
      qed
    qed
  qed
qed

lemma take_top_progress:
  assumes "take_top key idx m1 = (Inr (Some x), m')"
  shows "mi_left m' < mi_left m1"
proof -
  obtain item m2 where m2: "on_source idx source_peek m1 = (Inr (Some item), m2)"
    and r2: "bindS (on_source idx source_advance) (\<lambda>_.
             bindS (skip_older key) (\<lambda>_.
             bindS (peek_push idx) (\<lambda>_. retS (Some item)))) m2 = (Inr (Some x), m')"
    using assms unfolding take_top_def bindS_eq_Inr[of "on_source idx source_peek"]
    by (auto split: option.splits)
  obtain m3 m4 where m3: "on_source idx source_advance m2 = (Inr (), m3)"
    and m4: "skip_older key m3 = (Inr (), m4)" and m5: "peek_push idx m4 = (Inr (), m')"
    using r2 by (auto simp: bindS_eq_Inr)
  have i: "idx < length (mi_sources m1)" using m2 by (auto simp: on_source_def split: if_splits)
  obtain s2 where s2: "source_peek (mi_sources m1 ! idx) = (Inr (Some item), s2)"
    and m2': "m2 = m1\<lparr>mi_sources := (mi_sources m1)[idx := s2]\<rparr>"
    using m2 i by (auto simp: on_source_def split: prod.splits)
  have "mi_left m2 \<le> mi_left m1"
    using peek_left[of "mi_sources m1 ! idx"] s2 i m2' by (simp add: mi_left_def sum_list_update_le)
  moreover have "mi_left m3 < mi_left m2"
    using peek_advance_left[OF s2] m3 i m2' sum_list_update_less[of idx "mi_sources m2" source_left]
    by (auto simp: on_source_def mi_left_def split: prod.splits)
  moreover have "mi_left m4 \<le> mi_left m3" using skip_older_left[of key m3] m4 by simp
  moreover have "mi_left m' \<le> mi_left m4" using peek_push_left[of idx m4] m5 by simp
  ultimately show ?thesis by linarith
qed

lemma merge_next_progress:
  assumes "merge_next m = (Inr (Some x), m')"
  shows "mi_left m' < mi_left m"
proof -
  obtain m1 where m1: "ensure_primed m = (Inr (), m1)"
    and rest: "(case mi_heap m1 of [] \<Rightarrow> (Inr None, m1)
       | (key, idx) # h \<Rightarrow> take_top key idx (m1\<lparr>mi_heap := h\<rparr>)) = (Inr (Some x), m')"
    using assms by (auto simp: merge_next_def bindS_eq_Inr)
  have "mi_left (snd (prime m)) \<le> mi_left m"
    unfolding prime_def by (intro forS_left peek_push_left)
  then have "mi_left m1 \<le> mi_left m"
    using m1 by (auto simp: ensure_primed_def bindS_def mi_left_def split: if_splits prod.splits sum.splits)
  moreover obtain key idx h where "mi_heap m1 = (key, idx) # h"
    using rest by (cases "mi_heap m1") auto
  then have "mi_left m' < mi_left (m1\<lparr>mi_heap := h\<rparr>)" using rest take_top_progress by simp
  ultimately show ?thesis by (simp add: mi_left_def)
qed

text \<open>\<^verbatim>\<open>while let Some(x) = merge.next()? { out.push(x) }\<close>, and the collection of a \<^verbatim>\<open>ScanIter\<close>.\<close>

function merge_collect :: "(merge_iter, error, item list) op" where
  "merge_collect m =
     (case merge_next m of
        (Inl e, m') \<Rightarrow> (Inl e, m')
      | (Inr None, m') \<Rightarrow> (Inr [], m')
      | (Inr (Some x), m') \<Rightarrow>
          (case merge_collect m' of
             (Inl e, m'') \<Rightarrow> (Inl e, m'')
           | (Inr out, m'') \<Rightarrow> (Inr (x # out), m'')))"
  by pat_completeness auto
termination
  by (relation "measure mi_left") (auto dest!: sym[of _ "merge_next _"] merge_next_progress)

declare merge_collect.simps [simp del]

definition merge_vecs :: "item list list \<Rightarrow> item list result" where
  "merge_vecs sources = fst (merge_collect (mi_new (map (\<lambda>items. SVec (vs_new items)) sources)))"

end
