(* ===== verification/Merge.thy ===== *)
theory Merge
  imports Iterator
begin

text \<open>
  Correctness of the merge: over sources that satisfy the contract of \<^verbatim>\<open>ScanSource\<close>, the merge
  yields the strictly sorted union of the sources, and for a key in several sources the record of
  the newest one.
\<close>

section \<open>The contract of a source\<close>

text \<open>
  \<open>view s xs\<close>: the records the source still has to deliver are \<open>xs\<close>. A peek returns the first of
  them without consuming it and leaves the source \<open>ready\<close>; an advance of a ready source drops it.
\<close>

locale sorted_source =
  fixes peek :: "('s, error, item option) op"
    and advance :: "('s, error, unit) op"
    and view :: "'s \<Rightarrow> item list \<Rightarrow> bool"
    and ready :: "'s \<Rightarrow> bool"
  assumes peek_view: "view s xs \<Longrightarrow> \<exists>s'. peek s = (Inr (head_opt xs), s') \<and> view s' xs \<and> ready s'"
    and advance_view: "view s (x # xs) \<Longrightarrow> ready s \<Longrightarrow> \<exists>s'. advance s = (Inr (), s') \<and> view s' xs"
begin

lemma peek_nth:
  assumes "list_all2 view ss vs" and "i < length ss"
  shows "\<exists>s'. peek (ss ! i) = (Inr (head_opt (vs ! i)), s') \<and> list_all2 view (ss[i := s']) vs \<and> ready s'"
proof -
  have "view (ss ! i) (vs ! i)" using assms by (simp add: list_all2_conv_all_nth)
  then obtain s' where "peek (ss ! i) = (Inr (head_opt (vs ! i)), s')" "view s' (vs ! i)" "ready s'"
    using peek_view by blast
  moreover have "list_all2 view (ss[i := s']) vs"
    using assms \<open>view s' (vs ! i)\<close> by (auto simp: list_all2_conv_all_nth nth_list_update)
  ultimately show ?thesis by blast
qed

lemma advance_nth:
  assumes "list_all2 view ss vs" and "i < length ss" and "ready (ss ! i)" and "vs ! i \<noteq> []"
  shows "\<exists>s'. advance (ss ! i) = (Inr (), s') \<and> list_all2 view (ss[i := s']) (vs[i := tl (vs ! i)])"
proof -
  obtain x xs where v: "vs ! i = x # xs" using assms(4) by (cases "vs ! i") auto
  have "view (ss ! i) (x # xs)" using assms v by (auto simp: list_all2_conv_all_nth)
  then obtain s' where "advance (ss ! i) = (Inr (), s')" "view s' xs"
    using advance_view assms(3) by blast
  moreover have "list_all2 view (ss[i := s']) (vs[i := xs])"
    using assms \<open>view s' xs\<close> by (auto simp: list_all2_conv_all_nth nth_list_update)
  ultimately show ?thesis using v by auto
qed

end

definition vs_view :: "vec_source \<Rightarrow> item list \<Rightarrow> bool" where
  "vs_view s xs \<longleftrightarrow> xs = drop (vs_pos s) (vs_items s)"

interpretation vec: sorted_source vs_peek vs_advance vs_view "\<lambda>_. True"
proof
  show "\<exists>s'. vs_peek s = (Inr (head_opt xs), s') \<and> vs_view s' xs \<and> True" if "vs_view s xs" for s xs
    using that by (cases "vs_pos s < length (vs_items s)")
      (auto simp: vs_view_def vs_peek_def Cons_nth_drop_Suc[symmetric])
  show "\<exists>s'. vs_advance s = (Inr (), s') \<and> vs_view s' xs" if "vs_view s (x # xs)" for s x xs
    using that by (auto simp: vs_view_def vs_advance_def) (metis drop_Suc list.sel(3) tl_drop)
qed

interpretation tab: sorted_source ti_peek ti_advance ti_view "\<lambda>t. ti_cur t \<noteq> None"
  using ti_peek_view ti_advance_view by unfold_locales

fun source_view :: "scan_source \<Rightarrow> item list \<Rightarrow> bool" where
  "source_view (SVec v) xs = vs_view v xs"
| "source_view (STab t) xs = ti_view t xs"

fun source_ready :: "scan_source \<Rightarrow> bool" where
  "source_ready (SVec v) = True"
| "source_ready (STab t) = (ti_cur t \<noteq> None)"

interpretation src: sorted_source source_peek source_advance source_view source_ready
proof
  show "\<exists>s'. source_peek s = (Inr (head_opt xs), s') \<and> source_view s' xs \<and> source_ready s'"
    if view: "source_view s xs" for s xs
  proof (cases s)
    case (SVec v)
    then obtain v' where "vs_peek v = (Inr (head_opt xs), v')" "vs_view v' xs"
      using view vec.peek_view[of v xs] by auto
    then show ?thesis using SVec by (intro exI[of _ "SVec v'"]) simp
  next
    case (STab t)
    then obtain t' where "ti_peek t = (Inr (head_opt xs), t')" "ti_view t' xs" "ti_cur t' \<noteq> None"
      using view tab.peek_view[of t xs] by auto
    then show ?thesis using STab by (intro exI[of _ "STab t'"]) simp
  qed
  show "\<exists>s'. source_advance s = (Inr (), s') \<and> source_view s' xs"
    if view: "source_view s (x # xs)" "source_ready s" for s x xs
  proof (cases s)
    case (SVec v)
    then obtain v' where "vs_advance v = (Inr (), v')" "vs_view v' xs"
      using view vec.advance_view[of v x xs] by auto
    then show ?thesis using SVec by (intro exI[of _ "SVec v'"]) simp
  next
    case (STab t)
    then obtain t' where "ti_advance t = (Inr (), t')" "ti_view t' xs"
      using view tab.advance_view[of t x xs] by auto
    then show ?thesis using STab by (intro exI[of _ "STab t'"]) simp
  qed
qed

section \<open>The heap\<close>

abbreviation before :: "heap_entry \<Rightarrow> heap_entry \<Rightarrow> bool" where
  "before a b \<equiv> heap_cmp a b = CGreater"

lemma before_iff: "before a b \<longleftrightarrow> fst a < fst b \<or> fst a = fst b \<and> snd a < snd b"
  by (auto simp: heap_cmp_def cmp_then_def)

lemma before_trans: "before a b \<Longrightarrow> before b c \<Longrightarrow> before a c"
  by (auto simp: before_iff)

lemma set_heap_push [simp]: "set (heap_push e h) = insert e (set h)"
  by (induction e h rule: heap_push.induct) auto

lemma sorted_heap_push:
  assumes "sorted_wrt before h" and "e \<notin> set h"
  shows "sorted_wrt before (heap_push e h)"
  using assms
proof (induction e h rule: heap_push.induct)
  case (2 e x h)
  have tot: "before e x \<or> before x e"
    using "2.prems"(2) by (cases e; cases x) (auto simp: before_iff)
  show ?case
  proof (cases "before e x")
    case True
    then have "before e y" if "y \<in> set h" for y
      using "2.prems"(1) that unfolding sorted_wrt.simps by (meson before_trans)
    then show ?thesis using True "2.prems"(1) by simp
  next
    case False
    then show ?thesis using 2 tot by simp
  qed
qed simp

section \<open>Layers\<close>

text \<open>The map the sources stand for together, the first of them being the newest.\<close>

definition layers :: "item list list \<Rightarrow> bytes \<Rightarrow> entry option" where
  "layers vs = foldr (\<lambda>v m. m ++ map_of v) vs Map.empty"

lemma layers_simps [simp]:
  "layers [] = Map.empty"
  "layers (v # vs) = layers vs ++ map_of v"
  by (simp_all add: layers_def)

lemma layers_append: "layers (vs @ ws) = layers ws ++ layers vs"
  by (induction vs) simp_all

lemma layers_None: "layers vs k = None \<longleftrightarrow> (\<forall>v \<in> set vs. map_of v k = None)"
  by (induction vs) auto

lemma layers_first:
  assumes "i < length vs" and "map_of (vs ! i) k = Some e" and "\<And>j. j < i \<Longrightarrow> map_of (vs ! j) k = None"
  shows "layers vs k = Some e"
  using assms
proof (induction vs arbitrary: i)
  case (Cons v vs)
  show ?case
  proof (cases i)
    case 0
    then show ?thesis using Cons.prems by simp
  next
    case (Suc j)
    then have "map_of v k = None" using Cons.prems(3)[of 0] by simp
    moreover have "layers vs k = Some e"
      using Cons.IH[of j] Cons.prems(1,2) Cons.prems(3)[of "Suc _"] Suc by fastforce
    ultimately show ?thesis by (simp add: map_add_def)
  qed
qed simp

definition drop_key :: "bytes \<Rightarrow> item list \<Rightarrow> item list" where
  "drop_key k v = (case v of [] \<Rightarrow> [] | x # xs \<Rightarrow> if fst x = k then xs else v)"

abbreviation sorted_views :: "item list list \<Rightarrow> bool" where
  "sorted_views vs \<equiv> \<forall>v \<in> set vs. ssorted (map fst v)"

lemma ssorted_tl: "ssorted (map fst v) \<Longrightarrow> ssorted (map fst (tl v))"
  by (cases v) auto

lemma ssorted_drop_key: "ssorted (map fst v) \<Longrightarrow> ssorted (map fst (drop_key k v))"
  by (cases v) (auto simp: drop_key_def)

lemma map_of_below: "ssorted (map fst v) \<Longrightarrow> v \<noteq> [] \<Longrightarrow> k < fst (hd v) \<Longrightarrow> map_of v k = None"
  by (cases v) (auto simp: map_of_eq_None_iff)

lemma map_of_drop_key:
  assumes "ssorted (map fst v)" and "v \<noteq> [] \<Longrightarrow> k \<le> fst (hd v)"
  shows "map_of (drop_key k v) = (map_of v)(k := None)"
proof (cases v)
  case (Cons x xs)
  have "map_of xs (fst x) = None" using assms(1) Cons by (auto simp: map_of_eq_None_iff)
  moreover have "map_of v k = None" if "fst x \<noteq> k"
    using map_of_below[OF assms(1), of k] assms(2) Cons that by (simp add: order.not_eq_order_implies_strict)
  ultimately show ?thesis using Cons by (cases x) (auto simp: drop_key_def fun_eq_iff)
qed (simp add: drop_key_def fun_eq_iff)

lemma layers_drop_key:
  assumes "sorted_views vs" and "\<forall>v \<in> set vs. v \<noteq> [] \<longrightarrow> k \<le> fst (hd v)"
  shows "layers (map (drop_key k) vs) = (layers vs)(k := None)"
  using assms
proof (induction vs)
  case (Cons v vs)
  then have "map_of (drop_key k v) = (map_of v)(k := None)" by (intro map_of_drop_key) auto
  then show ?case using Cons by (auto simp: fun_eq_iff map_add_def split: option.split)
qed (simp add: fun_eq_iff)

text \<open>What a merge of \<open>vs\<close> yields: a list the two conditions determine.\<close>

definition merged :: "item list list \<Rightarrow> item list \<Rightarrow> bool" where
  "merged vs out \<longleftrightarrow> ssorted (map fst out) \<and> map_of out = layers vs"

lemma merged_unique: "merged vs a \<Longrightarrow> merged vs b \<Longrightarrow> a = b"
  by (simp add: merged_def sorted_assoc_unique)

lemma merged_Nil: "\<forall>v \<in> set vs. v = [] \<Longrightarrow> merged vs []"
proof -
  assume "\<forall>v \<in> set vs. v = []"
  then have "layers vs k = None" for k by (auto simp: layers_None)
  then show ?thesis by (auto simp: merged_def)
qed

lemma merged_Cons:
  assumes "sorted_views vs" and "\<forall>v \<in> set vs. v \<noteq> [] \<longrightarrow> k \<le> fst (hd v)"
    and "layers vs k = Some e" and "merged (map (drop_key k) vs) out"
  shows "merged vs ((k, e) # out)"
proof -
  have m: "map_of out = (layers vs)(k := None)"
    using assms(4) layers_drop_key[OF assms(1,2)] by (simp add: merged_def)
  have "k < fst x" if "x \<in> set out" for x
  proof -
    have "map_of out (fst x) \<noteq> None" using that by (simp add: map_of_eq_None_iff)
    then have "fst x \<noteq> k" "layers vs (fst x) \<noteq> None" by (simp_all add: m split: if_splits)
    then obtain v where "v \<in> set vs" "map_of v (fst x) \<noteq> None" unfolding layers_None by blast
    moreover from this have "v \<noteq> []" by auto
    moreover from \<open>v \<in> set vs\<close> have "ssorted (map fst v)" using assms(1) by blast
    ultimately have "\<not> fst x < fst (hd v)" using map_of_below[of v "fst x"] by auto
    moreover have "k \<le> fst (hd v)" using assms(2) \<open>v \<in> set vs\<close> \<open>v \<noteq> []\<close> by blast
    ultimately have "k \<le> fst x" by (meson not_less order_trans)
    then show ?thesis using \<open>fst x \<noteq> k\<close> by (simp add: order.strict_iff_order)
  qed
  moreover have "map_of ((k, e) # out) = layers vs"
    using assms(3) m by (simp add: fun_eq_iff)
  ultimately show ?thesis using assms(4) by (simp add: merged_def)
qed

section \<open>The invariant of the merge\<close>

text \<open>
  The sources stand at \<open>vs\<close>, and the heap holds the current key of each source of \<open>A\<close> that is not
  exhausted.
\<close>

definition cursors :: "nat set \<Rightarrow> item list list \<Rightarrow> heap_entry set" where
  "cursors A vs = {(fst (hd (vs ! i)), i) | i. i \<in> A \<and> i < length vs \<and> vs ! i \<noteq> []}"

definition merge_inv :: "nat set \<Rightarrow> merge_iter \<Rightarrow> item list list \<Rightarrow> bool" where
  "merge_inv A m vs \<longleftrightarrow> list_all2 source_view (mi_sources m) vs \<and> sorted_views vs \<and>
     (\<forall>i \<in> A. i < length vs \<longrightarrow> source_ready (mi_sources m ! i)) \<and>
     sorted_wrt before (mi_heap m) \<and> set (mi_heap m) = cursors A vs"

lemma merge_inv_length: "merge_inv A m vs \<Longrightarrow> length (mi_sources m) = length vs"
  by (auto simp: merge_inv_def list_all2_lengthD)

lemma cursors_insert:
  "i < length vs \<Longrightarrow> cursors (insert i A) vs =
     (if vs ! i = [] then cursors A vs else insert (fst (hd (vs ! i)), i) (cursors A vs))"
  by (auto simp: cursors_def)

lemma nth_list_update_other: "i \<notin> A \<Longrightarrow> j \<in> A \<Longrightarrow> xs[i := x] ! j = xs ! j"
  by (cases "i = j") auto

lemma cursors_outside: "i \<notin> A \<Longrightarrow> cursors A (vs[i := v]) = cursors A vs"
  unfolding cursors_def by (rule Collect_cong) (auto simp: nth_list_update_other)

lemma cursors_index: "(k, i) \<in> cursors A vs \<Longrightarrow> i \<in> A \<and> i < length vs \<and> vs ! i \<noteq> [] \<and> k = fst (hd (vs ! i))"
  by (auto simp: cursors_def)

lemma sorted_views_update: "sorted_views vs \<Longrightarrow> ssorted (map fst v) \<Longrightarrow> sorted_views (vs[i := v])"
  by (metis insert_iff set_update_subset_insert subsetD)

text \<open>A peek of a source outside \<open>A\<close> brings it into the heap.\<close>

lemma peek_push_inv:
  assumes inv: "merge_inv A m vs" and i: "i < length vs" "i \<notin> A"
  shows "\<exists>m'. peek_push i m = (Inr (), m') \<and> merge_inv (insert i A) m' vs \<and> mi_primed m' = mi_primed m"
proof -
  have l: "list_all2 source_view (mi_sources m) vs" using inv by (simp add: merge_inv_def)
  have len: "i < length (mi_sources m)" using i merge_inv_length[OF inv] by simp
  obtain s where s: "source_peek (mi_sources m ! i) = (Inr (head_opt (vs ! i)), s)"
      "list_all2 source_view ((mi_sources m)[i := s]) vs" "source_ready s"
    using src.peek_nth[OF l len] by blast
  let ?m = "m\<lparr>mi_sources := (mi_sources m)[i := s]\<rparr>"
  have os: "on_source i source_peek m = (Inr (head_opt (vs ! i)), ?m)"
    using s len by (simp add: on_source_def)
  have r: "\<forall>j \<in> insert i A. j < length vs \<longrightarrow> source_ready (mi_sources ?m ! j)"
    using inv s(3) len by (auto simp: merge_inv_def nth_list_update)
  have notin: "(k, i) \<notin> set (mi_heap m)" for k
    using inv i(2) by (auto simp: merge_inv_def cursors_def)
  show ?thesis
  proof (cases "vs ! i")
    case Nil
    then have "peek_push i m = (Inr (), ?m)" using os by (simp add: peek_push_def bindS_def)
    moreover have "merge_inv (insert i A) ?m vs"
      using inv s r Nil i by (simp add: merge_inv_def cursors_insert)
    ultimately show ?thesis by auto
  next
    case (Cons x xs)
    obtain k v where x: "x = (k, v)" by (cases x)
    let ?m' = "?m\<lparr>mi_heap := heap_push (k, i) (mi_heap m)\<rparr>"
    have "peek_push i m = (Inr (), ?m')" using os Cons x by (simp add: peek_push_def bindS_def)
    moreover have "merge_inv (insert i A) ?m' vs"
      using inv s r Cons i x notin[of k] sorted_heap_push[of "mi_heap m" "(k, i)"]
      by (simp add: merge_inv_def cursors_insert)
    ultimately show ?thesis by auto
  qed
qed

text \<open>An advance of a ready source that is not in the heap.\<close>

lemma on_source_advance:
  assumes inv: "merge_inv A m vs" and i: "i < length vs" "i \<notin> A" "vs ! i \<noteq> []"
    and ready: "source_ready (mi_sources m ! i)"
  shows "\<exists>m'. on_source i source_advance m = (Inr (), m') \<and> merge_inv A m' (vs[i := tl (vs ! i)]) \<and>
     mi_heap m' = mi_heap m \<and> mi_primed m' = mi_primed m"
proof -
  have l: "list_all2 source_view (mi_sources m) vs" using inv by (simp add: merge_inv_def)
  have len: "i < length (mi_sources m)" using i merge_inv_length[OF inv] by simp
  obtain s where s: "source_advance (mi_sources m ! i) = (Inr (), s)"
      "list_all2 source_view ((mi_sources m)[i := s]) (vs[i := tl (vs ! i)])"
    using src.advance_nth[OF l len ready i(3)] by blast
  have "ssorted (map fst (tl (vs ! i)))"
    using inv i(1) by (intro ssorted_tl) (simp add: merge_inv_def)
  then have "sorted_views (vs[i := tl (vs ! i)])"
    using inv by (intro sorted_views_update) (simp_all add: merge_inv_def)
  moreover have "\<forall>j \<in> A. j < length vs \<longrightarrow> source_ready (mi_sources (m\<lparr>mi_sources := (mi_sources m)[i := s]\<rparr>) ! j)"
    using inv i(2) by (auto simp: merge_inv_def nth_list_update_other)
  ultimately have "merge_inv A (m\<lparr>mi_sources := (mi_sources m)[i := s]\<rparr>) (vs[i := tl (vs ! i)])"
    using inv s(2) i(2) by (simp add: merge_inv_def cursors_outside)
  then show ?thesis using s(1) len by (auto simp: on_source_def)
qed

text \<open>Popping the top of the heap takes its source out of \<open>A\<close>.\<close>

lemma pop_inv:
  assumes inv: "merge_inv A m vs" and h: "mi_heap m = (k, i) # h"
  shows "merge_inv (A - {i}) (m\<lparr>mi_heap := h\<rparr>) vs" and "i \<in> A" "i < length vs" "vs ! i \<noteq> []"
    "k = fst (hd (vs ! i))" "source_ready (mi_sources m ! i)"
    "\<And>j. j \<in> A \<Longrightarrow> j < length vs \<Longrightarrow> vs ! j \<noteq> [] \<Longrightarrow> k \<le> fst (hd (vs ! j)) \<and> (fst (hd (vs ! j)) = k \<longrightarrow> i \<le> j)"
proof -
  have c: "(k, i) \<in> cursors A vs" using inv h by (auto simp: merge_inv_def)
  then show ci: "i \<in> A" "i < length vs" "vs ! i \<noteq> []" "k = fst (hd (vs ! i))"
    using cursors_index by auto
  show "source_ready (mi_sources m ! i)" using inv ci by (simp add: merge_inv_def)
  have srt: "sorted_wrt before ((k, i) # h)" using inv h by (simp add: merge_inv_def)
  have st: "insert (k, i) (set h) = cursors A vs" using inv h by (simp add: merge_inv_def)
  have "(k, i) \<notin> set h" using srt by (auto simp: before_iff)
  then have "set h = cursors A vs - {(k, i)}" using st by blast
  also have "\<dots> = cursors (A - {i}) vs" using ci by (auto simp: cursors_def)
  finally show "merge_inv (A - {i}) (m\<lparr>mi_heap := h\<rparr>) vs" using inv srt by (simp add: merge_inv_def)
  show "k \<le> fst (hd (vs ! j)) \<and> (fst (hd (vs ! j)) = k \<longrightarrow> i \<le> j)"
    if "j \<in> A" "j < length vs" "vs ! j \<noteq> []" for j
  proof -
    have "(fst (hd (vs ! j)), j) \<in> insert (k, i) (set h)" using that st by (auto simp: cursors_def)
    then show ?thesis using srt by (auto simp: before_iff)
  qed
qed

section \<open>Steps of the merge\<close>

lemma skip_older_step:
  assumes "mi_heap m = (key, i) # h"
  shows "skip_older key m =
    bindS (on_source i source_advance) (\<lambda>_. bindS (peek_push i) (\<lambda>_. skip_older key)) (m\<lparr>mi_heap := h\<rparr>)"
  using assms by (subst skip_older.simps)
    (auto simp: advance_peek_def peek_push_def bindS_def split: prod.split sum.split option.split)

definition skip_views :: "nat set \<Rightarrow> bytes \<Rightarrow> item list list \<Rightarrow> item list list" where
  "skip_views A key vs = map (\<lambda>i. if i \<in> A then drop_key key (vs ! i) else vs ! i) [0..<length vs]"

lemma skip_views_same:
  assumes "\<And>i. i \<in> A \<Longrightarrow> i < length vs \<Longrightarrow> vs ! i \<noteq> [] \<Longrightarrow> fst (hd (vs ! i)) \<noteq> key"
  shows "skip_views A key vs = vs"
proof (rule nth_equalityI)
  show "skip_views A key vs ! i = vs ! i" if "i < length (skip_views A key vs)" for i
    using assms[of i] that by (cases "vs ! i") (auto simp: skip_views_def drop_key_def)
qed (simp add: skip_views_def)

lemma drop_key_hd: "v \<noteq> [] \<Longrightarrow> fst (hd v) = key \<Longrightarrow> drop_key key v = tl v"
  by (cases v) (auto simp: drop_key_def)

lemma tl_above: "ssorted (map fst v) \<Longrightarrow> tl v \<noteq> [] \<Longrightarrow> fst (hd v) < fst (hd (tl v))"
  by (cases v; cases "tl v") auto

lemma drop_key_above: "(v \<noteq> [] \<Longrightarrow> key < fst (hd v)) \<Longrightarrow> drop_key key v = v"
  by (cases v) (auto simp: drop_key_def)

lemma skip_views_update:
  assumes "sorted_views vs" and i: "i \<in> A" "i < length vs" "vs ! i \<noteq> []" and k: "key = fst (hd (vs ! i))"
  shows "skip_views A key (vs[i := tl (vs ! i)]) = skip_views A key vs"
proof (rule nth_equalityI)
  have "ssorted (map fst (vs ! i))" using assms(1) i(2) by simp
  then have t: "drop_key key (tl (vs ! i)) = tl (vs ! i)"
    using tl_above[of "vs ! i"] k by (intro drop_key_above) simp
  show "skip_views A key (vs[i := tl (vs ! i)]) ! j = skip_views A key vs ! j"
    if "j < length (skip_views A key (vs[i := tl (vs ! i)]))" for j
    using that i k t drop_key_hd[of "vs ! i" key] by (cases "i = j") (auto simp: skip_views_def)
qed (simp add: skip_views_def)

lemma tl_shorter: "i < length vs \<Longrightarrow> vs ! i \<noteq> [] \<Longrightarrow>
    sum_list (map length (vs[i := tl (vs ! i)])) < sum_list (map length vs)"
  by (rule sum_list_update_less) auto

lemma skip_older_inv:
  assumes "merge_inv A m vs"
    and "\<And>i. i \<in> A \<Longrightarrow> i < length vs \<Longrightarrow> vs ! i \<noteq> [] \<Longrightarrow> key \<le> fst (hd (vs ! i))"
  shows "\<exists>m'. skip_older key m = (Inr (), m') \<and> merge_inv A m' (skip_views A key vs) \<and> mi_primed m' = mi_primed m"
  using assms
proof (induction "sum_list (map length vs)" arbitrary: m vs rule: less_induct)
  case less
  have inv: "merge_inv A m vs" and low: "\<And>i. i \<in> A \<Longrightarrow> i < length vs \<Longrightarrow> vs ! i \<noteq> [] \<Longrightarrow> key \<le> fst (hd (vs ! i))"
    using less.prems by blast+
  show ?case
  proof (cases "mi_heap m")
    case Nil
    then have "cursors A vs = {}" using inv by (simp add: merge_inv_def)
    then have "skip_views A key vs = vs" by (intro skip_views_same) (auto simp: cursors_def)
    then show ?thesis using Nil inv by (subst skip_older.simps) auto
  next
    case (Cons e h)
    obtain k i where e: "e = (k, i)" by (cases e)
    note p = pop_inv[OF inv Cons[unfolded e]]
    show ?thesis
    proof (cases "k = key")
      case False
      then have "key < k" using low[OF p(2,3,4)] p(5) by simp
      then have "skip_views A key vs = vs"
        using p(7) by (intro skip_views_same) (metis less_le_not_le)
      then show ?thesis using Cons e False inv by (subst skip_older.simps) auto
    next
      case True
      let ?vs = "vs[i := tl (vs ! i)]"
      obtain m1 where m1: "on_source i source_advance (m\<lparr>mi_heap := h\<rparr>) = (Inr (), m1)"
          "merge_inv (A - {i}) m1 ?vs" "mi_primed m1 = mi_primed m"
        using on_source_advance[OF p(1) p(3) _ p(4)] p(6) by auto
      obtain m2 where m2: "peek_push i m1 = (Inr (), m2)" "merge_inv (insert i (A - {i})) m2 ?vs"
          "mi_primed m2 = mi_primed m"
        using peek_push_inv[OF m1(2), of i] p(3) m1(3) by auto
      then have inv2: "merge_inv A m2 ?vs" using p(2) by (simp add: insert_absorb)
      have srt: "sorted_views vs" using inv by (simp add: merge_inv_def)
      have low2: "key \<le> fst (hd (?vs ! j))" if "j \<in> A" "j < length ?vs" "?vs ! j \<noteq> []" for j
      proof (cases "i = j")
        case True
        then have "key < fst (hd (tl (vs ! i)))"
          using that srt tl_above[of "vs ! i"] p(3,5) \<open>k = key\<close> by simp
        then show ?thesis using True that by simp
      qed (use that low in simp)
      have "\<exists>m'. skip_older key m2 = (Inr (), m') \<and> merge_inv A m' (skip_views A key ?vs) \<and>
          mi_primed m' = mi_primed m"
        using less.hyps[OF tl_shorter[OF p(3,4)] inv2] low2 m2(3) by simp
      moreover have "skip_older key m = skip_older key m2"
        using skip_older_step[of m key i h] Cons e True m1(1) m2(1) by (simp add: bindS_def)
      ultimately show ?thesis
        using skip_views_update[OF srt p(2,3,4)] p(5) True by simp
    qed
  qed
qed

lemma prime_inv:
  assumes "list_all2 source_view (mi_sources m) vs" and "sorted_views vs" and "mi_heap m = []"
  shows "\<exists>m'. prime m = (Inr (), m') \<and> merge_inv UNIV m' vs"
proof -
  let ?n = "length vs"
  have "\<exists>m'. forS [i..<?n] peek_push m = (Inr (), m') \<and> merge_inv {..<?n} m' vs"
    if "merge_inv {..<i} m vs" "i \<le> ?n" for i m
    using that
  proof (induction "?n - i" arbitrary: i m)
    case 0
    then show ?case by simp
  next
    case (Suc n)
    then have i: "i < ?n" by simp
    obtain m1 where m1: "peek_push i m = (Inr (), m1)" "merge_inv (insert i {..<i}) m1 vs"
      using peek_push_inv[OF Suc.prems(1) i] by auto
    have "\<exists>m'. forS [Suc i..<?n] peek_push m1 = (Inr (), m') \<and> merge_inv {..<?n} m' vs"
      using Suc.hyps(1)[of "Suc i" m1] Suc.hyps(2) m1(2) i by (simp add: lessThan_Suc)
    then show ?case using m1(1) i by (simp add: upt_conv_Cons bindS_def)
  qed
  from this[of 0 m] have "\<exists>m'. forS [0..<?n] peek_push m = (Inr (), m') \<and> merge_inv {..<?n} m' vs"
    using assms by (simp add: merge_inv_def cursors_def)
  moreover have "merge_inv {..<?n} m' vs \<longleftrightarrow> merge_inv UNIV m' vs" for m'
    by (auto simp: merge_inv_def cursors_def)
  ultimately show ?thesis using assms(1) by (simp add: prime_def list_all2_lengthD)
qed

text \<open>The state a merge can be in between two calls of \<^verbatim>\<open>next\<close>.\<close>

definition merge_state :: "merge_iter \<Rightarrow> item list list \<Rightarrow> bool" where
  "merge_state m vs \<longleftrightarrow> (if mi_primed m then merge_inv UNIV m vs
     else list_all2 source_view (mi_sources m) vs \<and> sorted_views vs \<and> mi_heap m = [])"

lemma ensure_primed_state:
  assumes "merge_state m vs"
  shows "\<exists>m'. ensure_primed m = (Inr (), m') \<and> merge_inv UNIV m' vs \<and> mi_primed m'"
proof (cases "mi_primed m")
  case True
  then show ?thesis using assms by (simp add: merge_state_def ensure_primed_def)
next
  case False
  then obtain m' where "prime m = (Inr (), m')" "merge_inv UNIV m' vs"
    using assms prime_inv[of m vs] by (auto simp: merge_state_def)
  then show ?thesis
    using False by (intro exI[of _ "m'\<lparr>mi_primed := True\<rparr>"]) (simp add: ensure_primed_def bindS_def merge_inv_def)
qed

lemma skip_views_rest:
  assumes "i < length vs" and "vs ! i \<noteq> []" and "key = fst (hd (vs ! i))"
  shows "skip_views (UNIV - {i}) key (vs[i := tl (vs ! i)]) = map (drop_key key) vs"
proof (rule nth_equalityI)
  show "skip_views (UNIV - {i}) key (vs[i := tl (vs ! i)]) ! j = map (drop_key key) vs ! j"
    if "j < length (skip_views (UNIV - {i}) key (vs[i := tl (vs ! i)]))" for j
    using that assms drop_key_hd[of "vs ! i" key] by (cases "i = j") (auto simp: skip_views_def)
qed (simp add: skip_views_def)

lemma take_top_state:
  assumes inv: "merge_inv UNIV m vs" and pr: "mi_primed m" and h: "mi_heap m = (k, i) # h"
  shows "\<exists>m'. take_top k i (m\<lparr>mi_heap := h\<rparr>) = (Inr (Some (hd (vs ! i))), m') \<and>
     merge_state m' (map (drop_key k) vs)"
proof -
  note p = pop_inv[OF inv h]
  let ?m = "m\<lparr>mi_heap := h\<rparr>" and ?vs = "vs[i := tl (vs ! i)]"
  have l: "list_all2 source_view (mi_sources m) vs" using inv by (simp add: merge_inv_def)
  have len: "i < length (mi_sources m)" using p(3) merge_inv_length[OF inv] by simp
  obtain s where s: "source_peek (mi_sources m ! i) = (Inr (head_opt (vs ! i)), s)"
      "list_all2 source_view ((mi_sources m)[i := s]) vs" "source_ready s"
    using src.peek_nth[OF l len] by blast
  let ?m1 = "?m\<lparr>mi_sources := (mi_sources m)[i := s]\<rparr>"
  have m1: "on_source i source_peek ?m = (Inr (Some (hd (vs ! i))), ?m1)"
    using s(1) len p(4) by (cases "vs ! i") (simp_all add: on_source_def)
  have inv1: "merge_inv (UNIV - {i}) ?m1 vs"
    using p(1) s by (auto simp: merge_inv_def nth_list_update_other)
  obtain m2 where m2: "on_source i source_advance ?m1 = (Inr (), m2)" "merge_inv (UNIV - {i}) m2 ?vs"
      "mi_primed m2"
    using on_source_advance[OF inv1 p(3) _ p(4)] s(3) len pr by auto
  have "k \<le> fst (hd (?vs ! j))" if "j \<in> UNIV - {i}" "j < length ?vs" "?vs ! j \<noteq> []" for j
    using that p(7)[of j] by simp
  then obtain m3 where m3: "skip_older k m2 = (Inr (), m3)"
      "merge_inv (UNIV - {i}) m3 (map (drop_key k) vs)" "mi_primed m3"
    using skip_older_inv[OF m2(2), of k] m2(3) skip_views_rest[OF p(3,4,5)] by auto
  obtain m4 where m4: "peek_push i m3 = (Inr (), m4)"
      "merge_inv (insert i (UNIV - {i})) m4 (map (drop_key k) vs)" "mi_primed m4"
    using peek_push_inv[OF m3(2), of i] p(3) m3(3) by auto
  have "merge_state m4 (map (drop_key k) vs)" using m4(2,3) by (simp add: merge_state_def)
  moreover have "take_top k i ?m = (Inr (Some (hd (vs ! i))), m4)"
    using m1 m2(1) m3(1) m4(1) by (simp add: take_top_def bindS_def)
  ultimately show ?thesis by blast
qed

lemma layers_top:
  assumes "sorted_views vs" and "i < length vs" and "vs ! i \<noteq> []" and "k = fst (hd (vs ! i))"
    and "\<And>j. j < length vs \<Longrightarrow> vs ! j \<noteq> [] \<Longrightarrow> k \<le> fst (hd (vs ! j)) \<and> (fst (hd (vs ! j)) = k \<longrightarrow> i \<le> j)"
  shows "layers vs k = Some (snd (hd (vs ! i)))"
proof (rule layers_first[OF assms(2)])
  show "map_of (vs ! i) k = Some (snd (hd (vs ! i)))"
    using assms(3,4) by (cases "vs ! i") auto
  show "map_of (vs ! j) k = None" if "j < i" for j
  proof (cases "vs ! j")
    case (Cons x xs)
    then have "k \<le> fst (hd (vs ! j))" "fst (hd (vs ! j)) \<noteq> k" using assms(2) assms(5)[of j] that by auto
    then have "k < fst (hd (vs ! j))" by simp
    moreover have "ssorted (map fst (vs ! j))" using assms(1,2) that by simp
    ultimately show ?thesis using map_of_below[of "vs ! j" k] Cons by auto
  qed simp
qed

text \<open>One call of \<^verbatim>\<open>next\<close>: the smallest key with the record of its newest source.\<close>

lemma merge_next_state:
  assumes "merge_state m vs"
  shows "((\<forall>v \<in> set vs. v = []) \<and> (\<exists>m'. merge_next m = (Inr None, m'))) \<or>
    (\<exists>k e m'. merge_next m = (Inr (Some (k, e)), m') \<and> merge_state m' (map (drop_key k) vs) \<and>
       sorted_views vs \<and> (\<forall>v \<in> set vs. v \<noteq> [] \<longrightarrow> k \<le> fst (hd v)) \<and> layers vs k = Some e)"
proof -
  obtain m1 where m1: "ensure_primed m = (Inr (), m1)" "merge_inv UNIV m1 vs" "mi_primed m1"
    using ensure_primed_state[OF assms] by blast
  have srt: "sorted_views vs" using m1(2) by (simp add: merge_inv_def)
  show ?thesis
  proof (cases "mi_heap m1")
    case Nil
    then have "cursors UNIV vs = {}" using m1(2) by (simp add: merge_inv_def)
    then have "\<forall>v \<in> set vs. v = []" by (auto simp: cursors_def in_set_conv_nth)
    then show ?thesis using Nil m1(1) by (simp add: merge_next_def bindS_def)
  next
    case (Cons e h)
    obtain k i where e: "e = (k, i)" by (cases e)
    note p = pop_inv[OF m1(2) Cons[unfolded e]]
    obtain m' where m': "take_top k i (m1\<lparr>mi_heap := h\<rparr>) = (Inr (Some (hd (vs ! i))), m')"
        "merge_state m' (map (drop_key k) vs)"
      using take_top_state[OF m1(2,3) Cons[unfolded e]] by blast
    have "merge_next m = (Inr (Some (k, snd (hd (vs ! i)))), m')"
      using m1(1) Cons e m'(1) p(5) by (simp add: merge_next_def bindS_def)
    moreover have "layers vs k = Some (snd (hd (vs ! i)))"
      using layers_top[OF srt p(3,4,5)] p(7) by simp
    moreover have "\<forall>v \<in> set vs. v \<noteq> [] \<longrightarrow> k \<le> fst (hd v)"
      using p(7) by (auto simp: in_set_conv_nth)
    ultimately show ?thesis using m'(2) srt by blast
  qed
qed

lemma merge_collect_state:
  "merge_state m vs \<Longrightarrow> \<exists>out m'. merge_collect m = (Inr out, m') \<and> merged vs out"
proof (induction "mi_left m" arbitrary: m vs rule: less_induct)
  case less
  from merge_next_state[OF less.prems] show ?case
  proof (elim disjE conjE exE)
    fix m' assume "\<forall>v \<in> set vs. v = []" "merge_next m = (Inr None, m')"
    then show ?thesis using merged_Nil[of vs] by (subst merge_collect.simps) simp
  next
    fix k e m'
    assume n: "merge_next m = (Inr (Some (k, e)), m')" and st: "merge_state m' (map (drop_key k) vs)"
      and srt: "sorted_views vs" and low: "\<forall>v \<in> set vs. v \<noteq> [] \<longrightarrow> k \<le> fst (hd v)"
      and top: "layers vs k = Some e"
    obtain out m'' where "merge_collect m' = (Inr out, m'')" "merged (map (drop_key k) vs) out"
      using less.hyps[OF merge_next_progress[OF n] st] by blast
    then show ?thesis
      using merged_Cons[OF srt low top] n by (subst merge_collect.simps) auto
  qed
qed

lemma mi_new_state:
  assumes "list_all2 source_view sources vs" and "sorted_views vs"
  shows "merge_state (mi_new sources) vs"
  using assms by (simp add: merge_state_def mi_new_def)

lemma collect_merged:
  assumes "list_all2 source_view sources vs" and "sorted_views vs" and "merged vs out"
  shows "fst (merge_collect (mi_new sources)) = Inr out"
  using merge_collect_state[OF mi_new_state[OF assms(1,2)]] merged_unique[OF assms(3)] by auto

section \<open>Properties\<close>

text \<open>
  C14: Merging sorted vectors always succeeds; the result has strictly increasing keys (each
  key once), its keys are those of the inputs, and each key has the record of the first input that
  contains it, a tombstone included: an older value never shows through.
\<close>

theorem merge_newest_wins:
  assumes "\<forall>v \<in> set sources. ssorted (map fst v)"
  shows "\<exists>out. merge_vecs sources = Inr out \<and> ssorted (map fst out) \<and>
     map_of out = foldr (\<lambda>v older. older ++ map_of v) sources Map.empty"
proof -
  have "list_all2 source_view (map (\<lambda>items. SVec (vs_new items)) sources) sources"
    by (auto simp: list_all2_conv_all_nth vs_view_def vs_new_def)
  then obtain out m' where "merge_collect (mi_new (map (\<lambda>items. SVec (vs_new items)) sources)) = (Inr out, m')"
      "merged sources out"
    using merge_collect_state[OF mi_new_state] assms by blast
  then show ?thesis by (simp add: merge_vecs_def merged_def layers_def)
qed

theorem merge_newest_wins_witness:
  "\<exists>out. merge_vecs [[(str ''x'', None)], [(str ''a'', Some (str ''1'')), (str ''x'', Some (str ''old''))]] = Inr out \<and>
     map_of out (str ''x'') = Some None \<and> map_of out (str ''a'') = Some (Some (str ''1''))"
  using merge_newest_wins[of "[[(str ''x'', None)], [(str ''a'', Some (str ''1'')), (str ''x'', Some (str ''old''))]]"]
  by (auto simp: str_def)

lemma memtable_source_view:
  assumes "mt_inv m"
  shows "\<exists>v. memtable_source m start stop = Inr v \<and> vs_view v (items_in start stop (mt_map m))"
proof (cases "case (start, stop) of (Some s, Some e) \<Rightarrow> e \<le> s | _ \<Rightarrow> False")
  case True
  then have "items_in start stop (mt_map m) = []"
    by (auto simp: filter_empty_conv in_range_def split: option.splits)
  then show ?thesis using True by (simp add: memtable_source_def vs_view_def vs_new_def)
next
  case False
  then have "mt_range m start stop = Inr (items_in start stop (mt_map m))"
    by (auto simp: mt_range_def split: option.splits)
  then show ?thesis using False by (simp add: memtable_source_def vs_view_def vs_new_def)
qed

end
