(* ===== verification/Fs.thy ===== *)
theory Fs
  imports Errors "HOL-Library.AList"
begin

text \<open>
  The part of \<^verbatim>\<open>std::fs\<close> the engine uses, for the files of one directory: a directory is an association
  list from file names to contents, in the order a listing returns them. An operation that can only fail
  for reasons outside the program (a full disk, missing permissions) is total.
\<close>

type_synonym dir = "(bytes \<times> bytes) list"

definition fs_exists :: "bytes \<Rightarrow> dir \<Rightarrow> bool" where
  "fs_exists name d \<longleftrightarrow> map_of d name \<noteq> None"

definition fs_read :: "bytes \<Rightarrow> dir \<Rightarrow> bytes result" where
  "fs_read name d = ok_or (map_of d name) (Io FileNotFound)"

text \<open>\<^verbatim>\<open>fs::read_to_string\<close> refuses a file that is not UTF-8.\<close>

definition fs_read_to_string :: "bytes \<Rightarrow> dir \<Rightarrow> bytes result" where
  "fs_read_to_string name d =
     bindE (fs_read name d) (\<lambda>b. if utf8_valid b then Inr b else Inl (Io InvalidData))"

text \<open>\<^verbatim>\<open>File::create\<close> and \<^verbatim>\<open>write_all\<close>: the file is created or replaced.\<close>

definition fs_write :: "bytes \<Rightarrow> bytes \<Rightarrow> dir \<Rightarrow> dir" where
  "fs_write name content d = AList.update name content d"

definition fs_remove :: "bytes \<Rightarrow> dir \<Rightarrow> dir" where
  "fs_remove name d = AList.delete name d"

text \<open>\<^verbatim>\<open>fs::rename\<close> replaces the target atomically.\<close>

definition fs_rename :: "bytes \<Rightarrow> bytes \<Rightarrow> dir \<Rightarrow> dir" where
  "fs_rename a b d = (case map_of d a of None \<Rightarrow> d | Some c \<Rightarrow> AList.update b c (AList.delete a d))"

lemma map_of_fs_write [simp]: "map_of (fs_write name c d) = (map_of d)(name \<mapsto> c)"
  by (simp add: fs_write_def update_conv')

lemma map_of_fs_remove [simp]: "map_of (fs_remove name d) = (map_of d)(name := None)"
  by (simp add: fs_remove_def delete_conv')

lemma map_of_fs_rename [simp]:
  "map_of d a = Some c \<Longrightarrow> map_of (fs_rename a b d) = (map_of d)(a := None, b \<mapsto> c)"
  by (simp add: fs_rename_def update_conv' delete_conv')

text \<open>Write to a temporary file, then rename: how the program replaces its text files.\<close>

definition fs_replace :: "bytes \<Rightarrow> bytes \<Rightarrow> bytes \<Rightarrow> dir \<Rightarrow> dir" where
  "fs_replace tmp name content d = fs_rename tmp name (fs_write tmp content d)"

lemma map_of_fs_replace [simp]:
  "map_of (fs_replace tmp name c d) = (map_of d)(tmp := None, name \<mapsto> c)"
  by (simp add: fs_replace_def)

end
