(* ===== verification/Version.thy ===== *)
theory Version
  imports Fs
begin

text \<open>
  The format version of a database directory (\<^verbatim>\<open>src/version.rs\<close>): the file \<^verbatim>\<open>VERSION\<close>, its parser and the
  check that this program can read it.
\<close>

definition VERSION_FILE :: bytes where "VERSION_FILE = str ''VERSION''"
definition FORMAT_VERSION :: "32 word" where "FORMAT_VERSION = 1"
definition MIN_SUPPORTED_VERSION :: "32 word" where "MIN_SUPPORTED_VERSION = 1"

definition parse_version :: "bytes \<Rightarrow> 32 word option result" where
  "parse_version text =
     (case split_whitespace (trim text) of
        [] \<Rightarrow> Inl (InvalidFormat (str ''VERSION: missing 'V' marker''))
      | marker # parts \<Rightarrow>
          if marker \<noteq> str ''V'' then Inl (InvalidFormat (str ''VERSION: missing 'V' marker''))
          else (case parts of
            [] \<Rightarrow> Inl (InvalidFormat (str ''VERSION: missing version number''))
          | p # rest \<Rightarrow>
              bindE (ok_or (parse_uint (2 ^ 32) p) (InvalidFormat (str ''VERSION: invalid version number''))) (\<lambda>v.
              if rest \<noteq> [] then Inl (InvalidFormat (str ''VERSION: trailing tokens''))
              else Inr (Some (word_of_nat v)))))"

definition read_version :: "dir \<Rightarrow> 32 word option result" where
  "read_version d =
     (if \<not> fs_exists VERSION_FILE d then Inr None
      else bindE (fs_read_to_string VERSION_FILE d) parse_version)"

definition write_version :: "32 word \<Rightarrow> dir \<Rightarrow> dir" where
  "write_version v d =
     fs_replace (str ''VERSION.tmp'') VERSION_FILE (str ''V '' @ dec (unat v) @ [10]) d"

definition check_compatible :: "32 word \<Rightarrow> unit result" where
  "check_compatible f =
     (if f < MIN_SUPPORTED_VERSION \<or> FORMAT_VERSION < f
      then Inl (UnsupportedFormatVersion f MIN_SUPPORTED_VERSION FORMAT_VERSION)
      else Inr ())"

section \<open>Lemmas\<close>

lemma trim_start_visible: "word_ok w \<Longrightarrow> trim_start (w @ s) = w @ s"
  by (cases w) (auto simp: word_ok_def ws_len_visible trim_start.simps[of "_ # _"])

lemma trim_end_visible: "visible w \<Longrightarrow> trim_end (w @ s) = w @ trim_end s"
proof (induction w)
  case (Cons b w)
  then have "ws_len (b # w @ s) = 0" by (simp add: ws_len_visible)
  then have "trim_start (b # w @ s) = b # w @ s" by (simp add: trim_start.simps[of "b # w @ s"])
  then show ?case using Cons by simp
qed simp

lemma trim_end_space: "word_ok w \<Longrightarrow> trim_end (32 # w @ s) = 32 # w @ trim_end s"
proof -
  assume w: "word_ok w"
  have "trim_start (32 # w @ s) = w @ s"
    using trim_start_visible[OF w, of s] by (simp add: trim_start.simps[of "32 # w @ s"] ws_len_def)
  then show ?thesis using w trim_end_visible[of w s] by (simp add: word_ok_def)
qed

lemma trim_end_newline:
  "trim_end [10] = []"
  "trim_start [10] = []"
  by (simp_all add: trim_start.simps[of "[10]"] ws_len_def trim_start.simps[of "[]"])

lemma trim_version: "trim (str ''V '' @ dec n @ [10]) = str ''V '' @ dec n"
proof -
  let ?t = "str ''V '' @ dec n @ [10]"
  have t: "?t = str ''V'' @ 32 # dec n @ [10]" by (simp add: str_def)
  have "word_ok (str ''V'')" by (simp add: word_ok_def str_def)
  then have "trim_start ?t = ?t" unfolding t by (rule trim_start_visible)
  moreover have "trim_end ?t = str ''V'' @ 32 # dec n"
    unfolding t using trim_end_visible[of "str ''V''"] trim_end_space[OF word_ok_dec, of n "[10]"]
    by (simp add: trim_end_newline str_def)
  ultimately show ?thesis by (simp add: trim_def str_def)
qed

lemma parse_version_text: "parse_version (str ''V '' @ dec (unat v) @ [10]) = Inr (Some v)"
proof -
  have "word_ok (str ''V'')" by (simp add: word_ok_def str_def)
  then have "split_whitespace (str ''V'' @ 32 # dec (unat v)) = [str ''V'', dec (unat v)]"
    by (simp only: split_whitespace_Cons split_whitespace_word word_ok_dec)
  then have "split_whitespace (str ''V '' @ dec (unat v)) = [str ''V'', dec (unat v)]"
    by (simp add: str_def)
  moreover have "unat v < 2 ^ 32" using unsigned_less[of v] by simp
  then have "parse_uint (2 ^ 32) (dec (unat v)) = Some (unat v)" by (rule parse_uint_dec)
  ultimately show ?thesis by (simp add: parse_version_def trim_version)
qed

lemma dec_ascii: "\<forall>b \<in> set (dec n). b < 0x80"
  using word_ok_dec[of n] by (auto simp: word_ok_def visible_def)

text \<open>
  The version file written for any version is read back as that version, and the
  temporary file it was written through is gone; exactly the versions in the supported range are accepted.
\<close>

theorem version_roundtrip:
  "read_version (write_version v d) = Inr (Some v) \<and>
   \<not> fs_exists (str ''VERSION.tmp'') (write_version v d) \<and>
   (check_compatible v = Inr () \<longleftrightarrow> MIN_SUPPORTED_VERSION \<le> v \<and> v \<le> FORMAT_VERSION)"
proof -
  have "utf8_valid (str ''V '' @ dec (unat v) @ [10])"
    by (rule utf8_valid_ascii) (use dec_ascii[of "unat v"] in \<open>auto simp: str_def\<close>)
  then have "read_version (write_version v d) = Inr (Some v)"
    using parse_version_text[of v]
    by (simp add: read_version_def write_version_def fs_exists_def fs_read_to_string_def fs_read_def)
  moreover have "\<not> fs_exists (str ''VERSION.tmp'') (write_version v d)"
    by (simp add: write_version_def fs_exists_def VERSION_FILE_def str_def)
  ultimately show ?thesis by (auto simp: check_compatible_def not_less)
qed

end
