(* ===== verification/Manifest.thy ===== *)
theory Manifest
  imports Version
begin

text \<open>
  The manifest (\<^verbatim>\<open>src/manifest.rs\<close>): the levels, the level-1 segments with their key ranges and the next
  table id; its text format, its validation and its atomic replacement. Table ids and counts are \<^verbatim>\<open>u64\<close>
  values: natural numbers here, with the bound checked where a text is parsed.
\<close>

record segment_meta =
  sm_file_id :: nat
  sm_min_key :: bytes
  sm_max_key :: bytes
  sm_records :: nat

record manifest =
  mf_levels :: "nat list list"
  mf_segments :: "segment_meta list"
  mf_next_table_id :: nat

definition manifest_new :: manifest where
  "manifest_new = \<lparr>mf_levels = [], mf_segments = [], mf_next_table_id = 1\<rparr>"

section \<open>Hexadecimal\<close>

definition hex_char :: "nat \<Rightarrow> byte" where
  "hex_char n = (if n < 10 then word_of_nat (48 + n) else word_of_nat (87 + n))"

definition hex_encode :: "bytes \<Rightarrow> bytes" where
  "hex_encode bs = concat (map (\<lambda>b. [hex_char (unat b div 16), hex_char (unat b mod 16)]) bs)"

text \<open>\<^verbatim>\<open>char::to_digit(16)\<close>, in both cases of letters.\<close>

definition to_digit16 :: "byte \<Rightarrow> nat option" where
  "to_digit16 c =
     (if 48 \<le> c \<and> c \<le> 57 then Some (unat c - 48)
      else if 97 \<le> c \<and> c \<le> 102 then Some (unat c - 87)
      else if 65 \<le> c \<and> c \<le> 70 then Some (unat c - 55) else None)"

fun hex_pairs :: "nat \<Rightarrow> bytes \<Rightarrow> bytes result" where
  "hex_pairs i (a # b # s) =
     bindE (ok_or (to_digit16 a) (InvalidFormat (str ''segment hex range bad char at '' @ dec i))) (\<lambda>hi.
     bindE (ok_or (to_digit16 b) (InvalidFormat (str ''segment hex range bad char at '' @ dec (i + 1)))) (\<lambda>lo.
     bindE (hex_pairs (i + 2) s) (\<lambda>out. Inr (word_of_nat (hi * 16 + lo) # out))))"
| "hex_pairs i _ = Inr []"

definition hex_decode :: "bytes \<Rightarrow> bytes result" where
  "hex_decode s =
     (if length s mod 2 \<noteq> 0 then Inl (InvalidFormat (str ''segment hex range odd length''))
      else hex_pairs 0 s)"

section \<open>Validation\<close>

definition all_ids :: "manifest \<Rightarrow> nat list" where
  "all_ids m = concat (mf_levels m) @ map sm_file_id (mf_segments m)"

definition level_of :: "manifest \<Rightarrow> nat \<Rightarrow> nat option" where
  "level_of m i = head_opt (filter (\<lambda>l. i \<in> set (mf_levels m ! l)) [0..<length (mf_levels m)])"

fun validate_windows :: "segment_meta list \<Rightarrow> unit result" where
  "validate_windows (a # b # r) =
     (if sm_min_key b \<le> sm_min_key a
      then Inl (InvalidFormat (str ''manifest segments not strictly sorted by min_key''))
      else if sm_min_key b \<le> sm_max_key a
      then Inl (InvalidFormat (str ''manifest segments overlap (not disjoint)''))
      else validate_windows (b # r))"
| "validate_windows _ = Inr ()"

fun validate_ranges :: "segment_meta list \<Rightarrow> unit result" where
  "validate_ranges [] = Inr ()"
| "validate_ranges (s # r) =
     (if sm_max_key s < sm_min_key s then Inl (InvalidFormat (str ''manifest segment min_key > max_key''))
      else validate_ranges r)"

fun any_window_equal :: "nat list \<Rightarrow> bool" where
  "any_window_equal (a # b # r) = (a = b \<or> any_window_equal (b # r))"
| "any_window_equal _ = False"

definition validate :: "manifest \<Rightarrow> unit result" where
  "validate m =
     bindE (validate_windows (mf_segments m)) (\<lambda>_.
     bindE (validate_ranges (mf_segments m)) (\<lambda>_.
       if any_window_equal (sort (all_ids m)) then Inl (InvalidFormat (str ''manifest duplicate table id''))
       else Inr ()))"

section \<open>Loading\<close>

text \<open>\<^verbatim>\<open>parts.next().ok_or_else(..)?.parse().map_err(..)?\<close> on an iterator of words.\<close>

definition next_part :: "bytes \<Rightarrow> bytes list \<Rightarrow> (bytes \<times> bytes list) result" where
  "next_part what parts = (case parts of [] \<Rightarrow> Inl (InvalidFormat what) | p # r \<Rightarrow> Inr (p, r))"

definition next_u64 :: "bytes \<Rightarrow> bytes \<Rightarrow> bytes list \<Rightarrow> (nat \<times> bytes list) result" where
  "next_u64 missing bad parts =
     bindE (next_part missing parts) (\<lambda>(p, r).
     bindE (ok_or (parse_uint (2 ^ 64) p) (InvalidFormat bad)) (\<lambda>n. Inr (n, r)))"

definition load_line :: "bytes \<Rightarrow> manifest \<Rightarrow> manifest result" where
  "load_line line m = (case split_whitespace line of
     [] \<Rightarrow> Inr m
   | tag # parts \<Rightarrow>
     if tag = str ''N'' then
       bindE (next_u64 (str ''manifest N line'') (str ''manifest id'') parts) (\<lambda>(n, _).
         Inr (m\<lparr>mf_next_table_id := n\<rparr>))
     else if tag = str ''L'' then
       bindE (next_u64 (str ''manifest L level'') (str ''manifest level'') parts) (\<lambda>(level, parts).
       bindE (mapE (\<lambda>s. ok_or (parse_uint (2 ^ 64) s) (InvalidFormat (str ''manifest L id '' @ s))) parts) (\<lambda>ids.
         Inr (m\<lparr>mf_levels :=
           (mf_levels m @ replicate (level + 1 - length (mf_levels m)) [])[level := ids]\<rparr>)))
     else if tag = str ''S'' then
       bindE (next_u64 (str ''manifest S level'') (str ''manifest S level'') parts) (\<lambda>(_, parts).
       bindE (next_u64 (str ''manifest S id'') (str ''manifest S id'') parts) (\<lambda>(file_id, parts).
       bindE (next_part (str ''manifest S min'') parts) (\<lambda>(min_hex, parts).
       bindE (next_part (str ''manifest S max'') parts) (\<lambda>(max_hex, parts).
       bindE (next_u64 (str ''manifest S records'') (str ''manifest S records'') parts) (\<lambda>(records, _).
       bindE (hex_decode min_hex) (\<lambda>min_key.
       bindE (hex_decode max_hex) (\<lambda>max_key.
         Inr (m\<lparr>mf_segments := mf_segments m @
           [\<lparr>sm_file_id = file_id, sm_min_key = min_key, sm_max_key = max_key, sm_records = records\<rparr>]\<rparr>))))))))
     else Inr m)"

fun load_lines :: "bytes list \<Rightarrow> manifest \<Rightarrow> manifest result" where
  "load_lines [] m = Inr m"
| "load_lines (l # ls) m = bindE (load_line l m) (load_lines ls)"

definition manifest_parse :: "bytes \<Rightarrow> manifest result" where
  "manifest_parse text =
     bindE (load_lines (lines text) manifest_new) (\<lambda>m. bindE (validate m) (\<lambda>_. Inr m))"

definition MANIFEST_FILE :: bytes where "MANIFEST_FILE = str ''MANIFEST''"

definition manifest_load :: "dir \<Rightarrow> manifest result" where
  "manifest_load d =
     (if \<not> fs_exists MANIFEST_FILE d then Inr manifest_new
      else bindE (fs_read_to_string MANIFEST_FILE d) manifest_parse)"

section \<open>Saving\<close>

definition join_words :: "bytes list \<Rightarrow> bytes" where
  "join_words ws = (case ws of [] \<Rightarrow> [] | w # r \<Rightarrow> w @ concat (map (\<lambda>x. 32 # x) r))"

definition level_line :: "nat \<Rightarrow> nat list \<Rightarrow> bytes" where
  "level_line level ids = join_words ([str ''L'', dec level] @ map dec ids)"

definition segment_line :: "segment_meta \<Rightarrow> bytes" where
  "segment_line s = join_words [str ''S'', str ''1'', dec (sm_file_id s), hex_encode (sm_min_key s),
     hex_encode (sm_max_key s), dec (sm_records s)]"

definition manifest_lines :: "manifest \<Rightarrow> bytes list" where
  "manifest_lines m =
     join_words [str ''N'', dec (mf_next_table_id m)]
     # map (\<lambda>(level, ids). level_line level ids)
         (filter (\<lambda>(level, ids). ids \<noteq> []) (enumerate 0 (mf_levels m)))
     @ map segment_line (mf_segments m)"

definition manifest_text :: "manifest \<Rightarrow> bytes" where
  "manifest_text m = concat (map (\<lambda>l. l @ [10]) (manifest_lines m))"

definition manifest_tmp :: bytes where "manifest_tmp = str ''MANIFEST.manifest.tmp''"

definition manifest_save :: "manifest \<Rightarrow> dir \<Rightarrow> dir" where
  "manifest_save m d = fs_replace manifest_tmp MANIFEST_FILE (manifest_text m) d"

section \<open>Words and hexadecimal, read back\<close>

lemma split_join_words: "\<forall>w \<in> set ws. word_ok w \<Longrightarrow> split_whitespace (join_words ws) = ws"
proof (induction ws)
  case (Cons w ws)
  show ?case
  proof (cases ws)
    case Nil
    then show ?thesis using Cons.prems by (simp add: join_words_def)
  next
    case (Cons v r)
    have "join_words (w # ws) = w @ 32 # join_words ws" using Cons by (simp add: join_words_def)
    then show ?thesis using Cons.IH Cons.prems by simp
  qed
qed (simp add: join_words_def)

lemma join_words_bytes: "b \<in> set (join_words ws) \<Longrightarrow> b = 32 \<or> (\<exists>w \<in> set ws. b \<in> set w)"
  by (cases ws) (auto simp: join_words_def split: if_splits)

lemma join_words_line:
  assumes "\<forall>w \<in> set ws. word_ok w"
  shows "10 \<notin> set (join_words ws) \<and> 13 \<notin> set (join_words ws) \<and> (\<forall>b \<in> set (join_words ws). b < 0x80)"
proof -
  have "b = 32 \<or> 33 \<le> b \<and> b < 0x80" if "b \<in> set (join_words ws)" for b
    using join_words_bytes[OF that] assms by (auto simp: word_ok_def visible_def)
  then show ?thesis by fastforce
qed

lemma unat_hex_char: "n < 16 \<Longrightarrow> unat (hex_char n) = (if n < 10 then 48 + n else 87 + n)"
  using unat_byte_of_nat[of "48 + n"] unat_byte_of_nat[of "87 + n"] by (simp add: hex_char_def del: of_nat_add)

lemma to_digit16_hex_char: "n < 16 \<Longrightarrow> to_digit16 (hex_char n) = Some n"
  by (simp add: to_digit16_def word_le_nat_alt unat_hex_char)

lemma hex_encode_simps [simp]:
  "hex_encode [] = []"
  "hex_encode (b # bs) = hex_char (unat b div 16) # hex_char (unat b mod 16) # hex_encode bs"
  by (simp_all add: hex_encode_def)

lemma unat_byte_less: "unat (b :: byte) < 256"
  using unsigned_less[of b] by simp

lemma nibble: "unat (b :: byte) div 16 < 16"
  by (rule less_mult_imp_div_less) (use unat_byte_less[of b] in linarith)

lemma hex_pairs_encode: "hex_pairs i (hex_encode bs) = Inr bs"
proof (induction bs arbitrary: i)
  case (Cons b bs)
  have "unat b div 16 < 16" by (rule nibble)
  then have "to_digit16 (hex_char (unat b div 16)) = Some (unat b div 16)"
      "to_digit16 (hex_char (unat b mod 16)) = Some (unat b mod 16)"
    by (simp_all add: to_digit16_hex_char)
  moreover have "(word_of_nat (unat b div 16 * 16 + unat b mod 16) :: byte) = b"
    by (simp only: div_mult_mod_eq) simp
  ultimately show ?case using Cons by (simp del: of_nat_add of_nat_mult)
qed simp

lemma length_hex_encode [simp]: "length (hex_encode bs) = 2 * length bs"
  by (induction bs) simp_all

lemma hex_decode_encode [simp]: "hex_decode (hex_encode bs) = Inr bs"
  by (simp add: hex_decode_def hex_pairs_encode)

lemma word_ok_hex: "bs \<noteq> [] \<Longrightarrow> word_ok (hex_encode bs)"
proof -
  have h: "33 \<le> hex_char n \<and> hex_char n < 0x80" if "n < 16" for n
    using that by (simp add: word_le_nat_alt word_less_nat_alt unat_hex_char)
  have v: "visible (hex_encode bs)" for bs
  proof (induction bs)
    case (Cons b bs)
    have "unat b div 16 < 16" by (rule nibble)
    then show ?case using Cons h[of "unat b div 16"] h[of "unat b mod 16"] by simp
  qed simp
  assume "bs \<noteq> []"
  then have "hex_encode bs \<noteq> []" by (cases bs) simp_all
  then show ?thesis by (simp add: word_ok_def v)
qed

section \<open>Validation\<close>

lemma any_window_equal_iff: "sorted xs \<Longrightarrow> any_window_equal xs \<longleftrightarrow> \<not> distinct xs"
proof (induction xs rule: any_window_equal.induct)
  case (1 a b r)
  then show ?case by auto
qed auto

text \<open>The segments are sorted and disjoint: each range ends before the next begins.\<close>

definition segments_ok :: "segment_meta list \<Rightarrow> bool" where
  "segments_ok ss \<longleftrightarrow> (\<forall>s \<in> set ss. sm_min_key s \<le> sm_max_key s) \<and>
     sorted_wrt (\<lambda>a b. sm_max_key a < sm_min_key b) ss"

lemma validate_segments:
  "validate_windows ss = Inr () \<and> validate_ranges ss = Inr () \<longleftrightarrow> segments_ok ss"
proof (induction ss rule: validate_windows.induct)
  case (1 a b r)
  have t: "sm_max_key a < sm_min_key s" if "sm_max_key a < sm_min_key b" "segments_ok (b # r)" "s \<in> set r" for s
    using that unfolding segments_ok_def by (meson le_less_trans less_trans list.set_intros sorted_wrt.simps(2))
  have "segments_ok (a # b # r) \<longleftrightarrow> sm_min_key a \<le> sm_max_key a \<and> sm_max_key a < sm_min_key b \<and> segments_ok (b # r)"
    using t by (auto simp: segments_ok_def)
  moreover have "sm_min_key a < sm_min_key b" if "sm_min_key a \<le> sm_max_key a" "sm_max_key a < sm_min_key b"
    using that by (rule le_less_trans)
  ultimately show ?case using 1 by (auto simp: not_le not_less split: if_splits)
qed (auto simp: segments_ok_def not_less)

lemma validate_iff: "validate m = Inr () \<longleftrightarrow> segments_ok (mf_segments m) \<and> distinct (all_ids m)"
proof -
  have "any_window_equal (sort (all_ids m)) \<longleftrightarrow> \<not> distinct (all_ids m)"
    using any_window_equal_iff[of "sort (all_ids m)"] by simp
  then show ?thesis
    using validate_segments[of "mf_segments m"] by (auto simp: validate_def bindE_eq_Inr)
qed

section \<open>The round trip of the file\<close>

text \<open>
  Trailing empty levels are not written, so they are not read back. \<open>manifest_ok\<close>: what a manifest must
  satisfy for its file to be readable; the keys of a segment must not be empty, since the empty key is
  written as no word at all.
\<close>

definition trim_levels :: "nat list list \<Rightarrow> nat list list" where
  "trim_levels ls = rev (dropWhile (\<lambda>l. l = []) (rev ls))"

definition segment_ok :: "segment_meta \<Rightarrow> bool" where
  "segment_ok s \<longleftrightarrow> sm_file_id s < 2 ^ 64 \<and> sm_records s < 2 ^ 64 \<and> sm_min_key s \<noteq> [] \<and> sm_max_key s \<noteq> []"

definition manifest_ok :: "manifest \<Rightarrow> bool" where
  "manifest_ok m \<longleftrightarrow> mf_next_table_id m < 2 ^ 64 \<and> length (mf_levels m) < 2 ^ 64 \<and>
     (\<forall>l \<in> set (mf_levels m). \<forall>i \<in> set l. i < 2 ^ 64) \<and> (\<forall>s \<in> set (mf_segments m). segment_ok s) \<and>
     segments_ok (mf_segments m) \<and> distinct (all_ids m)"

lemma trim_levels_snoc: "trim_levels (ls @ [x]) = (if x = [] then trim_levels ls else ls @ [x])"
  by (simp add: trim_levels_def)

lemma trim_levels_pad: "\<exists>n. ls = trim_levels ls @ replicate n []"
proof (induction ls rule: rev_induct)
  case Nil
  then show ?case by (simp add: trim_levels_def)
next
  case (snoc x ls)
  then obtain n where n: "ls = trim_levels ls @ replicate n []" by blast
  show ?case
  proof (cases "x = []")
    case True
    then have "ls @ [x] = trim_levels (ls @ [x]) @ replicate (Suc n) []"
      using n by (simp only: trim_levels_snoc if_True) (metis append.assoc replicate_Suc replicate_append_same)
    then show ?thesis by blast
  next
    case False
    then show ?thesis by (intro exI[of _ 0]) (simp add: trim_levels_snoc)
  qed
qed

lemma concat_trim_levels: "concat (trim_levels ls) = concat ls"
proof -
  obtain n where "ls = trim_levels ls @ replicate n []" using trim_levels_pad by blast
  moreover have "concat (replicate n []) = []" by (induction n) simp_all
  ultimately show ?thesis by (metis append.right_neutral concat_append)
qed

lemma load_lines_append: "load_lines (a @ b) m = bindE (load_lines a m) (load_lines b)"
  by (induction a arbitrary: m) (auto simp: bindE_def split: sum.splits)

lemma word_ok_tags [simp]: "word_ok (str ''N'')" "word_ok (str ''L'')" "word_ok (str ''S'')" "word_ok (str ''1'')"
  by (simp_all add: word_ok_def str_def)

lemma str_tags [simp]: "str ''L'' \<noteq> str ''N''" "str ''S'' \<noteq> str ''N''" "str ''S'' \<noteq> str ''L''"
  by (simp_all add: str_def)

lemma str_1: "str ''1'' = dec 1"
  by (simp add: str_def dec.simps[of "Suc 0"] digit_def)

lemma next_u64_dec: "n < 2 ^ 64 \<Longrightarrow> next_u64 a b (dec n # r) = Inr (n, r)"
  by (simp add: next_u64_def next_part_def)

lemma load_N_line:
  "mf_next_table_id m < 2 ^ 64 \<Longrightarrow>
     load_line (join_words [str ''N'', dec (mf_next_table_id m)]) m0 = Inr (m0\<lparr>mf_next_table_id := mf_next_table_id m\<rparr>)"
  by (simp add: load_line_def split_join_words next_u64_dec)

lemma load_level_line:
  assumes "level < 2 ^ 64" and "\<forall>i \<in> set ids. i < 2 ^ 64"
  shows "load_line (level_line level ids) m =
     Inr (m\<lparr>mf_levels := (mf_levels m @ replicate (level + 1 - length (mf_levels m)) [])[level := ids]\<rparr>)"
proof -
  have "split_whitespace (level_line level ids) = [str ''L'', dec level] @ map dec ids"
    unfolding level_line_def by (rule split_join_words) auto
  moreover have "mapE (\<lambda>s. ok_or (parse_uint (2 ^ 64) s) (InvalidFormat (str ''manifest L id '' @ s))) (map dec ids) = Inr ids"
    using assms(2) by (induction ids) simp_all
  ultimately show ?thesis
    using assms(1) by (simp add: load_line_def next_u64_dec)
qed

lemma load_segment_line:
  assumes "segment_ok s"
  shows "load_line (segment_line s) m = Inr (m\<lparr>mf_segments := mf_segments m @ [s]\<rparr>)"
proof -
  have "split_whitespace (segment_line s) = [str ''S'', str ''1'', dec (sm_file_id s), hex_encode (sm_min_key s),
     hex_encode (sm_max_key s), dec (sm_records s)]"
    unfolding segment_line_def using assms by (intro split_join_words) (simp add: segment_ok_def word_ok_hex)
  then show ?thesis
    using assms by (simp add: load_line_def str_1 next_u64_dec next_part_def segment_ok_def del: One_nat_def)
qed

lemma load_segment_lines:
  "\<forall>s \<in> set ss. segment_ok s \<Longrightarrow>
     load_lines (map segment_line ss) m = Inr (m\<lparr>mf_segments := mf_segments m @ ss\<rparr>)"
  by (induction ss arbitrary: m) (simp_all add: load_segment_line)

definition level_lines :: "nat list list \<Rightarrow> bytes list" where
  "level_lines ls = map (\<lambda>(level, ids). level_line level ids)
     (filter (\<lambda>(level, ids). ids \<noteq> []) (enumerate 0 ls))"

lemma level_lines_snoc:
  "level_lines (ls @ [x]) = level_lines ls @ (if x = [] then [] else [level_line (length ls) x])"
  by (simp add: level_lines_def enumerate_append_eq)

lemma load_level_lines:
  assumes "length ls < 2 ^ 64" and "\<forall>l \<in> set ls. \<forall>i \<in> set l. i < 2 ^ 64" and "mf_levels m = []"
  shows "load_lines (level_lines ls) m = Inr (m\<lparr>mf_levels := trim_levels ls\<rparr>)"
  using assms(1,2)
proof (induction ls rule: rev_induct)
  case Nil
  then show ?case using assms(3) by (simp add: level_lines_def trim_levels_def)
next
  case (snoc x ls)
  obtain n where n: "ls = trim_levels ls @ replicate n []" using trim_levels_pad by blast
  have len: "length ls = length (trim_levels ls) + n" by (subst n) simp
  have "(trim_levels ls @ replicate (Suc (length ls) - length (trim_levels ls)) [])[length ls := x] = ls @ [x]"
    using n len by (metis Suc_diff_le add_diff_cancel_left' append.assoc le_add1 list_update_length
        replicate_Suc replicate_append_same)
  moreover have "load_lines (level_lines ls) m = Inr (m\<lparr>mf_levels := trim_levels ls\<rparr>)"
    using snoc by simp
  ultimately show ?case
    using snoc.prems by (simp add: level_lines_snoc load_lines_append load_level_line trim_levels_snoc)
qed

lemma trim_levels_keep: "validate (m\<lparr>mf_levels := trim_levels (mf_levels m)\<rparr>) = validate m"
  by (simp add: validate_def all_ids_def concat_trim_levels)

lemma join_words_ascii: "\<forall>w \<in> set ws. word_ok w \<Longrightarrow> \<forall>b \<in> set (join_words ws). b < 0x80"
  using join_words_line by blast

lemma manifest_line_words:
  assumes "manifest_ok m" and "l \<in> set (manifest_lines m)"
  shows "\<exists>ws. l = join_words ws \<and> (\<forall>w \<in> set ws. word_ok w)"
proof -
  consider "l = join_words [str ''N'', dec (mf_next_table_id m)]"
    | level ids where "l = level_line level ids"
    | s where "s \<in> set (mf_segments m)" "l = segment_line s"
    using assms(2) by (auto simp: manifest_lines_def)
  then show ?thesis
  proof cases
    case 1
    then show ?thesis by (intro exI[of _ "[str ''N'', dec (mf_next_table_id m)]"]) simp
  next
    case (2 level ids)
    then show ?thesis by (intro exI[of _ "[str ''L'', dec level] @ map dec ids"]) (auto simp: level_line_def)
  next
    case (3 s)
    then have "segment_ok s" using assms(1) by (simp add: manifest_ok_def)
    then show ?thesis using 3
      by (intro exI[of _ "[str ''S'', str ''1'', dec (sm_file_id s), hex_encode (sm_min_key s),
          hex_encode (sm_max_key s), dec (sm_records s)]"]) (simp add: segment_line_def segment_ok_def word_ok_hex)
  qed
qed

lemma manifest_parse_text:
  assumes "manifest_ok m"
  shows "manifest_parse (manifest_text m) = Inr (m\<lparr>mf_levels := trim_levels (mf_levels m)\<rparr>)"
proof -
  have "10 \<notin> set l \<and> 13 \<notin> set l" if "l \<in> set (manifest_lines m)" for l
    using manifest_line_words[OF assms that] join_words_line by blast
  then have "lines (manifest_text m) = manifest_lines m"
    unfolding manifest_text_def by (intro lines_concat) blast
  moreover have "load_lines (manifest_lines m) manifest_new = Inr (m\<lparr>mf_levels := trim_levels (mf_levels m)\<rparr>)"
    using assms by (simp add: manifest_lines_def level_lines_def[symmetric] load_N_line load_lines_append
        load_level_lines load_segment_lines manifest_ok_def manifest_new_def)
  moreover have "validate m = Inr ()"
    using assms by (simp add: validate_iff manifest_ok_def)
  ultimately show ?thesis by (simp add: manifest_parse_def trim_levels_keep)
qed

lemma manifest_text_utf8: "manifest_ok m \<Longrightarrow> utf8_valid (manifest_text m)"
proof (rule utf8_valid_ascii)
  assume ok: "manifest_ok m"
  have "b < 0x80" if "l \<in> set (manifest_lines m)" "b \<in> set l" for l b
    using manifest_line_words[OF ok that(1)] that(2) join_words_ascii by blast
  then show "\<forall>b \<in> set (manifest_text m). b < 0x80" by (auto simp: manifest_text_def)
qed

lemma manifest_load_saved:
  assumes "map_of d MANIFEST_FILE = Some (manifest_text m)" and "manifest_ok m"
  shows "manifest_load d = Inr (m\<lparr>mf_levels := trim_levels (mf_levels m)\<rparr>)"
  using assms by (simp add: manifest_load_def fs_exists_def fs_read_to_string_def fs_read_def
      manifest_text_utf8 manifest_parse_text)

text \<open>
  C34: A well-formed manifest that is saved is loaded back unchanged (up to trailing empty
  levels, which mean nothing), with all its table ids; the save leaves no temporary file and touches no
  other file of the directory.
\<close>

theorem manifest_roundtrip:
  assumes "manifest_ok m"
  shows "manifest_load (manifest_save m d) = Inr (m\<lparr>mf_levels := trim_levels (mf_levels m)\<rparr>) \<and>
     all_ids (m\<lparr>mf_levels := trim_levels (mf_levels m)\<rparr>) = all_ids m \<and>
     (\<forall>name. name \<noteq> MANIFEST_FILE \<longrightarrow>
        map_of (manifest_save m d) name = (if name = manifest_tmp then None else map_of d name))"
proof -
  have "map_of (manifest_save m d) MANIFEST_FILE = Some (manifest_text m)"
    by (simp add: manifest_save_def)
  then show ?thesis
    using manifest_load_saved assms by (simp add: manifest_save_def all_ids_def concat_trim_levels)
qed

definition sample_manifest :: manifest where
  "sample_manifest = \<lparr>mf_levels = [[1, 2]], mf_segments =
     [\<lparr>sm_file_id = 3, sm_min_key = str ''a'', sm_max_key = str ''m'', sm_records = 7\<rparr>,
      \<lparr>sm_file_id = 5, sm_min_key = str ''n'', sm_max_key = str ''z'', sm_records = 9\<rparr>], mf_next_table_id = 42\<rparr>"

lemma sample_manifest_ok: "manifest_ok sample_manifest"
  by (simp add: manifest_ok_def sample_manifest_def segment_ok_def segments_ok_def all_ids_def str_def)

theorem manifest_roundtrip_witness:
  "manifest_load (manifest_save sample_manifest []) = Inr sample_manifest"
  using manifest_roundtrip[OF sample_manifest_ok, of "[]"] by (simp add: sample_manifest_def trim_levels_def)

text \<open>
  C35: The validation accepts exactly the manifests whose segments are non-empty ranges in
  ascending order without overlap, and in which no table id occurs twice; so each key lies in the range of
  at most one segment.
\<close>

theorem manifest_validation:
  "(validate m = Inr () \<longleftrightarrow> segments_ok (mf_segments m) \<and> distinct (all_ids m)) \<and>
   (validate m = Inr () \<longrightarrow> (\<forall>i < length (mf_segments m). \<forall>j < length (mf_segments m).
      sm_min_key (mf_segments m ! i) \<le> key \<and> key \<le> sm_max_key (mf_segments m ! i) \<and>
      sm_min_key (mf_segments m ! j) \<le> key \<and> key \<le> sm_max_key (mf_segments m ! j) \<longrightarrow> i = j))"
proof -
  have "i = j" if ok: "segments_ok (mf_segments m)" and l: "i < length (mf_segments m)" "j < length (mf_segments m)"
    and k: "sm_min_key (mf_segments m ! i) \<le> key" "key \<le> sm_max_key (mf_segments m ! i)"
      "sm_min_key (mf_segments m ! j) \<le> key" "key \<le> sm_max_key (mf_segments m ! j)" for i j
  proof (rule ccontr)
    assume "i \<noteq> j"
    then consider "i < j" | "j < i" by linarith
    then show False
    proof cases
      case 1
      then have "sm_max_key (mf_segments m ! i) < sm_min_key (mf_segments m ! j)"
        using ok l sorted_wrt_nth_less[of "\<lambda>a b. sm_max_key a < sm_min_key b" "mf_segments m" i j]
        by (simp add: segments_ok_def)
      then show False using k by (meson le_less_trans not_less)
    next
      case 2
      then have "sm_max_key (mf_segments m ! j) < sm_min_key (mf_segments m ! i)"
        using ok l sorted_wrt_nth_less[of "\<lambda>a b. sm_max_key a < sm_min_key b" "mf_segments m" j i]
        by (simp add: segments_ok_def)
      then show False using k by (meson le_less_trans not_less)
    qed
  qed
  then show ?thesis by (simp add: validate_iff)
qed

theorem manifest_validation_witness:
  "sm_min_key (mf_segments sample_manifest ! 0) \<le> str ''b'' \<and>
   \<not> (sm_min_key (mf_segments sample_manifest ! 1) \<le> str ''b'' \<and> str ''b'' \<le> sm_max_key (mf_segments sample_manifest ! 1))"
proof -
  have "validate sample_manifest = Inr ()"
    using sample_manifest_ok by (simp add: validate_iff manifest_ok_def)
  moreover have "sm_min_key (mf_segments sample_manifest ! 0) \<le> str ''b''"
      "str ''b'' \<le> sm_max_key (mf_segments sample_manifest ! 0)"
    by (simp_all add: sample_manifest_def str_def)
  ultimately show ?thesis
    using manifest_validation[of sample_manifest "str ''b''"] by (simp add: sample_manifest_def) fastforce
qed

text \<open>
  A segment whose smallest key is the empty key cannot be read back: its range is
  written as an empty word, the following fields move up by one, and the load that follows fails. The empty
  key is a key like any other for the rest of the engine.
\<close>

theorem manifest_empty_key:
  assumes "mf_segments m = [s]" and "sm_min_key s = []" and "sm_max_key s \<noteq> []"
    and "mf_levels m = []" and "mf_next_table_id m < 2 ^ 64" and "sm_file_id s < 2 ^ 64"
  shows "manifest_load (manifest_save m d) = Inl (InvalidFormat (str ''manifest S records''))"
proof -
  have sl: "segment_line s = join_words [str ''S'', str ''1'', dec (sm_file_id s)] @ 32 # 32 #
      join_words [hex_encode (sm_max_key s), dec (sm_records s)]"
    by (simp add: segment_line_def join_words_def assms(2))
  have w: "word_ok (hex_encode (sm_max_key s))" using assms(3) by (rule word_ok_hex)
  have sp: "split_whitespace (32 # x) = split_whitespace x" for x
    by (simp add: split_whitespace_def ws_len_def)
  have "split_whitespace (segment_line s) = [str ''S'', str ''1'', dec (sm_file_id s),
      hex_encode (sm_max_key s), dec (sm_records s)]"
    using w by (simp add: sl join_words_def sp)
  then have ll: "load_line (segment_line s) m0 = Inl (InvalidFormat (str ''manifest S records''))" for m0
    using assms(6) by (simp add: load_line_def str_1 next_u64_dec next_part_def next_u64_def del: One_nat_def)
  have nl: "10 \<notin> set (segment_line s) \<and> 13 \<notin> set (segment_line s) \<and> (\<forall>b \<in> set (segment_line s). b < 0x80)"
    using join_words_line[of "[str ''S'', str ''1'', dec (sm_file_id s)]"]
      join_words_line[of "[hex_encode (sm_max_key s), dec (sm_records s)]"] w by (auto simp: sl)
  let ?n = "join_words [str ''N'', dec (mf_next_table_id m)]"
  have ml: "manifest_lines m = [?n, segment_line s]" using assms(1,4) by (simp add: manifest_lines_def)
  have nn: "10 \<notin> set ?n \<and> 13 \<notin> set ?n \<and> (\<forall>b \<in> set ?n. b < 0x80)" by (rule join_words_line) simp
  have "lines (manifest_text m) = [?n, segment_line s]"
    unfolding manifest_text_def ml using nl nn by (intro lines_concat) auto
  moreover have "utf8_valid (manifest_text m)"
    by (rule utf8_valid_ascii) (use nl nn in \<open>auto simp: manifest_text_def ml\<close>)
  ultimately show ?thesis
    using assms(5) by (simp add: manifest_load_def manifest_save_def fs_exists_def fs_read_to_string_def
        fs_read_def manifest_parse_def load_N_line ll)
qed

theorem manifest_empty_key_witness:
  "manifest_load (manifest_save \<lparr>mf_levels = [], mf_segments =
     [\<lparr>sm_file_id = 1, sm_min_key = [], sm_max_key = str ''k'', sm_records = 2\<rparr>], mf_next_table_id = 2\<rparr> [])
   = Inl (InvalidFormat (str ''manifest S records''))"
  by (rule manifest_empty_key[where s = "\<lparr>sm_file_id = 1, sm_min_key = [], sm_max_key = str ''k'', sm_records = 2\<rparr>"])
    (simp_all add: str_def)

end
