(* ===== verification/Database.thy ===== *)
theory Database
  imports Recovery Merge Manifest
begin

text \<open>
  The storage engine (\<^verbatim>\<open>src/lib.rs\<close>): opening a directory with the legacy conversion, the validation and
  the log replay; put, delete and get over memory, level 0 and the segments; the lazy scan; flush,
  compaction and full compaction; garbage collection, backup, restore and close. The files of the
  directory are a \<open>dir\<close>, except the log, whose file and buffer are the \<open>wal\<close> of the database.
\<close>

record db_options =
  memtable_limit :: nat
  l0_compact_threshold :: nat
  segment_max_records :: nat

definition default_options :: db_options where
  "default_options = \<lparr>memtable_limit = 4 * 1024 * 1024, l0_compact_threshold = 4, segment_max_records = 30000\<rparr>"

record database =
  db_dir :: dir
  db_wal :: wal
  db_memtable :: memtable
  db_manifest :: manifest
  db_opts :: db_options
  db_closed :: bool
  db_cache :: "nat \<Rightarrow> table_reader option"
  db_next_tx_id :: "64 word"
  db_format_version :: "32 word"

definition WAL_FILE :: bytes where "WAL_FILE = str ''wal.log''"
definition SCHEMA_FILE :: bytes where "SCHEMA_FILE = str ''SCHEMA''"

text \<open>\<^verbatim>\<open>wal::clear\<close> empties a log file by its path; it is unused since \<open>wal_truncate\<close> exists.\<close>

definition wal_clear :: "bytes \<Rightarrow> (dir, error, unit) op" where
  "wal_clear path d = (if fs_exists path d then (Inr (), fs_write path [] d) else (Inl (Io FileNotFound), d))"

text \<open>The files as a crash of the process leaves them: the buffer of the log is lost.\<close>

definition disk :: "database \<Rightarrow> dir" where
  "disk db = fs_write WAL_FILE (wal_file (db_wal db)) (db_dir db)"

text \<open>\<^verbatim>\<open>format!("{:06}.sst", id)\<close>\<close>

definition table_path :: "nat \<Rightarrow> bytes" where
  "table_path i = replicate (6 - length (dec i)) 48 @ dec i @ str ''.sst''"

definition open_table :: "nat \<Rightarrow> database \<Rightarrow> table_reader result" where
  "open_table i db = bindE (fs_read (table_path i) (db_dir db)) table_open"

definition level0 :: "manifest \<Rightarrow> nat list" where
  "level0 m = (case mf_levels m of [] \<Rightarrow> [] | l # _ \<Rightarrow> l)"

definition set_level0 :: "nat list \<Rightarrow> manifest \<Rightarrow> manifest" where
  "set_level0 ids m = m\<lparr>mf_levels := (case mf_levels m of [] \<Rightarrow> [ids] | _ # ls \<Rightarrow> ids # ls)\<rparr>"

section \<open>Reading\<close>

text \<open>The lookup in one table: a cached reader is used, otherwise the file is opened and always cached.\<close>

definition lookup_table :: "nat \<Rightarrow> bytes \<Rightarrow> (database, error, entry option) op" where
  "lookup_table i key db = (case db_cache db i of
     Some reader \<Rightarrow> (case table_lookup key reader of
       (r, reader') \<Rightarrow> (r, db\<lparr>db_cache := (db_cache db)(i \<mapsto> reader')\<rparr>))
   | None \<Rightarrow> (case open_table i db of
       Inl e \<Rightarrow> (Inl e, db)
     | Inr reader \<Rightarrow> (case table_lookup key reader of
         (Inl e, _) \<Rightarrow> (Inl e, db)
       | (Inr r, reader') \<Rightarrow> (Inr r, db\<lparr>db_cache := (db_cache db)(i \<mapsto> reader')\<rparr>))))"

fun lookup_tables :: "nat list \<Rightarrow> bytes \<Rightarrow> (database, error, entry option) op" where
  "lookup_tables [] key = retS None"
| "lookup_tables (i # ids) key = bindS (lookup_table i key) (\<lambda>hit. case hit of
     Some e \<Rightarrow> retS (Some e)
   | None \<Rightarrow> lookup_tables ids key)"

text \<open>The last segment that starts at or before the key, if the key is inside it.\<close>

definition find_segment :: "segment_meta list \<Rightarrow> bytes \<Rightarrow> nat option" where
  "find_segment segs key =
     (if segs = [] then None
      else let lo = bsearch (\<lambda>mid. sm_min_key (segs ! mid) \<le> key) 0 (length segs) in
        if lo = 0 then None
        else if key \<le> sm_max_key (segs ! (lo - 1)) then Some (lo - 1) else None)"

definition db_get :: "bytes \<Rightarrow> (database, error, bytes option) op" where
  "db_get key db = (case mt_get (db_memtable db) key of
     Some e \<Rightarrow> (Inr e, db)
   | None \<Rightarrow> bindS (lookup_tables (rev (level0 (db_manifest db))) key) (\<lambda>hit. case hit of
       Some e \<Rightarrow> retS e
     | None \<Rightarrow> (\<lambda>db. case find_segment (mf_segments (db_manifest db)) key of
         None \<Rightarrow> (Inr None, db)
       | Some i \<Rightarrow> bindS (lookup_table (sm_file_id (mf_segments (db_manifest db) ! i)) key) (\<lambda>hit.
           retS (case hit of Some e \<Rightarrow> e | None \<Rightarrow> None)) db)) db)"

text \<open>A source over one table: the reader is cached, and a fork of it is positioned at the start.\<close>

definition table_source :: "bytes option \<Rightarrow> bytes option \<Rightarrow> nat \<Rightarrow> (database, error, scan_source) op" where
  "table_source start stop i db =
     (case (case db_cache db i of
              Some r \<Rightarrow> (Inr r, db)
            | None \<Rightarrow> (case open_table i db of
                Inl e \<Rightarrow> (Inl e, db)
              | Inr r \<Rightarrow> (Inr r, db\<lparr>db_cache := (db_cache db)(i \<mapsto> r)\<rparr>))) of
        (Inl e, db) \<Rightarrow> (Inl e, db)
      | (Inr r, db) \<Rightarrow> (Inr (STab (table_iter_from (table_fork r) start stop)), db))"

fun table_sources :: "bytes option \<Rightarrow> bytes option \<Rightarrow> nat list \<Rightarrow> (database, error, scan_source list) op" where
  "table_sources start stop [] = retS []"
| "table_sources start stop (i # ids) =
     bindS (table_source start stop i) (\<lambda>s. bindS (table_sources start stop ids) (\<lambda>ss. retS (s # ss)))"

definition scan_stream :: "bytes option \<Rightarrow> bytes option \<Rightarrow> (database, error, merge_iter) op" where
  "scan_stream start stop db =
     bindS (liftS (memtable_source (db_memtable db) start stop)) (\<lambda>mem.
     bindS (table_sources start stop (rev (level0 (db_manifest db)))) (\<lambda>l0.
     bindS (table_sources start stop (map sm_file_id (mf_segments (db_manifest db)))) (\<lambda>l1.
       retS (mi_new (SVec mem # l0 @ l1))))) db"

definition db_scan :: "bytes option \<Rightarrow> bytes option \<Rightarrow> (database, error, item list) op" where
  "db_scan start stop = bindS (scan_stream start stop) (\<lambda>m.
     liftS (bindE (fst (merge_collect m)) (\<lambda>items. Inr (filter (\<lambda>(_, v). v \<noteq> None) items))))"

section \<open>Compaction\<close>

definition merge_ids :: "nat list \<Rightarrow> bool \<Rightarrow> database \<Rightarrow> item list result" where
  "merge_ids ids drop_tombstones db =
     bindE (mapE (\<lambda>i. bindE (open_table i db) table_iter_all) ids) (\<lambda>sources.
     bindE (merge_vecs sources) (\<lambda>recs.
       Inr (if drop_tombstones then filter (\<lambda>(_, v). v \<noteq> None) recs else recs)))"

fun bounds_loop :: "nat list \<Rightarrow> database \<Rightarrow> bytes option \<Rightarrow> bytes option \<Rightarrow> (bytes option \<times> bytes option) result" where
  "bounds_loop [] db mi ma = Inr (mi, ma)"
| "bounds_loop (i # ids) db mi ma =
     bindE (open_table i db) (\<lambda>reader.
     bindE (ok_or (key_bounds reader) (Corrupt (str ''empty L0 table referenced in compact''))) (\<lambda>(f, l).
       bounds_loop ids db
         (if (case mi of None \<Rightarrow> True | Some m \<Rightarrow> f < m) then Some f else mi)
         (if (case ma of None \<Rightarrow> True | Some m \<Rightarrow> m < l) then Some l else ma)))"

definition table_bounds :: "nat list \<Rightarrow> database \<Rightarrow> (bytes \<times> bytes) option result" where
  "table_bounds ids db = bindE (bounds_loop ids db None None) (\<lambda>(mi, ma).
     Inr (case (mi, ma) of (Some a, Some b) \<Rightarrow> Some (a, b) | _ \<Rightarrow> None))"

definition write_table :: "item list \<Rightarrow> (database, error, nat) op" where
  "write_table rs db =
     (let new_id = mf_next_table_id (db_manifest db) in
      (Inr new_id,
       db\<lparr>db_manifest := (db_manifest db)\<lparr>mf_next_table_id := new_id + 1\<rparr>,
          db_dir := fs_write (table_path new_id) (fst (build_table_from_sorted rs)) (db_dir db)\<rparr>))"

text \<open>Rust's \<^verbatim>\<open>chunks(n)\<close>, which panics for 0.\<close>

function chunks :: "nat \<Rightarrow> 'a list \<Rightarrow> 'a list list" where
  "chunks n xs = (if xs = [] \<or> n = 0 then [] else take n xs # chunks n (drop n xs))"
  by pat_completeness auto
termination
  by (relation "measure (\<lambda>(_, xs). length xs)") auto

declare chunks.simps [simp del]

fun write_chunks :: "item list list \<Rightarrow> (database, error, segment_meta list) op" where
  "write_chunks [] = retS []"
| "write_chunks (chunk # cs) =
     (if chunk = [] then write_chunks cs
      else bindS (write_table chunk) (\<lambda>i. bindS (write_chunks cs) (\<lambda>segs.
        retS (\<lparr>sm_file_id = i, sm_min_key = fst (chunk ! 0), sm_max_key = fst (chunk ! (length chunk - 1)),
               sm_records = length chunk\<rparr> # segs))))"

definition write_segments :: "item list \<Rightarrow> (database, error, segment_meta list) op" where
  "write_segments recs db =
     (if segment_max_records (db_opts db) = 0 then (Inl (Panic (str ''chunk size must be non-zero'')), db)
      else write_chunks (chunks (segment_max_records (db_opts db)) recs) db)"

definition overlaps :: "bytes \<Rightarrow> bytes \<Rightarrow> segment_meta \<Rightarrow> bool" where
  "overlaps batch_min batch_max s \<longleftrightarrow> sm_min_key s \<le> batch_max \<and> batch_min \<le> sm_max_key s"

text \<open>
  The commit of a compaction: the new segments, an empty level 0 and the manifest on disk; only then the
  merged tables are removed.
\<close>

definition commit_segments :: "segment_meta list \<Rightarrow> database \<Rightarrow> database" where
  "commit_segments segs db =
     (let m = set_level0 [] ((db_manifest db)\<lparr>mf_segments := segs\<rparr>) in
      db\<lparr>db_manifest := m, db_dir := manifest_save m (db_dir db), db_cache := Map.empty\<rparr>)"

definition remove_tables :: "nat list \<Rightarrow> database \<Rightarrow> database" where
  "remove_tables ids db = db\<lparr>db_dir := fold (\<lambda>i d. fs_remove (table_path i) d) ids (db_dir db)\<rparr>"

definition compact :: "(database, error, unit) op" where
  "compact db =
     (let l0 = level0 (db_manifest db) in
      if length l0 < l0_compact_threshold (db_opts db) then (Inr (), db)
      else
        bindS (liftS (bindE (table_bounds l0 db) (\<lambda>b. ok_or b (Corrupt (str ''empty L0 table in compact''))))) (\<lambda>(batch_min, batch_max).
        let overlap_ids = map sm_file_id (filter (overlaps batch_min batch_max) (mf_segments (db_manifest db)));
            retained = filter (\<lambda>s. \<not> overlaps batch_min batch_max s) (mf_segments (db_manifest db)) in
        bindS (liftS (merge_ids (rev l0 @ overlap_ids) True db)) (\<lambda>recs.
        bindS (write_segments recs) (\<lambda>new_segments.
        bindS (modS (commit_segments (sort_key sm_min_key (retained @ new_segments)))) (\<lambda>_.
          modS (remove_tables (l0 @ overlap_ids)))))) db)"

text \<open>\<^verbatim>\<open>compact_full\<close> after its flush: everything is merged into new segments; the result is their number.\<close>

definition compact_all :: "(database, error, nat) op" where
  "compact_all db =
     (let l0 = level0 (db_manifest db);
          old_segment_ids = map sm_file_id (mf_segments (db_manifest db)) in
      bindS (liftS (merge_ids (rev l0 @ old_segment_ids) True db)) (\<lambda>merged.
      bindS (write_segments merged) (\<lambda>new_segments.
      bindS (modS (commit_segments (sort_key sm_min_key new_segments))) (\<lambda>_.
      bindS (modS (remove_tables (l0 @ old_segment_ids))) (\<lambda>_.
        (\<lambda>db. (Inr (length (mf_segments (db_manifest db))), db)))))) db)"

section \<open>Writing\<close>

text \<open>
  The three durable steps of \<^verbatim>\<open>flush\<close>: the table file, the manifest that refers to it, and the emptied log.
\<close>

definition flush_build :: "database \<Rightarrow> database" where
  "flush_build db = snd (write_table (mt_iter (db_memtable db)) db)"

definition flush_commit :: "nat \<Rightarrow> database \<Rightarrow> database" where
  "flush_commit i db =
     (let m = set_level0 (level0 (db_manifest db) @ [i]) (db_manifest db) in
      db\<lparr>db_manifest := m, db_dir := manifest_save m (db_dir db), db_cache := Map.empty\<rparr>)"

definition flush_clear :: "database \<Rightarrow> database" where
  "flush_clear db = db\<lparr>db_wal := wal_truncate (db_wal db), db_memtable := memtable_new\<rparr>"

definition flush :: "(database, error, unit) op" where
  "flush db =
     (if mt_is_empty (db_memtable db) then (Inr (), db)
      else let i = mf_next_table_id (db_manifest db);
               db = flush_clear (flush_commit i (flush_build db)) in
        if l0_compact_threshold (db_opts db) \<le> length (level0 (db_manifest db)) then compact db
        else (Inr (), db))"

definition compact_full :: "(database, error, nat) op" where
  "compact_full = bindS flush (\<lambda>_. compact_all)"

definition flush_if_over_limit :: "(database, error, unit) op" where
  "flush_if_over_limit db =
     (if memtable_limit (db_opts db) \<le> mt_size_bytes (db_memtable db) then flush db else (Inr (), db))"

definition put_internal :: "(bytes \<Rightarrow> 32 word) \<Rightarrow> bytes \<Rightarrow> entry \<Rightarrow> (database, error, unit) op" where
  "put_internal crc key value db = flush_if_over_limit
     (db\<lparr>db_wal := wal_append crc key value (db_wal db), db_memtable := mt_put key value (db_memtable db)\<rparr>)"

definition db_put :: "(bytes \<Rightarrow> 32 word) \<Rightarrow> bytes \<Rightarrow> bytes \<Rightarrow> (database, error, unit) op" where
  "db_put crc key value = put_internal crc key (Some value)"

definition db_delete :: "(bytes \<Rightarrow> 32 word) \<Rightarrow> bytes \<Rightarrow> (database, error, unit) op" where
  "db_delete crc key = put_internal crc key None"

text \<open>The operations a transaction commits with.\<close>

definition alloc_tx_id :: "(database, error, 64 word) op" where
  "alloc_tx_id db = (Inr (db_next_tx_id db), db\<lparr>db_next_tx_id := db_next_tx_id db + 1\<rparr>)"

definition on_wal :: "(wal \<Rightarrow> wal) \<Rightarrow> (database, error, unit) op" where
  "on_wal f = modS (\<lambda>db. db\<lparr>db_wal := f (db_wal db)\<rparr>)"

definition wal_begin :: "(bytes \<Rightarrow> 32 word) \<Rightarrow> 64 word \<Rightarrow> (database, error, unit) op" where
  "wal_begin crc tx = on_wal (append_begin crc tx)"

definition wal_tx_put :: "(bytes \<Rightarrow> 32 word) \<Rightarrow> 64 word \<Rightarrow> bytes \<Rightarrow> bytes \<Rightarrow> (database, error, unit) op" where
  "wal_tx_put crc tx key value = on_wal (append_tx_put crc tx key value)"

definition wal_tx_delete :: "(bytes \<Rightarrow> 32 word) \<Rightarrow> 64 word \<Rightarrow> bytes \<Rightarrow> (database, error, unit) op" where
  "wal_tx_delete crc tx key = on_wal (append_tx_delete crc tx key)"

definition wal_commit :: "(bytes \<Rightarrow> 32 word) \<Rightarrow> 64 word \<Rightarrow> (database, error, unit) op" where
  "wal_commit crc tx = on_wal (append_commit crc tx)"

definition db_wal_sync :: "(database, error, unit) op" where
  "db_wal_sync = on_wal wal_sync"

definition mem_put :: "bytes \<Rightarrow> bytes \<Rightarrow> database \<Rightarrow> database" where
  "mem_put key value db = db\<lparr>db_memtable := mt_put key (Some value) (db_memtable db)\<rparr>"

definition mem_delete :: "bytes \<Rightarrow> database \<Rightarrow> database" where
  "mem_delete key db = db\<lparr>db_memtable := mt_put key None (db_memtable db)\<rparr>"

section \<open>Opening\<close>

definition legacy_segments :: "nat list \<Rightarrow> database \<Rightarrow> segment_meta list result" where
  "legacy_segments ids db = mapE (\<lambda>i.
     bindE (open_table i db) (\<lambda>reader.
     bindE (ok_or (key_bounds reader) (Corrupt (str ''legacy L1 table without index keys''))) (\<lambda>(first, last).
       Inr \<lparr>sm_file_id = i, sm_min_key = first, sm_max_key = last, sm_records = num_records reader\<rparr>))) ids"

definition convert_legacy_l1 :: "database \<Rightarrow> database result" where
  "convert_legacy_l1 db =
     (if mf_segments (db_manifest db) \<noteq> [] then Inr db
      else case drop 1 (mf_levels (db_manifest db)) of
        [] \<Rightarrow> Inr db
      | legacy # ls \<Rightarrow>
          if legacy = [] then Inr db
          else bindE (legacy_segments legacy db) (\<lambda>segs.
            let m = (db_manifest db)\<lparr>mf_segments := sort_key sm_min_key segs,
                                     mf_levels := (mf_levels (db_manifest db))[1 := []]\<rparr> in
            bindE (validate m) (\<lambda>_. Inr (db\<lparr>db_manifest := m\<rparr>))))"

fun check_levels :: "nat list \<Rightarrow> dir \<Rightarrow> unit result" where
  "check_levels [] d = Inr ()"
| "check_levels (i # ids) d =
     (if \<not> fs_exists (table_path i) d then Inl (Corrupt (str ''manifest references missing L0 table''))
      else check_levels ids d)"

fun check_segments :: "segment_meta list \<Rightarrow> database \<Rightarrow> unit result" where
  "check_segments [] db = Inr ()"
| "check_segments (s # ss) db =
     (if \<not> fs_exists (table_path (sm_file_id s)) (db_dir db)
      then Inl (Corrupt (str ''manifest references missing segment file''))
      else
        bindE (open_table (sm_file_id s) db) (\<lambda>reader.
        bindE (ok_or (key_bounds reader) (Corrupt (str ''segment table without index keys''))) (\<lambda>(first, last).
        if first \<noteq> sm_min_key s \<or> last \<noteq> sm_max_key s
        then Inl (Corrupt (str ''segment range mismatch with table index''))
        else check_segments ss db)))"

definition validate_open_state :: "database \<Rightarrow> unit result" where
  "validate_open_state db =
     bindE (check_levels (concat (mf_levels (db_manifest db))) (db_dir db)) (\<lambda>_.
       check_segments (mf_segments (db_manifest db)) db)"

definition open_version :: "(dir, error, 32 word) op" where
  "open_version d = (case read_version d of
     Inl e \<Rightarrow> (Inl e, d)
   | Inr (Some v) \<Rightarrow> (bindE (check_compatible v) (\<lambda>_. Inr v), d)
   | Inr None \<Rightarrow>
       if \<not> fs_exists MANIFEST_FILE d then (Inr FORMAT_VERSION, write_version FORMAT_VERSION d)
       else (Inr 1, d))"

definition replay_into :: "replay_result \<Rightarrow> database \<Rightarrow> database" where
  "replay_into r db = db\<lparr>
     db_memtable := fold (\<lambda>rec. mt_put (rec_key rec) (rec_value rec)) (records r) (db_memtable db),
     db_next_tx_id := max_tx_id r + 1\<rparr>"

text \<open>The database right after the manifest was loaded; the levels are never the empty list.\<close>

definition initial_db :: "db_options \<Rightarrow> 32 word \<Rightarrow> manifest \<Rightarrow> dir \<Rightarrow> database" where
  "initial_db opts version m d =
     \<lparr>db_dir = fs_remove WAL_FILE d, db_wal = wal_create (map_of d WAL_FILE), db_memtable = memtable_new,
      db_manifest = (if mf_levels m = [] then m\<lparr>mf_levels := [[]]\<rparr> else m),
      db_opts = opts, db_closed = False, db_cache = Map.empty, db_next_tx_id = 0,
      db_format_version = version\<rparr>"

text \<open>
  \<^verbatim>\<open>open_with\<close> on the files of the directory. The result also has the files it leaves, as an open that
  fails may have created the version file and the log.
\<close>

definition open_with :: "(bytes \<Rightarrow> 32 word) \<Rightarrow> db_options \<Rightarrow> (dir, error, database) op" where
  "open_with crc opts = bindS open_version (\<lambda>version d.
     case manifest_load d of
       Inl e \<Rightarrow> (Inl e, d)
     | Inr m \<Rightarrow>
         let db = initial_db opts version m d in
         (bindE (convert_legacy_l1 db) (\<lambda>db.
          bindE (validate_open_state db) (\<lambda>_.
            Inr (replay_into (replay crc (wal_file (db_wal db))) db))), disk db))"

definition open_default :: "(bytes \<Rightarrow> 32 word) \<Rightarrow> (dir, error, database) op" where
  "open_default crc = open_with crc default_options"

end
