(* ===== verification/Engine.thy ===== *)
theory Engine
  imports Database
begin

text \<open>
  The contents of a database and its reads: the invariant of the engine, the map its layers stand for,
  and the point lookup and the scan, which both return what that map says.
\<close>

section \<open>The contents\<close>

text \<open>The records of a table file, as its reader lists them.\<close>

definition file_records :: "dir \<Rightarrow> nat \<Rightarrow> item list" where
  "file_records d i = (case bindE (fs_read (table_path i) d) (\<lambda>f. bindE (table_open f) table_iter_all) of
     Inl _ \<Rightarrow> [] | Inr rs \<Rightarrow> rs)"

text \<open>The sources of a read, the newest first: memory, level 0 from its end, the segments.\<close>

definition table_order :: "manifest \<Rightarrow> nat list" where
  "table_order m = rev (level0 m) @ map sm_file_id (mf_segments m)"

definition db_layers :: "database \<Rightarrow> item list list" where
  "db_layers db = mt_map (db_memtable db) # map (file_records (db_dir db)) (table_order (db_manifest db))"

definition db_entry :: "database \<Rightarrow> bytes \<Rightarrow> entry option" where
  "db_entry db = layers (db_layers db)"

text \<open>The value of a key: \<^verbatim>\<open>None\<close> where there is no record or a tombstone.\<close>

definition flat :: "entry option \<Rightarrow> entry" where
  "flat e = (case e of None \<Rightarrow> None | Some v \<Rightarrow> v)"

definition db_value :: "database \<Rightarrow> bytes \<Rightarrow> bytes option" where
  "db_value db key = flat (db_entry db key)"

lemma flat_simps [simp]: "flat None = None" "flat (Some v) = v"
  by (simp_all add: flat_def)

section \<open>The invariant\<close>

definition table_at :: "dir \<Rightarrow> nat \<Rightarrow> bool" where
  "table_at d i \<longleftrightarrow> table_ok (file_records d i) \<and> file_records d i \<noteq> [] \<and>
     map_of d (table_path i) = Some (table_file (file_records d i))"

definition segment_at :: "dir \<Rightarrow> segment_meta \<Rightarrow> bool" where
  "segment_at d s \<longleftrightarrow> sm_min_key s = fst (hd (file_records d (sm_file_id s))) \<and>
     sm_max_key s = fst (last (file_records d (sm_file_id s))) \<and> sm_records s = length (file_records d (sm_file_id s))"

definition upper_empty :: "manifest \<Rightarrow> bool" where
  "upper_empty m \<longleftrightarrow> concat (tl (mf_levels m)) = []"

definition tables_inv :: "manifest \<Rightarrow> dir \<Rightarrow> bool" where
  "tables_inv m d \<longleftrightarrow> (\<forall>i \<in> set (all_ids m). table_at d i \<and> i < mf_next_table_id m) \<and>
     distinct (all_ids m) \<and> segments_ok (mf_segments m) \<and> (\<forall>s \<in> set (mf_segments m). segment_at d s) \<and>
     mf_levels m \<noteq> [] \<and> upper_empty m"

definition cache_inv :: "manifest \<Rightarrow> dir \<Rightarrow> (nat \<Rightarrow> table_reader option) \<Rightarrow> bool" where
  "cache_inv m d c \<longleftrightarrow> (\<forall>i r. c i = Some r \<longrightarrow> i \<in> set (all_ids m) \<and> shared r = table_shared (file_records d i))"

definition db_inv :: "database \<Rightarrow> bool" where
  "db_inv db \<longleftrightarrow> mt_inv (db_memtable db) \<and> tables_inv (db_manifest db) (db_dir db) \<and>
     cache_inv (db_manifest db) (db_dir db) (db_cache db)"

lemma file_records_eq:
  assumes "map_of d (table_path i) = Some (table_file rs)" and "table_ok rs"
  shows "file_records d i = rs"
proof -
  obtain r where "table_open (table_file rs) = Inr r" "shared r = table_shared rs"
    using table_open_reader[OF assms(2)] by blast
  then show ?thesis
    using assms table_iter_all_shared[OF assms(2), of r] by (simp add: file_records_def fs_read_def)
qed

lemma table_at_written:
  "map_of d (table_path i) = Some (table_file rs) \<Longrightarrow> table_ok rs \<Longrightarrow> rs \<noteq> [] \<Longrightarrow> table_at d i \<and> file_records d i = rs"
  by (simp add: table_at_def file_records_eq)

lemma open_table_at:
  assumes "table_at (db_dir db) i"
  obtains r where "open_table i db = Inr r" and "shared r = table_shared (file_records (db_dir db) i)"
  using assms table_open_reader[of "file_records (db_dir db) i"]
  by (auto simp: table_at_def open_table_def fs_read_def)

lemma levels_order:
  assumes "mf_levels m \<noteq> []" and "upper_empty m"
  shows "concat (mf_levels m) = level0 m"
proof -
  obtain l ls where l: "mf_levels m = l # ls" using assms(1) by (cases "mf_levels m") simp_all
  have "concat ls = []" using assms(2) unfolding upper_empty_def l list.sel .
  then show ?thesis by (simp only: l level0_def list.case concat.simps append_Nil2)
qed

lemma all_ids_order: "tables_inv m d \<Longrightarrow> set (all_ids m) = set (table_order m)"
  using levels_order[of m] by (simp add: tables_inv_def all_ids_def table_order_def)

lemma order_tables:
  assumes "tables_inv m d" and "i \<in> set (table_order m)"
  shows "table_at d i"
proof -
  have "i \<in> set (all_ids m)" using all_ids_order[OF assms(1)] assms(2) by blast
  then show ?thesis using assms(1) unfolding tables_inv_def by blast
qed

lemma order_parts:
  "i \<in> set (level0 m) \<Longrightarrow> i \<in> set (table_order m)"
  "s \<in> set (mf_segments m) \<Longrightarrow> sm_file_id s \<in> set (table_order m)"
  by (auto simp: table_order_def)

section \<open>Point lookups\<close>

text \<open>Reads change nothing but the cache.\<close>

definition same_but_cache :: "database \<Rightarrow> database \<Rightarrow> bool" where
  "same_but_cache db db' \<longleftrightarrow> (\<exists>c. db' = db\<lparr>db_cache := c\<rparr>)"

lemma same_but_cache_refl [simp]: "same_but_cache db db"
  unfolding same_but_cache_def by (rule exI[of _ "db_cache db"]) simp

lemma same_but_cache_update [simp]: "same_but_cache db (db\<lparr>db_cache := c\<rparr>)"
  unfolding same_but_cache_def by blast

lemma same_but_cache_trans: "same_but_cache a b \<Longrightarrow> same_but_cache b c \<Longrightarrow> same_but_cache a c"
  by (auto simp: same_but_cache_def)

lemma same_but_cacheD:
  assumes "same_but_cache db db'"
  shows "db_dir db' = db_dir db" "db_manifest db' = db_manifest db" "db_memtable db' = db_memtable db"
    "db_entry db' = db_entry db" "db_value db' = db_value db" "db_layers db' = db_layers db"
    "db_wal db' = db_wal db" "db_opts db' = db_opts db" "db_closed db' = db_closed db"
    "db_next_tx_id db' = db_next_tx_id db"
  using assms by (auto simp: same_but_cache_def db_entry_def db_layers_def db_value_def fun_eq_iff)

lemma cache_inv_upd:
  "cache_inv m d c \<Longrightarrow> i \<in> set (all_ids m) \<Longrightarrow> shared r = table_shared (file_records d i) \<Longrightarrow>
     cache_inv m d (c(i \<mapsto> r))"
  by (simp add: cache_inv_def)

lemma lookup_table_correct:
  assumes "db_inv db" and "i \<in> set (table_order (db_manifest db))"
  shows "\<exists>db'. lookup_table i key db = (Inr (map_of (file_records (db_dir db) i) key), db') \<and>
     db_inv db' \<and> same_but_cache db db'"
proof -
  have inv: "tables_inv (db_manifest db) (db_dir db)" "cache_inv (db_manifest db) (db_dir db) (db_cache db)"
    using assms(1) by (simp_all add: db_inv_def)
  have i: "i \<in> set (all_ids (db_manifest db))" using all_ids_order[OF inv(1)] assms(2) by simp
  have ta: "table_at (db_dir db) i" using order_tables[OF inv(1) assms(2)] .
  then have ok: "table_ok (file_records (db_dir db) i)" by (simp add: table_at_def)
  have upd: "db_inv (db\<lparr>db_cache := (db_cache db)(i \<mapsto> r\<lparr>pos := p\<rparr>)\<rparr>)"
    if "shared r = table_shared (file_records (db_dir db) i)" for r p
    using assms(1) cache_inv_upd[OF inv(2) i, of "r\<lparr>pos := p\<rparr>"] that by (simp add: db_inv_def)
  show ?thesis
  proof (cases "db_cache db i")
    case (Some r)
    then have s: "shared r = table_shared (file_records (db_dir db) i)" using inv(2) by (simp add: cache_inv_def)
    obtain p where "table_lookup key r = (Inr (map_of (file_records (db_dir db) i) key), r\<lparr>pos := p\<rparr>)"
      using table_lookup_shared[OF ok s] by blast
    then show ?thesis using Some upd[OF s] by (simp add: lookup_table_def)
  next
    case None
    obtain r where r: "open_table i db = Inr r" "shared r = table_shared (file_records (db_dir db) i)"
      using open_table_at[OF ta] by blast
    obtain p where "table_lookup key r = (Inr (map_of (file_records (db_dir db) i) key), r\<lparr>pos := p\<rparr>)"
      using table_lookup_shared[OF ok r(2)] by blast
    then show ?thesis using None r upd[OF r(2)] by (simp add: lookup_table_def)
  qed
qed

lemma lookup_tables_correct:
  assumes "db_inv db" and "set ids \<subseteq> set (table_order (db_manifest db))"
  shows "\<exists>db'. lookup_tables ids key db = (Inr (layers (map (file_records (db_dir db)) ids) key), db') \<and>
     db_inv db' \<and> same_but_cache db db'"
  using assms
proof (induction ids arbitrary: db)
  case (Cons i ids)
  obtain db1 where db1: "lookup_table i key db = (Inr (map_of (file_records (db_dir db) i) key), db1)"
      "db_inv db1" "same_but_cache db db1"
    using lookup_table_correct[OF Cons.prems(1), of i key] Cons.prems(2) by auto
  note same = same_but_cacheD[OF db1(3)]
  show ?case
  proof (cases "map_of (file_records (db_dir db) i) key")
    case (Some e)
    then show ?thesis using db1 by (simp add: bindS_def map_add_def)
  next
    case None
    obtain db2 where "lookup_tables ids key db1 = (Inr (layers (map (file_records (db_dir db1)) ids) key), db2)"
        "db_inv db2" "same_but_cache db1 db2"
      using Cons.IH[OF db1(2)] Cons.prems(2) same by auto
    then show ?thesis
      using db1 None same same_but_cache_trans by (auto simp: bindS_def map_add_def)
  qed
qed simp

lemma find_segment_spec:
  assumes "segments_ok segs"
  shows "case find_segment segs key of
      None \<Rightarrow> \<forall>s \<in> set segs. \<not> (sm_min_key s \<le> key \<and> key \<le> sm_max_key s)
    | Some i \<Rightarrow> i < length segs \<and> sm_min_key (segs ! i) \<le> key \<and> key \<le> sm_max_key (segs ! i) \<and>
        (\<forall>j < length segs. j \<noteq> i \<longrightarrow> \<not> (sm_min_key (segs ! j) \<le> key \<and> key \<le> sm_max_key (segs ! j)))"
proof -
  let ?p = "\<lambda>m. sm_min_key (segs ! m) \<le> key"
  define lo where "lo = bsearch ?p 0 (length segs)"
  have le: "sm_min_key (segs ! i) \<le> sm_max_key (segs ! i)" if "i < length segs" for i
    using assms that by (simp add: segments_ok_def)
  have lt: "sm_max_key (segs ! i) < sm_min_key (segs ! j)" if "i < j" "j < length segs" for i j
    using assms that sorted_wrt_nth_less[of "\<lambda>a b. sm_max_key a < sm_min_key b" segs i j]
    by (simp add: segments_ok_def)
  have mono: "?p i" if "i \<le> j" "j < length segs" "?p j" for i j
  proof (cases "i = j")
    case False
    then have "sm_min_key (segs ! i) < sm_min_key (segs ! j)"
      using that le[of i] lt[of i j] by simp
    then show ?thesis using that(3) by simp
  qed (use that in simp)
  have part: "0 \<le> lo \<and> lo \<le> length segs \<and> (\<forall>i. 0 \<le> i \<longrightarrow> i < lo \<longrightarrow> ?p i) \<and>
      (\<forall>i. lo \<le> i \<longrightarrow> i < length segs \<longrightarrow> \<not> ?p i)"
    unfolding lo_def by (rule bsearch_partition) (simp, rule mono)
  have above: "\<not> (sm_min_key (segs ! j) \<le> key \<and> key \<le> sm_max_key (segs ! j))"
    if "j < length segs" "j \<noteq> lo - 1 \<or> lo = 0" for j
  proof (cases "lo \<le> j")
    case True
    then show ?thesis using part that(1) by blast
  next
    case False
    then have "j < lo - 1" using that(2) by auto
    moreover have "lo - 1 < length segs" using part calculation by linarith
    ultimately have "sm_max_key (segs ! j) < sm_min_key (segs ! (lo - 1))" by (rule lt)
    moreover have "?p (lo - 1)" using part False by simp
    ultimately show ?thesis by auto
  qed
  have fs: "find_segment segs key = (if lo = 0 then None
      else if key \<le> sm_max_key (segs ! (lo - 1)) then Some (lo - 1) else None)"
  proof -
    have "segs = [] \<Longrightarrow> lo = 0" using part by simp
    then show ?thesis unfolding find_segment_def Let_def lo_def[symmetric] by simp
  qed
  consider "lo = 0" | "lo \<noteq> 0" "key \<le> sm_max_key (segs ! (lo - 1))" | "lo \<noteq> 0" "\<not> key \<le> sm_max_key (segs ! (lo - 1))"
    by blast
  then show ?thesis
  proof cases
    case 1
    then have "\<not> (sm_min_key s \<le> key \<and> key \<le> sm_max_key s)" if "s \<in> set segs" for s
      using above that by (metis in_set_conv_nth)
    then show ?thesis using 1 fs by simp
  next
    case 2
    then show ?thesis using above fs part by auto
  next
    case 3
    then have "\<not> (sm_min_key (segs ! j) \<le> key \<and> key \<le> sm_max_key (segs ! j))" if "j < length segs" for j
      using above[OF that] by (cases "j = lo - 1") auto
    then have "\<not> (sm_min_key s \<le> key \<and> key \<le> sm_max_key s)" if "s \<in> set segs" for s
      using that by (metis in_set_conv_nth)
    then show ?thesis using 3 fs by simp
  qed
qed

lemma segment_bounds:
  assumes "table_at d (sm_file_id s)" and "segment_at d s" and "map_of (file_records d (sm_file_id s)) key \<noteq> None"
  shows "sm_min_key s \<le> key \<and> key \<le> sm_max_key s"
proof -
  let ?rs = "file_records d (sm_file_id s)"
  have srt: "ssorted (map fst ?rs)" and ne: "?rs \<noteq> []" using assms(1) by (simp_all add: table_at_def table_ok_def)
  obtain i where i: "i < length ?rs" "fst (?rs ! i) = key"
    using assms(3) by (auto simp: map_of_eq_None_iff in_set_conv_nth)
  have "fst (hd ?rs) \<le> key"
    using keys_increasing[OF srt, of 0 i] i ne by (cases "i = 0") (auto simp: hd_conv_nth intro: less_imp_le)
  moreover have "key \<le> fst (last ?rs)"
  proof (cases "i = length ?rs - 1")
    case True
    then show ?thesis using i ne by (simp add: last_conv_nth)
  next
    case False
    then have "fst (?rs ! i) < fst (?rs ! (length ?rs - 1))" using i by (intro keys_increasing[OF srt]) auto
    then show ?thesis using i ne by (simp add: last_conv_nth)
  qed
  ultimately show ?thesis using assms(2) by (simp add: segment_at_def)
qed

lemma layers_segments:
  assumes "tables_inv m d"
  shows "layers (map (file_records d) (map sm_file_id (mf_segments m))) key =
    (case find_segment (mf_segments m) key of None \<Rightarrow> None
     | Some i \<Rightarrow> map_of (file_records d (sm_file_id (mf_segments m ! i))) key)"
proof -
  let ?f = "\<lambda>s. file_records d (sm_file_id s)" and ?segs = "mf_segments m"
  have ok: "segments_ok ?segs" using assms by (simp add: tables_inv_def)
  have none: "map_of (?f s) key = None" if "s \<in> set ?segs" "\<not> (sm_min_key s \<le> key \<and> key \<le> sm_max_key s)" for s
  proof -
    have "table_at d (sm_file_id s)" using order_tables[OF assms] order_parts(2) that(1) by blast
    moreover have "segment_at d s" using assms that(1) by (simp add: tables_inv_def)
    ultimately show ?thesis using segment_bounds that(2) by blast
  qed
  show ?thesis
  proof (cases "find_segment ?segs key")
    case None
    then have "layers (map (file_records d) (map sm_file_id ?segs)) key = None"
      using find_segment_spec[OF ok, of key] none by (simp add: layers_None)
    then show ?thesis using None by simp
  next
    case (Some i)
    then have i: "i < length ?segs" and o: "\<And>j. j < length ?segs \<Longrightarrow> j \<noteq> i \<Longrightarrow> map_of (?f (?segs ! j)) key = None"
      using find_segment_spec[OF ok, of key] none by simp_all
    show ?thesis
    proof (cases "map_of (?f (?segs ! i)) key")
      case None
      then have "map_of (?f s) key = None" if "s \<in> set ?segs" for s
        using that o by (metis in_set_conv_nth)
      then have "layers (map (file_records d) (map sm_file_id ?segs)) key = None" by (simp add: layers_None)
      then show ?thesis using Some None by simp
    next
      case e: (Some e)
      then have "layers (map (file_records d) (map sm_file_id ?segs)) key = Some e"
        using i o by (intro layers_first[of i]) simp_all
      then show ?thesis using Some e by simp
    qed
  qed
qed

lemma db_get_correct:
  assumes "db_inv db"
  shows "\<exists>db'. db_get key db = (Inr (db_value db key), db') \<and> db_inv db' \<and> same_but_cache db db'"
proof -
  let ?m = "db_manifest db" and ?d = "db_dir db"
  have ti: "tables_inv ?m ?d" using assms by (simp add: db_inv_def)
  let ?l0 = "layers (map (file_records ?d) (rev (level0 ?m)))"
  let ?l1 = "layers (map (file_records ?d) (map sm_file_id (mf_segments ?m)))"
  have entry: "db_entry db key = (case map_of (mt_map (db_memtable db)) key of Some e \<Rightarrow> Some e
     | None \<Rightarrow> (case ?l0 key of Some e \<Rightarrow> Some e | None \<Rightarrow> ?l1 key))"
    by (simp add: db_entry_def db_layers_def table_order_def layers_append map_add_def split: option.split)
  show ?thesis
  proof (cases "map_of (mt_map (db_memtable db)) key")
    case (Some e)
    then show ?thesis using assms entry by (auto simp: db_get_def mt_get_def db_value_def)
  next
    case None
    have sub: "set (rev (level0 ?m)) \<subseteq> set (table_order ?m)" by (auto simp: table_order_def)
    obtain db1 where db1: "lookup_tables (rev (level0 ?m)) key db = (Inr (?l0 key), db1)"
        "db_inv db1" "same_but_cache db db1"
      using lookup_tables_correct[OF assms sub] by blast
    note same = same_but_cacheD[OF db1(3)]
    have st: "db_get key db = (case ?l0 key of Some e \<Rightarrow> (Inr e, db1)
       | None \<Rightarrow> (case find_segment (mf_segments ?m) key of None \<Rightarrow> (Inr None, db1)
          | Some i \<Rightarrow> bindS (lookup_table (sm_file_id (mf_segments ?m ! i)) key) (\<lambda>hit.
              retS (case hit of Some e \<Rightarrow> e | None \<Rightarrow> None)) db1))"
      using None db1(1) same by (simp add: db_get_def mt_get_def bindS_def split: option.split)
    show ?thesis
    proof (cases "?l0 key")
      case (Some e)
      then show ?thesis using st None entry db1 by (auto simp: db_value_def)
    next
      case l0: None
      note l1 = layers_segments[OF ti, of key]
      show ?thesis
      proof (cases "find_segment (mf_segments ?m) key")
        case fs: None
        then show ?thesis using st None entry l0 l1 db1 by (auto simp: db_value_def)
      next
        case fs: (Some i)
        then have "i < length (mf_segments ?m)"
          using find_segment_spec[of "mf_segments ?m" key] ti by (simp add: tables_inv_def)
        then have "sm_file_id (mf_segments ?m ! i) \<in> set (table_order (db_manifest db1))"
          using same order_parts(2) by simp
        then obtain db2 where db2: "lookup_table (sm_file_id (mf_segments ?m ! i)) key db1 =
            (Inr (map_of (file_records ?d (sm_file_id (mf_segments ?m ! i))) key), db2)" "db_inv db2" "same_but_cache db1 db2"
          using lookup_table_correct[OF db1(2)] same by metis
        then have "db_get key db = (Inr (flat (?l1 key)), db2)"
          using st l0 fs l1 by (simp add: bindS_def flat_def)
        moreover have "db_value db key = flat (?l1 key)" using entry None l0 by (simp add: db_value_def)
        ultimately show ?thesis using db2 db1(3) same_but_cache_trans by auto
      qed
    qed
  qed
qed

section \<open>Scans\<close>

lemma table_source_correct:
  assumes "db_inv db" and "i \<in> set (table_order (db_manifest db))"
  shows "\<exists>s db'. table_source start stop i db = (Inr s, db') \<and>
     source_view s (items_in start stop (file_records (db_dir db) i)) \<and> db_inv db' \<and> same_but_cache db db'"
proof -
  have inv: "tables_inv (db_manifest db) (db_dir db)" "cache_inv (db_manifest db) (db_dir db) (db_cache db)"
    using assms(1) by (simp_all add: db_inv_def)
  have i: "i \<in> set (all_ids (db_manifest db))" using all_ids_order[OF inv(1)] assms(2) by simp
  have ta: "table_at (db_dir db) i" using order_tables[OF inv(1) assms(2)] .
  then have ok: "table_ok (file_records (db_dir db) i)" by (simp add: table_at_def)
  have v: "source_view (STab (table_iter_from (table_fork r) start stop)) (items_in start stop (file_records (db_dir db) i))"
    if "shared r = table_shared (file_records (db_dir db) i)" for r
    using table_iter_from_view[OF ok, of "table_fork r"] that by (simp add: table_fork_def)
  show ?thesis
  proof (cases "db_cache db i")
    case (Some r)
    then have "shared r = table_shared (file_records (db_dir db) i)" using inv(2) by (simp add: cache_inv_def)
    then show ?thesis using Some v assms(1) by (auto simp: table_source_def)
  next
    case None
    obtain r where r: "open_table i db = Inr r" "shared r = table_shared (file_records (db_dir db) i)"
      using open_table_at[OF ta] by blast
    then have "db_inv (db\<lparr>db_cache := (db_cache db)(i \<mapsto> r)\<rparr>)"
      using assms(1) cache_inv_upd[OF inv(2) i r(2)] by (simp add: db_inv_def)
    then show ?thesis using None r v by (auto simp: table_source_def)
  qed
qed

lemma table_sources_correct:
  assumes "db_inv db" and "set ids \<subseteq> set (table_order (db_manifest db))"
  shows "\<exists>ss db'. table_sources start stop ids db = (Inr ss, db') \<and>
     list_all2 source_view ss (map (\<lambda>i. items_in start stop (file_records (db_dir db) i)) ids) \<and>
     db_inv db' \<and> same_but_cache db db'"
  using assms
proof (induction ids arbitrary: db)
  case (Cons i ids)
  obtain s db1 where db1: "table_source start stop i db = (Inr s, db1)"
      "source_view s (items_in start stop (file_records (db_dir db) i))" "db_inv db1" "same_but_cache db db1"
    using table_source_correct[OF Cons.prems(1), of i start stop] Cons.prems(2) by auto
  note same = same_but_cacheD[OF db1(4)]
  obtain ss db2 where "table_sources start stop ids db1 = (Inr ss, db2)"
      "list_all2 source_view ss (map (\<lambda>i. items_in start stop (file_records (db_dir db1) i)) ids)"
      "db_inv db2" "same_but_cache db1 db2"
    using Cons.IH[OF db1(3)] Cons.prems(2) same by auto
  then show ?case using db1 same same_but_cache_trans by (auto simp: bindS_def)
qed simp

text \<open>The stream of a scan merges the layers, each cut to the range.\<close>

lemma scan_stream_correct:
  assumes "db_inv db"
  shows "\<exists>m db'. scan_stream start stop db = (Inr m, db') \<and>
     merge_state m (map (items_in start stop) (db_layers db)) \<and> db_inv db' \<and> same_but_cache db db'"
proof -
  let ?m = "db_manifest db" and ?d = "db_dir db"
  have mt: "mt_inv (db_memtable db)" and ti: "tables_inv ?m ?d" using assms by (simp_all add: db_inv_def)
  obtain v where v: "memtable_source (db_memtable db) start stop = Inr v"
      "vs_view v (items_in start stop (mt_map (db_memtable db)))"
    using memtable_source_view[OF mt] by blast
  have sub: "set (rev (level0 ?m)) \<subseteq> set (table_order ?m)"
      "set (map sm_file_id (mf_segments ?m)) \<subseteq> set (table_order ?m)" by (auto simp: table_order_def)
  obtain ss0 db1 where s0: "table_sources start stop (rev (level0 ?m)) db = (Inr ss0, db1)"
      "list_all2 source_view ss0 (map (\<lambda>i. items_in start stop (file_records ?d i)) (rev (level0 ?m)))"
      "db_inv db1" "same_but_cache db db1"
    using table_sources_correct[OF assms sub(1)] by blast
  note same = same_but_cacheD[OF s0(4)]
  obtain ss1 db2 where s1: "table_sources start stop (map sm_file_id (mf_segments ?m)) db1 = (Inr ss1, db2)"
      "list_all2 source_view ss1 (map (\<lambda>i. items_in start stop (file_records ?d i)) (map sm_file_id (mf_segments ?m)))"
      "db_inv db2" "same_but_cache db1 db2"
    using table_sources_correct[OF s0(3), of "map sm_file_id (mf_segments ?m)" start stop] sub(2)
    unfolding same(1,2) by blast
  have "list_all2 source_view (SVec v # ss0 @ ss1) (map (items_in start stop) (db_layers db))"
    using v(2) list_all2_appendI[OF s0(2) s1(2)] by (simp add: db_layers_def table_order_def comp_def)
  moreover have "sorted_views (map (items_in start stop) (db_layers db))"
  proof -
    have "ssorted (map fst (file_records ?d i))" if "i \<in> set (table_order ?m)" for i
      using order_tables[OF ti that] by (simp add: table_at_def table_ok_def)
    then show ?thesis using mt by (auto simp: db_layers_def mt_inv_def intro!: ssorted_map_filter)
  qed
  ultimately have "merge_state (mi_new (SVec v # ss0 @ ss1)) (map (items_in start stop) (db_layers db))"
    by (rule mi_new_state)
  moreover have "scan_stream start stop db = (Inr (mi_new (SVec v # ss0 @ ss1)), db2)"
    using v(1) s0(1) s1(1) same by (simp add: scan_stream_def bindS_def)
  ultimately show ?thesis using s1(3,4) s0(4) same_but_cache_trans by blast
qed

lemma layers_items_in:
  "layers (map (items_in start stop) vs) k = (if in_range start stop k then layers vs k else None)"
proof (induction vs)
  case (Cons v vs)
  have "map_of (items_in start stop v) k = (if in_range start stop k then map_of v k else None)"
    using map_of_filter_key[of "in_range start stop" v k] by simp
  then show ?case using Cons by (auto simp: map_add_def split: option.split)
qed simp

lemma map_of_live:
  assumes "ssorted (map fst xs)"
  shows "map_of (filter (\<lambda>(_, v). v \<noteq> None) xs) k =
     (case map_of xs k of Some (Some v) \<Rightarrow> Some (Some v) | _ \<Rightarrow> None)"
  using assms
proof (induction xs)
  case (Cons x xs)
  obtain a e where x: "x = (a, e)" by (cases x)
  have "map_of xs a = None" using Cons.prems x by (auto simp: map_of_eq_None_iff)
  then show ?case using Cons x by (cases e) auto
qed simp

lemma db_scan_correct:
  assumes "db_inv db"
  shows "\<exists>out db'. db_scan start stop db = (Inr out, db') \<and> db_inv db' \<and> same_but_cache db db' \<and>
     ssorted (map fst out) \<and>
     (\<forall>k. map_of out k = (if in_range start stop k then map_option Some (db_value db k) else None))"
proof -
  obtain m db' where m: "scan_stream start stop db = (Inr m, db')"
      "merge_state m (map (items_in start stop) (db_layers db))" "db_inv db'" "same_but_cache db db'"
    using scan_stream_correct[OF assms] by blast
  obtain items m' where i: "merge_collect m = (Inr items, m')"
      "merged (map (items_in start stop) (db_layers db)) items"
    using merge_collect_state[OF m(2)] by blast
  have srt: "ssorted (map fst items)" using i(2) by (simp add: merged_def)
  have "map_of (filter (\<lambda>(_, v). v \<noteq> None) items) k =
      (if in_range start stop k then map_option Some (db_value db k) else None)" for k
    using i(2) unfolding map_of_live[OF srt]
    by (auto simp: merged_def layers_items_in db_value_def db_entry_def flat_def split: option.split)
  then show ?thesis
    using m i(1) ssorted_map_filter[OF srt] by (auto simp: db_scan_def bindS_def)
qed

end
