(* ===== verification/Segments.thy ===== *)
theory Segments
  imports Engine
begin

text \<open>
  Lemmas on tables and segments: the names of table files, the chunks of a merge and the tables written
  for them, and the sorting of disjoint segments.
\<close>

section \<open>File names\<close>

lemma digits_zero: "parse_digits 0 (replicate n 48 @ xs) = parse_digits 0 xs"
  by (induction n) (simp_all add: is_digit_def)

lemma table_path_inject [simp]: "table_path i = table_path j \<longleftrightarrow> i = j"
proof
  assume "table_path i = table_path j"
  then have "replicate (6 - length (dec i)) 48 @ dec i = replicate (6 - length (dec j)) 48 @ dec j"
    by (simp add: table_path_def flip: append_assoc)
  then have "parse_digits 0 (dec i) = parse_digits 0 (dec j)"
    using digits_zero[of _ "dec i"] digits_zero[of _ "dec j"] by metis
  then show "i = j" by (simp add: parse_digits_dec)
qed simp

lemma table_path_last: "last (table_path i) = 116"
  by (simp add: table_path_def str_def)

lemma table_path_names [simp]:
  "table_path i \<noteq> MANIFEST_FILE" "table_path i \<noteq> manifest_tmp" "table_path i \<noteq> WAL_FILE"
  "table_path i \<noteq> VERSION_FILE" "table_path i \<noteq> SCHEMA_FILE" "table_path i \<noteq> str ''VERSION.tmp''"
  using table_path_last[of i]
  by (auto simp: MANIFEST_FILE_def manifest_tmp_def WAL_FILE_def VERSION_FILE_def SCHEMA_FILE_def str_def)

lemma file_records_cong: "map_of d (table_path i) = map_of d' (table_path i) \<Longrightarrow> file_records d i = file_records d' i"
  by (simp add: file_records_def fs_read_def)

lemma table_at_cong: "map_of d (table_path i) = map_of d' (table_path i) \<Longrightarrow> table_at d i = table_at d' i"
  using file_records_cong[of d i d'] by (simp add: table_at_def)

lemma map_of_manifest_save:
  "map_of (manifest_save m d) name =
     (if name = MANIFEST_FILE then Some (manifest_text m) else if name = manifest_tmp then None else map_of d name)"
proof -
  have "MANIFEST_FILE \<noteq> manifest_tmp" by (simp add: MANIFEST_FILE_def manifest_tmp_def str_def)
  then show ?thesis by (simp add: manifest_save_def)
qed

lemma save_keeps_tables [simp]:
  "file_records (manifest_save m d) = file_records d" "table_at (manifest_save m d) = table_at d"
  "segment_at (manifest_save m d) = segment_at d"
proof -
  have e: "map_of (manifest_save m d) (table_path i) = map_of d (table_path i)" for i
    by (simp add: map_of_manifest_save)
  then show f: "file_records (manifest_save m d) = file_records d" by (intro ext file_records_cong)
  show "table_at (manifest_save m d) = table_at d" using e by (intro ext table_at_cong)
  show "segment_at (manifest_save m d) = segment_at d" by (intro ext) (simp add: segment_at_def f)
qed

lemma remove_keeps:
  "name \<notin> table_path ` set ids \<Longrightarrow> map_of (fold (\<lambda>i d. fs_remove (table_path i) d) ids d) name = map_of d name"
  by (induction ids arbitrary: d) auto

text \<open>The files that are no tables and not the manifest: nothing that reorganises tables touches them.\<close>

definition other_files :: "dir \<Rightarrow> dir \<Rightarrow> bool" where
  "other_files d d' \<longleftrightarrow> (\<forall>name. name \<noteq> MANIFEST_FILE \<and> name \<noteq> manifest_tmp \<and> (\<forall>i. name \<noteq> table_path i) \<longrightarrow>
     map_of d' name = map_of d name)"

lemma other_files_refl [simp]: "other_files d d"
  by (simp add: other_files_def)

lemma other_files_trans: "other_files a b \<Longrightarrow> other_files b c \<Longrightarrow> other_files a c"
  by (simp add: other_files_def)

section \<open>Chunks\<close>

lemma chunks_Nil [simp]: "chunks n [] = []"
  by (simp add: chunks.simps)

lemma concat_chunks: "0 < n \<Longrightarrow> concat (chunks n xs) = xs"
proof (induction n xs rule: chunks.induct)
  case (1 n xs)
  then show ?case by (cases "xs = []") (simp_all add: chunks.simps[of n xs])
qed

lemma chunks_sizes: "c \<in> set (chunks n xs) \<Longrightarrow> c \<noteq> [] \<and> length c \<le> n"
proof (induction n xs rule: chunks.induct)
  case (1 n xs)
  then show ?case by (cases "xs = [] \<or> n = 0") (auto simp: chunks.simps[of n xs])
qed

lemma layers_concat: "layers vs = map_of (concat vs)"
  by (induction vs) simp_all

text \<open>Records small enough that a table of a whole chunk stays below 4 GiB.\<close>

definition small :: "nat \<Rightarrow> item list \<Rightarrow> bool" where
  "small B rs \<longleftrightarrow> (\<forall>kv \<in> set rs. item_size kv + 21 \<le> B)"

definition db_fits :: "nat \<Rightarrow> database \<Rightarrow> bool" where
  "db_fits B db \<longleftrightarrow> 0 < segment_max_records (db_opts db) \<and> segment_max_records (db_opts db) * B < 2 ^ 32 \<and>
     (\<forall>v \<in> set (db_layers db). small B v)"

lemma small_size: "small B rs \<Longrightarrow> table_size rs \<le> length rs * B"
  by (induction rs) (auto simp: small_def table_size_def)

lemma chunk_ok:
  assumes "c \<in> set (chunks n xs)" and "0 < n" and "ssorted (map fst xs)" and "small B xs" and "n * B < 2 ^ 32"
  shows "table_ok c \<and> c \<noteq> []"
proof -
  obtain as bs where "concat (chunks n xs) = as @ c @ bs"
    using assms(1) by (metis concat.simps(2) concat_append in_set_conv_decomp)
  then have xs: "xs = as @ c @ bs" using concat_chunks[OF assms(2), of xs] by simp
  then have "ssorted (map fst c)" "small B c"
    using assms(3,4) by (auto simp: sorted_wrt_append small_def)
  moreover have "table_size c \<le> n * B"
  proof -
    have "length c * B \<le> n * B" using chunks_sizes[OF assms(1)] by (intro mult_le_mono1) simp
    then show ?thesis using small_size[OF \<open>small B c\<close>] by (rule order_trans[rotated])
  qed
  ultimately show ?thesis using assms(5) chunks_sizes[OF assms(1)] by (simp add: table_ok_def)
qed

section \<open>Writing the new segments\<close>

definition segment_for :: "nat \<Rightarrow> item list \<Rightarrow> segment_meta" where
  "segment_for i c = \<lparr>sm_file_id = i, sm_min_key = fst (hd c), sm_max_key = fst (last c), sm_records = length c\<rparr>"

lemma write_chunks_correct:
  assumes "\<forall>c \<in> set cs. table_ok c \<and> c \<noteq> []"
  shows "\<exists>d. write_chunks cs db =
      (Inr (map (\<lambda>j. segment_for (mf_next_table_id (db_manifest db) + j) (cs ! j)) [0..<length cs]),
       db\<lparr>db_manifest := (db_manifest db)\<lparr>mf_next_table_id := mf_next_table_id (db_manifest db) + length cs\<rparr>,
          db_dir := d\<rparr>) \<and>
     (\<forall>j < length cs. map_of d (table_path (mf_next_table_id (db_manifest db) + j)) = Some (table_file (cs ! j))) \<and>
     (\<forall>name. (\<forall>i. name = table_path i \<longrightarrow> i < mf_next_table_id (db_manifest db)) \<longrightarrow> map_of d name = map_of (db_dir db) name)"
  using assms
proof (induction cs arbitrary: db)
  case (Cons c cs)
  let ?n = "mf_next_table_id (db_manifest db)"
  define db1 where "db1 = db\<lparr>db_manifest := (db_manifest db)\<lparr>mf_next_table_id := ?n + 1\<rparr>,
          db_dir := fs_write (table_path ?n) (table_file c) (db_dir db)\<rparr>"
  have w: "write_table c db = (Inr ?n, db1)"
    by (simp add: write_table_def Let_def db1_def table_file_def)
  obtain d where d: "write_chunks cs db1 =
      (Inr (map (\<lambda>j. segment_for (?n + 1 + j) (cs ! j)) [0..<length cs]),
       db1\<lparr>db_manifest := (db_manifest db1)\<lparr>mf_next_table_id := ?n + 1 + length cs\<rparr>, db_dir := d\<rparr>)"
     "\<forall>j < length cs. map_of d (table_path (?n + 1 + j)) = Some (table_file (cs ! j))"
     "\<forall>name. (\<forall>i. name = table_path i \<longrightarrow> i < ?n + 1) \<longrightarrow> map_of d name = map_of (db_dir db1) name"
    using Cons.IH[of db1] Cons.prems by (auto simp: db1_def)
  have c: "c \<noteq> []" using Cons.prems by simp
  have sf: "segment_for ?n c = \<lparr>sm_file_id = ?n, sm_min_key = fst (c ! 0),
      sm_max_key = fst (c ! (length c - 1)), sm_records = length c\<rparr>"
    using c by (simp add: segment_for_def hd_conv_nth last_conv_nth)
  have segs: "map (\<lambda>j. segment_for (?n + j) ((c # cs) ! j)) [0..<length (c # cs)] =
      segment_for ?n c # map (\<lambda>j. segment_for (?n + 1 + j) (cs ! j)) [0..<length cs]"
  proof -
    have "[0..<length (c # cs)] = 0 # map Suc [0..<length cs]"
      by (simp only: length_Cons map_Suc_upt upt_conv_Cons[OF zero_less_Suc])
    then show ?thesis by (simp add: comp_def del: upt_Suc)
  qed
  have res: "write_chunks (c # cs) db =
      (Inr (map (\<lambda>j. segment_for (?n + j) ((c # cs) ! j)) [0..<length (c # cs)]),
       db\<lparr>db_manifest := (db_manifest db)\<lparr>mf_next_table_id := ?n + length (c # cs)\<rparr>, db_dir := d\<rparr>)"
  proof -
    have "write_chunks (c # cs) db = bindS (write_chunks cs) (\<lambda>segs. retS (segment_for ?n c # segs)) db1"
      by (simp only: write_chunks.simps c if_False bindS_Inr[where m = "write_table c" and s = db, OF w] sf)
    also have "\<dots> = (Inr (segment_for ?n c # map (\<lambda>j. segment_for (?n + 1 + j) (cs ! j)) [0..<length cs]),
        db1\<lparr>db_manifest := (db_manifest db1)\<lparr>mf_next_table_id := ?n + 1 + length cs\<rparr>, db_dir := d\<rparr>)"
      by (rule trans[OF bindS_Inr[where m = "write_chunks cs" and s = db1, OF d(1)]]) (simp only: op_simps)
    finally show ?thesis unfolding segs by (simp add: db1_def)
  qed
  moreover have "\<forall>j < length (c # cs). map_of d (table_path (?n + j)) = Some (table_file ((c # cs) ! j))"
  proof (intro allI impI)
    fix j assume j: "j < length (c # cs)"
    show "map_of d (table_path (?n + j)) = Some (table_file ((c # cs) ! j))"
    proof (cases j)
      case 0
      then show ?thesis using d(3)[rule_format, of "table_path ?n"] by (simp add: db1_def)
    next
      case (Suc k)
      then show ?thesis using d(2)[rule_format, of k] j by simp
    qed
  qed
  moreover have "\<forall>name. (\<forall>i. name = table_path i \<longrightarrow> i < ?n) \<longrightarrow> map_of d name = map_of (db_dir db) name"
  proof (intro allI impI)
    fix name assume a: "\<forall>i. name = table_path i \<longrightarrow> i < ?n"
    then have "\<forall>i. name = table_path i \<longrightarrow> i < ?n + 1" by fastforce
    then have "map_of d name = map_of (db_dir db1) name" using d(3) by blast
    moreover have "name \<noteq> table_path ?n" using a by auto
    ultimately show "map_of d name = map_of (db_dir db) name" by (simp add: db1_def)
  qed
  ultimately show ?case by blast
next
  case Nil
  then show ?case by (intro exI[of _ "db_dir db"]) simp
qed

section \<open>Sorting the segments\<close>

definition disjoint_segments :: "segment_meta \<Rightarrow> segment_meta \<Rightarrow> bool" where
  "disjoint_segments a b \<longleftrightarrow> sm_max_key a < sm_min_key b \<or> sm_max_key b < sm_min_key a"

lemma segments_ok_insort:
  assumes "segments_ok ss" and "sm_min_key x \<le> sm_max_key x" and "\<forall>s \<in> set ss. disjoint_segments x s"
  shows "segments_ok (insort_key sm_min_key x ss)"
  using assms
proof (induction ss)
  case (Cons a ss)
  have a: "sm_min_key a \<le> sm_max_key a" "segments_ok ss" "\<forall>s \<in> set ss. sm_max_key a < sm_min_key s"
    using Cons.prems(1) by (auto simp: segments_ok_def)
  show ?case
  proof (cases "sm_min_key x \<le> sm_min_key a")
    case True
    have "sm_max_key x < sm_min_key s" if "s \<in> set (a # ss)" for s
    proof -
      have "sm_min_key x \<le> sm_max_key a" using True a(1) by (rule order_trans)
      moreover have "sm_max_key a \<le> sm_max_key s"
      proof (cases "s = a")
        case False
        then have "sm_max_key a < sm_min_key s" "sm_min_key s \<le> sm_max_key s"
          using that a(2,3) by (auto simp: segments_ok_def)
        then show ?thesis by (meson less_le_trans less_imp_le)
      qed simp
      ultimately have "sm_min_key x \<le> sm_max_key s" by (rule order_trans)
      then show ?thesis using Cons.prems(3) that by (auto simp: disjoint_segments_def)
    qed
    then show ?thesis using True Cons.prems(1,2) by (auto simp: segments_ok_def)
  next
    case False
    then have "sm_max_key a < sm_min_key x"
      using Cons.prems(2,3) a by (auto simp: disjoint_segments_def)
    then have "\<forall>s \<in> set (insort_key sm_min_key x ss). sm_max_key a < sm_min_key s"
      using a(3) by (simp add: set_insort_key)
    moreover have "segments_ok (insort_key sm_min_key x ss)"
      using Cons.IH Cons.prems a(2) by simp
    ultimately show ?thesis using False a(1) by (simp add: segments_ok_def)
  qed
qed (simp add: segments_ok_def)

lemma segments_ok_sort:
  assumes "\<forall>s \<in> set ss. sm_min_key s \<le> sm_max_key s" and "sorted_wrt disjoint_segments ss"
  shows "segments_ok (sort_key sm_min_key ss)"
  using assms
proof (induction ss)
  case Nil
  then show ?case by (simp add: segments_ok_def)
next
  case (Cons s ss)
  then show ?case by (simp add: segments_ok_insort)
qed

lemma segments_ok_disjoint: "segments_ok ss \<Longrightarrow> sorted_wrt disjoint_segments ss"
  unfolding segments_ok_def by (elim conjE sorted_wrt_mono_rel[rotated]) (simp add: disjoint_segments_def)

lemma segments_ok_filter: "segments_ok ss \<Longrightarrow> segments_ok (filter P ss)"
  by (auto simp: segments_ok_def sorted_wrt_filter)

text \<open>Disjoint segments stand for the same map in any order.\<close>

lemma map_add_swap: "(\<And>k. f k = None \<or> g k = None) \<Longrightarrow> f ++ g = g ++ f"
  by (rule ext) (metis (mono_tags) map_add_None map_add_def option.simps(4,5) option.exhaust)

definition apart :: "item list \<Rightarrow> item list \<Rightarrow> bool" where
  "apart a b \<longleftrightarrow> (\<forall>k. map_of a k = None \<or> map_of b k = None)"

lemma layers_apart: "\<forall>v \<in> set vs. apart x v \<Longrightarrow> layers vs k = None \<or> map_of x k = None"
  unfolding layers_None apart_def by (metis (full_types))

lemma layers_insort:
  assumes "\<forall>s \<in> set ss. apart (f x) (f s)"
  shows "layers (map f (insort_key g x ss)) = layers (map f (x # ss))"
  using assms
proof (induction ss)
  case (Cons a ss)
  show ?case
  proof (cases "g x \<le> g a")
    case False
    have "map_of (f x) ++ map_of (f a) = map_of (f a) ++ map_of (f x)"
      using Cons.prems by (intro map_add_swap) (auto simp: apart_def)
    then show ?thesis using False Cons
      by (simp del: map_add_assoc add: map_add_assoc[symmetric])
  qed simp
qed simp

lemma layers_sort:
  assumes "sorted_wrt (\<lambda>a b. apart (f a) (f b)) ss"
  shows "layers (map f (sort_key g ss)) = layers (map f ss)"
  using assms
proof (induction ss)
  case (Cons x ss)
  then have "layers (map f (insort_key g x (sort_key g ss))) = layers (map f (x # sort_key g ss))"
    by (intro layers_insort) simp
  then show ?case using Cons by simp
qed simp

lemma layers_partition:
  assumes "sorted_wrt (\<lambda>a b. apart (f a) (f b)) ss"
  shows "layers (map f ss) = layers (map f (filter P ss)) ++ layers (map f (filter (\<lambda>s. \<not> P s) ss))"
  using assms
proof (induction ss)
  case (Cons x ss)
  let ?a = "layers (map f (filter P ss))" and ?b = "layers (map f (filter (\<lambda>s. \<not> P s) ss))"
  have ih: "layers (map f ss) = ?a ++ ?b" using Cons by simp
  have "?b k = None \<or> map_of (f x) k = None" for k
    using Cons.prems by (intro layers_apart) auto
  then have "?b ++ map_of (f x) = map_of (f x) ++ ?b" by (rule map_add_swap)
  then show ?case using ih by (simp del: map_add_assoc add: map_add_assoc[symmetric])
qed simp

end
