(* ===== verification/Compaction.thy ===== *)
theory Compaction
  imports Segments
begin

text \<open>
  Compaction: the merge of level 0 with the segments it overlaps, the split of the result into new
  segments, and the commit. It leaves every value as it was and keeps the segments sorted and disjoint.
\<close>

section \<open>The inputs\<close>

lemma key_in_bounds:
  assumes "table_at d i" and "map_of (file_records d i) k \<noteq> None"
  shows "fst (hd (file_records d i)) \<le> k \<and> k \<le> fst (last (file_records d i))"
  using segment_bounds[of d "segment_for i (file_records d i)" k] assms
  by (simp add: segment_for_def segment_at_def)

lemma key_bounds_at:
  assumes "table_at (db_dir db) i"
  shows "\<exists>r. open_table i db = Inr r \<and>
     key_bounds r = Some (fst (hd (file_records (db_dir db) i)), fst (last (file_records (db_dir db) i))) \<and>
     table_iter_all r = Inr (file_records (db_dir db) i) \<and> num_records r = length (file_records (db_dir db) i)"
proof -
  obtain r where r: "open_table i db = Inr r" "shared r = table_shared (file_records (db_dir db) i)"
    using open_table_at[OF assms] by blast
  then show ?thesis
    using key_bounds_shared[OF r(2)] table_iter_all_shared[OF _ r(2)] assms
    by (simp add: table_at_def num_records_def table_shared_def)
qed

lemma bounds_loop_correct:
  assumes "\<forall>i \<in> set ids. table_at (db_dir db) i"
  shows "\<exists>mi' ma'. bounds_loop ids db mi ma = Inr (mi', ma') \<and>
     (\<forall>a. mi = Some a \<longrightarrow> (\<exists>a'. mi' = Some a' \<and> a' \<le> a)) \<and>
     (\<forall>b. ma = Some b \<longrightarrow> (\<exists>b'. ma' = Some b' \<and> b \<le> b')) \<and>
     (\<forall>i \<in> set ids. \<exists>a b. mi' = Some a \<and> ma' = Some b \<and> a \<le> fst (hd (file_records (db_dir db) i)) \<and>
        fst (last (file_records (db_dir db) i)) \<le> b)"
  using assms
proof (induction ids arbitrary: mi ma)
  case (Cons i ids)
  obtain r where r: "open_table i db = Inr r"
      "key_bounds r = Some (fst (hd (file_records (db_dir db) i)), fst (last (file_records (db_dir db) i)))"
    using key_bounds_at[of db i] Cons.prems by auto
  let ?f = "fst (hd (file_records (db_dir db) i))" and ?l = "fst (last (file_records (db_dir db) i))"
  let ?mi = "if (case mi of None \<Rightarrow> True | Some m \<Rightarrow> ?f < m) then Some ?f else mi"
  let ?ma = "if (case ma of None \<Rightarrow> True | Some m \<Rightarrow> m < ?l) then Some ?l else ma"
  obtain a0 where a0: "?mi = Some a0" "a0 \<le> ?f" "\<And>a. mi = Some a \<Longrightarrow> a0 \<le> a"
  proof (cases mi)
    case (Some a)
    then show ?thesis using that[of "min ?f a"] by (cases "?f < a") (auto simp: min_def)
  qed (use that in auto)
  obtain b0 where b0: "?ma = Some b0" "?l \<le> b0" "\<And>b. ma = Some b \<Longrightarrow> b \<le> b0"
  proof (cases ma)
    case (Some b)
    then show ?thesis using that[of "max ?l b"] by (cases "b < ?l") (auto simp: max_def)
  qed (use that in auto)
  obtain mi' ma' where ih: "bounds_loop ids db ?mi ?ma = Inr (mi', ma')"
      "\<And>a. ?mi = Some a \<Longrightarrow> \<exists>a'. mi' = Some a' \<and> a' \<le> a" "\<And>b. ?ma = Some b \<Longrightarrow> \<exists>b'. ma' = Some b' \<and> b \<le> b'"
      "\<forall>i \<in> set ids. \<exists>a b. mi' = Some a \<and> ma' = Some b \<and> a \<le> fst (hd (file_records (db_dir db) i)) \<and>
        fst (last (file_records (db_dir db) i)) \<le> b"
    using Cons.IH[of ?mi ?ma] Cons.prems by auto
  obtain a1 b1 where 1: "mi' = Some a1" "a1 \<le> a0" "ma' = Some b1" "b0 \<le> b1"
    using ih(2)[OF a0(1)] ih(3)[OF b0(1)] by blast
  have "bounds_loop (i # ids) db mi ma = Inr (mi', ma')" using r ih(1) by simp
  moreover have "\<exists>a'. mi' = Some a' \<and> a' \<le> a" if "mi = Some a" for a
    using 1 a0(3)[OF that] order_trans by blast
  moreover have "\<exists>b'. ma' = Some b' \<and> b \<le> b'" if "ma = Some b" for b
    using 1 b0(3)[OF that] order_trans by blast
  moreover have "a1 \<le> ?f" "?l \<le> b1" using 1 a0(2) b0(2) order_trans by blast+
  ultimately show ?case using 1 ih(4) by auto
qed simp

lemma table_bounds_correct:
  assumes "\<forall>i \<in> set ids. table_at (db_dir db) i" and "ids \<noteq> []"
  shows "\<exists>a b. table_bounds ids db = Inr (Some (a, b)) \<and>
     (\<forall>i \<in> set ids. \<forall>k. map_of (file_records (db_dir db) i) k \<noteq> None \<longrightarrow> a \<le> k \<and> k \<le> b)"
proof -
  obtain mi ma where m: "bounds_loop ids db None None = Inr (mi, ma)"
    "\<forall>i \<in> set ids. \<exists>a b. mi = Some a \<and> ma = Some b \<and> a \<le> fst (hd (file_records (db_dir db) i)) \<and>
        fst (last (file_records (db_dir db) i)) \<le> b"
    using bounds_loop_correct[OF assms(1), of None None] by (elim exE conjE) (rule that)
  obtain a b where ab: "mi = Some a" "ma = Some b"
    using m(2) assms(2) by (cases ids) auto
  have "a \<le> k \<and> k \<le> b" if "i \<in> set ids" "map_of (file_records (db_dir db) i) k \<noteq> None" for i k
    using m(2) ab that key_in_bounds[of "db_dir db" i k] assms(1) by (fastforce intro: order_trans)
  then show ?thesis using m(1) ab by (auto simp: table_bounds_def)
qed

lemma mapE_tables:
  "\<forall>i \<in> set ids. table_at (db_dir db) i \<Longrightarrow>
     mapE (\<lambda>i. bindE (open_table i db) table_iter_all) ids = Inr (map (file_records (db_dir db)) ids)"
proof (induction ids)
  case (Cons i ids)
  then show ?case using key_bounds_at[of db i] by auto
qed simp

text \<open>The live part of an entry: a tombstone counts as nothing.\<close>

definition live :: "entry option \<Rightarrow> entry option" where
  "live e = (case e of Some (Some v) \<Rightarrow> Some (Some v) | _ \<Rightarrow> None)"

lemma flat_live [simp]: "flat (live e) = flat e" "live None = None"
  by (auto simp: live_def flat_def split: option.split)

lemma live_Some: "live e \<noteq> None \<Longrightarrow> live e = e"
  by (auto simp: live_def split: option.splits)

lemma layers_item: "layers vs k = Some e \<Longrightarrow> \<exists>v \<in> set vs. (k, e) \<in> set v"
  by (induction vs) (auto simp: map_add_Some_iff dest: map_of_SomeD)

lemma merge_ids_correct:
  assumes "\<forall>i \<in> set ids. table_at (db_dir db) i"
  shows "\<exists>recs. merge_ids ids True db = Inr recs \<and> ssorted (map fst recs) \<and>
     (\<forall>k. map_of recs k = live (layers (map (file_records (db_dir db)) ids) k))"
proof -
  let ?vs = "map (file_records (db_dir db)) ids"
  have srt: "sorted_views ?vs" using assms by (auto simp: table_at_def table_ok_def)
  have "list_all2 source_view (map (\<lambda>items. SVec (vs_new items)) ?vs) ?vs"
    by (auto simp: list_all2_conv_all_nth vs_view_def vs_new_def)
  then obtain out m' where "merge_collect (mi_new (map (\<lambda>items. SVec (vs_new items)) ?vs)) = (Inr out, m')"
      and out: "merged ?vs out"
    using merge_collect_state[OF mi_new_state] srt by blast
  then have "merge_ids ids True db = Inr (filter (\<lambda>(_, v). v \<noteq> None) out)"
    using mapE_tables[OF assms] by (simp add: merge_ids_def merge_vecs_def)
  moreover have "ssorted (map fst out)" using out by (simp add: merged_def)
  ultimately show ?thesis
    using out map_of_live[of out] ssorted_map_filter by (auto simp: merged_def live_def)
qed

lemma small_merged:
  assumes "ssorted (map fst recs)" and "\<And>k. map_of recs k = live (layers vs k)" and "\<forall>v \<in> set vs. small B v"
  shows "small B recs"
  unfolding small_def
proof
  fix kv assume kv: "kv \<in> set recs"
  obtain k e where ke: "kv = (k, e)" by (cases kv)
  have "map_of recs k = Some e"
    using kv ke sorted_keys_distinct[OF assms(1)] by simp
  then have "layers vs k = Some e" using assms(2)[of k] live_Some[of "layers vs k"] by simp
  then show "item_size kv + 21 \<le> B" using layers_item assms(3) ke by (fastforce simp: small_def)
qed

section \<open>The merged keys against the segments that stay\<close>

lemma outside_batch:
  assumes ti: "tables_inv m d"
    and ab: "\<forall>i \<in> set (level0 m). \<forall>k. map_of (file_records d i) k \<noteq> None \<longrightarrow> a \<le> k \<and> k \<le> b"
    and s: "s \<in> set (mf_segments m)" "\<not> overlaps a b s"
    and L: "L = layers (map (file_records d) (rev (level0 m) @ map sm_file_id (filter (overlaps a b) (mf_segments m))))"
  shows "(\<forall>k. L k \<noteq> None \<longrightarrow> sm_max_key s < k) \<or> (\<forall>k. L k \<noteq> None \<longrightarrow> k < sm_min_key s)"
proof -
  have ok: "segments_ok (mf_segments m)" using ti by (simp add: tables_inv_def)
  have le: "sm_min_key t \<le> sm_max_key t" if "t \<in> set (mf_segments m)" for t
    using ok that by (simp add: segments_ok_def)
  have dis: "disjoint_segments t s" if t: "t \<in> set (mf_segments m)" "t \<noteq> s" for t
  proof -
    obtain i j where ij: "i < length (mf_segments m)" "mf_segments m ! i = t" "j < length (mf_segments m)" "mf_segments m ! j = s"
      using t s by (metis in_set_conv_nth)
    have st: "sorted_wrt (\<lambda>a b. sm_max_key a < sm_min_key b) (mf_segments m)" using ok by (simp add: segments_ok_def)
    from ij t consider "i < j" | "j < i" by fastforce
    then show ?thesis
      using sorted_wrt_nth_less[OF st, of i j] sorted_wrt_nth_less[OF st, of j i] ij
      by cases (simp_all add: disjoint_segments_def)
  qed
  have src: "(\<exists>i \<in> set (level0 m). map_of (file_records d i) k \<noteq> None) \<or>
      (\<exists>t \<in> set (mf_segments m). overlaps a b t \<and> sm_min_key t \<le> k \<and> k \<le> sm_max_key t)" if k: "L k \<noteq> None" for k
  proof -
    obtain i where i: "i \<in> set (rev (level0 m) @ map sm_file_id (filter (overlaps a b) (mf_segments m)))"
        "map_of (file_records d i) k \<noteq> None"
      using k unfolding L layers_None by auto
    show ?thesis
    proof (cases "i \<in> set (level0 m)")
      case True
      then show ?thesis using i(2) by blast
    next
      case False
      then obtain t where t: "t \<in> set (mf_segments m)" "overlaps a b t" "i = sm_file_id t" using i(1) by auto
      then have "table_at d (sm_file_id t)" "segment_at d t"
        using order_tables[OF ti] order_parts(2) ti by (auto simp: tables_inv_def)
      then show ?thesis using segment_bounds[of d t k] i(2) t by blast
    qed
  qed
  have "sm_max_key s < a \<or> b < sm_min_key s" using s(2) by (auto simp: overlaps_def not_le)
  then show ?thesis
  proof
    assume lo: "sm_max_key s < a"
    have "sm_max_key s < k" if "L k \<noteq> None" for k
      using src[OF that]
    proof
      assume "\<exists>i \<in> set (level0 m). map_of (file_records d i) k \<noteq> None"
      then show ?thesis using ab lo less_le_trans by blast
    next
      assume "\<exists>t \<in> set (mf_segments m). overlaps a b t \<and> sm_min_key t \<le> k \<and> k \<le> sm_max_key t"
      then obtain t where t: "t \<in> set (mf_segments m)" "overlaps a b t" "sm_min_key t \<le> k" by blast
      have "a \<le> sm_max_key t" using t(2) by (simp add: overlaps_def)
      then have "sm_max_key s < sm_max_key t" using lo by (rule order.strict_trans2[rotated])
      then have "\<not> sm_max_key t < sm_min_key s" using le[OF s(1)] by auto
      moreover have "t \<noteq> s" using t(2) s(2) by blast
      ultimately have "sm_max_key s < sm_min_key t" using dis[OF t(1)] by (simp add: disjoint_segments_def)
      then show ?thesis using t(3) by (rule order.strict_trans2)
    qed
    then show ?thesis by blast
  next
    assume hi: "b < sm_min_key s"
    have "k < sm_min_key s" if "L k \<noteq> None" for k
      using src[OF that]
    proof
      assume "\<exists>i \<in> set (level0 m). map_of (file_records d i) k \<noteq> None"
      then show ?thesis using ab hi le_less_trans by blast
    next
      assume "\<exists>t \<in> set (mf_segments m). overlaps a b t \<and> sm_min_key t \<le> k \<and> k \<le> sm_max_key t"
      then obtain t where t: "t \<in> set (mf_segments m)" "overlaps a b t" "k \<le> sm_max_key t" by blast
      have "sm_min_key t \<le> b" using t(2) by (simp add: overlaps_def)
      then have "sm_min_key t < sm_min_key s" using hi by (rule order.strict_trans1)
      then have "\<not> sm_max_key s < sm_min_key t" using le[OF s(1)] by auto
      moreover have "t \<noteq> s" using t(2) s(2) by blast
      ultimately have "sm_max_key t < sm_min_key s" using dis[OF t(1)] by (simp add: disjoint_segments_def)
      then show ?thesis using t(3) by (rule order.strict_trans1[rotated])
    qed
    then show ?thesis by blast
  qed
qed

section \<open>The new segments\<close>

lemma chunks_ascending:
  "ssorted (map fst (concat cs)) \<Longrightarrow> sorted_wrt (\<lambda>a b. \<forall>x \<in> set a. \<forall>y \<in> set b. fst x < fst y) cs"
  by (induction cs) (auto simp: sorted_wrt_append)

text \<open>
  What a compaction leaves on disk: the kept segments \<open>R\<close> and one table for each chunk of \<open>recs\<close>, none of
  whose keys lies between the bounds of a kept segment.
\<close>

lemma new_segments_ok:
  assumes R: "segments_ok R" "\<forall>s \<in> set R. table_at d (sm_file_id s) \<and> segment_at d s"
    and cs: "\<forall>c \<in> set cs. table_ok c \<and> c \<noteq> []" "ssorted (map fst (concat cs))"
    and side: "\<forall>s \<in> set R. (\<forall>kv \<in> set (concat cs). sm_max_key s < fst kv) \<or>
        (\<forall>kv \<in> set (concat cs). fst kv < sm_min_key s)"
    and at: "\<And>j. j < length cs \<Longrightarrow> map_of d (table_path (n + j)) = Some (table_file (cs ! j))"
    and new: "new = map (\<lambda>j. segment_for (n + j) (cs ! j)) [0..<length cs]"
  shows "segments_ok (sort_key sm_min_key (R @ new)) \<and>
    (\<forall>s \<in> set (R @ new). table_at d (sm_file_id s) \<and> segment_at d s) \<and>
    layers (map (file_records d) (map sm_file_id (sort_key sm_min_key (R @ new)))) =
      map_of (concat cs) ++ layers (map (file_records d) (map sm_file_id R))"
proof -
  have fr: "table_at d (n + j) \<and> file_records d (n + j) = cs ! j" if "j < length cs" for j
    using table_at_written[OF at[OF that]] cs(1) that by simp
  have nth: "new ! j = segment_for (n + j) (cs ! j)" if "j < length cs" for j
    using that by (simp add: new)
  have len: "length new = length cs" by (simp add: new)
  have new_at: "table_at d (sm_file_id s) \<and> segment_at d s" if "s \<in> set new" for s
    using that fr by (auto simp: new segment_for_def segment_at_def)
  have ends: "hd c \<in> set (concat cs)" "last c \<in> set (concat cs)" "fst (hd c) \<le> fst (last c)"
    if c: "c \<in> set cs" for c
  proof -
    have ne: "c \<noteq> []" and srt: "ssorted (map fst c)" using cs(1) c by (simp_all add: table_ok_def)
    show "hd c \<in> set (concat cs)" "last c \<in> set (concat cs)"
      using c hd_in_set[OF ne] last_in_set[OF ne] unfolding set_concat by blast+
    show "fst (hd c) \<le> fst (last c)"
      using keys_increasing[OF srt, of 0 "length c - 1"] ne
      by (cases "length c = 1") (auto simp: hd_conv_nth last_conv_nth intro: less_imp_le)
  qed
  have le: "\<forall>s \<in> set (R @ new). sm_min_key s \<le> sm_max_key s"
    using R(1) ends(3) by (auto simp: segments_ok_def new segment_for_def)
  have new_dis: "sorted_wrt disjoint_segments new"
    unfolding sorted_wrt_iff_nth_less
  proof (intro allI impI)
    fix i j assume ij: "i < j" "j < length new"
    have "\<forall>x \<in> set (cs ! i). \<forall>y \<in> set (cs ! j). fst x < fst y"
      using sorted_wrt_nth_less[OF chunks_ascending[OF cs(2)], of i j] ij len by simp
    moreover have "cs ! i \<noteq> []" "cs ! j \<noteq> []" using cs(1) ij len by simp_all
    ultimately show "disjoint_segments (new ! i) (new ! j)"
      using ij len by (simp add: nth disjoint_segments_def segment_for_def)
  qed
  have cross: "disjoint_segments s t" if st: "s \<in> set R" "t \<in> set new" for s t
  proof -
    obtain j where "j < length cs" "t = segment_for (n + j) (cs ! j)" using st(2) by (auto simp: new)
    then obtain c where c: "c \<in> set cs" "sm_min_key t = fst (hd c)" "sm_max_key t = fst (last c)"
      by (intro that[of "cs ! j"]) (simp_all add: segment_for_def)
    then show ?thesis using side[rule_format, OF st(1)] ends[OF c(1)] by (auto simp: disjoint_segments_def)
  qed
  have dis: "sorted_wrt disjoint_segments (R @ new)"
    using segments_ok_disjoint[OF R(1)] new_dis cross by (simp add: sorted_wrt_append)
  have all: "\<forall>s \<in> set (R @ new). table_at d (sm_file_id s) \<and> segment_at d s" using R(2) new_at by auto
  let ?f = "\<lambda>s. file_records d (sm_file_id s)"
  have ap: "apart (?f s) (?f t)" if "s \<in> set (R @ new)" "t \<in> set (R @ new)" "disjoint_segments s t" for s t
  proof -
    have "False" if k: "map_of (?f s) k \<noteq> None" "map_of (?f t) k \<noteq> None" for k
    proof -
      have "sm_min_key s \<le> k" "k \<le> sm_max_key s" "sm_min_key t \<le> k" "k \<le> sm_max_key t"
        using all \<open>s \<in> set (R @ new)\<close> \<open>t \<in> set (R @ new)\<close> segment_bounds k by blast+
      then show False using \<open>disjoint_segments s t\<close>
        by (auto simp: disjoint_segments_def dest: le_less_trans less_le_trans)
    qed
    then show ?thesis unfolding apart_def by blast
  qed
  have "sorted_wrt (\<lambda>s t. apart (?f s) (?f t)) (R @ new)"
    by (rule sorted_wrt_mono_rel[OF _ dis]) (rule ap)
  then have "layers (map ?f (sort_key sm_min_key (R @ new))) = layers (map ?f (R @ new))"
    by (rule layers_sort)
  also have "\<dots> = layers (map ?f new) ++ layers (map ?f R)" by (simp add: layers_append)
  also have "map ?f new = cs"
    by (rule nth_equalityI) (use fr in \<open>auto simp: new segment_for_def\<close>)
  finally have "layers (map ?f (sort_key sm_min_key (R @ new))) = map_of (concat cs) ++ layers (map ?f R)"
    by (simp only: layers_concat)
  then show ?thesis using segments_ok_sort[OF le dis] all by (simp add: comp_def)
qed

section \<open>The commit\<close>

lemma set_level0_simps [simp]:
  "level0 (set_level0 ids m) = ids" "mf_segments (set_level0 ids m) = mf_segments m"
  "mf_next_table_id (set_level0 ids m) = mf_next_table_id m" "mf_levels (set_level0 ids m) \<noteq> []"
  "upper_empty m \<Longrightarrow> upper_empty (set_level0 ids m)"
  by (simp_all add: set_level0_def level0_def upper_empty_def split: list.splits)

lemma all_ids_levels:
  "mf_levels m \<noteq> [] \<Longrightarrow> upper_empty m \<Longrightarrow> all_ids m = level0 m @ map sm_file_id (mf_segments m)"
  by (simp add: all_ids_def levels_order)

text \<open>
  What the replacement of tables by new segments establishes: the segments \<open>R\<close> stay, and the new ones
  hold the records \<open>recs\<close>.
\<close>

definition new_tables :: "segment_meta list \<Rightarrow> item list \<Rightarrow> database \<Rightarrow> database \<Rightarrow> bool" where
  "new_tables R recs db db' \<longleftrightarrow> db_inv db' \<and> level0 (db_manifest db') = [] \<and>
     layers (map (file_records (db_dir db')) (table_order (db_manifest db'))) =
       map_of recs ++ layers (map (file_records (db_dir db)) (map sm_file_id R)) \<and>
     map_of (db_dir db') MANIFEST_FILE = Some (manifest_text (db_manifest db')) \<and>
     length (mf_levels (db_manifest db')) = length (mf_levels (db_manifest db)) \<and>
     other_files (db_dir db) (db_dir db') \<and>
     (\<exists>d m. db' = db\<lparr>db_dir := d, db_manifest := m, db_cache := Map.empty\<rparr>)"

lemma replace_segments:
  assumes inv: "db_inv db" and R: "R = filter P (mf_segments (db_manifest db))"
    and recs: "ssorted (map fst recs)" "small B recs"
    and n: "0 < segment_max_records (db_opts db)" "segment_max_records (db_opts db) * B < 2 ^ 32"
    and side: "\<forall>s \<in> set R. (\<forall>kv \<in> set recs. sm_max_key s < fst kv) \<or> (\<forall>kv \<in> set recs. fst kv < sm_min_key s)"
    and doomed: "set doomed \<subseteq> set (all_ids (db_manifest db))" "set doomed \<inter> sm_file_id ` set R = {}"
  shows "\<exists>new db1. write_segments recs db = (Inr new, db1) \<and>
    new_tables R recs db (remove_tables doomed (commit_segments (sort_key sm_min_key (R @ new)) db1))"
proof -
  let ?m = "db_manifest db" and ?d = "db_dir db"
  let ?n = "mf_next_table_id ?m" and ?smr = "segment_max_records (db_opts db)"
  define cs where "cs = chunks ?smr recs"
  have cc: "concat cs = recs" unfolding cs_def using n(1) by (rule concat_chunks)
  have ti: "tables_inv ?m ?d" and mt: "mt_inv (db_memtable db)" using inv by (simp_all add: db_inv_def)
  have ok: "\<forall>c \<in> set cs. table_ok c \<and> c \<noteq> []"
    unfolding cs_def using chunk_ok[OF _ n(1) recs n(2)] by blast
  define new where "new = map (\<lambda>j. segment_for (?n + j) (cs ! j)) [0..<length cs]"
  obtain d1 where w: "write_chunks cs db = (Inr new,
       db\<lparr>db_manifest := ?m\<lparr>mf_next_table_id := ?n + length cs\<rparr>, db_dir := d1\<rparr>)"
    and d1: "\<forall>j < length cs. map_of d1 (table_path (?n + j)) = Some (table_file (cs ! j))"
      "\<forall>name. (\<forall>i. name = table_path i \<longrightarrow> i < ?n) \<longrightarrow> map_of d1 name = map_of ?d name"
    using write_chunks_correct[OF ok, of db] unfolding new_def by blast
  define db1 where "db1 = db\<lparr>db_manifest := ?m\<lparr>mf_next_table_id := ?n + length cs\<rparr>, db_dir := d1\<rparr>"
  define m' where "m' = set_level0 [] (?m\<lparr>mf_next_table_id := ?n + length cs, mf_segments := sort_key sm_min_key (R @ new)\<rparr>)"
  define d' where "d' = fold (\<lambda>i d. fs_remove (table_path i) d) doomed (manifest_save m' d1)"
  have m1: "set_level0 [] ((db_manifest db1)\<lparr>mf_segments := sort_key sm_min_key (R @ new)\<rparr>) = m'"
    by (simp add: db1_def m'_def)
  have db': "remove_tables doomed (commit_segments (sort_key sm_min_key (R @ new)) db1) =
      db\<lparr>db_dir := d', db_manifest := m', db_cache := Map.empty\<rparr>" (is "?db' = _")
    by (simp only: commit_segments_def m1 Let_def) (simp add: remove_tables_def db1_def d'_def)
  have below: "i < ?n" if "i \<in> set (all_ids ?m)" for i
    using ti that by (simp add: tables_inv_def)
  have Rids: "sm_file_id s \<in> set (all_ids ?m)" if "s \<in> set R" for s
    using that by (simp add: R all_ids_def)
  have keep: "map_of d' name = map_of (manifest_save m' d1) name" if "name \<notin> table_path ` set doomed" for name
    unfolding d'_def using that by (rule remove_keeps)
  have old: "map_of d' (table_path i) = map_of ?d (table_path i)" if "i \<in> set (all_ids ?m)" "i \<notin> set doomed" for i
  proof -
    have "map_of d1 (table_path i) = map_of ?d (table_path i)" using d1(2) below[OF that(1)] by simp
    moreover have "table_path i \<notin> table_path ` set doomed" using that(2) by (simp add: image_iff)
    ultimately show ?thesis using keep[of "table_path i"] by (simp add: map_of_manifest_save)
  qed
  have fresh: "map_of d' (table_path (?n + j)) = Some (table_file (cs ! j))" if "j < length cs" for j
  proof -
    have "?n + j \<notin> set doomed" using doomed(1) below by fastforce
    then have "table_path (?n + j) \<notin> table_path ` set doomed" by (simp add: image_iff)
    then show ?thesis using keep[of "table_path (?n + j)"] d1(1) that by (simp add: map_of_manifest_save)
  qed
  have Rold: "map_of d' (table_path (sm_file_id s)) = map_of ?d (table_path (sm_file_id s))" if "s \<in> set R" for s
    using old[OF Rids[OF that]] doomed(2) that by blast
  have Rat: "\<forall>s \<in> set R. table_at d' (sm_file_id s) \<and> segment_at d' s"
  proof
    fix s assume s: "s \<in> set R"
    have "table_at ?d (sm_file_id s)" "segment_at ?d s"
      using ti s Rids[OF s] by (auto simp: tables_inv_def R)
    then show "table_at d' (sm_file_id s) \<and> segment_at d' s"
      using table_at_cong[OF Rold[OF s]] file_records_cong[OF Rold[OF s]] by (simp add: segment_at_def)
  qed
  have Rok: "segments_ok R" unfolding R using ti by (intro segments_ok_filter) (simp add: tables_inv_def)
  have cs2: "ssorted (map fst (concat cs))" unfolding cc by (rule recs(1))
  note res = new_segments_ok[OF Rok Rat ok cs2 side[folded cc] fresh new_def]
  have newids: "map sm_file_id new = map (\<lambda>j. ?n + j) [0..<length cs]"
    by (simp add: new_def segment_for_def comp_def)
  have ul: "upper_empty m'" unfolding m'_def using ti by (intro set_level0_simps(5)) (simp add: tables_inv_def upper_empty_def)
  have ids: "all_ids m' = map sm_file_id (sort_key sm_min_key (R @ new))"
    using all_ids_levels[OF _ ul] by (simp add: m'_def)
  have bound: "sm_file_id s < ?n + length cs" if s: "s \<in> set (R @ new)" for s
  proof (cases "s \<in> set R")
    case True
    then show ?thesis using below[OF Rids] by (simp add: trans_less_add1)
  next
    case False
    then show ?thesis using s by (auto simp: new_def segment_for_def)
  qed
  have "distinct (map sm_file_id R)"
  proof -
    have "distinct (map sm_file_id (mf_segments ?m))" using ti by (simp add: tables_inv_def all_ids_def)
    then show ?thesis unfolding R by (rule distinct_map_filter)
  qed
  moreover have "distinct (map sm_file_id new)" by (simp add: newids distinct_map)
  moreover have "sm_file_id ` set R \<inter> sm_file_id ` set new = {}"
  proof -
    have "?n \<le> i" if "i \<in> set (map sm_file_id new)" for i using that unfolding newids by auto
    then show ?thesis using below Rids by fastforce
  qed
  ultimately have "distinct (map sm_file_id (R @ new))" by simp
  then have "distinct (map sm_file_id (sort_key sm_min_key (R @ new)))"
    by (simp only: distinct_map distinct_sort set_sort)
  then have "tables_inv m' d'"
    using res bound ul by (auto simp: tables_inv_def ids) (auto simp: m'_def)
  then have "db_inv ?db'" unfolding db' using mt by (simp add: db_inv_def cache_inv_def)
  moreover have "layers (map (file_records d') (table_order m')) =
      map_of recs ++ layers (map (file_records ?d) (map sm_file_id R))"
  proof -
    have "map (file_records d') (map sm_file_id R) = map (file_records ?d) (map sm_file_id R)"
      using file_records_cong[OF Rold] by simp
    moreover have "table_order m' = map sm_file_id (sort_key sm_min_key (R @ new))"
      by (simp add: table_order_def m'_def)
    ultimately show ?thesis using res by (simp only: cc)
  qed
  moreover have "map_of d' MANIFEST_FILE = Some (manifest_text m')"
  proof -
    have "MANIFEST_FILE \<notin> table_path ` set doomed" using table_path_names(1) by (metis imageE)
    then show ?thesis using keep[of MANIFEST_FILE] by (simp add: map_of_manifest_save)
  qed
  moreover have "level0 m' = []" by (simp add: m'_def)
  moreover have "other_files ?d d'"
    unfolding other_files_def
  proof (intro allI impI)
    fix name assume n: "name \<noteq> MANIFEST_FILE \<and> name \<noteq> manifest_tmp \<and> (\<forall>i. name \<noteq> table_path i)"
    then have "name \<notin> table_path ` set doomed" by blast
    then show "map_of d' name = map_of ?d name" using keep[of name] n d1(2) by (simp add: map_of_manifest_save)
  qed
  moreover have "length (mf_levels m') = length (mf_levels ?m)"
    using ti by (simp add: m'_def tables_inv_def set_level0_def split: list.split)
  moreover have "write_segments recs db = (Inr new, db1)"
    using w n(1) by (simp add: write_segments_def cs_def db1_def)
  ultimately show ?thesis
    by (intro exI[of _ new] exI[of _ db1]) (simp add: db' new_tables_def, blast)
qed

text \<open>What a compaction keeps: every value, the log, memory and the options; level 0 is empty after it.\<close>

definition compacted :: "nat \<Rightarrow> database \<Rightarrow> database \<Rightarrow> bool" where
  "compacted B db db' \<longleftrightarrow> db_inv db' \<and> db_value db' = db_value db \<and> db_fits B db' \<and>
     (\<forall>k. db_entry db k = None \<longrightarrow> db_entry db' k = None) \<and>
     length (mf_levels (db_manifest db')) = length (mf_levels (db_manifest db)) \<and>
     other_files (db_dir db) (db_dir db') \<and> level0 (db_manifest db') = [] \<and> map_of (db_dir db') MANIFEST_FILE = Some (manifest_text (db_manifest db')) \<and>
     (\<exists>d m. db' = db\<lparr>db_dir := d, db_manifest := m, db_cache := Map.empty\<rparr>)"

lemma value_layers:
  "db_value db k = flat (case map_of (mt_map (db_memtable db)) k of Some e \<Rightarrow> Some e
     | None \<Rightarrow> layers (map (file_records (db_dir db)) (table_order (db_manifest db))) k)"
  by (simp add: db_value_def db_entry_def db_layers_def map_add_def split: option.split)

lemma entry_layers:
  "db_entry db k = (case map_of (mt_map (db_memtable db)) k of Some e \<Rightarrow> Some e
     | None \<Rightarrow> layers (map (file_records (db_dir db)) (table_order (db_manifest db))) k)"
  by (simp add: db_entry_def db_layers_def map_add_def split: option.split)

lemma tables_small:
  assumes "db_fits B db" and "i \<in> set (table_order (db_manifest db))"
  shows "small B (file_records (db_dir db) i)"
  using assms by (auto simp: db_fits_def db_layers_def)

lemma find_segment_at:
  assumes "segments_ok segs" and "s \<in> set segs" and "sm_min_key s \<le> k \<and> k \<le> sm_max_key s"
  shows "\<exists>j. find_segment segs k = Some j \<and> segs ! j = s"
proof -
  obtain i where i: "i < length segs" "segs ! i = s" using assms(2) by (auto simp: in_set_conv_nth)
  show ?thesis
  proof (cases "find_segment segs k")
    case None
    then show ?thesis using find_segment_spec[OF assms(1), of k] assms(2,3) by auto
  next
    case (Some j)
    then have "i = j" using find_segment_spec[OF assms(1), of k] assms(3) i by auto
    then show ?thesis using Some i by blast
  qed
qed

lemma compacted_fits:
  assumes "db_fits B db" and "small B recs"
    and "layers (map (file_records (db_dir db')) (table_order (db_manifest db'))) =
      map_of recs ++ layers (map (file_records (db_dir db)) ids)"
    and "set ids \<subseteq> set (table_order (db_manifest db))" and "db_inv db'"
    and "level0 (db_manifest db') = []" and "db_opts db' = db_opts db" and "db_memtable db' = db_memtable db"
  shows "db_fits B db'"
proof -
  let ?fr = "file_records (db_dir db')" and ?order = "table_order (db_manifest db')"
  have ti: "tables_inv (db_manifest db') (db_dir db')" using assms(5) by (simp add: db_inv_def)
  have "small B (?fr i)" if i: "i \<in> set ?order" for i
    unfolding small_def
  proof
    fix kv assume kv: "kv \<in> set (?fr i)"
    obtain k e where ke: "kv = (k, e)" by (cases kv)
    have "table_at (db_dir db') i" using order_tables[OF ti i] .
    then have "ssorted (map fst (?fr i))" by (simp add: table_at_def table_ok_def)
    then have e: "map_of (?fr i) k = Some e" using kv ke sorted_keys_distinct by fastforce
    obtain s where s: "s \<in> set (mf_segments (db_manifest db'))" "sm_file_id s = i"
      using i assms(6) by (auto simp: table_order_def)
    then have "sm_min_key s \<le> k \<and> k \<le> sm_max_key s"
      using segment_bounds[of "db_dir db'" s k] order_tables[OF ti i] ti e by (simp add: tables_inv_def)
    moreover have "segments_ok (mf_segments (db_manifest db'))" using ti by (simp add: tables_inv_def)
    ultimately obtain j where j: "find_segment (mf_segments (db_manifest db')) k = Some j"
        "mf_segments (db_manifest db') ! j = s"
      using find_segment_at s(1) by blast
    then have "layers (map ?fr ?order) k = Some e"
      using layers_segments[OF ti, of k] e s(2) assms(6) by (simp add: table_order_def)
    then have "map_of recs k = Some e \<or> layers (map (file_records (db_dir db)) ids) k = Some e"
      unfolding assms(3) by (auto simp: map_add_Some_iff)
    then show "item_size kv + 21 \<le> B"
    proof
      assume "map_of recs k = Some e"
      then show ?thesis using assms(2) map_of_SomeD ke by (fastforce simp: small_def)
    next
      assume "layers (map (file_records (db_dir db)) ids) k = Some e"
      then obtain j where "j \<in> set ids" "(k, e) \<in> set (file_records (db_dir db) j)" using layers_item by fastforce
      then show ?thesis using tables_small[OF assms(1)] assms(4) ke by (auto simp: small_def)
    qed
  qed
  then show ?thesis using assms(1,7,8) by (auto simp: db_fits_def db_layers_def)
qed

lemma new_tables_compacted:
  assumes fits: "db_fits B db" and sm: "small B recs" and res: "new_tables R recs db db'"
    and R: "set R \<subseteq> set (mf_segments (db_manifest db))"
    and recs: "\<forall>k. map_of recs k = live (L k)"
    and parts: "\<forall>k. layers (map (file_records (db_dir db)) (table_order (db_manifest db))) k =
      (case L k of None \<Rightarrow> layers (map (file_records (db_dir db)) (map sm_file_id R)) k | Some e \<Rightarrow> Some e)"
    and apart: "\<forall>k. L k \<noteq> None \<longrightarrow> layers (map (file_records (db_dir db)) (map sm_file_id R)) k = None"
  shows "compacted B db db'"
proof -
  let ?R = "layers (map (file_records (db_dir db)) (map sm_file_id R))"
  note res' = res[unfolded new_tables_def]
  have mem: "db_memtable db' = db_memtable db" "db_opts db' = db_opts db" using res' by auto
  have "db_value db' k = db_value db k" for k
  proof (cases "L k")
    case None
    then have "layers (map (file_records (db_dir db)) (table_order (db_manifest db))) k = ?R k"
      using parts by simp
    then show ?thesis
      using res' None recs by (simp add: value_layers mem map_add_def live_def split: option.split)
  next
    case (Some e)
    then have "layers (map (file_records (db_dir db)) (table_order (db_manifest db))) k = Some e" "?R k = None"
      using parts apart by auto
    then show ?thesis
      using res' Some recs by (simp add: value_layers mem map_add_def split: option.split)
  qed
  then have "db_value db' = db_value db" by (rule ext)
  moreover have "db_entry db' k = None" if "db_entry db k = None" for k
  proof -
    have none: "map_of (mt_map (db_memtable db)) k = None"
        "layers (map (file_records (db_dir db)) (table_order (db_manifest db))) k = None"
      using that by (auto simp: entry_layers split: option.splits)
    then have "L k = None" "?R k = None" using parts by (auto split: option.splits)
    moreover from this have "map_of recs k = None" using recs by (simp add: live_def)
    ultimately show ?thesis using res' none(1) by (simp add: entry_layers mem map_add_def)
  qed
  moreover have "set (map sm_file_id R) \<subseteq> set (table_order (db_manifest db))" using R by (auto simp: table_order_def)
  then have "db_fits B db'"
    by (rule compacted_fits[OF fits sm conjunct1[OF conjunct2[OF conjunct2[OF res']]]])
      (use res' mem in simp_all)
  ultimately show ?thesis using res' unfolding compacted_def by blast
qed

lemma compact_correct:
  assumes inv: "db_inv db" and fits: "db_fits B db" and l0: "level0 (db_manifest db) \<noteq> []"
    and thr: "l0_compact_threshold (db_opts db) \<le> length (level0 (db_manifest db))"
  shows "\<exists>db'. compact db = (Inr (), db') \<and> compacted B db db'"
proof -
  let ?m = "db_manifest db" and ?d = "db_dir db"
  let ?fr = "file_records ?d" and ?segs = "mf_segments ?m" and ?l0 = "level0 ?m"
  have ti: "tables_inv ?m ?d" using inv by (simp add: db_inv_def)
  have at: "table_at ?d i" if "i \<in> set (table_order ?m)" for i using order_tables[OF ti that] .
  obtain a b where ab: "table_bounds ?l0 db = Inr (Some (a, b))"
      "\<forall>i \<in> set ?l0. \<forall>k. map_of (?fr i) k \<noteq> None \<longrightarrow> a \<le> k \<and> k \<le> b"
    using table_bounds_correct[OF _ l0] at order_parts(1) by blast
  let ?O = "map sm_file_id (filter (overlaps a b) ?segs)"
  define R where "R = filter (\<lambda>s. \<not> overlaps a b s) ?segs"
  let ?L = "layers (map ?fr (rev ?l0 @ ?O))"
  have in_order: "set (rev ?l0 @ ?O) \<subseteq> set (table_order ?m)" by (auto simp: table_order_def)
  obtain recs where recs: "merge_ids (rev ?l0 @ ?O) True db = Inr recs" "ssorted (map fst recs)"
      "\<forall>k. map_of recs k = live (?L k)"
    using merge_ids_correct[of "rev ?l0 @ ?O" db] at in_order by blast
  have sm: "small B recs"
  proof (rule small_merged[OF recs(2)])
    show "map_of recs k = live (?L k)" for k using recs(3) by blast
    show "\<forall>v \<in> set (map ?fr (rev ?l0 @ ?O)). small B v"
      using tables_small[OF fits] in_order unfolding set_map by blast
  qed
  have out: "(\<forall>k. ?L k \<noteq> None \<longrightarrow> sm_max_key s < k) \<or> (\<forall>k. ?L k \<noteq> None \<longrightarrow> k < sm_min_key s)" if "s \<in> set R" for s
    using outside_batch[OF ti ab(2) _ _ refl, of s] that by (simp add: R_def)
  have key: "?L (fst kv) \<noteq> None" if "kv \<in> set recs" for kv
  proof -
    have "map_of recs (fst kv) \<noteq> None" using that by (simp add: map_of_eq_None_iff)
    then show ?thesis using recs(3) by (auto simp: live_def split: option.splits)
  qed
  have side: "\<forall>s \<in> set R. (\<forall>kv \<in> set recs. sm_max_key s < fst kv) \<or> (\<forall>kv \<in> set recs. fst kv < sm_min_key s)"
    using out key by blast
  have n: "0 < segment_max_records (db_opts db)" "segment_max_records (db_opts db) * B < 2 ^ 32"
    using fits by (simp_all add: db_fits_def)
  have dis: "distinct (all_ids ?m)" "set (all_ids ?m) = set (table_order ?m)"
    using ti all_ids_order[OF ti] by (simp_all add: tables_inv_def)
  have ids: "all_ids ?m = ?l0 @ map sm_file_id ?segs"
    using ti by (intro all_ids_levels) (simp_all add: tables_inv_def)
  have doomed: "set (?l0 @ ?O) \<subseteq> set (all_ids ?m)" "set (?l0 @ ?O) \<inter> sm_file_id ` set R = {}"
  proof -
    show "set (?l0 @ ?O) \<subseteq> set (all_ids ?m)" using ids by auto
    have "inj_on sm_file_id (set ?segs)" using dis(1) ids by (simp add: distinct_map)
    then show "set (?l0 @ ?O) \<inter> sm_file_id ` set R = {}"
      using dis(1) ids by (auto simp: R_def dest: inj_onD)
  qed
  obtain new db1 where w: "write_segments recs db = (Inr new, db1)"
    and res: "new_tables R recs db (remove_tables (?l0 @ ?O) (commit_segments (sort_key sm_min_key (R @ new)) db1))"
    using replace_segments[OF inv R_def recs(2) sm n side doomed] by blast
  define db' where "db' = remove_tables (?l0 @ ?O) (commit_segments (sort_key sm_min_key (R @ new)) db1)"
  have c: "compact db = (Inr (), db')"
    using thr ab(1) recs(1) w by (simp add: compact_def Let_def bindS_def R_def[symmetric] db'_def)
  have apart_R: "layers (map ?fr (map sm_file_id R)) k = None" if "?L k \<noteq> None" for k
  proof (rule ccontr)
    assume "layers (map ?fr (map sm_file_id R)) k \<noteq> None"
    then obtain s where s: "s \<in> set R" "map_of (?fr (sm_file_id s)) k \<noteq> None" by (auto simp: layers_None)
    then have "s \<in> set ?segs" by (simp add: R_def)
    then have "sm_min_key s \<le> k \<and> k \<le> sm_max_key s"
      using segment_bounds[OF _ _ s(2)] at order_parts(2) ti by (auto simp: tables_inv_def)
    then show False using out[OF s(1)] that by (meson not_less)
  qed
  have segs_eq: "layers (map ?fr (map sm_file_id ?segs)) = layers (map ?fr ?O) ++ layers (map ?fr (map sm_file_id R))"
  proof -
    let ?f = "\<lambda>s. ?fr (sm_file_id s)"
    have ok: "segments_ok ?segs" using ti by (simp add: tables_inv_def)
    have "apart (?f s) (?f t)" if st: "s \<in> set ?segs" "t \<in> set ?segs" "disjoint_segments s t" for s t
      unfolding apart_def
    proof (intro allI, rule ccontr)
      fix k assume "\<not> (map_of (?f s) k = None \<or> map_of (?f t) k = None)"
      then have "sm_min_key s \<le> k" "k \<le> sm_max_key s" "sm_min_key t \<le> k" "k \<le> sm_max_key t"
        using segment_bounds[of ?d s k] segment_bounds[of ?d t k] st at order_parts(2) ti by (auto simp: tables_inv_def)
      then show False using st(3) by (auto simp: disjoint_segments_def dest: le_less_trans less_le_trans)
    qed
    then have "sorted_wrt (\<lambda>s t. apart (?f s) (?f t)) ?segs"
      by (rule sorted_wrt_mono_rel[OF _ segments_ok_disjoint[OF ok]])
    from layers_partition[OF this, of "overlaps a b"] show ?thesis by (simp add: R_def comp_def)
  qed
  have parts: "\<forall>k. layers (map ?fr (table_order ?m)) k =
      (case ?L k of None \<Rightarrow> layers (map ?fr (map sm_file_id R)) k | Some e \<Rightarrow> Some e)"
    using segs_eq apart_R by (auto simp: table_order_def layers_append map_add_def split: option.split)
  have "compacted B db db'"
    by (rule new_tables_compacted[OF fits sm res[folded db'_def] _ recs(3) parts])
      (use apart_R in \<open>auto simp: R_def\<close>)
  then show ?thesis using c by blast
qed

end
