(* ===== verification/Writes.thy ===== *)
theory Writes
  imports Compaction
begin

text \<open>
  The writing operations: put and delete, the flush with the compaction it starts, and the full
  compaction. Each leaves the database in its invariant, with the values the operation asks for.
\<close>

section \<open>Flush\<close>

text \<open>What an operation keeps that reorganises the tables: everything a reader or a recovery can see.\<close>

definition saved :: "database \<Rightarrow> bool" where
  "saved db \<longleftrightarrow> map_of (db_dir db) MANIFEST_FILE = Some (manifest_text (db_manifest db)) \<or>
     map_of (db_dir db) MANIFEST_FILE = None \<and> db_manifest db = manifest_new\<lparr>mf_levels := [[]]\<rparr>"

definition reorganised :: "nat \<Rightarrow> database \<Rightarrow> database \<Rightarrow> bool" where
  "reorganised B db db' \<longleftrightarrow> db_inv db' \<and> db_fits B db' \<and> db_value db' = db_value db \<and>
     (\<forall>k. db_entry db k = None \<longrightarrow> db_entry db' k = None) \<and> (saved db \<longrightarrow> saved db') \<and>
     length (mf_levels (db_manifest db')) = length (mf_levels (db_manifest db)) \<and>
     other_files (db_dir db) (db_dir db') \<and>
     (fs_exists MANIFEST_FILE (db_dir db) \<longrightarrow> fs_exists MANIFEST_FILE (db_dir db')) \<and>
     (db_wal db' = db_wal db \<and> db_memtable db' = db_memtable db \<or>
      wal_log (db_wal db') = [] \<and> db_memtable db' = memtable_new) \<and>
     db_opts db' = db_opts db \<and> db_closed db' = db_closed db \<and> db_next_tx_id db' = db_next_tx_id db \<and>
     db_format_version db' = db_format_version db"

lemma reorganised_refl: "db_inv db \<Longrightarrow> db_fits B db \<Longrightarrow> reorganised B db db"
  by (simp add: reorganised_def)

lemma reorganised_trans: "reorganised B a b \<Longrightarrow> reorganised B b c \<Longrightarrow> reorganised B a c"
  unfolding reorganised_def using other_files_trans[of "db_dir a" "db_dir b" "db_dir c"] by auto

lemma compacted_reorganised: "compacted B db db' \<Longrightarrow> reorganised B db db'"
  by (auto simp: compacted_def reorganised_def saved_def fs_exists_def)

lemma map_of_add_table:
  "map_of (manifest_save m (fs_write (table_path i) c d)) (table_path j) =
     (if j = i then Some c else map_of d (table_path j))"
  by (simp add: map_of_manifest_save)

text \<open>The state after the three durable steps, before the compaction.\<close>

definition flushed :: "database \<Rightarrow> database" where
  "flushed db = flush_clear (flush_commit (mf_next_table_id (db_manifest db)) (flush_build db))"

lemma flushed_simps:
  "db_memtable (flushed db) = memtable_new"
  "db_wal (flushed db) = wal_truncate (db_wal db)"
  "db_manifest (flushed db) = set_level0 (level0 (db_manifest db) @ [mf_next_table_id (db_manifest db)])
     ((db_manifest db)\<lparr>mf_next_table_id := mf_next_table_id (db_manifest db) + 1\<rparr>)"
  "db_dir (flushed db) = manifest_save (db_manifest (flushed db))
     (fs_write (table_path (mf_next_table_id (db_manifest db))) (table_file (mt_map (db_memtable db))) (db_dir db))"
  "db_cache (flushed db) = Map.empty" "db_opts (flushed db) = db_opts db" "db_closed (flushed db) = db_closed db"
  "db_next_tx_id (flushed db) = db_next_tx_id db" "db_format_version (flushed db) = db_format_version db"
proof -
  have l: "level0 (m\<lparr>mf_next_table_id := n\<rparr>) = level0 m" for m n by (simp add: level0_def)
  show "db_memtable (flushed db) = memtable_new" "db_wal (flushed db) = wal_truncate (db_wal db)"
    "db_manifest (flushed db) = set_level0 (level0 (db_manifest db) @ [mf_next_table_id (db_manifest db)])
     ((db_manifest db)\<lparr>mf_next_table_id := mf_next_table_id (db_manifest db) + 1\<rparr>)"
    "db_dir (flushed db) = manifest_save (db_manifest (flushed db))
     (fs_write (table_path (mf_next_table_id (db_manifest db))) (table_file (mt_map (db_memtable db))) (db_dir db))"
    "db_cache (flushed db) = Map.empty" "db_opts (flushed db) = db_opts db" "db_closed (flushed db) = db_closed db"
    "db_next_tx_id (flushed db) = db_next_tx_id db" "db_format_version (flushed db) = db_format_version db"
    by (simp_all add: flushed_def flush_clear_def flush_commit_def flush_build_def write_table_def Let_def
        table_file_def mt_iter_def l)
qed

lemma flush_flushed:
  "flush db = (if mt_is_empty (db_memtable db) then (Inr (), db)
     else if l0_compact_threshold (db_opts (flushed db)) \<le> length (level0 (db_manifest (flushed db)))
       then compact (flushed db) else (Inr (), flushed db))"
  by (simp add: flush_def flushed_def Let_def)

lemma level0_next [simp]: "level0 (m\<lparr>mf_next_table_id := n\<rparr>) = level0 m"
  by (simp add: level0_def)

lemma flushed_correct:
  assumes inv: "db_inv db" and fits: "db_fits B db" and ne: "\<not> mt_is_empty (db_memtable db)"
    and size: "table_size (mt_map (db_memtable db)) < 2 ^ 32"
  shows "reorganised B db (flushed db)" and "db_layers (flushed db) = [] # db_layers db"
proof -
  let ?m = "db_manifest db" and ?d = "db_dir db" and ?mem = "mt_map (db_memtable db)"
  let ?n = "mf_next_table_id ?m" and ?m' = "db_manifest (flushed db)" and ?d' = "db_dir (flushed db)"
  have ti: "tables_inv ?m ?d" and mt: "mt_inv (db_memtable db)" using inv by (simp_all add: db_inv_def)
  have ok: "table_ok ?mem" using mt size by (simp add: table_ok_def mt_inv_def)
  have below: "i < ?n" if "i \<in> set (all_ids ?m)" for i using ti that by (simp add: tables_inv_def)
  have path_at: "map_of ?d' (table_path j) = (if j = ?n then Some (table_file ?mem) else map_of ?d (table_path j))" for j
    unfolding flushed_simps(4) by (rule map_of_add_table)
  have new: "table_at ?d' ?n" "file_records ?d' ?n = ?mem"
    using table_at_written[of ?d' ?n ?mem] path_at[of ?n] ok ne by (simp_all add: mt_is_empty_def)
  have old: "table_at ?d' i = table_at ?d i" "file_records ?d' i = file_records ?d i" if "i \<in> set (all_ids ?m)" for i
    using below[OF that] path_at[of i] table_at_cong[of ?d' i ?d] file_records_cong[of ?d' i ?d] by simp_all
  have ul: "upper_empty ?m'"
    unfolding flushed_simps(3) using ti by (intro set_level0_simps(5)) (simp add: tables_inv_def upper_empty_def)
  have segs: "mf_segments ?m' = mf_segments ?m" by (simp add: flushed_simps)
  have ids: "all_ids ?m' = level0 ?m @ [?n] @ map sm_file_id (mf_segments ?m)"
    using all_ids_levels[OF _ ul] by (simp add: flushed_simps)
  have ids0: "all_ids ?m = level0 ?m @ map sm_file_id (mf_segments ?m)"
    using ti by (intro all_ids_levels) (simp_all add: tables_inv_def)
  have "?n \<notin> set (all_ids ?m)" using below by blast
  then have "distinct (all_ids ?m')" using ti ids ids0 by (auto simp: tables_inv_def)
  moreover have "table_at ?d' i \<and> i < mf_next_table_id ?m'" if i: "i \<in> set (all_ids ?m')" for i
  proof (cases "i = ?n")
    case True
    then show ?thesis using new by (simp add: flushed_simps(3))
  next
    case False
    then have "i \<in> set (all_ids ?m)" using i ids ids0 by auto
    then show ?thesis using old ti below by (simp add: tables_inv_def flushed_simps(3) less_SucI)
  qed
  moreover have "segment_at ?d' s" if s: "s \<in> set (mf_segments ?m)" for s
    using ti s old(2)[of "sm_file_id s"] by (simp add: tables_inv_def segment_at_def ids0)
  ultimately have "tables_inv ?m' ?d'"
    using ti ul segs by (simp add: tables_inv_def) (simp add: flushed_simps(3))
  then have inv': "db_inv (flushed db)"
    by (simp add: db_inv_def cache_inv_def flushed_simps(1,5))
  have order: "table_order ?m' = ?n # table_order ?m" by (simp add: table_order_def flushed_simps)
  have "map (file_records ?d') (table_order ?m) = map (file_records ?d) (table_order ?m)"
    using old(2) all_ids_order[OF ti] by simp
  then show lay: "db_layers (flushed db) = [] # db_layers db"
    by (simp add: db_layers_def order new flushed_simps(1)) (simp add: memtable_new_def)
  have "db_value (flushed db) = db_value db" by (simp add: fun_eq_iff db_value_def db_entry_def lay)
  moreover have "db_fits B (flushed db)" using fits by (simp add: db_fits_def lay flushed_simps small_def)
  moreover have "saved (flushed db)"
    unfolding saved_def flushed_simps(4)[of db] by (simp add: map_of_manifest_save)
  moreover have "fs_exists MANIFEST_FILE ?d'" by (simp add: fs_exists_def flushed_simps(4) map_of_manifest_save)
  moreover have "other_files ?d ?d'"
    by (simp add: other_files_def flushed_simps(4) map_of_manifest_save)
  moreover have "length (mf_levels ?m') = length (mf_levels ?m)"
    using ti by (simp add: flushed_simps(3) tables_inv_def set_level0_def split: list.split)
  moreover have "db_entry (flushed db) = db_entry db" by (simp add: fun_eq_iff db_entry_def lay)
  ultimately show "reorganised B db (flushed db)" using inv' by (simp add: reorganised_def flushed_simps)
qed

lemma flush_correct:
  assumes "db_inv db" and "db_fits B db" and "table_size (mt_map (db_memtable db)) < 2 ^ 32"
  shows "\<exists>db'. flush db = (Inr (), db') \<and> reorganised B db db' \<and> mt_map (db_memtable db') = []"
proof (cases "mt_is_empty (db_memtable db)")
  case True
  then show ?thesis using assms reorganised_refl by (simp add: flush_def mt_is_empty_def)
next
  case False
  note f = flushed_correct(1)[OF assms(1,2) False assms(3)]
  show ?thesis
  proof (cases "l0_compact_threshold (db_opts (flushed db)) \<le> length (level0 (db_manifest (flushed db)))")
    case True
    have "level0 (db_manifest (flushed db)) \<noteq> []" by (simp add: flushed_simps)
    then obtain db' where c: "compact (flushed db) = (Inr (), db')" "compacted B (flushed db) db'"
      using compact_correct[of "flushed db" B] f True by (auto simp: reorganised_def)
    then have "db_memtable db' = memtable_new" by (auto simp: compacted_def flushed_simps)
    then show ?thesis
      using c False True reorganised_trans[OF f compacted_reorganised[OF c(2)]]
      by (simp add: flush_flushed memtable_new_def)
  next
    case False
    then show ?thesis using f \<open>\<not> mt_is_empty (db_memtable db)\<close>
      by (simp add: flush_flushed flushed_simps(1) memtable_new_def)
  qed
qed

section \<open>Full compaction\<close>

lemma compact_all_correct:
  assumes inv: "db_inv db" and fits: "db_fits B db"
  shows "\<exists>db'. compact_all db = (Inr (length (mf_segments (db_manifest db'))), db') \<and> compacted B db db'"
proof -
  let ?m = "db_manifest db" and ?ids = "table_order (db_manifest db)"
  let ?fr = "file_records (db_dir db)"
  have ti: "tables_inv ?m (db_dir db)" using inv by (simp add: db_inv_def)
  have order: "rev (level0 ?m) @ map sm_file_id (mf_segments ?m) = ?ids" by (simp add: table_order_def)
  obtain recs where recs: "merge_ids ?ids True db = Inr recs" "ssorted (map fst recs)"
      "\<forall>k. map_of recs k = live (layers (map ?fr ?ids) k)"
    using merge_ids_correct[of ?ids db] order_tables[OF ti] by blast
  have sm: "small B recs"
    by (rule small_merged[OF recs(2)]) (use recs(3) tables_small[OF fits] in auto)
  have n: "0 < segment_max_records (db_opts db)" "segment_max_records (db_opts db) * B < 2 ^ 32"
    using fits by (simp_all add: db_fits_def)
  have doomed: "set (level0 ?m @ map sm_file_id (mf_segments ?m)) \<subseteq> set (all_ids ?m)"
    using all_ids_order[OF ti] by (simp add: table_order_def)
  obtain new db1 where w: "write_segments recs db = (Inr new, db1)"
    and res: "new_tables [] recs db (remove_tables (level0 ?m @ map sm_file_id (mf_segments ?m))
       (commit_segments (sort_key sm_min_key ([] @ new)) db1))"
    using replace_segments[of db "[]" "\<lambda>_. False" recs B, OF inv _ recs(2) sm n _ doomed] by auto
  define db' where "db' = remove_tables (level0 ?m @ map sm_file_id (mf_segments ?m))
       (commit_segments (sort_key sm_min_key ([] @ new)) db1)"
  have "compact_all db = (Inr (length (mf_segments (db_manifest db'))), db')"
    using recs(1) w by (simp add: compact_all_def Let_def bindS_def order db'_def)
  moreover have "compacted B db db'"
    by (rule new_tables_compacted[OF fits sm res[folded db'_def] _ recs(3)]) (auto split: option.split)
  ultimately show ?thesis by blast
qed

lemma compact_full_correct:
  assumes "db_inv db" and "db_fits B db" and "table_size (mt_map (db_memtable db)) < 2 ^ 32"
  shows "\<exists>db'. compact_full db = (Inr (length (mf_segments (db_manifest db'))), db') \<and> reorganised B db db' \<and>
     mt_map (db_memtable db') = [] \<and> level0 (db_manifest db') = []"
proof -
  obtain db1 where f: "flush db = (Inr (), db1)" "reorganised B db db1" "mt_map (db_memtable db1) = []"
    using flush_correct[OF assms] by blast
  then obtain db' where c: "compact_all db1 = (Inr (length (mf_segments (db_manifest db'))), db')" "compacted B db1 db'"
    using compact_all_correct[of db1 B] by (auto simp: reorganised_def)
  then have "mt_map (db_memtable db') = []" "level0 (db_manifest db') = []"
    using f(3) by (auto simp: compacted_def)
  then show ?thesis
    using f c reorganised_trans[OF f(2) compacted_reorganised[OF c(2)]]
    by (simp add: compact_full_def bindS_def)
qed

section \<open>Put and delete\<close>

lemma db_value_mem_put:
  assumes "mt_inv (db_memtable db)"
  shows "db_value (db\<lparr>db_wal := w, db_memtable := mt_put key v (db_memtable db)\<rparr>) = (db_value db)(key := v)"
  using assms by (auto simp: fun_eq_iff db_value_def db_entry_def db_layers_def mt_put_def mt_inv_def map_add_def
      split: option.split)

lemma db_inv_mem_put:
  assumes "db_inv db"
  shows "db_inv (db\<lparr>db_wal := w, db_memtable := mt_put key v (db_memtable db)\<rparr>)"
  using assms by (simp add: db_inv_def)

lemma set_bt_insert: "set (bt_insert k v m) \<subseteq> insert (k, v) (set m)"
  by (induction k v m rule: bt_insert.induct) auto

lemma db_fits_mem_put:
  assumes "db_fits B db" and "item_size (key, v) + 21 \<le> B"
  shows "db_fits B (db\<lparr>db_wal := w, db_memtable := mt_put key v (db_memtable db)\<rparr>)"
proof -
  have "small B (mt_map (mt_put key v (db_memtable db)))"
    using assms set_bt_insert[of key v "mt_map (db_memtable db)"]
    by (auto simp: db_fits_def db_layers_def small_def mt_put_def Let_def)
  then show ?thesis using assms(1) by (simp add: db_fits_def db_layers_def)
qed

lemma flush_if_over_limit_correct:
  assumes "db_inv db" and "db_fits B db" and "table_size (mt_map (db_memtable db)) < 2 ^ 32"
  shows "\<exists>db'. flush_if_over_limit db = (Inr (), db') \<and> reorganised B db db'"
proof (cases "memtable_limit (db_opts db) \<le> mt_size_bytes (db_memtable db)")
  case True
  then show ?thesis using flush_correct[OF assms] by (auto simp: flush_if_over_limit_def)
next
  case False
  then show ?thesis using assms reorganised_refl by (simp add: flush_if_over_limit_def)
qed

text \<open>The state between the write and the flush it may start.\<close>

definition written :: "(bytes \<Rightarrow> 32 word) \<Rightarrow> bytes \<Rightarrow> entry \<Rightarrow> database \<Rightarrow> database" where
  "written crc key v db = db\<lparr>db_wal := wal_append crc key v (db_wal db), db_memtable := mt_put key v (db_memtable db)\<rparr>"

definition put_room :: "nat \<Rightarrow> bytes \<Rightarrow> entry \<Rightarrow> database \<Rightarrow> bool" where
  "put_room B key v db \<longleftrightarrow> item_size (key, v) + 21 \<le> B \<and>
     table_size (mt_map (mt_put key v (db_memtable db))) < 2 ^ 32"

lemma put_internal_correct:
  assumes "db_inv db" and "db_fits B db" and "put_room B key v db"
  shows "\<exists>db'. put_internal crc key v db = (Inr (), db') \<and> reorganised B (written crc key v db) db' \<and>
     db_value db' = (db_value db)(key := v)"
proof -
  let ?db = "written crc key v db"
  have "mt_inv (db_memtable db)" using assms(1) by (simp add: db_inv_def)
  note v = db_value_mem_put[OF this, where w = "wal_append crc key v (db_wal db)" and key = key and v = v]
  obtain db' where "flush_if_over_limit ?db = (Inr (), db')" "reorganised B ?db db'"
    using flush_if_over_limit_correct[of ?db B] db_inv_mem_put[OF assms(1)] db_fits_mem_put[OF assms(2)] assms(3)
    by (auto simp: put_room_def written_def)
  then show ?thesis using v by (auto simp: put_internal_def reorganised_def written_def)
qed

end
