(* ===== verification/Opening.thy ===== *)
theory Opening
  imports Writes
begin

text \<open>
  Opening a directory that a database left behind: the manifest is read, its tables are found valid, and
  the log is replayed over them. With it, what a crash at any moment preserves.
\<close>

section \<open>The log of a running database\<close>

definition effects :: "log_rec list \<Rightarrow> item list" where
  "effects rs = map (\<lambda>r. (rec_key r, rec_value r)) (records (recovered rs))"

text \<open>The entries that the log holds: the last effect of a key.\<close>

definition log_entries :: "log_rec list \<Rightarrow> bytes \<Rightarrow> entry option" where
  "log_entries rs = map_of (rev (effects rs))"

text \<open>The log holds exactly the entries of memory.\<close>

definition logged :: "(bytes \<Rightarrow> 32 word) \<Rightarrow> log_rec list \<Rightarrow> database \<Rightarrow> bool" where
  "logged crc rs db \<longleftrightarrow> (\<forall>r \<in> set rs. rec_ok r) \<and> wal_log (db_wal db) = log_bytes crc rs \<and>
     mt_get (db_memtable db) = log_entries rs"

lemma fold_mt_put:
  assumes "mt_inv m"
  shows "mt_inv (fold (\<lambda>r. mt_put (rec_key r) (rec_value r)) rs m)"
    and "mt_get (fold (\<lambda>r. mt_put (rec_key r) (rec_value r)) rs m) =
      mt_get m ++ map_of (rev (map (\<lambda>r. (rec_key r, rec_value r)) rs))"
  using assms by (induction rs arbitrary: m) simp_all

lemma replay_into_log:
  assumes "db_memtable db = memtable_new"
  shows "mt_inv (db_memtable (replay_into (recovered rs) db))"
    and "mt_get (db_memtable (replay_into (recovered rs) db)) = log_entries rs"
  using assms by (simp_all add: replay_into_def fold_mt_put log_entries_def effects_def)

lemma log_entries_Nil [simp]: "log_entries [] = Map.empty"
  by (simp add: log_entries_def effects_def recovered_def)

lemma records_snoc:
  assumes "\<And>tx. r \<noteq> LCommit tx"
  shows "records (recovered (rs @ [r])) = records (recovered rs) @ log_effect rs r"
proof -
  have c: "LCommit tx \<in> set (rs @ [r]) \<longleftrightarrow> LCommit tx \<in> set rs" for tx using assms[of tx] by auto
  have "concat (map (log_effect (rs @ [r])) rs) = concat (map (log_effect rs) rs)"
    by (rule effects_cong) (rule c)
  moreover have "log_effect (rs @ [r]) r = log_effect rs r"
    by (rule log_effect_cong) (rule c)
  ultimately show ?thesis by (simp add: recovered_def)
qed

lemma log_entries_snoc [simp]:
  "log_entries (rs @ [LPut k v]) = (log_entries rs)(k \<mapsto> Some v)"
  "log_entries (rs @ [LDelete k]) = (log_entries rs)(k \<mapsto> None)"
  by (simp_all add: log_entries_def effects_def records_snoc fun_eq_iff)

lemma log_entries_block:
  assumes "tx \<notin> set (List.map_filter rec_tx rs)"
  shows "log_entries (rs @ tx_block tx muts) = log_entries rs ++ map_of (rev muts)"
proof -
  have "map (\<lambda>r. (rec_key r, rec_value r)) (map (\<lambda>(k, v). \<lparr>rec_key = k, rec_value = v\<rparr>) muts) = muts"
    by (induction muts) auto
  then show ?thesis by (simp add: log_entries_def effects_def recovered_full_block[OF assms])
qed

section \<open>The files are valid\<close>

definition manifest_fits :: "manifest \<Rightarrow> bool" where
  "manifest_fits m \<longleftrightarrow> mf_next_table_id m < 2 ^ 64 \<and> length (mf_levels m) < 2 ^ 64"

definition version_readable :: "dir \<Rightarrow> bool" where
  "version_readable d \<longleftrightarrow> (\<exists>v. read_version d = Inr (Some v) \<and> check_compatible v = Inr ()) \<or>
     (read_version d = Inr None \<and> fs_exists MANIFEST_FILE d)"

text \<open>
  What the files must satisfy to be opened again: besides the invariant, that the manifest on disk is the
  one in memory, that no table holds the empty key, and that the version file is one this program reads.
\<close>

definition openable :: "database \<Rightarrow> bool" where
  "openable db \<longleftrightarrow> tables_inv (db_manifest db) (db_dir db) \<and> saved db \<and> manifest_fits (db_manifest db) \<and>
     layers (map (file_records (db_dir db)) (table_order (db_manifest db))) [] = None \<and>
     version_readable (db_dir db)"

lemma first_key_in: "rs \<noteq> [] \<Longrightarrow> map_of rs (fst (hd rs)) \<noteq> None \<and> map_of rs (fst (last rs)) \<noteq> None"
  by (simp add: map_of_eq_None_iff)

lemma length_table_size: "length rs \<le> table_size rs"
  by (induction rs) (simp_all add: table_size_def)

lemma manifest_ok_tables:
  assumes ti: "tables_inv m d" and fits: "manifest_fits m"
    and no: "layers (map (file_records d) (table_order m)) [] = None"
  shows "manifest_ok m"
proof -
  have id: "i < 2 ^ 64" if "i \<in> set (all_ids m)" for i
    using ti fits that by (auto simp: tables_inv_def manifest_fits_def)
  have "segment_ok s" if s: "s \<in> set (mf_segments m)" for s
  proof -
    have o: "sm_file_id s \<in> set (table_order m)" using s by (rule order_parts)
    have at: "table_at d (sm_file_id s)" and sg: "segment_at d s"
      using order_tables[OF ti o] ti s by (simp_all add: tables_inv_def)
    let ?rs = "file_records d (sm_file_id s)"
    have none: "map_of ?rs [] = None" using no o by (simp add: layers_None)
    have "?rs \<noteq> []" using at by (simp add: table_at_def)
    then have "sm_min_key s \<noteq> [] \<and> sm_max_key s \<noteq> []"
      using first_key_in[of ?rs] sg none unfolding segment_at_def by auto
    moreover have "sm_records s < 2 ^ 64"
      using sg at length_table_size[of ?rs] by (simp add: segment_at_def table_at_def table_ok_def)
    moreover have "sm_file_id s < 2 ^ 64" using id s by (simp add: all_ids_def)
    ultimately show ?thesis by (simp add: segment_ok_def)
  qed
  then show ?thesis
    using ti fits id by (auto simp: manifest_ok_def tables_inv_def manifest_fits_def all_ids_def)
qed

lemma check_levels_ok: "\<forall>i \<in> set ids. table_at d i \<Longrightarrow> check_levels ids d = Inr ()"
  by (induction ids) (auto simp: fs_exists_def table_at_def)

lemma check_segments_ok:
  "\<forall>s \<in> set ss. table_at (db_dir db) (sm_file_id s) \<and> segment_at (db_dir db) s \<Longrightarrow> check_segments ss db = Inr ()"
proof (induction ss)
  case (Cons s ss)
  then have at: "table_at (db_dir db) (sm_file_id s)" and sg: "segment_at (db_dir db) s" by simp_all
  have ex: "fs_exists (table_path (sm_file_id s)) (db_dir db)" using at by (simp add: table_at_def fs_exists_def)
  show ?case
    using Cons sg ex key_bounds_at[OF at] by (auto simp: segment_at_def)
qed simp

lemma validate_open_state_ok:
  assumes "tables_inv (db_manifest db) (db_dir db)"
  shows "validate_open_state db = Inr ()" and "convert_legacy_l1 db = Inr db"
proof -
  have "check_levels (concat (mf_levels (db_manifest db))) (db_dir db) = Inr ()"
    using assms by (intro check_levels_ok) (simp add: tables_inv_def all_ids_def)
  moreover have "check_segments (mf_segments (db_manifest db)) db = Inr ()"
    using assms by (intro check_segments_ok) (simp add: tables_inv_def all_ids_def)
  ultimately show "validate_open_state db = Inr ()" by (simp add: validate_open_state_def)
  have "upper_empty (db_manifest db)" using assms by (simp add: tables_inv_def)
  then show "convert_legacy_l1 db = Inr db"
    by (auto simp: convert_legacy_l1_def upper_empty_def drop_Suc split: list.split)
qed

section \<open>Opening\<close>

text \<open>A manifest read back differs only in empty levels.\<close>

definition same_tables :: "manifest \<Rightarrow> manifest \<Rightarrow> bool" where
  "same_tables m m' \<longleftrightarrow> level0 m' = level0 m \<and> mf_segments m' = mf_segments m \<and>
     mf_next_table_id m' = mf_next_table_id m \<and> mf_levels m' \<noteq> [] \<and> (upper_empty m \<longrightarrow> upper_empty m') \<and>
     length (mf_levels m') \<le> length (mf_levels m) \<and> manifest_text m' = manifest_text m"

lemma same_tables_ids:
  assumes "tables_inv m d" and "same_tables m m'"
  shows "all_ids m' = all_ids m"
  using assms all_ids_levels[of m] all_ids_levels[of m'] by (simp add: tables_inv_def same_tables_def)

lemma same_tables_inv:
  assumes "tables_inv m d" and "same_tables m m'"
  shows "tables_inv m' d"
  using assms same_tables_ids[OF assms] by (simp add: tables_inv_def same_tables_def)

lemma same_tables_order: "same_tables m m' \<Longrightarrow> table_order m' = table_order m"
  by (simp add: same_tables_def table_order_def)

definition pad_levels :: "manifest \<Rightarrow> manifest" where
  "pad_levels m = (if mf_levels m = [] then m\<lparr>mf_levels := [[]]\<rparr> else m)"

lemma manifest_text_pad:
  "manifest_text (m\<lparr>mf_levels := ls @ replicate n []\<rparr>) = manifest_text (m\<lparr>mf_levels := ls\<rparr>)"
proof -
  have "level_lines (ls @ replicate n []) = level_lines ls"
  proof (induction n)
    case (Suc n)
    have e: "ls @ replicate (Suc n) [] = (ls @ replicate n []) @ [[]]" by (simp add: replicate_append_same)
    show ?case unfolding e level_lines_snoc using Suc by simp
  qed simp
  then have "manifest_lines (m\<lparr>mf_levels := ls @ replicate n []\<rparr>) = manifest_lines (m\<lparr>mf_levels := ls\<rparr>)"
    by (simp add: manifest_lines_def level_lines_def)
  then show ?thesis by (simp only: manifest_text_def)
qed

lemma pad_trim:
  assumes "mf_levels m \<noteq> []"
  shows "same_tables m (pad_levels (m\<lparr>mf_levels := trim_levels (mf_levels m)\<rparr>))"
proof -
  obtain n where n: "mf_levels m = trim_levels (mf_levels m) @ replicate n []" using trim_levels_pad by blast
  let ?t = "m\<lparr>mf_levels := trim_levels (mf_levels m)\<rparr>"
  have "m = ?t\<lparr>mf_levels := trim_levels (mf_levels m) @ replicate n []\<rparr>"
    unfolding n[symmetric] by simp
  then have t: "manifest_text ?t = manifest_text m" by (metis manifest.surjective manifest.update_convs(1) manifest_text_pad)
  have t1: "manifest_text (?t\<lparr>mf_levels := [[]]\<rparr>) = manifest_text (?t\<lparr>mf_levels := []\<rparr>)"
    using manifest_text_pad[where m = ?t and ls = "[]" and n = 1] by simp
  show ?thesis
  proof (cases "trim_levels (mf_levels m)")
    case Nil
    then obtain k where "mf_levels m = [] # replicate k []" using n assms by (cases n) auto
    then show ?thesis using Nil t t1 by (simp add: pad_levels_def same_tables_def level0_def upper_empty_def)
  next
    case (Cons l ls)
    then have "mf_levels m = l # ls @ replicate n []" using n by simp
    then show ?thesis using Cons t by (simp add: pad_levels_def same_tables_def level0_def upper_empty_def)
  qed
qed

lemma load_openable:
  assumes "openable db" and "map_of d MANIFEST_FILE = map_of (db_dir db) MANIFEST_FILE"
  shows "\<exists>m. manifest_load d = Inr m \<and> same_tables (db_manifest db) (pad_levels m)"
proof -
  have ti: "tables_inv (db_manifest db) (db_dir db)" and s: "saved db"
    using assms(1) by (simp_all add: openable_def)
  have ok: "manifest_ok (db_manifest db)"
    using manifest_ok_tables[OF ti] assms(1) by (simp add: openable_def)
  consider "map_of d MANIFEST_FILE = Some (manifest_text (db_manifest db))"
    | "map_of d MANIFEST_FILE = None" "db_manifest db = manifest_new\<lparr>mf_levels := [[]]\<rparr>"
    using s assms(2) by (auto simp: saved_def)
  then show ?thesis
  proof cases
    case 1
    then show ?thesis using manifest_load_saved[OF 1 ok] pad_trim ti by (auto simp: tables_inv_def)
  next
    case 2
    then show ?thesis
      by (auto simp: manifest_load_def fs_exists_def pad_levels_def same_tables_def level0_def manifest_new_def)
  qed
qed

lemma open_version_ok:
  assumes "version_readable d"
  shows "\<exists>v. open_version d = (Inr v, d)"
  using assms by (auto simp: version_readable_def open_version_def)

lemma version_readable_cong:
  "map_of d' VERSION_FILE = map_of d VERSION_FILE \<Longrightarrow> map_of d' MANIFEST_FILE = map_of d MANIFEST_FILE \<Longrightarrow>
     version_readable d' = version_readable d"
  by (simp add: version_readable_def read_version_def fs_exists_def fs_read_to_string_def fs_read_def)

lemma file_names [simp]:
  "WAL_FILE \<noteq> MANIFEST_FILE" "WAL_FILE \<noteq> VERSION_FILE" "MANIFEST_FILE \<noteq> WAL_FILE" "VERSION_FILE \<noteq> WAL_FILE"
  "VERSION_FILE \<noteq> MANIFEST_FILE" "VERSION_FILE \<noteq> manifest_tmp" "WAL_FILE \<noteq> manifest_tmp"
  "MANIFEST_FILE \<noteq> VERSION_FILE" "SCHEMA_FILE \<noteq> VERSION_FILE" "SCHEMA_FILE \<noteq> MANIFEST_FILE" "SCHEMA_FILE \<noteq> manifest_tmp" "SCHEMA_FILE \<noteq> WAL_FILE" "WAL_FILE \<noteq> SCHEMA_FILE"
  by (simp_all add: WAL_FILE_def MANIFEST_FILE_def VERSION_FILE_def manifest_tmp_def SCHEMA_FILE_def str_def)

text \<open>
  Opening succeeds on any directory with the manifest, the version file and the referenced tables of the
  database; the tables found are those of the database, and memory is what the log of the directory replays to.
\<close>

definition same_store :: "database \<Rightarrow> dir \<Rightarrow> bool" where
  "same_store db d \<longleftrightarrow> map_of d MANIFEST_FILE = map_of (db_dir db) MANIFEST_FILE \<and>
     map_of d VERSION_FILE = map_of (db_dir db) VERSION_FILE \<and>
     (\<forall>i \<in> set (all_ids (db_manifest db)). map_of d (table_path i) = map_of (db_dir db) (table_path i))"

definition reopened :: "database \<Rightarrow> log_rec list \<Rightarrow> database \<Rightarrow> bool" where
  "reopened db rs db' \<longleftrightarrow> db_inv db' \<and> mt_get (db_memtable db') = log_entries rs \<and>
     map (file_records (db_dir db')) (table_order (db_manifest db)) =
       map (file_records (db_dir db)) (table_order (db_manifest db)) \<and>
     same_store db (db_dir db') \<and>
     same_tables (db_manifest db) (db_manifest db') \<and> \<not> db_closed db' \<and>
     db_next_tx_id db' = max_tx_id (recovered rs) + 1"

definition log_file :: "dir \<Rightarrow> bytes" where
  "log_file d = (case map_of d WAL_FILE of None \<Rightarrow> [] | Some f \<Rightarrow> f)"

lemma open_openable:
  assumes op: "openable db" and st: "same_store db d" and log: "replay crc (log_file d) = recovered rs"
  shows "\<exists>db'. fst (open_with crc opts d) = Inr db' \<and> reopened db rs db' \<and>
     db_opts db' = opts \<and> wal_log (db_wal db') = log_file d \<and> db_dir db' = fs_remove WAL_FILE d"
proof -
  have ti: "tables_inv (db_manifest db) (db_dir db)" using op by (simp add: openable_def)
  obtain v where v: "open_version d = (Inr v, d)"
    using open_version_ok[of d] op st version_readable_cong[of d "db_dir db"]
    by (auto simp: openable_def same_store_def)
  obtain m where m: "manifest_load d = Inr m" "same_tables (db_manifest db) (pad_levels m)"
    using load_openable[OF op, of d] st by (auto simp: same_store_def)
  define db0 where "db0 = initial_db opts v m d"
  have d0: "map_of (db_dir db0) (table_path i) = map_of (db_dir db) (table_path i)"
    if "i \<in> set (all_ids (db_manifest db))" for i
    using st that by (simp add: db0_def initial_db_def same_store_def)
  have fr: "file_records (db_dir db0) i = file_records (db_dir db) i"
    and at: "table_at (db_dir db0) i = table_at (db_dir db) i" if "i \<in> set (all_ids (db_manifest db))" for i
    using file_records_cong[OF d0[OF that]] table_at_cong[OF d0[OF that]] by simp_all
  have m0: "db_manifest db0 = pad_levels m" by (simp add: db0_def initial_db_def pad_levels_def)
  have ids: "all_ids (pad_levels m) = all_ids (db_manifest db)" using ti m(2) by (rule same_tables_ids)
  have tm: "tables_inv (pad_levels m) (db_dir db)" using same_tables_inv[OF ti m(2)] .
  have "segment_at (db_dir db0) s" if "s \<in> set (mf_segments (pad_levels m))" for s
  proof -
    have "sm_file_id s \<in> set (all_ids (pad_levels m))" using that by (simp add: all_ids_def)
    then have "file_records (db_dir db0) (sm_file_id s) = file_records (db_dir db) (sm_file_id s)"
      using fr by (simp only: ids)
    then show ?thesis using tm that by (simp add: tables_inv_def segment_at_def)
  qed
  then have ti0: "tables_inv (db_manifest db0) (db_dir db0)"
    using tm fr at ids by (simp add: m0 tables_inv_def)
  have w: "wal_file (db_wal db0) = log_file d" by (simp add: db0_def initial_db_def wal_create_def log_file_def)
  have mem: "db_memtable db0 = memtable_new" by (simp add: db0_def initial_db_def)
  define db' where "db' = replay_into (recovered rs) db0"
  have "fst (open_with crc opts d) = Inr db'"
    using v m validate_open_state_ok[OF ti0] w log
    by (simp add: open_with_def bindS_def Let_def db0_def[symmetric] db'_def)
  moreover have keep: "db_manifest db' = db_manifest db0" "db_dir db' = db_dir db0" "db_cache db' = Map.empty"
      "\<not> db_closed db'" "db_opts db' = opts" "db_next_tx_id db' = max_tx_id (recovered rs) + 1"
      "wal_log (db_wal db') = log_file d" "db_dir db0 = fs_remove WAL_FILE d"
    by (simp_all add: db'_def replay_into_def db0_def initial_db_def wal_log_def wal_create_def log_file_def)
  moreover have "same_store db (db_dir db0)"
    using st by (simp add: same_store_def keep)
  moreover have "map (file_records (db_dir db0)) (table_order (db_manifest db)) =
      map (file_records (db_dir db)) (table_order (db_manifest db))"
    using fr all_ids_order[OF ti] by simp
  ultimately show ?thesis
    using replay_into_log[OF mem, of rs] ti0 m(2)
    by (intro exI[of _ db']) (simp add: reopened_def db_inv_def cache_inv_def m0 db'_def[symmetric])
qed

end
