(* ===== verification/Commits.thy ===== *)
theory Commits
  imports Opening
begin

text \<open>
  The commit of a transaction on the engine (\<^verbatim>\<open>Transaction::commit\<close> of \<^verbatim>\<open>src/entity.rs\<close>): the block of the log with
  its sync, then the writes on memory with a flush whose error is ignored.
\<close>

definition commit_log :: "(bytes \<Rightarrow> 32 word) \<Rightarrow> 64 word \<Rightarrow> item list \<Rightarrow> (database, error, unit) op" where
  "commit_log crc tx pending = bindS (wal_begin crc tx) (\<lambda>_.
     bindS (forS pending (\<lambda>(k, v). case v of Some x \<Rightarrow> wal_tx_put crc tx k x | None \<Rightarrow> wal_tx_delete crc tx k)) (\<lambda>_.
     bindS (wal_commit crc tx) (\<lambda>_. db_wal_sync)))"

definition apply_pending :: "item list \<Rightarrow> database \<Rightarrow> database" where
  "apply_pending pending db = fold (\<lambda>(k, v) db. case v of Some x \<Rightarrow> mem_put k x db | None \<Rightarrow> mem_delete k db) pending db"

definition commit_memory :: "item list \<Rightarrow> database \<Rightarrow> database" where
  "commit_memory pending db = snd (flush_if_over_limit (apply_pending pending db))"

section \<open>The block of the log\<close>

lemma wal_steps [simp]:
  "wal_begin crc tx db = (Inr (), db\<lparr>db_wal := append_begin crc tx (db_wal db)\<rparr>)"
  "wal_tx_put crc tx k x db = (Inr (), db\<lparr>db_wal := append_tx_put crc tx k x (db_wal db)\<rparr>)"
  "wal_tx_delete crc tx k db = (Inr (), db\<lparr>db_wal := append_tx_delete crc tx k (db_wal db)\<rparr>)"
  "wal_commit crc tx db = (Inr (), db\<lparr>db_wal := append_commit crc tx (db_wal db)\<rparr>)"
  "db_wal_sync db = (Inr (), db\<lparr>db_wal := wal_sync (db_wal db)\<rparr>)"
  by (simp_all add: wal_begin_def wal_tx_put_def wal_tx_delete_def wal_commit_def db_wal_sync_def on_wal_def)

lemma commit_log_correct:
  "\<exists>w. commit_log crc tx pending db = (Inr (), db\<lparr>db_wal := w\<rparr>) \<and> wal_buf w = [] \<and>
     wal_log w = wal_log (db_wal db) @ log_bytes crc (tx_block tx pending)"
proof -
  have "\<exists>w. forS ps (\<lambda>(k, v). case v of Some x \<Rightarrow> wal_tx_put crc tx k x | None \<Rightarrow> wal_tx_delete crc tx k) db = (Inr (), db\<lparr>db_wal := w\<rparr>) \<and>
      wal_log w = wal_log (db_wal db) @ log_bytes crc (map (tx_mutation tx) ps)" for ps db
  proof (induction ps arbitrary: db)
    case Nil
    then show ?case by (intro exI[of _ "db_wal db"]) simp
  next
    case (Cons p ps)
    obtain k v where p: "p = (k, v)" by (cases p)
    let ?w = "case v of Some x \<Rightarrow> append_tx_put crc tx k x (db_wal db) | None \<Rightarrow> append_tx_delete crc tx k (db_wal db)"
    obtain w where "forS ps (\<lambda>(k, v). case v of Some x \<Rightarrow> wal_tx_put crc tx k x | None \<Rightarrow> wal_tx_delete crc tx k) (db\<lparr>db_wal := ?w\<rparr>)
        = (Inr (), db\<lparr>db_wal := ?w\<rparr>\<lparr>db_wal := w\<rparr>)"
        "wal_log w = wal_log ?w @ log_bytes crc (map (tx_mutation tx) ps)"
      using Cons[of "db\<lparr>db_wal := ?w\<rparr>"] by auto
    then show ?case
      using p by (cases v) (auto simp: bindS_def)
  qed
  from this[of pending "db\<lparr>db_wal := append_begin crc tx (db_wal db)\<rparr>"] obtain w where
    "forS pending (\<lambda>(k, v). case v of Some x \<Rightarrow> wal_tx_put crc tx k x | None \<Rightarrow> wal_tx_delete crc tx k)
        (db\<lparr>db_wal := append_begin crc tx (db_wal db)\<rparr>) = (Inr (), db\<lparr>db_wal := w\<rparr>)"
    "wal_log w = wal_log (append_begin crc tx (db_wal db)) @ log_bytes crc (map (tx_mutation tx) pending)"
    by auto
  then show ?thesis
    by (intro exI[of _ "wal_sync (append_commit crc tx w)"])
      (simp add: commit_log_def bindS_def tx_block_def, simp add: wal_sync_def wal_flush_def)
qed

section \<open>The writes on memory\<close>

text \<open>The effect of writes on the map of values.\<close>

definition apply_writes :: "(bytes \<times> bytes option) list \<Rightarrow> (bytes \<Rightarrow> bytes option) \<Rightarrow> bytes \<Rightarrow> bytes option" where
  "apply_writes ws v = fold (\<lambda>(k, x) v. v(k := x)) ws v"

lemma apply_writes_simps [simp]:
  "apply_writes [] v = v"
  "apply_writes (w # ws) v = apply_writes ws (v(fst w := snd w))"
  "apply_writes (ws @ us) v = apply_writes us (apply_writes ws v)"
  by (simp_all add: apply_writes_def case_prod_beta)

lemma apply_writes_map: "apply_writes ws v k = (case map_of (rev ws) k of Some x \<Rightarrow> x | None \<Rightarrow> v k)"
  by (induction ws arbitrary: v) (auto simp: map_add_def split: option.split)

lemma apply_writes_other: "k \<notin> fst ` set ws \<Longrightarrow> apply_writes ws v k = v k"
  by (induction ws arbitrary: v) auto

lemma apply_writes_same:
  "\<forall>w \<in> set ws. fst w = k \<longrightarrow> snd w = x \<Longrightarrow> k \<in> fst ` set ws \<Longrightarrow> apply_writes ws v k = x"
proof (induction ws arbitrary: v)
  case (Cons w ws)
  then show ?case by (cases "k \<in> fst ` set ws") (auto simp: apply_writes_other)
qed simp

lemma apply_pending_simps [simp]:
  "apply_pending [] db = db"
  "apply_pending ((k, v) # ps) db = apply_pending ps (db\<lparr>db_memtable := mt_put k v (db_memtable db)\<rparr>)"
  by (simp_all add: apply_pending_def mem_put_def mem_delete_def split: option.split)

text \<open>Whether memory and the formats have room for the writes.\<close>

fun commit_room :: "nat \<Rightarrow> item list \<Rightarrow> database \<Rightarrow> bool" where
  "commit_room B [] db = (table_size (mt_map (db_memtable db)) < 2 ^ 32)"
| "commit_room B ((k, v) # ps) db = (k \<noteq> [] \<and> put_room B k v db \<and>
     commit_room B ps (db\<lparr>db_memtable := mt_put k v (db_memtable db)\<rparr>))"

lemma commit_room_memory: "db_memtable db = db_memtable db' \<Longrightarrow> commit_room B ps db = commit_room B ps db'"
proof (induction ps arbitrary: db db')
  case (Cons p ps)
  have "commit_room B ps (db\<lparr>db_memtable := m\<rparr>) = commit_room B ps (db'\<lparr>db_memtable := m\<rparr>)" for m
    by (rule Cons.IH) simp
  then show ?case using Cons.prems by (cases p) (simp add: put_room_def)
qed simp

lemma apply_pending_fields [simp]:
  "db_wal (apply_pending ps db) = db_wal db" "db_opts (apply_pending ps db) = db_opts db"
  "db_dir (apply_pending ps db) = db_dir db" "db_manifest (apply_pending ps db) = db_manifest db"
proof -
  have "db_wal (apply_pending ps db) = db_wal db \<and> db_opts (apply_pending ps db) = db_opts db \<and>
      db_dir (apply_pending ps db) = db_dir db \<and> db_manifest (apply_pending ps db) = db_manifest db"
  proof (induction ps arbitrary: db)
    case (Cons p ps)
    then show ?case by (cases p) simp
  qed simp
  then show "db_wal (apply_pending ps db) = db_wal db" "db_opts (apply_pending ps db) = db_opts db"
    "db_dir (apply_pending ps db) = db_dir db" "db_manifest (apply_pending ps db) = db_manifest db"
    by simp_all
qed

lemma apply_pending_memory:
  "mt_inv (db_memtable db) \<Longrightarrow> mt_inv (db_memtable (apply_pending ps db)) \<and>
     mt_get (db_memtable (apply_pending ps db)) = mt_get (db_memtable db) ++ map_of (rev ps)"
proof (induction ps arbitrary: db)
  case (Cons p ps)
  then show ?case by (cases p) (auto simp: fun_eq_iff map_add_def split: option.split)
qed simp

end
