(* ===== verification/Store.thy ===== *)
theory Store
  imports Commits
begin

text \<open>
  The database as a map: the state machine of its operations and of crashes, the invariant of every
  reachable state, and the properties of each operation against the abstract map.
\<close>

section \<open>The invariant of a running database\<close>

definition db_ok :: "nat \<Rightarrow> database \<Rightarrow> bool" where
  "db_ok B db \<longleftrightarrow> db_inv db \<and> db_fits B db \<and> openable db \<and> db_entry db [] = None"

definition log_small :: "nat \<Rightarrow> log_rec list \<Rightarrow> bool" where
  "log_small B rs \<longleftrightarrow> (\<forall>kv \<in> set (effects rs). fst kv \<noteq> [] \<and> item_size kv + 21 \<le> B)"

definition mem_room :: "database \<Rightarrow> bool" where
  "mem_room db \<longleftrightarrow> table_size (mt_map (db_memtable db)) < 2 ^ 32"

lemmas path_names [simp] = table_path_names[THEN not_sym]

lemma entry_split:
  "db_entry db k = None \<longleftrightarrow> mt_get (db_memtable db) k = None \<and>
     layers (map (file_records (db_dir db)) (table_order (db_manifest db))) k = None"
  by (simp add: entry_layers mt_get_def split: option.split)

lemma version_readable_mono:
  assumes "version_readable d" and "map_of d' VERSION_FILE = map_of d VERSION_FILE"
    and "fs_exists MANIFEST_FILE d \<longrightarrow> fs_exists MANIFEST_FILE d'"
  shows "version_readable d'"
proof -
  have "read_version d' = read_version d"
    using assms(2) by (simp add: read_version_def fs_exists_def fs_read_to_string_def fs_read_def)
  then show ?thesis using assms(1,3) by (auto simp: version_readable_def)
qed

lemma db_ok_reorganised:
  assumes ok: "db_ok B db" and r: "reorganised B db db'" and fits: "mf_next_table_id (db_manifest db') < 2 ^ 64"
  shows "db_ok B db'"
proof -
  have o: "openable db" and e: "db_entry db [] = None" using ok by (simp_all add: db_ok_def)
  have e': "db_entry db' [] = None" using r e by (simp add: reorganised_def)
  have "version_readable (db_dir db')"
  proof (rule version_readable_mono)
    show "version_readable (db_dir db)" using o by (simp add: openable_def)
    show "map_of (db_dir db') VERSION_FILE = map_of (db_dir db) VERSION_FILE"
      using r by (simp add: reorganised_def other_files_def)
    show "fs_exists MANIFEST_FILE (db_dir db) \<longrightarrow> fs_exists MANIFEST_FILE (db_dir db')"
      using r by (simp add: reorganised_def)
  qed
  moreover have "manifest_fits (db_manifest db')"
    using o r fits by (simp add: openable_def manifest_fits_def reorganised_def)
  ultimately have "openable db'"
    using o r e' by (simp add: openable_def entry_split reorganised_def db_inv_def)
  then show ?thesis using r e' by (simp add: db_ok_def reorganised_def)
qed

text \<open>Operations that leave the files and memory alone keep everything.\<close>

lemma db_ok_same_but_cache:
  assumes "db_ok B db" and "same_but_cache db db'" and "db_inv db'"
  shows "db_ok B db'"
  using assms same_but_cacheD[OF assms(2)]
  by (simp add: db_ok_def openable_def saved_def db_fits_def)

lemma db_ok_wal [simp]:
  "db_ok B (db\<lparr>db_wal := w\<rparr>) = db_ok B db" "db_value (db\<lparr>db_wal := w\<rparr>) = db_value db"
proof -
  have "db_layers (db\<lparr>db_wal := w\<rparr>) = db_layers db" by (simp add: db_layers_def)
  then have "db_entry (db\<lparr>db_wal := w\<rparr>) = db_entry db" by (simp add: fun_eq_iff db_entry_def)
  then show "db_ok B (db\<lparr>db_wal := w\<rparr>) = db_ok B db" "db_value (db\<lparr>db_wal := w\<rparr>) = db_value db"
    using \<open>db_layers (db\<lparr>db_wal := w\<rparr>) = db_layers db\<close>
    by (simp_all add: db_ok_def openable_def saved_def db_fits_def db_inv_def fun_eq_iff db_value_def)
qed

lemma db_ok_written:
  assumes "db_ok B db" and "put_room B key v db" and "key \<noteq> []"
  shows "db_ok B (written crc key v db)" and "mem_room (written crc key v db)"
    and "db_value (written crc key v db) = (db_value db)(key := v)"
proof -
  have mt: "mt_inv (db_memtable db)" using assms(1) by (simp add: db_ok_def db_inv_def)
  have e: "db_entry (written crc key v db) [] = None"
    using assms(1,3) mt by (auto simp: db_ok_def entry_split written_def)
  show "db_ok B (written crc key v db)"
    using assms e db_inv_mem_put[of db] db_fits_mem_put[of B db key v]
    by (simp add: db_ok_def openable_def saved_def put_room_def) (simp add: written_def)
  show "mem_room (written crc key v db)" using assms(2) by (simp add: mem_room_def put_room_def written_def)
  show "db_value (written crc key v db) = (db_value db)(key := v)"
    unfolding written_def by (rule db_value_mem_put[OF mt])
qed

section \<open>What a crash leaves\<close>

lemma same_store_log [simp]: "same_store db (fs_write WAL_FILE f (db_dir db))"
  by (simp add: same_store_def)

lemma effects_take: "set (effects (take j rs)) \<subseteq> set (effects rs)"
proof -
  have "set (log_effect (take j rs) r) \<subseteq> set (log_effect rs r)" for r
    by (cases r) (auto dest: in_set_takeD)
  then have "set (records (recovered (take j rs))) \<subseteq> set (records (recovered rs))"
    by (fastforce simp: recovered_def dest: in_set_takeD)
  then show ?thesis by (auto simp: effects_def)
qed

lemma log_small_take: "log_small B rs \<Longrightarrow> log_small B (take j rs)"
  using effects_take[of j rs] by (auto simp: log_small_def)

text \<open>The value of a key when memory is replaced by what a log holds.\<close>

definition value_over :: "database \<Rightarrow> log_rec list \<Rightarrow> bytes \<Rightarrow> bytes option" where
  "value_over db rs k = flat (case log_entries rs k of
     Some e \<Rightarrow> Some e
   | None \<Rightarrow> layers (map (file_records (db_dir db)) (table_order (db_manifest db))) k)"

lemma value_logged: "logged crc rs db \<Longrightarrow> db_value db = value_over db rs"
  by (simp add: fun_eq_iff value_over_def value_layers logged_def flip: mt_get_def)

lemma reopened_value:
  assumes "reopened db rs db'"
  shows "db_value db' = value_over db rs"
proof -
  have "table_order (db_manifest db') = table_order (db_manifest db)"
    using assms same_tables_order by (simp add: reopened_def)
  then have "db_value db' k = value_over db rs k" for k
    using assms unfolding reopened_def value_over_def value_layers mt_get_def[symmetric] by metis
  then show ?thesis by (rule ext)
qed

lemma same_tables_fresh:
  "same_tables (manifest_new\<lparr>mf_levels := [[]]\<rparr>) m \<Longrightarrow> m = manifest_new\<lparr>mf_levels := [[]]\<rparr>"
  by (cases m; cases "mf_levels m") (auto simp: same_tables_def level0_def manifest_new_def)

lemma mt_get_in: "mt_inv m \<Longrightarrow> kv \<in> set (mt_map m) \<Longrightarrow> mt_get m (fst kv) = Some (snd kv)"
  using sorted_keys_distinct by (cases kv) (fastforce simp: mt_inv_def mt_get_def)

lemma db_ok_reopened:
  assumes ok: "db_ok B db" and r: "reopened db rs db'" and small: "log_small B rs" and o: "db_opts db' = db_opts db"
  shows "db_ok B db'"
proof -
  let ?m = "db_manifest db" and ?m' = "db_manifest db'"
  have files: "map_of (db_dir db') MANIFEST_FILE = map_of (db_dir db) MANIFEST_FILE"
      "map_of (db_dir db') VERSION_FILE = map_of (db_dir db) VERSION_FILE"
    using r by (simp_all add: reopened_def same_store_def)
  have fr: "map (file_records (db_dir db')) (table_order ?m) = map (file_records (db_dir db)) (table_order ?m)" and same: "same_tables ?m ?m'"
    and inv: "db_inv db'" and mt: "mt_get (db_memtable db') = log_entries rs"
    using r by (simp_all add: reopened_def)
  have in_log: "kv \<in> set (effects rs)" if "kv \<in> set (mt_map (db_memtable db'))" for kv
  proof -
    have "log_entries rs (fst kv) = Some (snd kv)"
      using mt_get_in[OF _ that] inv mt by (simp add: db_inv_def)
    then have "kv \<in> set (rev (effects rs))" unfolding log_entries_def by (metis map_of_SomeD prod.collapse)
    then show ?thesis by simp
  qed
  have order: "table_order ?m' = table_order ?m" using same_tables_order[OF same] .
  have "small B (mt_map (db_memtable db'))" using in_log small by (auto simp: small_def log_small_def)
  then have fits: "db_fits B db'"
    using ok o by (simp add: db_ok_def db_fits_def db_layers_def order fr)
  have none: "layers (map (file_records (db_dir db)) (table_order ?m)) [] = None"
    using ok by (simp add: db_ok_def openable_def)
  have "openable db'"
    unfolding openable_def
  proof (intro conjI)
    show "tables_inv ?m' (db_dir db')" using inv by (simp add: db_inv_def)
    show "manifest_fits ?m'" using ok same by (simp add: db_ok_def openable_def manifest_fits_def same_tables_def)
    show "layers (map (file_records (db_dir db')) (table_order ?m')) [] = None" by (simp add: order fr none)
    show "version_readable (db_dir db')"
      using ok version_readable_cong[of "db_dir db'" "db_dir db"] files by (simp add: db_ok_def openable_def)
    have "saved db" using ok by (simp add: db_ok_def openable_def)
    then show "saved db'"
      using same files same_tables_fresh[of ?m'] unfolding saved_def
      by (auto simp: same_tables_def)
  qed
  moreover have "db_entry db' [] = None"
    unfolding entry_split order fr using none mt small
    by (auto simp: log_entries_def map_of_eq_None_iff log_small_def)
  ultimately show ?thesis using inv fits by (simp add: db_ok_def)
qed

section \<open>The state machine\<close>

text \<open>
  The log as far as it is known to be whole: \<open>Some rs\<close> when the log is the bytes of the records \<open>rs\<close>,
  \<open>None\<close> when a crash left a torn record behind. A log that is emptied is whole again.
\<close>

definition log_after :: "log_rec list option \<Rightarrow> log_rec list \<Rightarrow> database \<Rightarrow> log_rec list option" where
  "log_after l new db = (if wal_log (db_wal db) = [] \<and> mt_is_empty (db_memtable db)
     then Some [] else map_option (\<lambda>rs. rs @ new) l)"

definition log_cut :: "(bytes \<Rightarrow> 32 word) \<Rightarrow> nat \<Rightarrow> log_rec list \<Rightarrow> log_rec list option" where
  "log_cut crc n rs = (let kept = take (whole_records crc n rs) rs in
     if log_bytes crc kept = take n (log_bytes crc rs) then Some kept else None)"

text \<open>
  The states a database reaches: the operations, and crashes that keep any prefix of what was appended to
  the log. \<open>v\<close> is the map a client expects. The premises of a write bound it by the sizes the formats
  can express; the empty key is excluded since a segment that starts with it cannot be read back.
\<close>

inductive run :: "(bytes \<Rightarrow> 32 word) \<Rightarrow> nat \<Rightarrow> db_options \<Rightarrow> database \<Rightarrow> (bytes \<Rightarrow> bytes option) \<Rightarrow>
    log_rec list option \<Rightarrow> bool" for crc B opts where
  run_open: "fst (open_with crc opts []) = Inr db \<Longrightarrow> run crc B opts db (\<lambda>_. None) (Some [])"
| run_get: "run crc B opts db v l \<Longrightarrow> db_get key db = (r, db') \<Longrightarrow> run crc B opts db' v l"
| run_scan: "run crc B opts db v l \<Longrightarrow> db_scan start stop db = (r, db') \<Longrightarrow> run crc B opts db' v l"
| run_put: "run crc B opts db v l \<Longrightarrow> key \<noteq> [] \<Longrightarrow> put_room B key (Some x) db \<Longrightarrow>
    db_put crc key x db = (r, db') \<Longrightarrow> mf_next_table_id (db_manifest db') < 2 ^ 64 \<Longrightarrow>
    run crc B opts db' (v(key \<mapsto> x)) (log_after l [LPut key x] db')"
| run_delete: "run crc B opts db v l \<Longrightarrow> key \<noteq> [] \<Longrightarrow> put_room B key None db \<Longrightarrow>
    db_delete crc key db = (r, db') \<Longrightarrow> mf_next_table_id (db_manifest db') < 2 ^ 64 \<Longrightarrow>
    run crc B opts db' (v(key := None)) (log_after l [LDelete key] db')"
| run_flush: "run crc B opts db v l \<Longrightarrow> mem_room db \<Longrightarrow> flush db = (r, db') \<Longrightarrow>
    mf_next_table_id (db_manifest db') < 2 ^ 64 \<Longrightarrow> run crc B opts db' v (log_after l [] db')"
| run_compact: "run crc B opts db v l \<Longrightarrow> mem_room db \<Longrightarrow> compact_full db = (r', db') \<Longrightarrow>
    mf_next_table_id (db_manifest db') < 2 ^ 64 \<Longrightarrow> run crc B opts db' v (log_after l [] db')"
| run_commit: "run crc B opts db v l \<Longrightarrow> (\<forall>rs. l = Some rs \<longrightarrow> tx \<notin> set (List.map_filter rec_tx rs)) \<Longrightarrow>
    commit_room B pending db \<Longrightarrow> commit_log crc tx pending db = (r, db1) \<Longrightarrow> db' = commit_memory pending db1 \<Longrightarrow>
    mf_next_table_id (db_manifest db') < 2 ^ 64 \<Longrightarrow>
    run crc B opts db' (apply_writes pending v) (log_after l (tx_block tx pending) db')"
| run_sync: "run crc B opts db v l \<Longrightarrow> db_wal_sync db = (r, db') \<Longrightarrow> run crc B opts db' v l"
| run_crash: "run crc B opts db v (Some rs) \<Longrightarrow>
    fst (open_with crc opts (fs_write WAL_FILE (take n (wal_log (db_wal db))) (db_dir db))) = Inr db' \<Longrightarrow>
    run crc B opts db' (value_over db (take (whole_records crc n rs) rs)) (log_cut crc n rs)"

definition run_inv :: "(bytes \<Rightarrow> 32 word) \<Rightarrow> nat \<Rightarrow> db_options \<Rightarrow> database \<Rightarrow> (bytes \<Rightarrow> bytes option) \<Rightarrow>
    log_rec list option \<Rightarrow> bool" where
  "run_inv crc B opts db v l \<longleftrightarrow> db_ok B db \<and> db_value db = v \<and> db_opts db = opts \<and>
     (\<forall>rs. l = Some rs \<longrightarrow> logged crc rs db \<and> log_small B rs)"

lemma log_after_SomeD:
  assumes "log_after l new db = Some rs"
  shows "(wal_log (db_wal db) = [] \<and> mt_get (db_memtable db) = Map.empty \<and> rs = []) \<or>
     (\<exists>rs0. l = Some rs0 \<and> rs = rs0 @ new \<and> \<not> (wal_log (db_wal db) = [] \<and> mt_is_empty (db_memtable db)))"
  using assms by (auto simp: log_after_def mt_is_empty_get split: if_splits)

lemma log_small_Nil [simp]: "log_small B []"
  by (simp add: log_small_def effects_def recovered_def)

text \<open>A flush or a compaction either leaves log and memory alone or empties both.\<close>

lemma log_after_reorganised:
  assumes r: "reorganised B db db'" and l: "\<forall>rs. l = Some rs \<longrightarrow> logged crc (rs @ new) db \<and> log_small B (rs @ new)"
    and a: "log_after l new db' = Some rs"
  shows "logged crc rs db' \<and> log_small B rs"
  using log_after_SomeD[OF a]
proof (elim disjE exE conjE)
  fix rs0 assume "l = Some rs0" "rs = rs0 @ new" "\<not> (wal_log (db_wal db') = [] \<and> mt_is_empty (db_memtable db'))"
  moreover from this have "db_wal db' = db_wal db \<and> db_memtable db' = db_memtable db"
    using r by (auto simp: reorganised_def mt_is_empty_def memtable_new_def)
  ultimately show ?thesis using l by (simp add: logged_def)
qed (simp add: logged_def)

lemma logged_written:
  assumes "logged crc rs db" and "mt_inv (db_memtable db)" and "log_small B rs"
    and "key \<noteq> []" and "put_room B key v db" and "B < 2 ^ 32"
  defines "r \<equiv> (case v of Some x \<Rightarrow> LPut key x | None \<Rightarrow> LDelete key)"
  shows "logged crc (rs @ [r]) (written crc key v db) \<and> log_small B (rs @ [r])"
proof -
  have "length key < 2 ^ 32 \<and> entry_len v < 2 ^ 32"
    using assms(5,6) by (simp add: put_room_def item_size_def)
  then have "rec_ok r" by (auto simp: r_def entry_len_def split: option.split)
  moreover have "effects (rs @ [r]) = effects rs @ [(key, v)]"
    by (auto simp: r_def effects_def records_snoc split: option.split)
  ultimately show ?thesis
    using assms by (cases v) (auto simp: logged_def written_def log_small_def put_room_def)
qed

lemma run_written:
  assumes inv: "run_inv crc B opts db v l" and "key \<noteq> []" and "put_room B key x db" and "B < 2 ^ 32"
    and p: "put_internal crc key x db = (r, db')" and "mf_next_table_id (db_manifest db') < 2 ^ 64"
  shows "r = Inr () \<and> run_inv crc B opts db' (v(key := x))
     (log_after l [case x of Some y \<Rightarrow> LPut key y | None \<Rightarrow> LDelete key] db')"
proof -
  have ok: "db_ok B db" using inv by (simp add: run_inv_def)
  then have i: "db_inv db" "db_fits B db" and mt: "mt_inv (db_memtable db)"
    by (simp_all add: db_ok_def db_inv_def)
  have w: "reorganised B (written crc key x db) db'" "r = Inr ()" "db_value db' = (db_value db)(key := x)"
    using put_internal_correct[OF i assms(3), of crc] p by auto
  have "db_ok B db'"
    using db_ok_reorganised[OF db_ok_written(1)[OF ok assms(3,2)] w(1) assms(6)] .
  moreover have "db_opts db' = opts" using w(1) inv by (simp add: reorganised_def written_def run_inv_def)
  moreover have "\<forall>rs. l = Some rs \<longrightarrow>
      logged crc (rs @ [case x of Some y \<Rightarrow> LPut key y | None \<Rightarrow> LDelete key]) (written crc key x db) \<and>
      log_small B (rs @ [case x of Some y \<Rightarrow> LPut key y | None \<Rightarrow> LDelete key])"
    using inv logged_written[OF _ mt _ assms(2,3,4)] unfolding run_inv_def by blast
  note log_after_reorganised[OF w(1) this]
  moreover have "db_value db' = v(key := x)" using w(3) inv by (simp add: run_inv_def)
  ultimately show ?thesis using w(2) unfolding run_inv_def by blast
qed

lemma run_reorganised:
  assumes inv: "run_inv crc B opts db v l" and r: "reorganised B db db'" and "mf_next_table_id (db_manifest db') < 2 ^ 64"
  shows "run_inv crc B opts db' v (log_after l [] db')"
proof -
  have "\<forall>rs. l = Some rs \<longrightarrow> logged crc (rs @ []) db \<and> log_small B (rs @ [])" using inv by (simp add: run_inv_def)
  note log_after_reorganised[OF r this]
  moreover have "db_ok B db'" using inv db_ok_reorganised[OF _ r assms(3)] by (simp add: run_inv_def)
  moreover have "db_value db' = v" "db_opts db' = opts" using inv r by (simp_all add: run_inv_def reorganised_def)
  ultimately show ?thesis unfolding run_inv_def by blast
qed

lemma run_same_but_cache:
  "run_inv crc B opts db v l \<Longrightarrow> same_but_cache db db' \<Longrightarrow> db_inv db' \<Longrightarrow> run_inv crc B opts db' v l"
  using db_ok_same_but_cache[of B db db'] same_but_cacheD[of db db'] by (auto simp: run_inv_def logged_def)

lemma run_crashed:
  assumes inv: "run_inv crc B opts db v (Some rs)"
  shows "\<exists>db'. fst (open_with crc opts (fs_write WAL_FILE (take n (wal_log (db_wal db))) (db_dir db))) = Inr db' \<and>
     run_inv crc B opts db' (value_over db (take (whole_records crc n rs) rs)) (log_cut crc n rs)"
proof -
  let ?kept = "take (whole_records crc n rs) rs"
  have log: "logged crc rs db" and small: "log_small B rs" and ok: "db_ok B db" and o: "db_opts db = opts"
    using inv by (simp_all add: run_inv_def)
  have rp: "replay crc (take n (wal_log (db_wal db))) = recovered ?kept"
    using log replay_take by (simp add: logged_def)
  have "openable db" using ok by (simp add: db_ok_def)
  let ?d = "fs_write WAL_FILE (take n (wal_log (db_wal db))) (db_dir db)"
  have "replay crc (log_file ?d) = recovered ?kept" "same_store db ?d"
    using rp by (simp_all add: log_file_def)
  from open_openable[OF \<open>openable db\<close> this(2,1), of opts] obtain db' where
    d: "fst (open_with crc opts ?d) = Inr db'"
       "reopened db ?kept db'" "db_opts db' = opts" "wal_log (db_wal db') = take n (wal_log (db_wal db))"
    by (auto simp: log_file_def)
  have "logged crc ?kept db'" if "log_bytes crc ?kept = take n (log_bytes crc rs)"
    using d(2,4) log that by (auto simp: logged_def reopened_def dest: in_set_takeD)
  then have "run_inv crc B opts db' (value_over db ?kept) (log_cut crc n rs)"
    using db_ok_reopened[OF ok d(2) log_small_take[OF small]] reopened_value[OF d(2)] d(3) o log_small_take[OF small]
    by (auto simp: run_inv_def log_cut_def Let_def)
  then show ?thesis using d(1) by blast
qed

text \<open>A commit: the block of the log, then the writes on memory.\<close>

lemma db_ok_put:
  assumes "db_ok B db" and "put_room B k v db" and "k \<noteq> []"
  shows "db_ok B (db\<lparr>db_memtable := mt_put k v (db_memtable db)\<rparr>) \<and>
     db_value (db\<lparr>db_memtable := mt_put k v (db_memtable db)\<rparr>) = (db_value db)(k := v)"
proof -
  have "db\<lparr>db_memtable := mt_put k v (db_memtable db)\<rparr> = (written (\<lambda>_. 0) k v db)\<lparr>db_wal := db_wal db\<rparr>"
    by (simp add: written_def)
  then show ?thesis using db_ok_written[OF assms, of "\<lambda>_. 0"] by simp
qed

lemma db_ok_pending:
  "db_ok B db \<Longrightarrow> commit_room B ps db \<Longrightarrow>
     db_ok B (apply_pending ps db) \<and> mem_room (apply_pending ps db) \<and>
     db_value (apply_pending ps db) = apply_writes ps (db_value db) \<and>
     (\<forall>kv \<in> set ps. fst kv \<noteq> [] \<and> item_size kv + 21 \<le> B)"
proof (induction ps arbitrary: db)
  case (Cons p ps)
  obtain k v where p: "p = (k, v)" by (cases p)
  then show ?case
    using Cons.IH[of "db\<lparr>db_memtable := mt_put k v (db_memtable db)\<rparr>"] db_ok_put[OF Cons.prems(1), of k v] Cons.prems(2)
    by (auto simp: put_room_def simp del: fun_upd_apply)
qed (simp add: mem_room_def)

lemma effects_block:
  assumes "tx \<notin> set (List.map_filter rec_tx rs)"
  shows "effects (rs @ tx_block tx muts) = effects rs @ muts"
proof -
  have "map (\<lambda>r. (rec_key r, rec_value r)) (map (\<lambda>(k, v). \<lparr>rec_key = k, rec_value = v\<rparr>) muts) = muts"
    by (induction muts) auto
  then show ?thesis by (simp add: effects_def recovered_full_block[OF assms])
qed

lemma block_rec_ok:
  assumes "\<forall>kv \<in> set ps. item_size kv + 21 \<le> B" and "B < 2 ^ 32"
  shows "\<forall>r \<in> set (tx_block tx ps). rec_ok r"
proof -
  have "rec_ok (tx_mutation tx kv)" if "kv \<in> set ps" for kv
    using assms that by (cases kv; cases "snd kv") (force simp: item_size_def entry_len_def)+
  then show ?thesis by (auto simp: tx_block_def)
qed

lemma run_committed:
  assumes inv: "run_inv crc B opts db v l" and fresh: "\<forall>rs. l = Some rs \<longrightarrow> tx \<notin> set (List.map_filter rec_tx rs)"
    and room: "commit_room B pending db" and "B < 2 ^ 32"
    and c: "commit_log crc tx pending db = (r, db1)" and db': "db' = commit_memory pending db1"
    and fits: "mf_next_table_id (db_manifest db') < 2 ^ 64"
  shows "r = Inr () \<and> run_inv crc B opts db' (apply_writes pending v) (log_after l (tx_block tx pending) db')"
proof -
  obtain w where w: "r = Inr ()" "db1 = db\<lparr>db_wal := w\<rparr>" "wal_log w = wal_log (db_wal db) @ log_bytes crc (tx_block tx pending)"
    using commit_log_correct[of crc tx pending db] c by auto
  let ?db2 = "apply_pending pending db1"
  have ok1: "db_ok B db1" "db_value db1 = v" "mt_inv (db_memtable db1)"
    using inv w(2) by (simp_all add: run_inv_def) (simp add: db_ok_def db_inv_def)
  have p: "db_ok B ?db2" "mem_room ?db2" "db_value ?db2 = apply_writes pending v"
      "\<forall>kv \<in> set pending. fst kv \<noteq> [] \<and> item_size kv + 21 \<le> B"
    using db_ok_pending[OF ok1(1)] room commit_room_memory[of db1 db B pending] ok1(2) w(2) by auto
  obtain db3 where f: "flush_if_over_limit ?db2 = (Inr (), db3)" "reorganised B ?db2 db3"
    using flush_if_over_limit_correct[of ?db2 B] p(1,2) by (auto simp: db_ok_def mem_room_def)
  have db3: "db' = db3" using f(1) db' by (simp add: commit_memory_def)
  have "\<forall>rs. l = Some rs \<longrightarrow> logged crc (rs @ tx_block tx pending) ?db2 \<and> log_small B (rs @ tx_block tx pending)"
  proof (intro allI impI)
    fix rs assume l: "l = Some rs"
    have rs: "logged crc rs db" "log_small B rs" "tx \<notin> set (List.map_filter rec_tx rs)" using inv fresh l by (auto simp: run_inv_def)
    have "mt_get (db_memtable ?db2) = log_entries (rs @ tx_block tx pending)"
      using apply_pending_memory[OF ok1(3)] rs(1) w(2) log_entries_block[OF rs(3)] by (simp add: logged_def)
    moreover have "\<forall>r \<in> set (tx_block tx pending). rec_ok r" using block_rec_ok p(4) assms(4) by blast
    ultimately have "logged crc (rs @ tx_block tx pending) ?db2" using rs(1) w(2,3) by (auto simp: logged_def)
    moreover have "log_small B (rs @ tx_block tx pending)"
      using rs(2) p(4) by (auto simp: log_small_def effects_block[OF rs(3)])
    ultimately show "logged crc (rs @ tx_block tx pending) ?db2 \<and> log_small B (rs @ tx_block tx pending)" by simp
  qed
  note log_after_reorganised[OF f(2) this]
  moreover have "db_ok B db'" using db_ok_reorganised[OF p(1) f(2)] fits db3 by simp
  moreover have "db_value db' = apply_writes pending v" "db_opts db' = opts"
    using f(2) p(3) db3 inv w(2) by (simp_all add: reorganised_def run_inv_def)
  ultimately show ?thesis using w(1) db3 unfolding run_inv_def by blast
qed

section \<open>Every reachable state\<close>

text \<open>The options the engine works with: a chunk of records of the largest size allowed fits a table.\<close>

definition opts_ok :: "nat \<Rightarrow> db_options \<Rightarrow> bool" where
  "opts_ok B opts \<longleftrightarrow> 0 < segment_max_records opts \<and> segment_max_records opts * B < 2 ^ 32"

lemma opts_ok_bound: "opts_ok B opts \<Longrightarrow> B < 2 ^ 32"
  by (auto simp: opts_ok_def intro: le_less_trans[of B "segment_max_records opts * B"])

definition fresh_db :: "db_options \<Rightarrow> database" where
  "fresh_db opts = \<lparr>db_dir = write_version FORMAT_VERSION [], db_wal = \<lparr>wal_file = [], wal_buf = []\<rparr>,
     db_memtable = memtable_new, db_manifest = manifest_new\<lparr>mf_levels := [[]]\<rparr>, db_opts = opts,
     db_closed = False, db_cache = Map.empty, db_next_tx_id = 1, db_format_version = FORMAT_VERSION\<rparr>"

lemma replay_Nil [simp]: "replay crc [] = recovered []"
  using replay_log[of "[]" crc "[]"] by simp

lemma fresh_dir: "write_version v [] = [(VERSION_FILE, str ''V '' @ dec (unat v) @ [10])]"
  by (simp add: write_version_def fs_replace_def fs_rename_def fs_write_def)

lemma fresh_tables: "tables_inv (manifest_new\<lparr>mf_levels := [[]]\<rparr>) d"
  by (simp add: tables_inv_def all_ids_def manifest_new_def segments_ok_def upper_empty_def)

lemma open_fresh: "fst (open_with crc opts []) = Inr (fresh_db opts)"
proof -
  let ?d = "write_version FORMAT_VERSION []"
  have v: "open_version [] = (Inr FORMAT_VERSION, ?d)"
    by (simp add: open_version_def read_version_def fs_exists_def)
  have m: "manifest_load ?d = Inr manifest_new"
    by (simp add: fresh_dir manifest_load_def fs_exists_def)
  define db0 where "db0 = initial_db opts FORMAT_VERSION manifest_new ?d"
  have d0: "db0 = (fresh_db opts)\<lparr>db_next_tx_id := 0\<rparr>"
    by (simp add: db0_def initial_db_def fresh_db_def fresh_dir wal_create_def manifest_new_def fs_remove_def)
  have ti: "tables_inv (db_manifest db0) (db_dir db0)" by (simp add: d0 fresh_db_def fresh_tables)
  show ?thesis
    using v m validate_open_state_ok[OF ti]
    by (simp add: open_with_def bindS_def Let_def db0_def[symmetric])
      (simp add: d0 replay_into_def fresh_db_def recovered_def)
qed

lemma fresh_run_inv:
  assumes "opts_ok B opts"
  shows "run_inv crc B opts (fresh_db opts) (\<lambda>_. None) (Some [])"
proof -
  let ?db = "fresh_db opts"
  have lay: "db_layers ?db = [[]]"
    by (simp add: fresh_db_def db_layers_def memtable_new_def table_order_def level0_def manifest_new_def)
  then have e: "db_entry ?db k = None" for k by (simp add: db_entry_def)
  have "read_version (db_dir ?db) = Inr (Some FORMAT_VERSION)"
  proof -
    have "utf8_valid (str ''V '' @ dec (unat FORMAT_VERSION) @ [10])"
      by (rule utf8_valid_ascii) (use dec_ascii[of "unat FORMAT_VERSION"] in \<open>auto simp: str_def\<close>)
    then show ?thesis
      using parse_version_text[of FORMAT_VERSION]
      by (simp add: fresh_db_def fresh_dir read_version_def fs_exists_def fs_read_to_string_def fs_read_def)
  qed
  then have "version_readable (db_dir ?db)"
    by (simp add: version_readable_def check_compatible_def FORMAT_VERSION_def MIN_SUPPORTED_VERSION_def)
  moreover have "saved ?db" by (simp add: saved_def fresh_db_def fresh_dir)
  moreover have "tables_inv (db_manifest ?db) (db_dir ?db)" by (simp add: fresh_db_def fresh_tables)
  moreover have "db_fits B ?db" using assms lay by (simp add: db_fits_def opts_ok_def small_def fresh_db_def)
  moreover have "manifest_fits (db_manifest ?db)" by (simp add: manifest_fits_def fresh_db_def manifest_new_def)
  moreover have "layers (map (file_records (db_dir ?db)) (table_order (db_manifest ?db))) [] = None"
    using e by (simp add: entry_split)
  moreover have "mt_inv (db_memtable ?db)" "cache_inv (db_manifest ?db) (db_dir ?db) (db_cache ?db)"
    "logged crc [] ?db" "db_opts ?db = opts"
    by (simp_all add: fresh_db_def cache_inv_def logged_def wal_log_def)
  ultimately show ?thesis
    using e by (simp add: run_inv_def db_ok_def openable_def db_inv_def fun_eq_iff db_value_def)
qed

lemma run_invariant:
  assumes "run crc B opts db v l" and "opts_ok B opts"
  shows "run_inv crc B opts db v l"
  using assms(1)
proof (induction rule: run.induct)
  case (run_open db)
  then show ?case using fresh_run_inv[OF assms(2)] by (simp add: open_fresh)
next
  case (run_get db v l key r db')
  have "db_inv db" using run_get.IH by (simp add: run_inv_def db_ok_def)
  then have "same_but_cache db db' \<and> db_inv db'" using db_get_correct[of db key] run_get.hyps(2) by auto
  then show ?case using run_same_but_cache[OF run_get.IH] by blast
next
  case (run_scan db v l start stop r db')
  have "db_inv db" using run_scan.IH by (simp add: run_inv_def db_ok_def)
  then have "same_but_cache db db' \<and> db_inv db'"
    using db_scan_correct[of db start stop] run_scan.hyps(2) by auto
  then show ?case using run_same_but_cache[OF run_scan.IH] by blast
next
  case (run_put db v l key x r db')
  then show ?case
    using run_written[OF run_put.IH run_put.hyps(2,3) opts_ok_bound[OF assms(2)]] by (simp add: db_put_def fun_upd_def)
next
  case (run_delete db v l key r db')
  then show ?case
    using run_written[OF run_delete.IH run_delete.hyps(2,3) opts_ok_bound[OF assms(2)]] by (simp add: db_delete_def fun_upd_def)
next
  case (run_flush db v l r db')
  then have "reorganised B db db'"
    using flush_correct[of db B] by (auto simp: run_inv_def db_ok_def mem_room_def)
  then show ?case using run_reorganised run_flush by blast
next
  case (run_compact db v l r db')
  then have "reorganised B db db'"
    using compact_full_correct[of db B] by (auto simp: run_inv_def db_ok_def mem_room_def)
  then show ?case using run_reorganised run_compact by blast
next
  case (run_commit db v l tx pending r db1 db')
  then show ?case using run_committed[OF run_commit.IH run_commit.hyps(2,3) opts_ok_bound[OF assms(2)]] by blast
next
  case (run_sync db v l r db')
  then show ?case by (auto simp: db_wal_sync_def on_wal_def run_inv_def logged_def)
next
  case (run_crash db v rs n db')
  then show ?case using run_crashed[OF run_crash.IH, of n] by auto
qed

end
