(* ===== verification/Mutator.thy ===== *)
theory Mutator
  imports Store
begin

text \<open>
  The interface between the entity layer and the engine (\<^verbatim>\<open>Mutator\<close> and \<^verbatim>\<open>DirectMutator\<close> of \<^verbatim>\<open>src/lib.rs\<close>):
  a view of key and value pairs with a state of its own. The entity layer is written against the record of
  its four operations, and its lemmas are proved in the locale of the laws those operations keep; the
  direct view of the engine is shown to keep them here, the transaction's view in its own theory.
\<close>

section \<open>The interface\<close>

text \<open>
  The scan gives the items of a stream as the list of what the stream yields, tombstones among them. The list
  ends with the first error: what a stream that failed would still yield is left out.
\<close>

record 's mutator =
  mu_get :: "bytes \<Rightarrow> ('s, error, bytes option) op"
  mu_scan :: "bytes option \<Rightarrow> bytes option \<Rightarrow> ('s, error, item result list) op"
  mu_put :: "bytes \<Rightarrow> bytes \<Rightarrow> ('s, error, unit) op"
  mu_delete :: "bytes \<Rightarrow> ('s, error, unit) op"

function merge_stream :: "merge_iter \<Rightarrow> item result list" where
  "merge_stream m =
     (case merge_next m of
        (Inl e, _) \<Rightarrow> [Inl e]
      | (Inr None, _) \<Rightarrow> []
      | (Inr (Some x), m) \<Rightarrow> Inr x # merge_stream m)"
  by pat_completeness auto
termination
  by (relation "measure mi_left") (auto dest!: sym[of _ "merge_next _"] merge_next_progress)

declare merge_stream.simps [simp del]

text \<open>\<^verbatim>\<open>collect\<close> into a \<^verbatim>\<open>Result\<close>: the items, or the first error.\<close>

definition collectE :: "'a result list \<Rightarrow> 'a list result" where
  "collectE xs = mapE (\<lambda>x. x) xs"

definition mu_rows :: "'s mutator \<Rightarrow> bytes option \<Rightarrow> bytes option \<Rightarrow> ('s, error, item list) op" where
  "mu_rows mu start stop = bindS (mu_scan mu start stop) (\<lambda>xs. liftS (collectE xs))"

definition direct_mutator :: "(bytes \<Rightarrow> 32 word) \<Rightarrow> database mutator" where
  "direct_mutator crc = \<lparr>mu_get = db_get,
     mu_scan = (\<lambda>start stop. bindS (scan_stream start stop) (\<lambda>m. retS (merge_stream m))),
     mu_put = db_put crc, mu_delete = db_delete crc\<rparr>"

lemma collectE_simps [simp]:
  "collectE [] = Inr []" "collectE (Inl e # xs) = Inl e"
  "collectE (Inr x # xs) = bindE (collectE xs) (\<lambda>ys. Inr (x # ys))"
  by (simp_all add: collectE_def)

lemma collectE_map_Inr [simp]: "collectE (map Inr xs) = Inr xs"
  by (induction xs) simp_all

lemma collectE_eq_Inr: "collectE xs = Inr ys \<longleftrightarrow> xs = map Inr ys"
proof (induction xs arbitrary: ys)
  case (Cons x xs)
  then show ?case by (cases x) (auto simp: bindE_eq_Inr)
qed auto

lemma collect_merge_stream: "collectE (merge_stream m) = fst (merge_collect m)"
proof (induction m rule: merge_stream.induct)
  case (1 m)
  show ?case
    using 1 by (subst merge_stream.simps, subst merge_collect.simps)
      (auto split: prod.split sum.split option.split simp: bindE_def)
qed

text \<open>A write of either kind: \<^verbatim>\<open>None\<close> deletes.\<close>

definition mu_write :: "'s mutator \<Rightarrow> bytes \<times> bytes option \<Rightarrow> ('s, error, unit) op" where
  "mu_write mu w = (case snd w of Some v \<Rightarrow> mu_put mu (fst w) v | None \<Rightarrow> mu_delete mu (fst w))"

section \<open>Its laws\<close>

text \<open>
  \<open>ent\<close> is what the view holds for a key: nothing, a tombstone or a value. Reads do not change it; a scan
  returns the entries of the range in order.
\<close>

locale kv_read =
  fixes mu :: "'s mutator" and ok :: "'s \<Rightarrow> bool" and ent :: "'s \<Rightarrow> bytes \<Rightarrow> entry option"
  assumes get: "ok s \<Longrightarrow> \<exists>s'. mu_get mu k s = (Inr (flat (ent s k)), s') \<and> ok s' \<and> ent s' = ent s"
    and scan: "ok s \<Longrightarrow> \<exists>out s'. mu_scan mu start stop s = (Inr (map Inr out), s') \<and> ok s' \<and> ent s' = ent s \<and>
        ssorted (map fst out) \<and> map_of out = (\<lambda>k. if in_range start stop k then ent s k else None)"

context kv_read
begin

lemma rows:
  "ok s \<Longrightarrow> \<exists>out s'. mu_rows mu start stop s = (Inr out, s') \<and> ok s' \<and> ent s' = ent s \<and>
     ssorted (map fst out) \<and> map_of out = (\<lambda>k. if in_range start stop k then ent s k else None)"
  using scan[of s start stop] by (auto simp: mu_rows_def bindS_def)

end

text \<open>A write the view has room for changes the value of its key only, and brings no other key into being.\<close>

locale kv_write = kv_read mu ok ent
  for mu :: "'s mutator" and ok and ent +
  fixes room :: "bytes \<times> bytes option \<Rightarrow> bool"
  assumes writing: "ok s \<Longrightarrow> room w \<Longrightarrow> \<exists>s'. mu_write mu w s = (Inr (), s') \<and> ok s' \<and>
      (\<lambda>k. flat (ent s' k)) = (\<lambda>k. flat (ent s k))(fst w := snd w) \<and>
      (\<forall>k. k \<noteq> fst w \<longrightarrow> ent s k = None \<longrightarrow> ent s' k = None)"

context kv_write
begin

lemma writes:
  assumes "ok s" and "\<forall>w \<in> set ws. room w"
  shows "\<exists>s'. forS ws (mu_write mu) s = (Inr (), s') \<and> ok s' \<and>
     (\<lambda>k. flat (ent s' k)) = apply_writes ws (\<lambda>k. flat (ent s k)) \<and>
     (\<forall>k. k \<notin> fst ` set ws \<longrightarrow> ent s k = None \<longrightarrow> ent s' k = None)"
  using assms
proof (induction ws arbitrary: s)
  case (Cons w ws)
  obtain s1 where w: "mu_write mu w s = (Inr (), s1)" "ok s1"
      "(\<lambda>k. flat (ent s1 k)) = (\<lambda>k. flat (ent s k))(fst w := snd w)"
      "\<forall>k. k \<noteq> fst w \<longrightarrow> ent s k = None \<longrightarrow> ent s1 k = None"
    using writing[of s w] Cons.prems by auto
  obtain s2 where "forS ws (mu_write mu) s1 = (Inr (), s2)" "ok s2"
      "(\<lambda>k. flat (ent s2 k)) = apply_writes ws (\<lambda>k. flat (ent s1 k))"
      "\<forall>k. k \<notin> fst ` set ws \<longrightarrow> ent s1 k = None \<longrightarrow> ent s2 k = None"
    using Cons.IH[OF w(2)] Cons.prems by auto
  then show ?case using w by (intro exI[of _ s2]) (simp add: bindS_def)
qed simp

end

section \<open>The direct view of the engine\<close>

text \<open>
  Memory between two writes: below the flush limit, and with a limit small enough that one more record
  still fits a table.
\<close>

definition mem_bounded :: "nat \<Rightarrow> database \<Rightarrow> bool" where
  "mem_bounded B db \<longleftrightarrow> (\<forall>kv \<in> set (mt_map (db_memtable db)). fst kv \<noteq> []) \<and>
     (mt_map (db_memtable db) = [] \<or> mt_size_bytes (db_memtable db) < memtable_limit (db_opts db)) \<and>
     22 * memtable_limit (db_opts db) + B < 2 ^ 32"

definition direct_ok :: "nat \<Rightarrow> database \<Rightarrow> bool" where
  "direct_ok B db \<longleftrightarrow> db_inv db \<and> db_fits B db \<and> mem_bounded B db"

definition direct_room :: "nat \<Rightarrow> bytes \<times> bytes option \<Rightarrow> bool" where
  "direct_room B w \<longleftrightarrow> fst w \<noteq> [] \<and> item_size w + 21 \<le> B"

lemma table_size_bt_insert: "table_size (bt_insert k v m) \<le> table_size m + item_size (k, v) + 21"
  by (induction k v m rule: bt_insert.induct) (auto simp: table_size_def)

lemma table_size_keys: "\<forall>kv \<in> set m. fst kv \<noteq> [] \<Longrightarrow> table_size m \<le> 22 * sum_list (map item_size m)"
proof (induction m)
  case (Cons kv m)
  then have "Suc 0 \<le> length (fst kv)" by (cases "fst kv") simp_all
  then have "item_size kv + 21 \<le> 22 * item_size kv" unfolding item_size_def by (simp add: algebra_simps)
  then show ?case using Cons by (simp add: table_size_def)
qed (simp add: table_size_def)

lemma direct_put_room:
  assumes "direct_ok B db" and "direct_room B (k, v)"
  shows "put_room B k v db"
proof -
  let ?m = "db_memtable db"
  have mt: "mt_inv ?m" using assms(1) by (simp add: direct_ok_def db_inv_def)
  have "table_size (mt_map ?m) \<le> 22 * memtable_limit (db_opts db)"
    using assms(1) table_size_keys[of "mt_map ?m"] mt
    by (auto simp: direct_ok_def mem_bounded_def mt_inv_def)
  moreover have "item_size (k, v) + 21 \<le> B" using assms(2) by (simp add: direct_room_def)
  moreover have "22 * memtable_limit (db_opts db) + B < 2 ^ 32"
    using assms(1) by (simp add: direct_ok_def mem_bounded_def)
  ultimately show ?thesis
    using table_size_bt_insert[of k v "mt_map ?m"] by (simp add: put_room_def mt_put_def Let_def split: option.split)
qed

lemma mem_bounded_flushed: "mem_bounded B db \<Longrightarrow> db_opts db' = db_opts db \<Longrightarrow> mt_map (db_memtable db') = [] \<Longrightarrow> mem_bounded B db'"
  by (simp add: mem_bounded_def)

lemma put_internal_direct:
  assumes ok: "direct_ok B db" and room: "direct_room B (k, v)"
  shows "\<exists>db'. put_internal crc k v db = (Inr (), db') \<and> direct_ok B db' \<and>
     (\<lambda>k. flat (db_entry db' k)) = (\<lambda>k. flat (db_entry db k))(k := v) \<and>
     (\<forall>k'. k' \<noteq> k \<longrightarrow> db_entry db k' = None \<longrightarrow> db_entry db' k' = None)"
proof -
  let ?w = "written crc k v db"
  have i: "db_inv db" "db_fits B db" and mt: "mt_inv (db_memtable db)" and mb: "mem_bounded B db"
    using ok by (simp_all add: direct_ok_def db_inv_def)
  note pr = direct_put_room[OF ok room]
  obtain db' where p: "put_internal crc k v db = (Inr (), db')" "reorganised B ?w db'"
      "db_value db' = (db_value db)(k := v)"
    using put_internal_correct[OF i pr] by blast
  have e: "db_entry ?w k' = (if k' = k then Some v else db_entry db k')" for k'
    using mt by (simp add: entry_layers written_def flip: mt_get_def split: option.split)
  have none: "\<forall>k'. k' \<noteq> k \<longrightarrow> db_entry db k' = None \<longrightarrow> db_entry db' k' = None"
    using p(2) e by (simp add: reorganised_def)
  have keys: "\<forall>kv \<in> set (mt_map (db_memtable ?w)). fst kv \<noteq> []"
  proof
    fix kv assume "kv \<in> set (mt_map (db_memtable ?w))"
    then have "fst kv \<in> fst ` set (bt_insert k v (mt_map (db_memtable db)))"
      by (simp add: written_def mt_put_def Let_def)
    then show "fst kv \<noteq> []"
      using mb room by (auto simp: keys_bt_insert mem_bounded_def direct_room_def)
  qed
  have "mem_bounded B db'"
  proof (cases "memtable_limit (db_opts ?w) \<le> mt_size_bytes (db_memtable ?w)")
    case True
    have "db_inv ?w" "db_fits B ?w"
      using db_inv_mem_put[OF i(1)] db_fits_mem_put[OF i(2)] pr by (simp_all add: written_def put_room_def)
    then obtain d where "flush ?w = (Inr (), d)" "reorganised B ?w d" "mt_map (db_memtable d) = []"
      using flush_correct[of ?w B] pr by (auto simp: put_room_def written_def)
    then show ?thesis
      using True p(1) mb by (simp add: put_internal_def flush_if_over_limit_def written_def mem_bounded_def reorganised_def)
  next
    case False
    then have "db' = ?w" using p(1) by (simp add: put_internal_def flush_if_over_limit_def written_def)
    then show ?thesis
      using False mb keys by (simp add: mem_bounded_def) (simp add: written_def)
  qed
  moreover have "(\<lambda>k. flat (db_entry db' k)) = (\<lambda>k. flat (db_entry db k))(k := v)"
    using p(3) by (simp add: db_value_def fun_eq_iff)
  ultimately show ?thesis using p none by (auto simp: direct_ok_def reorganised_def)
qed

lemma direct_ok_cache: "direct_ok B db \<Longrightarrow> same_but_cache db db' \<Longrightarrow> db_inv db' \<Longrightarrow> direct_ok B db'"
  using same_but_cacheD[of db db'] by (simp add: direct_ok_def db_fits_def mem_bounded_def)

lemma direct_scan:
  assumes "db_inv db"
  shows "\<exists>out db'. mu_scan (direct_mutator crc) start stop db = (Inr (map Inr out), db') \<and> db_inv db' \<and> same_but_cache db db' \<and>
     ssorted (map fst out) \<and> map_of out = (\<lambda>k. if in_range start stop k then db_entry db k else None)"
proof -
  obtain m db' where m: "scan_stream start stop db = (Inr m, db')"
      "merge_state m (map (items_in start stop) (db_layers db))" "db_inv db'" "same_but_cache db db'"
    using scan_stream_correct[OF assms] by blast
  obtain items m' where i: "merge_collect m = (Inr items, m')"
      "merged (map (items_in start stop) (db_layers db)) items"
    using merge_collect_state[OF m(2)] by blast
  moreover have "merge_stream m = map Inr items"
    using i(1) collect_merge_stream[of m] by (simp add: collectE_eq_Inr)
  ultimately show ?thesis
    using m by (auto simp: direct_mutator_def bindS_def merged_def fun_eq_iff layers_items_in db_entry_def)
qed

interpretation direct: kv_write "direct_mutator crc" "direct_ok B" db_entry "direct_room B"
  for crc B
proof
  fix s :: database and k start stop w
  assume ok: "direct_ok B s"
  then have i: "db_inv s" by (simp add: direct_ok_def)
  show "\<exists>s'. mu_get (direct_mutator crc) k s = (Inr (flat (db_entry s k)), s') \<and> direct_ok B s' \<and> db_entry s' = db_entry s"
    using db_get_correct[OF i, of k] direct_ok_cache[OF ok] same_but_cacheD(4)
    by (auto simp: direct_mutator_def db_value_def)
  show "\<exists>out s'. mu_scan (direct_mutator crc) start stop s = (Inr (map Inr out), s') \<and> direct_ok B s' \<and> db_entry s' = db_entry s \<and>
      ssorted (map fst out) \<and> map_of out = (\<lambda>k. if in_range start stop k then db_entry s k else None)"
  proof -
    obtain out s' where d: "mu_scan (direct_mutator crc) start stop s = (Inr (map Inr out), s')" "db_inv s'" "same_but_cache s s'"
        "ssorted (map fst out)" "map_of out = (\<lambda>k. if in_range start stop k then db_entry s k else None)"
      using direct_scan[OF i, of crc start stop] by blast
    then show ?thesis using direct_ok_cache[OF ok d(3,2)] same_but_cacheD(4)[OF d(3)]
      by (intro exI[of _ out] exI[of _ s']) simp
  qed
  assume "direct_room B w"
  then show "\<exists>s'. mu_write (direct_mutator crc) w s = (Inr (), s') \<and> direct_ok B s' \<and>
      (\<lambda>k. flat (db_entry s' k)) = (\<lambda>k. flat (db_entry s k))(fst w := snd w) \<and>
      (\<forall>k. k \<noteq> fst w \<longrightarrow> db_entry s k = None \<longrightarrow> db_entry s' k = None)"
    using put_internal_direct[OF ok, of "fst w" "snd w" crc]
    by (cases w; cases "snd w") (simp_all add: mu_write_def direct_mutator_def db_put_def db_delete_def)
qed

end
