(* ===== verification/Schema.thy ===== *)
theory Schema
  imports Manifest "HOL-Library.Product_Lexorder"
begin

text \<open>
  The registry of collections, fields and indexes (\<^verbatim>\<open>src/schema.rs\<close>): stable numbers for names, the
  definitions of the indexes with their build state, and the text file both are kept in. The hash maps of
  the program are association lists in key order: no operation depends on the order of a hash map, and the
  save sorts before it writes.
\<close>

section \<open>Definitions\<close>

datatype index_status = Building | Ready

definition status_code :: "index_status \<Rightarrow> bytes" where
  "status_code st = (case st of Building \<Rightarrow> str ''BUILDING'' | Ready \<Rightarrow> str ''READY'')"

definition from_code :: "bytes \<Rightarrow> index_status result" where
  "from_code s = (if s = str ''BUILDING'' then Inr Building
     else if s = str ''READY'' then Inr Ready
     else Inl (InvalidFormat (str ''unknown index status'')))"

record index_def =
  ix_id :: "32 word"
  ix_collection_id :: "32 word"
  ix_field_ids :: "32 word list"
  ix_status :: index_status

record schema =
  sc_next_collection_id :: "32 word"
  sc_next_field_id :: "32 word"
  sc_collection_name :: "(32 word \<times> bytes) list"
  sc_collection_id_of :: "(bytes \<times> 32 word) list"
  sc_field_name :: "((32 word \<times> 32 word) \<times> bytes) list"
  sc_field_id_of :: "((32 word \<times> bytes) \<times> 32 word) list"
  sc_changed :: bool
  sc_next_index_id :: "32 word"
  sc_indexes :: "index_def list"

definition schema_new :: schema where
  "schema_new = \<lparr>sc_next_collection_id = 0, sc_next_field_id = 0, sc_collection_name = [],
     sc_collection_id_of = [], sc_field_name = [], sc_field_id_of = [], sc_changed = False,
     sc_next_index_id = 0, sc_indexes = []\<rparr>"

section \<open>Names\<close>

definition collection_id :: "bytes \<Rightarrow> schema \<Rightarrow> 32 word \<times> schema" where
  "collection_id name s = (case map_of (sc_collection_id_of s) name of
     Some i \<Rightarrow> (i, s)
   | None \<Rightarrow>
       (let i = sc_next_collection_id s in
        (i, s\<lparr>sc_next_collection_id := i + 1, sc_changed := True,
              sc_collection_name := bt_insert i name (sc_collection_name s),
              sc_collection_id_of := bt_insert name i (sc_collection_id_of s)\<rparr>)))"

definition lookup_collection_id :: "bytes \<Rightarrow> schema \<Rightarrow> 32 word option" where
  "lookup_collection_id name s = map_of (sc_collection_id_of s) name"

definition lookup_field_id :: "32 word \<Rightarrow> bytes \<Rightarrow> schema \<Rightarrow> 32 word option" where
  "lookup_field_id c name s = map_of (sc_field_id_of s) (c, name)"

definition field_id :: "32 word \<Rightarrow> bytes \<Rightarrow> schema \<Rightarrow> 32 word \<times> schema" where
  "field_id c name s = (case map_of (sc_field_id_of s) (c, name) of
     Some i \<Rightarrow> (i, s)
   | None \<Rightarrow>
       (let i = sc_next_field_id s in
        (i, s\<lparr>sc_next_field_id := i + 1, sc_changed := True,
              sc_field_name := bt_insert (c, i) name (sc_field_name s),
              sc_field_id_of := bt_insert (c, name) i (sc_field_id_of s)\<rparr>)))"

definition collection_name :: "32 word \<Rightarrow> schema \<Rightarrow> bytes option" where
  "collection_name i s = map_of (sc_collection_name s) i"

definition field_name :: "32 word \<Rightarrow> 32 word \<Rightarrow> schema \<Rightarrow> bytes option" where
  "field_name c f s = map_of (sc_field_name s) (c, f)"

definition is_changed :: "schema \<Rightarrow> bool" where
  "is_changed s = sc_changed s"

section \<open>Indexes\<close>

definition find_index_by_fields :: "32 word \<Rightarrow> 32 word list \<Rightarrow> schema \<Rightarrow> index_def option" where
  "find_index_by_fields c fids s = find (\<lambda>i. ix_collection_id i = c \<and> ix_field_ids i = fids) (sc_indexes s)"

definition create_composite_index :: "32 word \<Rightarrow> 32 word list \<Rightarrow> schema \<Rightarrow> 32 word \<times> schema" where
  "create_composite_index c fids s =
     (case find (\<lambda>i. ix_collection_id i = c \<and> ix_field_ids i = fids) (sc_indexes s) of
        Some i \<Rightarrow> (ix_id i, s)
      | None \<Rightarrow>
          (let i = sc_next_index_id s in
           (i, s\<lparr>sc_next_index_id := i + 1, sc_changed := True,
                 sc_indexes := sc_indexes s @ [\<lparr>ix_id = i, ix_collection_id = c, ix_field_ids = fids,
                                               ix_status = Building\<rparr>]\<rparr>)))"

definition create_index :: "32 word \<Rightarrow> 32 word \<Rightarrow> schema \<Rightarrow> 32 word \<times> schema" where
  "create_index c f = create_composite_index c [f]"

text \<open>\<^verbatim>\<open>iter_mut().find(p)\<close> and an assignment to what it finds.\<close>

fun update_first :: "('a \<Rightarrow> bool) \<Rightarrow> ('a \<Rightarrow> 'a) \<Rightarrow> 'a list \<Rightarrow> 'a list" where
  "update_first p f [] = []"
| "update_first p f (x # xs) = (if p x then f x # xs else x # update_first p f xs)"

definition set_index_ready :: "32 word \<Rightarrow> schema \<Rightarrow> schema" where
  "set_index_ready i s = (case find (\<lambda>d. ix_id d = i) (sc_indexes s) of
     None \<Rightarrow> s
   | Some d \<Rightarrow>
       if ix_status d \<noteq> Ready
       then s\<lparr>sc_indexes := update_first (\<lambda>d. ix_id d = i) (\<lambda>d. d\<lparr>ix_status := Ready\<rparr>) (sc_indexes s),
              sc_changed := True\<rparr>
       else s)"

definition drop_index :: "32 word \<Rightarrow> schema \<Rightarrow> schema" where
  "drop_index i s =
     (let rest = filter (\<lambda>d. ix_id d \<noteq> i) (sc_indexes s) in
      s\<lparr>sc_indexes := rest, sc_changed := (sc_changed s \<or> length rest \<noteq> length (sc_indexes s))\<rparr>)"

definition find_index :: "32 word \<Rightarrow> 32 word \<Rightarrow> schema \<Rightarrow> index_def option" where
  "find_index c f s = find (\<lambda>i. ix_collection_id i = c \<and> length (ix_field_ids i) = 1 \<and> ix_field_ids i ! 0 = f) (sc_indexes s)"

definition index_by_id :: "32 word \<Rightarrow> schema \<Rightarrow> index_def option" where
  "index_by_id i s = find (\<lambda>d. ix_id d = i) (sc_indexes s)"

definition building_indexes :: "schema \<Rightarrow> index_def list" where
  "building_indexes s = filter (\<lambda>d. ix_status d = Building) (sc_indexes s)"

section \<open>The file\<close>

text \<open>\<^verbatim>\<open>str::replace\<close>: non-overlapping matches from the left, for a pattern that is not empty.\<close>

function replace_all :: "bytes \<Rightarrow> bytes \<Rightarrow> bytes \<Rightarrow> bytes" where
  "replace_all pat to s =
     (if s = [] \<or> pat = [] then s
      else if take (length pat) s = pat then to @ replace_all pat to (drop (length pat) s)
      else hd s # replace_all pat to (tl s))"
  by pat_completeness auto
termination
  by (relation "measure (\<lambda>(_, _, s). length s)") auto

declare replace_all.simps [simp del]

definition escape :: "bytes \<Rightarrow> bytes" where
  "escape s = replace_all (str '' '') (str ''%20'') (replace_all (str ''%'') (str ''%25'') s)"

definition unescape :: "bytes \<Rightarrow> bytes" where
  "unescape s = replace_all (str ''%25'') (str ''%'') (replace_all (str ''%20'') (str '' '') s)"

definition dec32 :: "32 word \<Rightarrow> bytes" where
  "dec32 i = dec (unat i)"

definition collection_line :: "32 word \<times> bytes \<Rightarrow> bytes" where
  "collection_line e = join_words [str ''C'', dec32 (fst e), escape (snd e)]"

definition field_line :: "(32 word \<times> 32 word) \<times> bytes \<Rightarrow> bytes" where
  "field_line e = join_words [str ''F'', dec32 (fst (fst e)), dec32 (snd (fst e)), escape (snd e)]"

definition index_line :: "index_def \<Rightarrow> bytes" where
  "index_line i = join_words [str ''IX'', dec32 (ix_id i), dec32 (ix_collection_id i), status_code (ix_status i),
     dec (length (ix_field_ids i))] @ 32 # join_words (map dec32 (ix_field_ids i))"

definition schema_lines :: "schema \<Rightarrow> bytes list" where
  "schema_lines s =
     [join_words [str ''NC'', dec32 (sc_next_collection_id s)], join_words [str ''NF'', dec32 (sc_next_field_id s)]]
     @ map collection_line (sort_key fst (sc_collection_name s))
     @ map field_line (sort_key fst (sc_field_name s))
     @ [join_words [str ''NI'', dec32 (sc_next_index_id s)]]
     @ map index_line (sort_key ix_id (sc_indexes s))"

definition schema_text :: "schema \<Rightarrow> bytes" where
  "schema_text s = concat (map (\<lambda>l. l @ [10]) (schema_lines s))"

text \<open>
  \<^verbatim>\<open>Path::with_extension\<close> on a file name: what follows the last dot is replaced, and a name with no dot,
  or with its only dot in front, is extended.
\<close>

definition with_extension :: "bytes \<Rightarrow> bytes \<Rightarrow> bytes" where
  "with_extension name ext =
     (let rest = dropWhile (\<lambda>b. b \<noteq> 46) (rev name);
          stem = (if length rest < 2 \<or> name = str ''..'' then name else rev (tl rest))
      in stem @ 46 # ext)"

text \<open>\<^verbatim>\<open>save\<close> writes through a temporary file beside the target.\<close>

definition schema_save :: "bytes \<Rightarrow> schema \<Rightarrow> dir \<Rightarrow> schema \<times> dir" where
  "schema_save path s d =
     (s\<lparr>sc_changed := False\<rparr>, fs_replace (with_extension path (str ''schema.tmp'')) path (schema_text s) d)"

definition next_u32 :: "bytes \<Rightarrow> bytes \<Rightarrow> bytes list \<Rightarrow> (32 word \<times> bytes list) result" where
  "next_u32 missing bad parts =
     bindE (next_part missing parts) (\<lambda>(p, r).
     bindE (ok_or (parse_uint (2 ^ 32) p) (InvalidFormat bad)) (\<lambda>n. Inr (word_of_nat n, r)))"

definition parse_field_id :: "bytes \<Rightarrow> 32 word result" where
  "parse_field_id w = bindE (ok_or (parse_uint (2 ^ 32) w) (InvalidFormat (str ''schema IX field'')))
     (\<lambda>n. Inr (word_of_nat n))"

definition load_index :: "32 word \<Rightarrow> 32 word \<Rightarrow> bytes list \<Rightarrow> index_def result" where
  "load_index i c rest =
     (if length rest = 2 then
        bindE (parse_field_id (rest ! 0)) (\<lambda>f.
        bindE (from_code (rest ! 1)) (\<lambda>st.
          Inr \<lparr>ix_id = i, ix_collection_id = c, ix_field_ids = [f], ix_status = st\<rparr>))
      else if 3 \<le> length rest then
        bindE (from_code (rest ! 0)) (\<lambda>st.
        bindE (ok_or (parse_uint (2 ^ 64) (rest ! 1)) (InvalidFormat (str ''schema IX nfields''))) (\<lambda>n.
          if length rest - 2 \<noteq> n then Inl (InvalidFormat (str ''schema IX nfields mismatch''))
          else bindE (mapE parse_field_id (drop 2 rest)) (\<lambda>fids.
            Inr \<lparr>ix_id = i, ix_collection_id = c, ix_field_ids = fids, ix_status = st\<rparr>)))
      else Inl (InvalidFormat (str ''schema IX malformed'')))"

definition schema_line :: "bytes \<Rightarrow> schema \<Rightarrow> schema result" where
  "schema_line line s = (case split_whitespace line of
     [] \<Rightarrow> Inr s
   | tag # parts \<Rightarrow>
     if tag = str ''NC'' then
       bindE (next_u32 (str ''schema NC'') (str ''schema NC id'') parts) (\<lambda>(n, _). Inr (s\<lparr>sc_next_collection_id := n\<rparr>))
     else if tag = str ''NF'' then
       bindE (next_u32 (str ''schema NF'') (str ''schema NF id'') parts) (\<lambda>(n, _). Inr (s\<lparr>sc_next_field_id := n\<rparr>))
     else if tag = str ''C'' then
       bindE (next_u32 (str ''schema C id'') (str ''schema C'') parts) (\<lambda>(i, parts).
       bindE (next_part (str ''schema C name'') parts) (\<lambda>(name, _).
         let name = unescape name in
         Inr (s\<lparr>sc_collection_name := bt_insert i name (sc_collection_name s),
                sc_collection_id_of := bt_insert name i (sc_collection_id_of s)\<rparr>)))
     else if tag = str ''F'' then
       bindE (next_u32 (str ''schema F col'') (str ''schema F'') parts) (\<lambda>(c, parts).
       bindE (next_u32 (str ''schema F field'') (str ''schema F field'') parts) (\<lambda>(f, parts).
       bindE (next_part (str ''schema F name'') parts) (\<lambda>(name, _).
         let name = unescape name in
         Inr (s\<lparr>sc_field_name := bt_insert (c, f) name (sc_field_name s),
                sc_field_id_of := bt_insert (c, name) f (sc_field_id_of s)\<rparr>))))
     else if tag = str ''NI'' then
       bindE (next_u32 (str ''schema NI'') (str ''schema NI id'') parts) (\<lambda>(n, _). Inr (s\<lparr>sc_next_index_id := n\<rparr>))
     else if tag = str ''IX'' then
       bindE (next_u32 (str ''schema IX id'') (str ''schema IX id'') parts) (\<lambda>(i, parts).
       bindE (next_u32 (str ''schema IX col'') (str ''schema IX col'') parts) (\<lambda>(c, rest).
       bindE (load_index i c rest) (\<lambda>d. Inr (s\<lparr>sc_indexes := sc_indexes s @ [d]\<rparr>))))
     else Inr s)"

fun schema_parse :: "bytes list \<Rightarrow> schema \<Rightarrow> schema result" where
  "schema_parse [] s = Inr s"
| "schema_parse (l # ls) s = bindE (schema_line l s) (schema_parse ls)"

definition schema_load :: "bytes \<Rightarrow> dir \<Rightarrow> schema result" where
  "schema_load path d =
     (if \<not> fs_exists path d then Inr schema_new
      else bindE (fs_read_to_string path d) (\<lambda>text. schema_parse (lines text) schema_new))"

section \<open>Escaped names\<close>

lemma replace_all_Nil [simp]: "replace_all pat to [] = []"
  by (simp add: replace_all.simps)

lemma replace_byte_Cons [simp]: "replace_all [a] to (b # s) = (if a = b then to else [b]) @ replace_all [a] to s"
  by (subst replace_all.simps) auto

text \<open>The escape of one byte at a time, and what undoing it meets.\<close>

definition esc :: "byte \<Rightarrow> bytes" where
  "esc b = (if b = 37 then [37, 50, 53] else if b = 32 then [37, 50, 48] else [b])"

lemma escape_concat: "escape s = concat (map esc s)"
proof -
  have "replace_all [32] [37, 50, 48] (replace_all [37] [37, 50, 53] s) = concat (map esc s)"
    by (induction s) (simp_all add: esc_def)
  then show ?thesis by (simp add: escape_def str_def)
qed

lemma replace_all_skip:
  "take (length pat) (b # s) \<noteq> pat \<Longrightarrow> pat \<noteq> [] \<Longrightarrow> replace_all pat to (b # s) = b # replace_all pat to s"
  by (subst replace_all.simps) simp

lemma replace_all_hit: "pat \<noteq> [] \<Longrightarrow> replace_all pat to (pat @ s) = to @ replace_all pat to s"
  by (subst replace_all.simps) simp

lemma unescape_space:
  "replace_all [37, 50, 48] [32] (concat (map esc s)) = concat (map (\<lambda>b. if b = 37 then [37, 50, 53] else [b]) s)"
proof (induction s)
  case (Cons b s)
  have "replace_all [37, 50, 48] [32] (37 # 50 # 53 # t) = 37 # 50 # 53 # replace_all [37, 50, 48] [32] t" for t
    by (simp add: replace_all_skip)
  moreover have "replace_all [37, 50, 48] [32] (37 # 50 # 48 # t) = 32 # replace_all [37, 50, 48] [32] t" for t
    using replace_all_hit[of "[37, 50, 48]" "[32]" t] by simp
  ultimately show ?case using Cons by (simp add: esc_def replace_all_skip)
qed simp

lemma unescape_percent: "replace_all [37, 50, 53] [37] (concat (map (\<lambda>b. if b = 37 then [37, 50, 53] else [b]) s)) = s"
proof (induction s)
  case (Cons b s)
  have "replace_all [37, 50, 53] [37] (37 # 50 # 53 # t) = 37 # replace_all [37, 50, 53] [37] t" for t
    using replace_all_hit[of "[37, 50, 53]" "[37]" t] by simp
  then show ?case using Cons by (simp add: replace_all_skip)
qed simp

lemma name_unescape_escape [simp]: "unescape (escape s) = s"
  unfolding unescape_def escape_concat by (simp add: str_def unescape_space unescape_percent)

lemma escape_Nil_iff [simp]: "escape s = [] \<longleftrightarrow> s = []"
  by (cases s) (simp_all add: escape_concat esc_def)

section \<open>Lines of words\<close>

text \<open>A token contains no white space at all, but may contain characters beyond ASCII.\<close>

definition token :: "bytes \<Rightarrow> bool" where
  "token w \<longleftrightarrow> w \<noteq> [] \<and> utf8_valid w \<and> (\<forall>i < length w. ws_len (drop i w) = 0)"

lemma word_ok_token: "word_ok w \<Longrightarrow> token w"
proof -
  assume a: "word_ok w"
  have "ws_len (drop i w) = 0" if "i < length w" for i
  proof -
    have "w ! i \<in> set w" using that by simp
    then have "33 \<le> w ! i \<and> w ! i < 0x80" using a by (simp add: word_ok_def visible_def)
    then show ?thesis using ws_len_visible Cons_nth_drop_Suc[OF that, symmetric] by metis
  qed
  moreover have "utf8_valid w" using a by (intro utf8_valid_ascii) (auto simp: word_ok_def visible_def)
  ultimately show ?thesis using a by (simp add: token_def word_ok_def)
qed

lemma ws_len_space: "u \<noteq> [] \<Longrightarrow> ws_len u = 0 \<Longrightarrow> ws_len (u @ 32 # s) = 0"
proof -
  assume a: "u \<noteq> []" "ws_len u = 0"
  consider b where "u = [b]" | b c where "u = [b, c]" | b c d r where "u = b # c # d # r"
    using a(1) by (metis list.exhaust)
  then show ?thesis using a(2) by cases (auto simp: ws_len_def split: if_splits list.splits)
qed

lemma split_ws_token: "\<forall>i < length w. ws_len (drop i w) = 0 \<Longrightarrow>
    split_ws cur (w @ 32 # s) = split_ws (cur @ w) (32 # s) \<and> split_ws cur w = split_ws (cur @ w) []"
proof (induction w arbitrary: cur)
  case (Cons b w)
  have 0: "ws_len (b # w) = 0" using Cons.prems by force
  have "ws_len (b # w @ 32 # s) = 0" using ws_len_space[OF _ 0] by simp
  moreover have "\<forall>i < length w. ws_len (drop i w) = 0"
  proof (intro allI impI)
    fix i assume "i < length w"
    then show "ws_len (drop i w) = 0" using Cons.prems[rule_format, of "Suc i"] by simp
  qed
  ultimately show ?case using 0 Cons.IH[of "cur @ [b]"] by simp
qed simp

lemma split_token [simp]:
  "token w \<Longrightarrow> split_whitespace (w @ 32 # s) = w # split_whitespace s"
  "token w \<Longrightarrow> split_whitespace w = [w]"
  using split_ws_token[of w "[]" s] by (simp_all add: split_whitespace_def token_def ws_len_def)

lemma split_tokens: "\<forall>w \<in> set ws. token w \<Longrightarrow> split_whitespace (join_words ws) = ws"
proof (induction ws)
  case (Cons w ws)
  then show ?case by (cases ws) (simp_all add: join_words_def)
qed (simp add: join_words_def)

lemma token_line:
  assumes "token w"
  shows "10 \<notin> set w" and "13 \<notin> set w"
proof -
  have "b \<notin> set w" if "9 \<le> b \<and> b \<le> 13" for b
  proof
    assume "b \<in> set w"
    then obtain i where i: "i < length w" "w ! i = b" by (metis in_set_conv_nth)
    then have "ws_len (drop i w) = 1" using that by (simp add: Cons_nth_drop_Suc[symmetric] ws_len_def)
    then show False using assms i(1) by (simp add: token_def)
  qed
  from this[of 10] this[of 13] show "10 \<notin> set w" "13 \<notin> set w" by simp_all
qed

lemma utf8_valid_append: "utf8_valid a \<Longrightarrow> utf8_valid (a @ b) = utf8_valid b"
proof (induction a rule: length_induct)
  case (1 a)
  show ?case
  proof (cases a)
    case (Cons b0 bs)
    note a = Cons
    show ?thesis
    proof (cases "b0 < 0x80")
      case True
      then show ?thesis using 1 a by simp
    next
      case nascii: False
      then obtain c1 bs1 where c1: "bs = c1 # bs1" using 1(2) a by (cases bs) simp_all
      show ?thesis
      proof (cases "0xC2 \<le> b0 \<and> b0 \<le> 0xDF")
        case True
        then show ?thesis using 1 a c1 nascii by simp
      next
        case n2: False
        then obtain c2 bs2 where c2: "bs1 = c2 # bs2" using 1(2) a c1 nascii by (cases bs1) (auto split: if_splits)
        show ?thesis
        proof (cases "b0 = 0xE0 \<or> b0 = 0xED \<or> 0xE1 \<le> b0 \<and> b0 \<le> 0xEF")
          case True
          then have v: "utf8_valid bs2" using 1(2) a c1 c2 nascii n2 by (auto split: if_splits)
          consider "b0 = 0xE0" | "b0 = 0xED" | "b0 \<noteq> 0xE0" "b0 \<noteq> 0xED" "0xE1 \<le> b0 \<and> b0 \<le> 0xEF"
            using True by blast
          then show ?thesis using v 1(1,2) a c1 c2 nascii by cases (simp_all add: n2[simplified eq_False[symmetric]])
        next
          case n3: False
          then obtain c3 bs3 where c3: "bs2 = c3 # bs3" using 1(2) a c1 c2 nascii n2 by (cases bs2) (auto split: if_splits)
          have e: "b0 \<noteq> 0xE0" "b0 \<noteq> 0xED" "(0xE1 \<le> b0 \<and> b0 \<le> 0xEF) = False"
            "(0xC2 \<le> b0 \<and> b0 \<le> 0xDF) = False" using n3 n2 by simp_all
          have "utf8_valid bs3" using 1(2) a c1 c2 c3 nascii by (simp add: e)
          then show ?thesis using 1(1,2) a c1 c2 c3 nascii by (simp add: e)
        qed
      qed
    qed
  qed simp
qed

lemma utf8_words: "\<forall>w \<in> set ws. token w \<Longrightarrow> utf8_valid (join_words ws)"
proof (induction ws)
  case (Cons w ws)
  then have "utf8_valid w" "utf8_valid (join_words ws)" by (simp_all add: token_def)
  moreover have "join_words (w # ws) = w @ (if ws = [] then [] else 32 # join_words ws)"
    by (cases ws) (simp_all add: join_words_def)
  ultimately show ?case by (simp add: utf8_valid_append)
qed (simp add: join_words_def)

end
