(* ===== verification/Registry.thy ===== *)
theory Registry
  imports Schema
begin

text \<open>
  The registry's invariant, its operations, and the round trip of its file: names and numbers stay in
  one-to-one correspondence, no operation changes a number once given, and what a save writes a load reads
  back; with the two cases where it cannot.
\<close>

section \<open>The invariant\<close>

text \<open>Names and numbers of the collections, and of the fields of each collection, determine each other.\<close>

definition one_to_one :: "('a \<Rightarrow> 'b option) \<Rightarrow> ('b \<Rightarrow> 'a option) \<Rightarrow> bool" where
  "one_to_one f g \<longleftrightarrow> (\<forall>i n. f i = Some n \<longleftrightarrow> g n = Some i)"

definition below :: "'a::len word \<Rightarrow> ('a word \<Rightarrow> 'b option) \<Rightarrow> bool" where
  "below k f \<longleftrightarrow> (\<forall>i n. f i = Some n \<longrightarrow> i < k)"

definition collections_inv :: "schema \<Rightarrow> bool" where
  "collections_inv s \<longleftrightarrow>
     ssorted (map fst (sc_collection_name s)) \<and> ssorted (map fst (sc_collection_id_of s)) \<and>
     one_to_one (map_of (sc_collection_name s)) (map_of (sc_collection_id_of s)) \<and>
     below (sc_next_collection_id s) (map_of (sc_collection_name s))"

definition fields_inv :: "schema \<Rightarrow> bool" where
  "fields_inv s \<longleftrightarrow>
     ssorted (map fst (sc_field_name s)) \<and> ssorted (map fst (sc_field_id_of s)) \<and>
     (\<forall>c. one_to_one (\<lambda>f. map_of (sc_field_name s) (c, f)) (\<lambda>n. map_of (sc_field_id_of s) (c, n))) \<and>
     (\<forall>c. below (sc_next_field_id s) (\<lambda>f. map_of (sc_field_name s) (c, f)))"

definition indexes_inv :: "schema \<Rightarrow> bool" where
  "indexes_inv s \<longleftrightarrow>
     ssorted (map ix_id (sc_indexes s)) \<and> (\<forall>i \<in> set (map ix_id (sc_indexes s)). i < sc_next_index_id s) \<and>
     distinct (map (\<lambda>d. (ix_collection_id d, ix_field_ids d)) (sc_indexes s))"

definition schema_inv :: "schema \<Rightarrow> bool" where
  "schema_inv s \<longleftrightarrow> collections_inv s \<and> fields_inv s \<and> indexes_inv s"

lemmas schema_inv_defs = schema_inv_def collections_inv_def fields_inv_def indexes_inv_def

lemma schema_inv_new [simp]: "schema_inv schema_new"
  by (simp add: schema_inv_defs schema_new_def one_to_one_def below_def)

lemma one_to_one_upd: "one_to_one f g \<Longrightarrow> f i = None \<Longrightarrow> g n = None \<Longrightarrow> one_to_one (f(i \<mapsto> n)) (g(n \<mapsto> i))"
  unfolding one_to_one_def by (metis (mono_tags, lifting) fun_upd_apply option.inject option.distinct(1))

lemma one_to_one_None: "one_to_one f g \<Longrightarrow> g n = None \<Longrightarrow> f i \<noteq> Some n"
  by (simp add: one_to_one_def)

lemma below_None: "below k f \<Longrightarrow> f k = None"
  by (cases "f k") (auto simp: below_def)

lemma word_fresh: "(n :: 'a::len word) + 1 \<noteq> 0 \<Longrightarrow> a \<le> n \<Longrightarrow> a < n + 1"
  using unatSuc[of n] by (simp add: add.commute word_less_nat_alt word_le_nat_alt)

lemma below_upd:
  assumes "below k f" and "k + 1 \<noteq> 0"
  shows "below (k + 1) (f(k \<mapsto> n))"
  unfolding below_def
proof (intro allI impI)
  fix i m assume "(f(k \<mapsto> n)) i = Some m"
  then have "i = k \<or> i < k" using assms(1) by (auto simp: below_def split: if_splits)
  then have "i \<le> k" by auto
  then show "i < k + 1" by (rule word_fresh[OF assms(2)])
qed

lemma below_mono: "below k f \<Longrightarrow> k + 1 \<noteq> 0 \<Longrightarrow> below (k + 1) f"
  unfolding below_def using word_fresh by (metis order_less_imp_le)

lemma fresh_number:
  assumes "one_to_one f g" and "below k f" and "k + 1 \<noteq> 0" and "g n = None"
  shows "one_to_one (f(k \<mapsto> n)) (g(n \<mapsto> k)) \<and> below (k + 1) (f(k \<mapsto> n))"
  using one_to_one_upd[OF assms(1) below_None[OF assms(2)] assms(4)] below_upd[OF assms(2,3)] by simp

lemma collection_id_inv:
  assumes inv: "schema_inv s" and room: "sc_next_collection_id s + 1 \<noteq> 0"
  shows "schema_inv (snd (collection_id name s))"
proof (cases "map_of (sc_collection_id_of s) name")
  case None
  have c: "collections_inv s" using inv by (simp add: schema_inv_def)
  then have "collections_inv (snd (collection_id name s))"
    using None room fresh_number[of "map_of (sc_collection_name s)" "map_of (sc_collection_id_of s)" "sc_next_collection_id s" name]
    by (simp add: collection_id_def Let_def collections_inv_def)
  moreover have "fields_inv (snd (collection_id name s))" "indexes_inv (snd (collection_id name s))"
    using inv None by (simp_all add: schema_inv_defs collection_id_def Let_def)
  ultimately show ?thesis by (simp add: schema_inv_def)
qed (use inv in \<open>simp add: collection_id_def\<close>)

lemma field_id_inv:
  assumes inv: "schema_inv s" and room: "sc_next_field_id s + 1 \<noteq> 0"
  shows "schema_inv (snd (field_id c name s))"
proof (cases "map_of (sc_field_id_of s) (c, name)")
  case None
  let ?i = "sc_next_field_id s" and ?s = "snd (field_id c name s)"
  have f: "fields_inv s" using inv by (simp add: schema_inv_def)
  have maps: "(\<lambda>f. map_of (sc_field_name ?s) (c', f)) =
      (if c' = c then (\<lambda>f. map_of (sc_field_name s) (c', f))(?i \<mapsto> name) else (\<lambda>f. map_of (sc_field_name s) (c', f)))"
    "(\<lambda>n. map_of (sc_field_id_of ?s) (c', n)) =
      (if c' = c then (\<lambda>n. map_of (sc_field_id_of s) (c', n))(name \<mapsto> ?i) else (\<lambda>n. map_of (sc_field_id_of s) (c', n)))" for c'
    using f None by (auto simp: field_id_def Let_def fields_inv_def fun_eq_iff)
  have "fields_inv ?s"
    unfolding fields_inv_def
  proof (intro conjI allI)
    show "ssorted (map fst (sc_field_name ?s))" "ssorted (map fst (sc_field_id_of ?s))"
      using f None by (simp_all add: field_id_def Let_def fields_inv_def)
    have next': "sc_next_field_id ?s = ?i + 1" using None by (simp add: field_id_def Let_def)
    fix c'
    show "one_to_one (\<lambda>f. map_of (sc_field_name ?s) (c', f)) (\<lambda>n. map_of (sc_field_id_of ?s) (c', n))"
      using f room fresh_number[of "\<lambda>f. map_of (sc_field_name s) (c, f)" "\<lambda>n. map_of (sc_field_id_of s) (c, n)" ?i name] None
      by (simp add: maps fields_inv_def)
    show "below (sc_next_field_id ?s) (\<lambda>f. map_of (sc_field_name ?s) (c', f))"
      using f room below_upd[of ?i "\<lambda>f. map_of (sc_field_name s) (c, f)" name]
        below_mono[of ?i "\<lambda>f. map_of (sc_field_name s) (c', f)"] by (simp add: maps next' fields_inv_def)
  qed
  moreover have "collections_inv ?s" "indexes_inv ?s"
    using inv None by (simp_all add: schema_inv_defs field_id_def Let_def)
  ultimately show ?thesis by (simp add: schema_inv_def)
qed (use inv in \<open>simp add: field_id_def\<close>)

lemma indexes_only:
  "schema_inv s \<Longrightarrow> indexes_inv (s\<lparr>sc_next_index_id := n, sc_changed := b, sc_indexes := ds\<rparr>) \<Longrightarrow>
     schema_inv (s\<lparr>sc_next_index_id := n, sc_changed := b, sc_indexes := ds\<rparr>)"
  by (simp add: schema_inv_def collections_inv_def fields_inv_def)

lemma create_index_inv:
  assumes inv: "schema_inv s" and room: "sc_next_index_id s + 1 \<noteq> 0"
  shows "schema_inv (snd (create_composite_index c fids s))"
proof (cases "find (\<lambda>i. ix_collection_id i = c \<and> ix_field_ids i = fids) (sc_indexes s)")
  case None
  let ?d = "\<lparr>ix_id = sc_next_index_id s, ix_collection_id = c, ix_field_ids = fids, ix_status = Building\<rparr>"
  have new: "(c, fids) \<notin> set (map (\<lambda>d. (ix_collection_id d, ix_field_ids d)) (sc_indexes s))"
    using None by (auto simp: find_None_iff)
  have old: "i < sc_next_index_id s" if "i \<in> set (map ix_id (sc_indexes s))" for i
    using inv that unfolding schema_inv_def indexes_inv_def by blast
  have "i < sc_next_index_id s + 1" if "i \<in> set (map ix_id (sc_indexes s))" for i
    using word_fresh[OF room order_less_imp_le[OF old[OF that]]] .
  then have "indexes_inv (s\<lparr>sc_next_index_id := sc_next_index_id s + 1, sc_changed := True, sc_indexes := sc_indexes s @ [?d]\<rparr>)"
    using inv new old word_fresh[OF room order_refl]
    by (simp add: schema_inv_def indexes_inv_def sorted_wrt_append)
  from indexes_only[OF inv this] show ?thesis using None by (simp add: create_composite_index_def Let_def)
qed (use inv in \<open>simp add: create_composite_index_def\<close>)

lemma update_first_keys: "(\<And>x. g (f x) = g x) \<Longrightarrow> map g (update_first p f xs) = map g xs"
  by (induction xs) auto

lemma set_index_ready_inv:
  assumes "schema_inv s"
  shows "schema_inv (set_index_ready i s)"
proof -
  let ?u = "update_first (\<lambda>d. ix_id d = i) (\<lambda>d. d\<lparr>ix_status := Ready\<rparr>) (sc_indexes s)"
  have m: "map ix_id ?u = map ix_id (sc_indexes s)"
    "map (\<lambda>d. (ix_collection_id d, ix_field_ids d)) ?u = map (\<lambda>d. (ix_collection_id d, ix_field_ids d)) (sc_indexes s)"
    by (rule update_first_keys, simp)+
  have im: "ix_id d \<in> ix_id ` set (sc_indexes s)" if "d \<in> set ?u" for d
    using that arg_cong[OF m(1), of set] by auto
  from assms show ?thesis
    by (auto simp: schema_inv_defs set_index_ready_def m dest!: im split: option.split)
qed

lemma drop_index_inv: "schema_inv s \<Longrightarrow> schema_inv (drop_index i s)"
  by (simp add: schema_inv_defs drop_index_def Let_def distinct_map_filter sorted_wrt_map sorted_wrt_filter)

text \<open>
  C36: Asking for the number of a collection or of a field that has one answers that number and
  changes nothing; asking for a new name gives it a number no name of the schema has. No other name gets, loses or
  changes a number, so a key written under a number means the same collection and field for ever. The operations
  keep the one-to-one correspondence of names and numbers, as do those on indexes, as long as the counters of 32 bits
  do not wrap.
\<close>

theorem schema_ids_stable:
  assumes "schema_inv s" and "sc_next_collection_id s + 1 \<noteq> 0" and "sc_next_field_id s + 1 \<noteq> 0"
    and "sc_next_index_id s + 1 \<noteq> 0"
  shows "schema_inv (snd (collection_id name s)) \<and> schema_inv (snd (field_id c name s)) \<and>
     schema_inv (snd (create_composite_index c fids s)) \<and> schema_inv (set_index_ready i s) \<and> schema_inv (drop_index i s) \<and>
     (\<lambda>n. lookup_collection_id n (snd (collection_id name s))) =
       (\<lambda>n. lookup_collection_id n s)(name \<mapsto> fst (collection_id name s)) \<and>
     (\<lambda>(c, n). lookup_field_id c n (snd (field_id c' name s))) =
       (\<lambda>(c, n). lookup_field_id c n s)((c', name) \<mapsto> fst (field_id c' name s)) \<and>
     (\<forall>i. lookup_collection_id name s = Some i \<longrightarrow> collection_id name s = (i, s)) \<and>
     (\<forall>f. lookup_field_id c' name s = Some f \<longrightarrow> field_id c' name s = (f, s)) \<and>
     (lookup_collection_id name s = None \<longrightarrow> collection_name (fst (collection_id name s)) s = None) \<and>
     (lookup_field_id c' name s = None \<longrightarrow> field_name c' (fst (field_id c' name s)) s = None)"
proof -
  have fresh: "map_of (sc_collection_name s) (sc_next_collection_id s) = None"
    "map_of (sc_field_name s) (c', sc_next_field_id s) = None"
    using assms(1) below_None[of "sc_next_collection_id s"] below_None[of "sc_next_field_id s"]
    by (auto simp: schema_inv_defs)
  have srt: "ssorted (map fst (sc_collection_id_of s))" "ssorted (map fst (sc_field_id_of s))"
    using assms(1) by (simp_all add: schema_inv_defs)
  have "(\<lambda>n. lookup_collection_id n (snd (collection_id name s))) =
       (\<lambda>n. lookup_collection_id n s)(name \<mapsto> fst (collection_id name s))"
    using srt(1) by (auto simp: lookup_collection_id_def collection_id_def Let_def fun_eq_iff split: option.split)
  moreover have "(\<lambda>(c, n). lookup_field_id c n (snd (field_id c' name s))) =
       (\<lambda>(c, n). lookup_field_id c n s)((c', name) \<mapsto> fst (field_id c' name s))"
    using srt(2) by (auto simp: lookup_field_id_def field_id_def Let_def fun_eq_iff split: option.split)
  moreover have "\<forall>i. lookup_collection_id name s = Some i \<longrightarrow> collection_id name s = (i, s)"
      "\<forall>f. lookup_field_id c' name s = Some f \<longrightarrow> field_id c' name s = (f, s)"
    by (simp_all add: lookup_collection_id_def collection_id_def lookup_field_id_def field_id_def)
  moreover have "lookup_collection_id name s = None \<longrightarrow> collection_name (fst (collection_id name s)) s = None"
    using fresh(1) by (auto simp: lookup_collection_id_def collection_id_def collection_name_def Let_def)
  moreover have "lookup_field_id c' name s = None \<longrightarrow> field_name c' (fst (field_id c' name s)) s = None"
    using fresh(2) by (auto simp: lookup_field_id_def field_id_def field_name_def Let_def)
  ultimately show ?thesis
    using collection_id_inv[OF assms(1,2)] field_id_inv[OF assms(1,3)] create_index_inv[OF assms(1,4)]
      set_index_ready_inv[OF assms(1)] drop_index_inv[OF assms(1)] by blast
qed

text \<open>A schema with two collections, fields in both and an index.\<close>

definition sample_schema :: schema where
  "sample_schema =
     (let (u, s) = collection_id (str ''users'') schema_new; (a, s) = field_id u (str ''age'') s;
          (o', s) = collection_id (str ''order items'') s; (b, s) = field_id o' (str ''age'') s;
          (i, s) = create_composite_index u [a, b] s in set_index_ready i s)"

lemma sample_schema_eq:
  "sample_schema = \<lparr>sc_next_collection_id = 2, sc_next_field_id = 2,
     sc_collection_name = [(0, str ''users''), (1, str ''order items'')],
     sc_collection_id_of = [(str ''order items'', 1), (str ''users'', 0)],
     sc_field_name = [((0, 0), str ''age''), ((1, 1), str ''age'')],
     sc_field_id_of = [((0, str ''age''), 0), ((1, str ''age''), 1)],
     sc_changed = True, sc_next_index_id = 1,
     sc_indexes = [\<lparr>ix_id = 0, ix_collection_id = 0, ix_field_ids = [0, 1], ix_status = Ready\<rparr>]\<rparr>"
  by (simp add: sample_schema_def schema_new_def collection_id_def field_id_def create_composite_index_def
      set_index_ready_def Let_def str_def less_prod_def)

lemma sample_schema_inv: "schema_inv sample_schema"
  by (auto simp: sample_schema_eq schema_inv_defs one_to_one_def below_def str_def less_prod_def)

theorem schema_ids_stable_witness:
  "lookup_collection_id (str ''users'') (snd (collection_id (str ''new'') sample_schema)) = Some 0"
proof -
  have "(\<lambda>n. lookup_collection_id n (snd (collection_id (str ''new'') sample_schema))) =
      (\<lambda>n. lookup_collection_id n sample_schema)(str ''new'' \<mapsto> fst (collection_id (str ''new'') sample_schema))"
    using schema_ids_stable[OF sample_schema_inv, of "str ''new''"] by (simp add: sample_schema_eq)
  from fun_cong[OF this, of "str ''users''"] show ?thesis
    by (simp add: str_def lookup_collection_id_def sample_schema_eq)
qed

section \<open>The round trip of the file\<close>

text \<open>What inserting a list into an empty tree gives is the sorted list that represents the same map.\<close>

lemma fold_bt_insert_map:
  assumes "ssorted (map fst m)" and "distinct (map k xs)"
  shows "ssorted (map fst (fold (\<lambda>e. bt_insert (k e) (v e)) xs m)) \<and>
     map_of (fold (\<lambda>e. bt_insert (k e) (v e)) xs m) = map_of m ++ map_of (map (\<lambda>e. (k e, v e)) xs)"
  using assms
proof (induction xs arbitrary: m)
  case (Cons x xs)
  have "k x \<notin> dom (map_of (map (\<lambda>e. (k e, v e)) xs))" using Cons.prems(2) by (auto simp: dom_map_of_conv_image_fst)
  then show ?case using Cons.IH[of "bt_insert (k x) (v x) m"] Cons.prems
    by (auto simp: map_add_def fun_eq_iff domIff split: option.splits)
qed simp

lemma fold_bt_insert:
  assumes "ssorted (map fst ys)" and "distinct xs"
    and iff: "\<And>a b. map_of ys a = Some b \<longleftrightarrow> (\<exists>e \<in> set xs. k e = a \<and> v e = b)"
    and inj: "\<And>e e'. e \<in> set xs \<Longrightarrow> e' \<in> set xs \<Longrightarrow> k e = k e' \<Longrightarrow> v e = v e' \<Longrightarrow> e = e'"
  shows "fold (\<lambda>e. bt_insert (k e) (v e)) xs [] = ys"
proof (rule sorted_assoc_unique)
  have "inj_on k (set xs)"
  proof (rule inj_onI)
    fix e e' assume e: "e \<in> set xs" "e' \<in> set xs" "k e = k e'"
    have "map_of ys (k e) = Some (v e)" by (rule iffD2[OF iff]) (use e in blast)
    moreover have "map_of ys (k e) = Some (v e')" by (rule iffD2[OF iff], rule bexI[of _ e']) (use e in simp_all)
    ultimately have "v e = v e'" by simp
    with e show "e = e'" by (intro inj)
  qed
  then have d: "distinct (map k xs)" using assms(2) by (simp add: distinct_map)
  note f = fold_bt_insert_map[of "[]" k xs v]
  show "ssorted (map fst (fold (\<lambda>e. bt_insert (k e) (v e)) xs []))" using f d by simp
  have "map_of (map (\<lambda>e. (k e, v e)) xs) a = Some b \<longleftrightarrow> (\<exists>e \<in> set xs. k e = a \<and> v e = b)" for a b
    using d by (subst map_of_eq_Some_iff) (auto simp: comp_def)
  then have "map_of (map (\<lambda>e. (k e, v e)) xs) a = Some b \<longleftrightarrow> map_of ys a = Some b" for a b
    using iff[of a b] by simp
  then have "map_of (map (\<lambda>e. (k e, v e)) xs) = map_of ys" by (metis (no_types) not_None_eq ext)
  then show "map_of (fold (\<lambda>e. bt_insert (k e) (v e)) xs []) = map_of ys" using f d by simp
qed (rule assms(1))

lemma ssorted_in: "ssorted (map fst xs) \<Longrightarrow> distinct xs \<and> (\<forall>a b. map_of xs a = Some b \<longleftrightarrow> (a, b) \<in> set xs)"
  using ssorted_distinct[of "map fst xs"] by (simp add: distinct_map)

lemma rebuild_same: "ssorted (map fst xs) \<Longrightarrow> fold (\<lambda>e. bt_insert (fst e) (snd e)) xs [] = xs"
  using ssorted_in[of xs] by (intro fold_bt_insert) (simp_all add: Bex_def prod_eq_iff)

lemma rebuild_ids:
  assumes "ssorted (map fst xs)" and "ssorted (map fst ys)" and "one_to_one (map_of xs) (map_of ys)"
  shows "fold (\<lambda>e. bt_insert (snd e) (fst e)) xs [] = ys"
proof (rule fold_bt_insert)
  show "map_of ys n = Some i \<longleftrightarrow> (\<exists>e \<in> set xs. snd e = n \<and> fst e = i)" for n i
    using ssorted_in[OF assms(1)] assms(3) unfolding one_to_one_def Bex_def by simp
qed (use assms ssorted_in[OF assms(1)] in \<open>simp_all add: prod_eq_iff\<close>)

lemma rebuild_field_ids:
  assumes "ssorted (map fst xs)" and "ssorted (map fst ys)"
    and "\<forall>c. one_to_one (\<lambda>f. map_of xs (c, f)) (\<lambda>n. map_of ys (c, n))"
  shows "fold (\<lambda>e. bt_insert (fst (fst e), snd e) (snd (fst e))) xs [] = ys"
proof (rule fold_bt_insert)
  show "map_of ys cn = Some i \<longleftrightarrow> (\<exists>e \<in> set xs. (fst (fst e), snd e) = cn \<and> snd (fst e) = i)" for cn i
    using ssorted_in[OF assms(1)] assms(3) unfolding one_to_one_def Bex_def by (cases cn) simp
qed (use assms ssorted_in[OF assms(1)] in \<open>simp_all add: prod_eq_iff\<close>)

subsection \<open>Lines\<close>

lemma token_escape_number [simp]: "token (dec32 i)" "token (dec n)"
  by (simp_all add: dec32_def word_ok_token)

lemma token_tags [simp]: "token (str ''NC'')" "token (str ''NF'')" "token (str ''C'')" "token (str ''F'')"
  "token (str ''NI'')" "token (str ''IX'')" "token (status_code st)"
  by (rule word_ok_token, simp add: word_ok_def str_def)+
    (cases st; simp add: status_code_def word_ok_token word_ok_def str_def)

lemma schema_tags [simp]:
  "str ''NF'' \<noteq> str ''NC''" "str ''C'' \<noteq> str ''NC''" "str ''F'' \<noteq> str ''NC''" "str ''NI'' \<noteq> str ''NC''"
  "str ''IX'' \<noteq> str ''NC''" "str ''C'' \<noteq> str ''NF''" "str ''F'' \<noteq> str ''NF''" "str ''NI'' \<noteq> str ''NF''"
  "str ''IX'' \<noteq> str ''NF''" "str ''F'' \<noteq> str ''C''" "str ''NI'' \<noteq> str ''C''" "str ''IX'' \<noteq> str ''C''"
  "str ''NI'' \<noteq> str ''F''" "str ''IX'' \<noteq> str ''F''" "str ''IX'' \<noteq> str ''NI''"
  by (simp_all add: str_def)

lemma from_code_status [simp]: "from_code (status_code st) = Inr st"
  by (cases st) (simp_all add: from_code_def status_code_def str_def)

lemma parse_dec32 [simp]: "parse_uint 4294967296 (dec32 i) = Some (unat i)"
  using unsigned_less[of i] by (simp add: dec32_def parse_uint_dec)

lemma next_u32_dec [simp]: "next_u32 a b (dec32 i # r) = Inr (i, r)"
  by (simp add: next_u32_def next_part_def)

lemma parse_field_ids [simp]: "mapE parse_field_id (map dec32 fids) = Inr fids"
  by (induction fids) (simp_all add: parse_field_id_def)

definition schema_writable :: "schema \<Rightarrow> bool" where
  "schema_writable s \<longleftrightarrow>
     (\<forall>e \<in> set (sc_collection_name s). token (escape (snd e))) \<and>
     (\<forall>e \<in> set (sc_field_name s). token (escape (snd e))) \<and>
     (\<forall>d \<in> set (sc_indexes s). ix_field_ids d \<noteq> [] \<and> length (ix_field_ids d) < 2 ^ 64)"

lemma index_line_words:
  "ix_field_ids d \<noteq> [] \<Longrightarrow> index_line d = join_words ([str ''IX'', dec32 (ix_id d), dec32 (ix_collection_id d),
     status_code (ix_status d), dec (length (ix_field_ids d))] @ map dec32 (ix_field_ids d))"
  by (cases "ix_field_ids d") (simp_all add: index_line_def join_words_def)

lemma next_line:
  "schema_line (join_words [str ''NC'', dec32 n]) s = Inr (s\<lparr>sc_next_collection_id := n\<rparr>)"
  "schema_line (join_words [str ''NF'', dec32 n]) s = Inr (s\<lparr>sc_next_field_id := n\<rparr>)"
  "schema_line (join_words [str ''NI'', dec32 n]) s = Inr (s\<lparr>sc_next_index_id := n\<rparr>)"
  by (simp_all add: schema_line_def split_tokens)

lemma collection_line_parsed:
  "token (escape (snd e)) \<Longrightarrow> schema_line (collection_line e) s =
     Inr (s\<lparr>sc_collection_name := bt_insert (fst e) (snd e) (sc_collection_name s),
            sc_collection_id_of := bt_insert (snd e) (fst e) (sc_collection_id_of s)\<rparr>)"
  by (simp add: schema_line_def collection_line_def split_tokens next_part_def Let_def)

lemma field_line_parsed:
  "token (escape (snd e)) \<Longrightarrow> schema_line (field_line e) s =
     Inr (s\<lparr>sc_field_name := bt_insert (fst e) (snd e) (sc_field_name s),
            sc_field_id_of := bt_insert (fst (fst e), snd e) (snd (fst e)) (sc_field_id_of s)\<rparr>)"
  by (simp add: schema_line_def field_line_def split_tokens next_part_def Let_def)

lemma index_line_parsed:
  assumes "ix_field_ids d \<noteq> []" and "length (ix_field_ids d) < 2 ^ 64"
  shows "schema_line (index_line d) s = Inr (s\<lparr>sc_indexes := sc_indexes s @ [d]\<rparr>)"
proof -
  have "split_whitespace (index_line d) = [str ''IX'', dec32 (ix_id d), dec32 (ix_collection_id d),
      status_code (ix_status d), dec (length (ix_field_ids d))] @ map dec32 (ix_field_ids d)"
    unfolding index_line_words[OF assms(1)] by (intro split_tokens) auto
  moreover have "0 < length (ix_field_ids d)" using assms(1) by simp
  ultimately show ?thesis using assms(2) by (simp add: schema_line_def load_index_def Suc_le_eq)
qed

subsection \<open>The whole file\<close>

lemma schema_parse_append: "schema_parse (a @ b) s = bindE (schema_parse a s) (schema_parse b)"
  by (induction a arbitrary: s) (auto simp: bindE_def split: sum.splits)

lemma collections_parsed:
  "\<forall>e \<in> set es. token (escape (snd e)) \<Longrightarrow> schema_parse (map collection_line es) s =
     Inr (s\<lparr>sc_collection_name := fold (\<lambda>e. bt_insert (fst e) (snd e)) es (sc_collection_name s),
            sc_collection_id_of := fold (\<lambda>e. bt_insert (snd e) (fst e)) es (sc_collection_id_of s)\<rparr>)"
  by (induction es arbitrary: s) (simp_all add: collection_line_parsed)

lemma fields_parsed:
  "\<forall>e \<in> set es. token (escape (snd e)) \<Longrightarrow> schema_parse (map field_line es) s =
     Inr (s\<lparr>sc_field_name := fold (\<lambda>e. bt_insert (fst e) (snd e)) es (sc_field_name s),
            sc_field_id_of := fold (\<lambda>e. bt_insert (fst (fst e), snd e) (snd (fst e))) es (sc_field_id_of s)\<rparr>)"
  by (induction es arbitrary: s) (simp_all add: field_line_parsed)

lemma indexes_parsed:
  "\<forall>d \<in> set ds. ix_field_ids d \<noteq> [] \<and> length (ix_field_ids d) < 2 ^ 64 \<Longrightarrow>
     schema_parse (map index_line ds) s = Inr (s\<lparr>sc_indexes := sc_indexes s @ ds\<rparr>)"
  by (induction ds arbitrary: s) (simp_all add: index_line_parsed)

lemma ssorted_sort_key: "ssorted (map f xs) \<Longrightarrow> sort_key f xs = xs"
  by (simp add: sort_key_id_if_sorted strict_sorted_iff)

lemma schema_line_words:
  assumes "schema_inv s" and "schema_writable s" and "l \<in> set (schema_lines s)"
  shows "\<exists>ws. l = join_words ws \<and> (\<forall>w \<in> set ws. token w)"
proof -
  have srt: "sort_key fst (sc_collection_name s) = sc_collection_name s" "sort_key fst (sc_field_name s) = sc_field_name s"
    "sort_key ix_id (sc_indexes s) = sc_indexes s"
    using assms(1) by (simp_all add: schema_inv_defs ssorted_sort_key)
  consider n tag where "l = join_words [tag, dec32 n]" "tag \<in> {str ''NC'', str ''NF'', str ''NI''}"
    | e where "e \<in> set (sc_collection_name s)" "l = collection_line e"
    | e where "e \<in> set (sc_field_name s)" "l = field_line e"
    | d where "d \<in> set (sc_indexes s)" "l = index_line d"
    using assms(3) by (auto simp: schema_lines_def srt)
  then show ?thesis
  proof cases
    case (4 d)
    then have "ix_field_ids d \<noteq> []" using assms(2) by (simp add: schema_writable_def)
    from index_line_words[OF this] show ?thesis using 4(2)
      by (intro exI[of _ "[str ''IX'', dec32 (ix_id d), dec32 (ix_collection_id d),
          status_code (ix_status d), dec (length (ix_field_ids d))] @ map dec32 (ix_field_ids d)"]) auto
  qed (use assms(2) in \<open>force simp: schema_writable_def collection_line_def field_line_def\<close>)+
qed

lemma token_words_line:
  assumes "\<forall>w \<in> set ws. token w"
  shows "10 \<notin> set (join_words ws) \<and> 13 \<notin> set (join_words ws)"
  using join_words_bytes[of 10 ws] join_words_bytes[of 13 ws] token_line assms by auto

lemma utf8_text: "\<forall>l \<in> set ls. utf8_valid l \<Longrightarrow> utf8_valid (concat (map (\<lambda>l. l @ [10]) ls))"
  by (induction ls) (simp_all add: utf8_valid_append)

lemma text_of_words:
  assumes "\<forall>l \<in> set ls. \<exists>ws. l = join_words ws \<and> (\<forall>w \<in> set ws. token w)"
  shows "lines (concat (map (\<lambda>l. l @ [10]) ls)) = ls \<and> utf8_valid (concat (map (\<lambda>l. l @ [10]) ls))"
proof -
  have "10 \<notin> set l \<and> 13 \<notin> set l \<and> utf8_valid l" if l: "l \<in> set ls" for l
  proof -
    obtain ws where "l = join_words ws" "\<forall>w \<in> set ws. token w" using assms l by auto
    then show ?thesis using token_words_line[of ws] utf8_words[of ws] by simp
  qed
  then show ?thesis by (simp add: lines_concat utf8_text)
qed

lemma schema_load_written:
  "map_of d path = Some text \<Longrightarrow> utf8_valid text \<Longrightarrow> schema_load path d = schema_parse (lines text) schema_new"
  by (simp add: schema_load_def fs_exists_def fs_read_to_string_def fs_read_def)

lemma schema_lines_parsed:
  assumes inv: "schema_inv s" and ok: "schema_writable s"
  shows "schema_parse (schema_lines s) schema_new = Inr (s\<lparr>sc_changed := False\<rparr>)"
proof -
  have srt: "sort_key fst (sc_collection_name s) = sc_collection_name s" "sort_key fst (sc_field_name s) = sc_field_name s"
    "sort_key ix_id (sc_indexes s) = sc_indexes s"
    using inv by (simp_all add: schema_inv_defs ssorted_sort_key)
  have "fold (\<lambda>e. bt_insert (fst e) (snd e)) (sc_collection_name s) [] = sc_collection_name s"
    "fold (\<lambda>e. bt_insert (snd e) (fst e)) (sc_collection_name s) [] = sc_collection_id_of s"
    "fold (\<lambda>e. bt_insert (fst e) (snd e)) (sc_field_name s) [] = sc_field_name s"
    "fold (\<lambda>e. bt_insert (fst (fst e), snd e) (snd (fst e))) (sc_field_name s) [] = sc_field_id_of s"
    using inv by (simp_all add: schema_inv_defs rebuild_same rebuild_ids rebuild_field_ids)
  with ok show ?thesis
    by (simp add: schema_lines_def srt next_line schema_parse_append collections_parsed fields_parsed indexes_parsed
        schema_writable_def schema_new_def)
qed

text \<open>
  C37: A registry whose names are words of the file once blanks and percent signs are escaped (so they
  are not empty and hold no tab, line break or other white space) and whose indexes have a field is saved and loaded
  back with the same numbers for the same names, the same next numbers and the same indexes with their build state;
  the save clears the changed flag. Without these conditions it is false: an index without
  fields and a collection with an empty name are saved in lines the loader refuses.
\<close>

theorem schema_roundtrip:
  assumes "schema_inv s" and "schema_writable s"
  shows "schema_load path (snd (schema_save path s d)) = Inr (s\<lparr>sc_changed := False\<rparr>) \<and>
     fst (schema_save path s d) = s\<lparr>sc_changed := False\<rparr>"
proof -
  have "map_of (snd (schema_save path s d)) path = Some (schema_text s)" by (simp add: schema_save_def)
  moreover have "lines (schema_text s) = schema_lines s \<and> utf8_valid (schema_text s)"
    using text_of_words schema_line_words[OF assms] unfolding schema_text_def by blast
  ultimately show ?thesis using schema_lines_parsed[OF assms] by (simp add: schema_load_written schema_save_def)
qed

lemma sample_schema_writable: "schema_writable sample_schema"
proof -
  have "escape (str ''users'') = str ''users''" "escape (str ''order items'') = str ''order%20items''"
    "escape (str ''age'') = str ''age''"
    by (simp_all add: escape_concat esc_def str_def)
  moreover have "token (str ''users'')" "token (str ''order%20items'')" "token (str ''age'')"
    by (simp_all add: word_ok_token word_ok_def visible_def str_def)
  ultimately show ?thesis by (simp add: sample_schema_eq schema_writable_def)
qed

theorem schema_roundtrip_witness:
  "schema_load (str ''SCHEMA'') (snd (schema_save (str ''SCHEMA'') sample_schema [])) =
     Inr (sample_schema\<lparr>sc_changed := False\<rparr>)"
  using schema_roundtrip[OF sample_schema_inv sample_schema_writable] by blast

section \<open>Registries that cannot be read back\<close>

lemma bt_insert_last: "\<forall>x \<in> set xs. fst x < k \<Longrightarrow> bt_insert k v xs = xs @ [(k, v)]"
  by (induction xs) auto

text \<open>A line of words with nothing after its last space.\<close>

lemma split_trailing: "\<forall>w \<in> set ws. token w \<Longrightarrow> ws \<noteq> [] \<Longrightarrow> split_whitespace (join_words ws @ [32]) = ws"
proof (induction ws)
  case (Cons w ws)
  have nil: "split_whitespace [] = []" by (simp add: split_whitespace_def)
  show ?case
  proof (cases ws)
    case Nil
    then show ?thesis using Cons.prems by (simp add: join_words_def nil)
  next
    case (Cons x xs)
    then have "join_words (w # ws) @ [32] = w @ 32 # join_words ws @ [32]" by (simp add: join_words_def)
    then show ?thesis using Cons.IH Cons.prems Cons by simp
  qed
qed simp

lemma load_stops:
  assumes "schema_lines t = a @ bad # b" and "schema_parse a schema_new = Inr u"
    and "\<And>u. schema_line bad u = Inl e"
    and "\<forall>l \<in> set (a @ b). \<exists>ws. l = join_words ws \<and> (\<forall>w \<in> set ws. token w)"
    and "bad = join_words ws @ [32]" and "\<forall>w \<in> set ws. token w"
  shows "schema_load path (snd (schema_save path t d)) = Inl e"
proof -
  have "10 \<notin> set l \<and> 13 \<notin> set l \<and> utf8_valid l" if l: "l \<in> set (schema_lines t)" for l
  proof (cases "l = bad")
    case True
    then show ?thesis using token_words_line[OF assms(6)] utf8_words[OF assms(6)] assms(5)
      by (simp add: utf8_valid_append)
  next
    case False
    then have "l \<in> set (a @ b)" using l assms(1) by auto
    then obtain vs where "l = join_words vs" "\<forall>w \<in> set vs. token w" using assms(4) by blast
    then show ?thesis using token_words_line[of vs] utf8_words[of vs] by simp
  qed
  then have "lines (schema_text t) = schema_lines t \<and> utf8_valid (schema_text t)"
    unfolding schema_text_def by (simp add: lines_concat utf8_text)
  moreover have "schema_parse (schema_lines t) schema_new = Inl e"
    using assms(1-3) by (simp add: schema_parse_append)
  moreover have "map_of (snd (schema_save path t d)) path = Some (schema_text t)" by (simp add: schema_save_def)
  ultimately show ?thesis by (simp add: schema_load_written)
qed

lemma bad_index:
  assumes inv: "schema_inv s" and ok: "schema_writable s" and room: "sc_next_index_id s + 1 \<noteq> 0"
  shows "schema_load path (snd (schema_save path (snd (create_composite_index c [] s)) d)) =
     Inl (InvalidFormat (str ''schema IX field''))"
proof -
  let ?d = "\<lparr>ix_id = sc_next_index_id s, ix_collection_id = c, ix_field_ids = [], ix_status = Building\<rparr>"
  let ?n = "sc_next_index_id s + 1" let ?s = "s\<lparr>sc_next_index_id := ?n\<rparr>"
  let ?ws = "[str ''IX'', dec32 (sc_next_index_id s), dec32 c, status_code Building, dec 0]"
  have fresh: "find (\<lambda>i. ix_collection_id i = c \<and> ix_field_ids i = []) (sc_indexes s) = None"
    using ok by (auto simp: schema_writable_def find_None_iff)
  then have t: "snd (create_composite_index c [] s) = s\<lparr>sc_next_index_id := ?n, sc_changed := True, sc_indexes := sc_indexes s @ [?d]\<rparr>"
    by (simp add: create_composite_index_def Let_def)
  have i: "i < sc_next_index_id s" if "i \<in> set (map ix_id (sc_indexes s))" for i
    using inv that unfolding schema_inv_defs by blast
  then have "i < ?n" if "i \<in> set (map ix_id (sc_indexes s))" for i
    using that word_fresh[OF room] by (simp add: order_less_imp_le)
  then have inv': "schema_inv ?s" using inv by (simp add: schema_inv_defs)
  have ok': "schema_writable ?s" using ok by (simp add: schema_writable_def)
  have "sort_key ix_id (sc_indexes s @ [?d]) = sc_indexes s @ [?d]" "sort_key ix_id (sc_indexes s) = sc_indexes s"
    using inv i by (auto intro!: ssorted_sort_key simp: schema_inv_defs sorted_wrt_append)
  then have lines_t: "schema_lines (snd (create_composite_index c [] s)) = schema_lines ?s @ [index_line ?d]"
    by (simp add: schema_lines_def t)
  have bad: "index_line ?d = join_words ?ws @ [32]" by (simp add: index_line_def join_words_def)
  have w: "\<forall>w \<in> set ?ws. token w" by simp
  have "split_whitespace (index_line ?d) = ?ws" unfolding bad by (rule split_trailing[OF w]) simp
  moreover have "parse_uint 4294967296 (status_code Building) = None"
    by (simp add: status_code_def str_def parse_uint_def is_digit_def)
  ultimately have "schema_line (index_line ?d) u = Inl (InvalidFormat (str ''schema IX field''))" for u
    by (simp add: schema_line_def load_index_def parse_field_id_def)
  from load_stops[OF lines_t schema_lines_parsed[OF inv' ok'] this _ bad w] show ?thesis
    using schema_line_words[OF inv' ok'] by simp
qed

lemma bad_collection:
  assumes inv: "schema_inv s" and ok: "schema_writable s" and room: "sc_next_collection_id s + 1 \<noteq> 0"
    and fresh: "lookup_collection_id [] s = None"
  shows "schema_load path (snd (schema_save path (snd (collection_id [] s)) d)) =
     Inl (InvalidFormat (str ''schema C name''))"
proof -
  let ?i = "sc_next_collection_id s" let ?t = "snd (collection_id [] s)"
  let ?ws = "[str ''C'', dec32 ?i]"
  let ?a = "[join_words [str ''NC'', dec32 (?i + 1)], join_words [str ''NF'', dec32 (sc_next_field_id s)]] @
     map collection_line (sc_collection_name s)"
  let ?b = "map field_line (sc_field_name s) @ [join_words [str ''NI'', dec32 (sc_next_index_id s)]] @
     map index_line (sc_indexes s)"
  have srt: "sort_key fst (sc_collection_name s) = sc_collection_name s" "sort_key fst (sc_field_name s) = sc_field_name s"
    "sort_key ix_id (sc_indexes s) = sc_indexes s"
    using inv by (simp_all add: schema_inv_defs ssorted_sort_key)
  have "ssorted (map fst (sc_collection_name s))" using inv by (simp add: schema_inv_defs)
  then have "fst x < ?i" if "x \<in> set (sc_collection_name s)" for x
    using that inv ssorted_in[of "sc_collection_name s"]
    by (cases x) (auto simp: schema_inv_defs below_def)
  then have ins: "bt_insert ?i [] (sc_collection_name s) = sc_collection_name s @ [(?i, [])]"
    by (simp add: bt_insert_last)
  have srt': "sort_key fst (sc_collection_name s @ [(?i, [])]) = sc_collection_name s @ [(?i, [])]"
    unfolding ins[symmetric] using inv by (intro ssorted_sort_key) (simp add: schema_inv_defs)
  have lines_t: "schema_lines ?t = ?a @ collection_line (?i, []) # ?b"
    using fresh by (simp add: schema_lines_def collection_id_def lookup_collection_id_def Let_def srt srt' ins)
  have bad: "collection_line (?i, []) = join_words ?ws @ [32]"
    by (simp add: collection_line_def join_words_def)
  have w: "\<forall>w \<in> set ?ws. token w" by simp
  have "split_whitespace (collection_line (?i, [])) = ?ws" unfolding bad by (rule split_trailing[OF w]) simp
  then have err: "schema_line (collection_line (?i, [])) u = Inl (InvalidFormat (str ''schema C name''))" for u
    by (simp add: schema_line_def next_part_def)
  have names: "\<forall>e \<in> set (sc_collection_name s). token (escape (snd e))" using ok by (simp add: schema_writable_def)
  have "schema_parse ?a schema_new =
      Inr (schema_new\<lparr>sc_next_collection_id := ?i + 1, sc_next_field_id := sc_next_field_id s,
        sc_collection_name := fold (\<lambda>e. bt_insert (fst e) (snd e)) (sc_collection_name s) [],
        sc_collection_id_of := fold (\<lambda>e. bt_insert (snd e) (fst e)) (sc_collection_name s) []\<rparr>)"
    using names by (simp add: next_line schema_parse_append collections_parsed schema_new_def)
  moreover have "\<exists>ws. l = join_words ws \<and> (\<forall>w \<in> set ws. token w)" if "l \<in> set (?a @ ?b)" for l
  proof (cases "l = join_words [str ''NC'', dec32 (?i + 1)]")
    case False
    then have "l \<in> set (schema_lines s)" using that by (auto simp: schema_lines_def srt)
    then show ?thesis by (rule schema_line_words[OF inv ok])
  qed force
  ultimately show ?thesis using load_stops[OF lines_t _ err _ bad w] by blast
qed

text \<open>
  C39: The registry does write files it cannot read: an index over no fields is accepted and
  saved, and its line is then taken for one of the old format and refused; a collection with an empty name
  is accepted and saved, and its line then lacks a word. Either way the file can no longer be loaded, with
  all the names and numbers in it.
\<close>

theorem schema_unreadable:
  assumes "schema_inv s" and "schema_writable s" and "sc_next_collection_id s + 1 \<noteq> 0" and "sc_next_index_id s + 1 \<noteq> 0"
    and "lookup_collection_id [] s = None"
  shows "schema_load path (snd (schema_save path (snd (create_composite_index c [] s)) d)) =
       Inl (InvalidFormat (str ''schema IX field'')) \<and>
     schema_load path (snd (schema_save path (snd (collection_id [] s)) d)) = Inl (InvalidFormat (str ''schema C name''))"
  using bad_index[OF assms(1,2,4)] bad_collection[OF assms(1,2,3,5)] by blast

theorem schema_unreadable_witness:
  "schema_load (str ''SCHEMA'') (snd (schema_save (str ''SCHEMA'') (snd (collection_id [] sample_schema)) [])) =
     Inl (InvalidFormat (str ''schema C name''))"
proof -
  have "lookup_collection_id [] sample_schema = None" by (simp add: sample_schema_eq lookup_collection_id_def str_def)
  moreover have "sc_next_collection_id sample_schema + 1 \<noteq> 0" "sc_next_index_id sample_schema + 1 \<noteq> 0"
    by (simp_all add: sample_schema_eq)
  ultimately show ?thesis using schema_unreadable[OF sample_schema_inv sample_schema_writable] by blast
qed

end
