(* ===== verification/Indexes.thy ===== *)
theory Indexes
  imports Mutator Registry
begin

text \<open>
  The secondary indexes (\<^verbatim>\<open>src/index.rs\<close>): the ranges of keys a query scans, the queries with their check of
  every candidate against the entity, and the clearing and rebuilding of an index. An index only gives
  candidates; the entity's own fields decide.
\<close>

section \<open>Ranges\<close>

datatype bound = Unbounded | Inclusive val | Exclusive val

datatype find_op = FEq val | FGt val | FGte val | FLt val | FLte val | FBetween val val

fun to_bounds :: "find_op \<Rightarrow> bound \<times> bound" where
  "to_bounds (FEq v) = (Inclusive v, Inclusive v)"
| "to_bounds (FGt v) = (Exclusive v, Unbounded)"
| "to_bounds (FGte v) = (Inclusive v, Unbounded)"
| "to_bounds (FLt v) = (Unbounded, Exclusive v)"
| "to_bounds (FLte v) = (Unbounded, Inclusive v)"
| "to_bounds (FBetween l h) = (Inclusive l, Inclusive h)"

text \<open>\<^verbatim>\<open>unwrap_or\<close> and \<^verbatim>\<open>unwrap_or_else\<close>.\<close>

definition unwrap_or :: "'a \<Rightarrow> 'a option \<Rightarrow> 'a" where
  "unwrap_or d x = (case x of None \<Rightarrow> d | Some v \<Rightarrow> v)"

definition index_range :: "32 word \<Rightarrow> 32 word \<Rightarrow> bound \<Rightarrow> bound \<Rightarrow> bytes \<times> bytes option" where
  "index_range c f lower upper =
     (let fp = index_field_prefix c f; vp = (\<lambda>v. index_value_prefix c f (encode_ordered v));
          start = (case lower of
             Unbounded \<Rightarrow> fp
           | Inclusive v \<Rightarrow> vp v
           | Exclusive v \<Rightarrow> unwrap_or fp (successor (vp v)));
          stop = (case upper of
             Unbounded \<Rightarrow> successor fp
           | Exclusive v \<Rightarrow> Some (vp v)
           | Inclusive v \<Rightarrow> successor (vp v))
      in (start, stop))"

definition within :: "val \<Rightarrow> bound \<Rightarrow> bound \<Rightarrow> bool" where
  "within value lower upper \<longleftrightarrow>
     (case lower of Unbounded \<Rightarrow> True | Inclusive v \<Rightarrow> value_cmp value v \<noteq> CLess | Exclusive v \<Rightarrow> value_cmp value v = CGreater) \<and>
     (case upper of Unbounded \<Rightarrow> True | Exclusive v \<Rightarrow> value_cmp value v = CLess | Inclusive v \<Rightarrow> value_cmp value v \<noteq> CGreater)"

section \<open>Queries\<close>

definition field_value_m :: "'s mutator \<Rightarrow> 32 word \<Rightarrow> bytes \<Rightarrow> 32 word \<Rightarrow> ('s, error, val option) op" where
  "field_value_m mu c eid f = bindS (mu_get mu (encode_entity_key c eid f)) (\<lambda>hit. liftS (case hit of
     None \<Rightarrow> Inr None
   | Some b \<Rightarrow> bindE (decode b) (\<lambda>v. Inr (Some v))))"

definition decode_index_key_value :: "bytes \<Rightarrow> (val \<times> bytes) option result" where
  "decode_index_key_value key = (case decode_index_key key of
     None \<Rightarrow> Inr None
   | Some (_, _, eid) \<Rightarrow>
       bindE (ordered_value_len (drop 9 key)) (\<lambda>n.
       bindE (decode_ordered (slice 9 (9 + n) key)) (\<lambda>v.
       bindE (decode_entity_id eid) (\<lambda>i. Inr (Some (v, i))))))"

text \<open>The loop over the candidates: \<open>seen\<close> are the ids met so far, \<open>ids\<close> those verified.\<close>

fun find_loop :: "'s mutator \<Rightarrow> 32 word \<Rightarrow> 32 word \<Rightarrow> bound \<Rightarrow> bound \<Rightarrow> item list \<Rightarrow> bytes set \<Rightarrow> bytes list \<Rightarrow>
    ('s, error, bytes list) op" where
  "find_loop mu c f lower upper [] seen ids = retS ids"
| "find_loop mu c f lower upper ((key, _) # rows) seen ids =
     bindS (liftS (ok_or (decode_index_key key) (InvalidFormat (str ''bad index key'')))) (\<lambda>(_, _, entity).
     bindS (liftS (decode_entity_id entity)) (\<lambda>eid.
       if eid \<in> seen then find_loop mu c f lower upper rows seen ids
       else bindS (field_value_m mu c entity f) (\<lambda>actual.
         find_loop mu c f lower upper rows (insert eid seen)
           (case actual of Some v \<Rightarrow> if within v lower upper then ids @ [eid] else ids | None \<Rightarrow> ids))))"

definition find_m :: "'s mutator \<Rightarrow> schema \<Rightarrow> 32 word \<Rightarrow> 32 word \<Rightarrow> bound \<Rightarrow> bound \<Rightarrow> ('s, error, bytes list) op" where
  "find_m mu schema c f lower upper =
     (if find_index c f schema = None then failS (InvalidArgument (str ''no index on field''))
      else case index_range c f lower upper of (start, stop) \<Rightarrow>
        bindS (mu_rows mu (Some start) stop) (\<lambda>rows. find_loop mu c f lower upper rows {} []))"

definition index_find :: "(bytes \<Rightarrow> 32 word) \<Rightarrow> schema \<Rightarrow> 32 word \<Rightarrow> 32 word \<Rightarrow> bound \<Rightarrow> bound \<Rightarrow>
    (database, error, bytes list) op" where
  "index_find crc = find_m (direct_mutator crc)"

section \<open>Composite queries\<close>

text \<open>The equality components in front: \<^verbatim>\<open>None\<close> when one of them is not an inclusive bound.\<close>

fun eq_prefix :: "bytes \<Rightarrow> (nat \<times> bound \<times> bound) list \<Rightarrow> bytes option" where
  "eq_prefix p [] = Some p"
| "eq_prefix p ((_, lo, _) # ls) = (case lo of
     Inclusive v \<Rightarrow> eq_prefix (p @ encode_ordered v) ls
   | _ \<Rightarrow> None)"

definition composite_index_range :: "32 word \<Rightarrow> 32 word \<Rightarrow> (nat \<times> bound \<times> bound) list \<Rightarrow> bytes \<times> bytes option" where
  "composite_index_range c i leading =
     (let prefix = composite_prefix c i in
      case eq_prefix prefix (butlast leading) of
        None \<Rightarrow> (prefix, successor prefix)
      | Some p \<Rightarrow>
          if leading = [] then (p, Some (unwrap_or prefix (successor prefix)))
          else (case last leading of (_, lo, hi) \<Rightarrow>
            (p @ (case lo of
                    Unbounded \<Rightarrow> []
                  | Inclusive v \<Rightarrow> encode_ordered v
                  | Exclusive v \<Rightarrow> (case successor (encode_ordered v) of Some s \<Rightarrow> s | None \<Rightarrow> [])),
             Some (case hi of
                    Unbounded \<Rightarrow> unwrap_or p (successor p)
                  | Inclusive v \<Rightarrow> p @ unwrap_or [] (successor (encode_ordered v))
                  | Exclusive v \<Rightarrow> p @ encode_ordered v))))"

text \<open>The component values in front of a composite key, and the rest of the key.\<close>

fun read_components :: "nat \<Rightarrow> bytes \<Rightarrow> (val list \<times> bytes) result" where
  "read_components 0 key = Inr ([], key)"
| "read_components (Suc n) key =
     bindE (ordered_value_len key) (\<lambda>len.
     bindE (decode_ordered (take len key)) (\<lambda>v.
     bindE (read_components n (drop len key)) (\<lambda>(vs, rest). Inr (v # vs, rest))))"

definition decode_composite_key_value :: "bytes \<Rightarrow> nat \<Rightarrow> (val list \<times> bytes) option result" where
  "decode_composite_key_value key n =
     (if length key < 1 + 4 + 4 + 4 + 4 \<or> key ! 0 \<noteq> INDEX_TAG then Inr None
      else if le_u32 (slice 5 9 key) \<noteq> COMPOSITE_FIELD_MARKER then Inr None
      else bindE (read_components n (drop 13 key)) (\<lambda>(comps, rest).
        if length rest < 4 then Inr None
        else let len = unat (le_u32 (take 4 rest)) in
          if length rest < 4 + len then Inr None
          else bindE (decode_entity_id (take len (drop 4 rest))) (\<lambda>eid. Inr (Some (comps, eid)))))"

text \<open>The check of one candidate; a component beyond the index panics.\<close>

fun check_leading :: "'s mutator \<Rightarrow> 32 word \<Rightarrow> 32 word list \<Rightarrow> bytes \<Rightarrow> (nat \<times> bound \<times> bound) list \<Rightarrow> ('s, error, bool) op" where
  "check_leading mu c fids eid [] = retS True"
| "check_leading mu c fids eid ((i, lo, hi) # ls) =
     (if length fids \<le> i then failS (Panic (str ''index out of bounds''))
      else bindS (field_value_m mu c eid (fids ! i)) (\<lambda>actual. case actual of
        None \<Rightarrow> retS False
      | Some v \<Rightarrow> if within v lo hi then check_leading mu c fids eid ls else retS False))"

fun find_composite_loop :: "'s mutator \<Rightarrow> 32 word \<Rightarrow> 32 word list \<Rightarrow> nat \<Rightarrow> (nat \<times> bound \<times> bound) list \<Rightarrow> item list \<Rightarrow>
    bytes set \<Rightarrow> bytes list \<Rightarrow> ('s, error, bytes list) op" where
  "find_composite_loop mu c fids n leading [] seen ids = retS ids"
| "find_composite_loop mu c fids n leading ((key, _) # rows) seen ids =
     bindS (liftS (decode_composite_key_value key n)) (\<lambda>d. case d of
       None \<Rightarrow> find_composite_loop mu c fids n leading rows seen ids
     | Some (_, eid) \<Rightarrow> bindS (check_leading mu c fids eid leading) (\<lambda>ok.
         if \<not> ok \<or> eid \<in> seen then find_composite_loop mu c fids n leading rows seen ids
         else find_composite_loop mu c fids n leading rows (insert eid seen) (ids @ [eid])))"

definition find_composite_m :: "'s mutator \<Rightarrow> schema \<Rightarrow> 32 word \<Rightarrow> 32 word \<Rightarrow> nat \<Rightarrow> (nat \<times> bound \<times> bound) list \<Rightarrow>
    ('s, error, bytes list) op" where
  "find_composite_m mu schema c i n leading = (case index_by_id i schema of
     None \<Rightarrow> failS (InvalidArgument (str ''composite index not found''))
   | Some d \<Rightarrow>
       if ix_status d \<noteq> Ready then failS (InvalidArgument (str ''composite index not ready''))
       else case composite_index_range c i leading of (start, stop) \<Rightarrow>
         bindS (mu_rows mu (Some start) stop) (\<lambda>rows. find_composite_loop mu c (ix_field_ids d) n leading rows {} []))"

section \<open>Clearing and rebuilding\<close>

definition clear_composite :: "(bytes \<Rightarrow> 32 word) \<Rightarrow> 32 word \<Rightarrow> 32 word \<Rightarrow> (database, error, unit) op" where
  "clear_composite crc c i =
     (let start = composite_prefix c i in
      bindS (liftS (ok_or (successor start) (InvalidFormat (str ''composite prefix has no successor'')))) (\<lambda>stop.
      bindS (db_scan (Some start) (Some stop)) (\<lambda>rows. forS rows (\<lambda>(key, _). db_delete crc key))))"

text \<open>The fields of each entity, the entities in the order of their ids.\<close>

fun collect_fields :: "item list \<Rightarrow> (bytes \<times> (32 word \<times> val) list) list \<Rightarrow> (bytes \<times> (32 word \<times> val) list) list" where
  "collect_fields [] acc = acc"
| "collect_fields ((key, value) # rows) acc =
     (case decode_entity_key key of
        None \<Rightarrow> collect_fields rows acc
      | Some (_, ee, ef) \<Rightarrow> (case value of
          None \<Rightarrow> collect_fields rows acc
        | Some b \<Rightarrow> (case decode b of
            Inl _ \<Rightarrow> collect_fields rows acc
          | Inr v \<Rightarrow> collect_fields rows
              (bt_insert ee (bt_insert ef v (unwrap_or [] (map_of acc ee))) acc))))"

text \<open>The encoded components of a tuple, if all are present.\<close>

fun components :: "32 word list \<Rightarrow> (32 word \<Rightarrow> val option) \<Rightarrow> bytes list option" where
  "components [] vals = Some []"
| "components (f # fids) vals = (case vals f of
     None \<Rightarrow> None
   | Some v \<Rightarrow> map_option (\<lambda>cs. encode_ordered v # cs) (components fids vals))"

definition rebuild_composite :: "(bytes \<Rightarrow> 32 word) \<Rightarrow> 32 word \<Rightarrow> 32 word \<Rightarrow> 32 word list \<Rightarrow> (database, error, unit) op" where
  "rebuild_composite crc c i fids =
     bindS (clear_composite crc c i) (\<lambda>_.
     let pstart = collection_prefix c in
     bindS (liftS (ok_or (successor pstart) (InvalidFormat (str ''collection prefix has no successor'')))) (\<lambda>pend.
     bindS (db_scan (Some pstart) (Some pend)) (\<lambda>rows.
     forS (collect_fields rows []) (\<lambda>(eid, vals). case components fids (map_of vals) of
       None \<Rightarrow> retS ()
     | Some comps \<Rightarrow> db_put crc (encode_composite_index_key c i comps eid) []))))"

definition index_clear :: "(bytes \<Rightarrow> 32 word) \<Rightarrow> 32 word \<Rightarrow> 32 word \<Rightarrow> (database, error, unit) op" where
  "index_clear crc c f = (case index_range c f Unbounded Unbounded of (start, stop) \<Rightarrow>
     bindS (db_scan (Some start) stop) (\<lambda>rows. forS rows (\<lambda>(key, _). db_delete crc key)))"

definition index_rebuild :: "(bytes \<Rightarrow> 32 word) \<Rightarrow> 32 word \<Rightarrow> 32 word \<Rightarrow> (database, error, unit) op" where
  "index_rebuild crc c f =
     bindS (index_clear crc c f) (\<lambda>_.
     let pstart = collection_prefix c in
     bindS (db_scan (Some pstart) (successor pstart)) (\<lambda>rows.
     forS rows (\<lambda>(key, value). case decode_entity_key key of
       None \<Rightarrow> retS ()
     | Some (ec, ee, ef) \<Rightarrow>
         if ec \<noteq> c \<or> ef \<noteq> f then retS ()
         else (case value of
           None \<Rightarrow> retS ()
         | Some b \<Rightarrow> bindS (liftS (decode b)) (\<lambda>v. db_put crc (encode_index_key c f (encode_ordered v) ee) [])))))"

end
