(* ===== verification/Entity.thy ===== *)
theory Entity
  imports Indexes
begin

text \<open>
  The entity layer (\<^verbatim>\<open>src/entity.rs\<close>): entities as lists of named values, patches and conditional updates, and the
  operations that take an entity apart into field keys and keep the indexes, over any view that provides the
  four operations of a mutator. The benchmark counters and caches of the feature \<^verbatim>\<open>bench-diag\<close> are left out.
\<close>

section \<open>Entities\<close>

record entity =
  en_fields :: "(bytes \<times> val) list"

definition entity_new :: entity where
  "entity_new = \<lparr>en_fields = []\<rparr>"

definition entity_insert :: "bytes \<Rightarrow> val \<Rightarrow> entity \<Rightarrow> entity" where
  "entity_insert name v e = e\<lparr>en_fields := en_fields e @ [(name, v)]\<rparr>"

definition entity_field :: "bytes \<Rightarrow> entity \<Rightarrow> val option" where
  "entity_field name e = map_option snd (find (\<lambda>(n, _). n = name) (en_fields e))"

definition entity_index :: "bytes \<Rightarrow> entity \<Rightarrow> val result" where
  "entity_index name e = ok_or (entity_field name e) (Panic (str ''field not found''))"

datatype expected = EAny | EAbsent | EEntity entity | EField bytes val

datatype patch = PSet bytes val | PRemove bytes | PIncrement bytes val

definition entity_eq :: "entity \<Rightarrow> entity \<Rightarrow> bool" where
  "entity_eq a b \<longleftrightarrow> length (en_fields a) = length (en_fields b) \<and>
     list_all (\<lambda>(k, v). case entity_field k b of Some bv \<Rightarrow> val_eq bv v | None \<Rightarrow> False) (en_fields a)"

section \<open>Float addition\<close>

text \<open>
  The sum of two floats as their patterns, rounded to the nearest with ties to even. A finite pattern is an
  integer multiple of the smallest subnormal; the sum is exact in these units and rounded once. Which NaN a
  sum gives is not specified; here it is the canonical one.
\<close>

definition f64_units :: "64 word \<Rightarrow> int" where
  "f64_units f =
     (let m = unat f mod 2 ^ 52; e = unat f div 2 ^ 52 mod 2 ^ 11;
          n = (if e = 0 then m else (m + 2 ^ 52) * 2 ^ (e - 1))
      in if f64_sign f then - int n else int n)"

text \<open>The pattern of a magnitude in these units: the exponent steps on by the carry of the rounded mantissa.\<close>

function f64_shift :: "nat \<Rightarrow> nat" where
  "f64_shift n = (if n < 2 ^ 53 then 0 else Suc (f64_shift (n div 2)))"
  by pat_completeness auto
termination
  by (relation "measure id") auto

declare f64_shift.simps [simp del]

definition f64_round :: "nat \<Rightarrow> nat" where
  "f64_round n =
     (if n < 2 ^ 53 then n
      else let k = f64_shift n; q = n div 2 ^ k; r = n mod 2 ^ k;
               q = (if 2 ^ k < 2 * r \<or> 2 * r = 2 ^ k \<and> odd q then q + 1 else q)
        in min (k * 2 ^ 52 + q) 0x7FF0000000000000)"

definition f64_inf :: "64 word \<Rightarrow> bool" where
  "f64_inf f \<longleftrightarrow> f64_magnitude f = 0x7FF0000000000000"

definition f64_add :: "64 word \<Rightarrow> 64 word \<Rightarrow> 64 word" where
  "f64_add a b =
     (if f64_is_nan a \<or> f64_is_nan b \<or> f64_inf a \<and> f64_inf b \<and> a \<noteq> b then f64_NAN
      else if f64_inf a then a
      else if f64_inf b then b
      else let s = f64_units a + f64_units b; p = word_of_nat (f64_round (nat \<bar>s\<bar>)) in
        if s < 0 \<or> s = 0 \<and> f64_sign a \<and> f64_sign b then p OR push_bit 63 1 else p)"

section \<open>Patches\<close>

definition set_field :: "bytes \<Rightarrow> val \<Rightarrow> (bytes \<times> val) list \<Rightarrow> (bytes \<times> val) list" where
  "set_field name v fs = update_first (\<lambda>(n, _). n = name) (\<lambda>(n, _). (n, v)) fs"

text \<open>\<open>shown\<close> is the \<^verbatim>\<open>{:?}\<close> text of a value, which only an error message contains.\<close>

definition apply_one :: "(val \<Rightarrow> bytes) \<Rightarrow> patch \<Rightarrow> entity \<Rightarrow> entity result" where
  "apply_one shown p e = (case p of
     PSet name v \<Rightarrow> Inr (e\<lparr>en_fields :=
       (if find (\<lambda>(n, _). n = name) (en_fields e) \<noteq> None then set_field name v (en_fields e)
        else en_fields e @ [(name, v)])\<rparr>)
   | PRemove name \<Rightarrow> Inr (e\<lparr>en_fields := filter (\<lambda>(n, _). n \<noteq> name) (en_fields e)\<rparr>)
   | PIncrement name delta \<Rightarrow> (case entity_field name e of
       None \<Rightarrow> Inl (InvalidArgument (str ''increment on absent field '' @ [39] @ name @ [39]))
     | Some (VInt c) \<Rightarrow> (case delta of
         VInt d \<Rightarrow> Inr (e\<lparr>en_fields := set_field name (VInt (c + d)) (en_fields e)\<rparr>)
       | _ \<Rightarrow> Inl (InvalidArgument (str ''increment delta for '' @ [39] @ name @ [39] @ str '' must be Int'')))
     | Some (VFloat c) \<Rightarrow> (case delta of
         VFloat d \<Rightarrow> Inr (e\<lparr>en_fields := set_field name (VFloat (f64_add c d)) (en_fields e)\<rparr>)
       | _ \<Rightarrow> Inl (InvalidArgument (str ''increment delta for '' @ [39] @ name @ [39] @ str '' must be Float'')))
     | Some other \<Rightarrow> Inl (InvalidArgument (str ''increment on non-numeric field '' @ [39] @ name @ [39] @
         str '' (has '' @ shown other @ str '')''))))"

fun apply_patch :: "(val \<Rightarrow> bytes) \<Rightarrow> patch list \<Rightarrow> entity \<Rightarrow> entity result" where
  "apply_patch shown [] e = Inr e"
| "apply_patch shown (p # ps) e = bindE (apply_one shown p e) (apply_patch shown ps)"

section \<open>The indexes of a collection\<close>

definition indexed_field_ids :: "schema \<Rightarrow> 32 word \<Rightarrow> 32 word list" where
  "indexed_field_ids s c = map (\<lambda>i. ix_field_ids i ! 0)
     (filter (\<lambda>i. length (ix_field_ids i) = 1) (filter (\<lambda>i. ix_collection_id i = c \<and> ix_status i = Ready) (sc_indexes s)))"

definition composite_index_defs :: "schema \<Rightarrow> 32 word \<Rightarrow> (32 word \<times> 32 word list) list" where
  "composite_index_defs s c = map (\<lambda>i. (ix_id i, ix_field_ids i))
     (filter (\<lambda>i. 2 \<le> length (ix_field_ids i)) (filter (\<lambda>i. ix_collection_id i = c \<and> ix_status i = Ready) (sc_indexes s)))"

definition composite_tuples :: "(32 word \<times> val) list \<Rightarrow> (32 word \<times> val) list \<Rightarrow> 32 word list \<Rightarrow>
    val option list \<times> val option list" where
  "composite_tuples wr old_values fids =
     (map (\<lambda>fid. map_option snd (find (\<lambda>(f, _). f = fid) wr)) fids, map (map_of old_values) fids)"

text \<open>The derived equality on \<^verbatim>\<open>Option<Value>\<close> and on vectors of them.\<close>

fun opt_eq :: "val option \<Rightarrow> val option \<Rightarrow> bool" where
  "opt_eq None None = True"
| "opt_eq (Some a) (Some b) = val_eq a b"
| "opt_eq _ _ = False"

definition tuple_eq :: "val option list \<Rightarrow> val option list \<Rightarrow> bool" where
  "tuple_eq xs ys = list_all2 opt_eq xs ys"

section \<open>Reading\<close>

text \<open>The fields of the live rows of an entity, in key order.\<close>

fun entity_rows :: "schema \<Rightarrow> 32 word \<Rightarrow> item list \<Rightarrow> (bytes \<times> val) list result" where
  "entity_rows schema c [] = Inr []"
| "entity_rows schema c ((key, value) # rows) =
     bindE (ok_or (decode_entity_key key) (InvalidFormat (str ''bad entity key''))) (\<lambda>(_, _, f).
     case value of
       None \<Rightarrow> entity_rows schema c rows
     | Some b \<Rightarrow>
         bindE (decode b) (\<lambda>v.
         bindE (ok_or (field_name c f schema) (InvalidFormat (str ''unknown field id '' @ dec32 f))) (\<lambda>name.
         bindE (entity_rows schema c rows) (\<lambda>fs. Inr ((name, v) # fs)))))"

definition core_get_entity :: "schema \<Rightarrow> 's mutator \<Rightarrow> 32 word \<Rightarrow> bytes \<Rightarrow> ('s, error, entity option) op" where
  "core_get_entity schema mu c eid =
     (case entity_range c eid of (start, stop) \<Rightarrow>
      bindS (mu_rows mu (Some start) stop) (\<lambda>rows.
        if rows = [] then retS None
        else bindS (liftS (entity_rows schema c rows)) (\<lambda>fs.
          retS (if fs = [] then None else Some \<lparr>en_fields = fs\<rparr>))))"

text \<open>A collection: the fields of each entity in key order, the entities in the order of their ids.\<close>

fun collection_rows :: "schema \<Rightarrow> 32 word \<Rightarrow> item list \<Rightarrow> (bytes \<times> entity) list \<Rightarrow> (bytes \<times> entity) list result" where
  "collection_rows schema c [] acc = Inr acc"
| "collection_rows schema c ((key, value) # rows) acc =
     (case decode_entity_key key of
        None \<Rightarrow> collection_rows schema c rows acc
      | Some (_, ee, ef) \<Rightarrow> (case value of
          None \<Rightarrow> collection_rows schema c rows acc
        | Some b \<Rightarrow>
            bindE (decode b) (\<lambda>v.
            bindE (ok_or (field_name c ef schema) (InvalidFormat (str ''unknown field id '' @ dec32 ef))) (\<lambda>name.
              collection_rows schema c rows
                (bt_insert ee (entity_insert name v (unwrap_or entity_new (map_of acc ee))) acc)))))"

definition core_scan_collection :: "schema \<Rightarrow> 's mutator \<Rightarrow> 32 word \<Rightarrow> ('s, error, (bytes \<times> entity) list) op" where
  "core_scan_collection schema mu c =
     (let pstart = collection_prefix c in
      bindS (mu_rows mu (Some pstart) (successor pstart)) (\<lambda>rows.
      bindS (liftS (collection_rows schema c rows [])) (\<lambda>acc.
        liftS (mapE (\<lambda>(ee, e). bindE (decode_entity_id ee) (\<lambda>i. Inr (i, e)))
          (filter (\<lambda>(_, e). en_fields e \<noteq> []) acc)))))"

text \<open>The rows already scanned as a view of their own, which cannot be written.\<close>

definition direct_scan_view :: "item list mutator" where
  "direct_scan_view = \<lparr>mu_get = (\<lambda>key. getS (\<lambda>rows. case find (\<lambda>(k, _). k = key) rows of None \<Rightarrow> None | Some (_, v) \<Rightarrow> v)),
     mu_scan = (\<lambda>start stop. getS (\<lambda>rows. map Inr (filter (\<lambda>(k, _). in_range start stop k) rows))),
     mu_put = (\<lambda>key value. failS (InvalidArgument (str ''read-only view''))),
     mu_delete = (\<lambda>key. failS (InvalidArgument (str ''read-only view'')))\<rparr>"

interpretation scanned: kv_read direct_scan_view "\<lambda>rows. ssorted (map fst rows)" map_of
proof
  fix s :: "item list" and k start stop
  assume s: "ssorted (map fst s)"
  have "(case find (\<lambda>(k', _). k' = k) xs of None \<Rightarrow> None | Some (_, v) \<Rightarrow> v) = flat (map_of xs k)" for xs :: "item list"
    by (induction xs) auto
  then show "\<exists>s'. mu_get direct_scan_view k s = (Inr (flat (map_of s k)), s') \<and> ssorted (map fst s') \<and> map_of s' = map_of s"
    using s by (simp add: direct_scan_view_def)
  have "map_of (filter (\<lambda>(k, _). P k) xs) = (\<lambda>k. if P k then map_of xs k else None)" for xs :: "item list" and P
    by (induction xs) (auto simp: fun_eq_iff)
  then show "\<exists>out s'. mu_scan direct_scan_view start stop s = (Inr (map Inr out), s') \<and> ssorted (map fst s') \<and> map_of s' = map_of s \<and>
      ssorted (map fst out) \<and> map_of out = (\<lambda>k. if in_range start stop k then map_of s k else None)"
    using s by (intro exI[of _ "filter (\<lambda>(k, _). in_range start stop k) s"] exI[of _ s])
      (simp add: direct_scan_view_def ssorted_map_filter)
qed

section \<open>Writing\<close>

text \<open>The field ids of an entity, new names numbered as they come.\<close>

fun assign_fields :: "32 word \<Rightarrow> (bytes \<times> val) list \<Rightarrow> schema \<Rightarrow> (32 word \<times> val) list \<times> schema" where
  "assign_fields c [] s = ([], s)"
| "assign_fields c ((name, v) # fs) s =
     (case field_id c name s of (f, s) \<Rightarrow> (case assign_fields c fs s of (wr, s) \<Rightarrow> ((f, v) # wr, s)))"

text \<open>
  The old state of an entity: the values its indexed fields had, by field, and the keys of fields it no
  longer has. With a hint of its fields this takes point lookups only, otherwise a scan of its range. A hash
  map is an association list in key order, a hash set a list.
\<close>

definition add_old :: "32 word \<Rightarrow> bytes \<Rightarrow> (32 word \<times> val) list \<Rightarrow> (32 word \<times> val) list" where
  "add_old f b old = (case decode b of Inr v \<Rightarrow> bt_insert f v old | Inl _ \<Rightarrow> old)"

fun warm_stale :: "'s mutator \<Rightarrow> 32 word \<Rightarrow> bytes \<Rightarrow> 32 word list \<Rightarrow> 32 word list \<Rightarrow>
    (32 word \<times> val) list \<Rightarrow> bytes list \<Rightarrow> ('s, error, (32 word \<times> val) list \<times> bytes list) op" where
  "warm_stale mu c eid need [] old stale = retS (old, stale)"
| "warm_stale mu c eid need (f # fs) old stale =
     (let k = encode_entity_key c eid f in
      bindS (mu_get mu k) (\<lambda>hit. case hit of
        None \<Rightarrow> warm_stale mu c eid need fs old stale
      | Some b \<Rightarrow> warm_stale mu c eid need fs (if f \<in> set need then add_old f b old else old) (stale @ [k])))"

fun warm_old :: "'s mutator \<Rightarrow> 32 word \<Rightarrow> bytes \<Rightarrow> 32 word list \<Rightarrow> (32 word \<times> val) list \<Rightarrow>
    (32 word \<times> val) list \<Rightarrow> ('s, error, (32 word \<times> val) list) op" where
  "warm_old mu c eid need [] old = retS old"
| "warm_old mu c eid need ((f, _) # ws) old =
     (if f \<notin> set need then warm_old mu c eid need ws old
      else bindS (mu_get mu (encode_entity_key c eid f)) (\<lambda>hit. case hit of
        None \<Rightarrow> warm_old mu c eid need ws old
      | Some b \<Rightarrow> warm_old mu c eid need ws (add_old f b old)))"

fun cold_rows :: "32 word list \<Rightarrow> item list \<Rightarrow> (32 word \<times> val) list \<Rightarrow> bytes list \<Rightarrow> (32 word \<times> val) list \<times> bytes list" where
  "cold_rows new_ids [] old stale = (old, stale)"
| "cold_rows new_ids ((key, value) # rows) old stale = (case decode_entity_key key of
     None \<Rightarrow> cold_rows new_ids rows old stale
   | Some (_, _, f) \<Rightarrow> cold_rows new_ids rows
       (case value of Some b \<Rightarrow> add_old f b old | None \<Rightarrow> old)
       (if f \<notin> set new_ids then stale @ [key] else stale))"

definition old_state :: "'s mutator \<Rightarrow> 32 word list option \<Rightarrow> 32 word \<Rightarrow> bytes \<Rightarrow> 32 word list \<Rightarrow> (32 word \<times> val) list \<Rightarrow>
    ('s, error, (32 word \<times> val) list \<times> bytes list) op" where
  "old_state mu hint c eid need wr =
     (let new_ids = map fst wr in
      case hint of
        Some h \<Rightarrow>
          bindS (warm_stale mu c eid need (filter (\<lambda>f. f \<notin> set new_ids) h) [] []) (\<lambda>(old, stale).
          bindS (warm_old mu c eid need wr old) (\<lambda>old. retS (old, stale)))
      | None \<Rightarrow> (case entity_range c eid of (start, stop) \<Rightarrow>
          bindS (mu_rows mu (Some start) stop) (\<lambda>rows. retS (cold_rows new_ids rows [] []))))"

text \<open>
  The writes of a put, in the order that keeps an index a superset at any time: new index entries, the entity,
  then the removal of old index entries.
\<close>

definition put_index :: "'s mutator \<Rightarrow> 32 word \<Rightarrow> bytes \<Rightarrow> 32 word list \<Rightarrow> (32 word \<times> val) list \<Rightarrow> (32 word \<times> val) list \<Rightarrow>
    ('s, error, unit) op" where
  "put_index mu c eid idx old wr = forS wr (\<lambda>(f, v).
     if f \<notin> set idx then retS ()
     else if opt_eq (map_of old f) (Some v) then retS ()
     else mu_put mu (encode_index_key c f (encode_ordered v) eid) [])"

definition tuple_key :: "32 word \<Rightarrow> 32 word \<Rightarrow> bytes \<Rightarrow> val option list \<Rightarrow> bytes" where
  "tuple_key c i eid tuple = encode_composite_index_key c i (map (\<lambda>x. encode_ordered (the x)) tuple) eid"

definition put_composites :: "'s mutator \<Rightarrow> 32 word \<Rightarrow> bytes \<Rightarrow> (32 word \<times> 32 word list) list \<Rightarrow> (32 word \<times> val) list \<Rightarrow>
    (32 word \<times> val) list \<Rightarrow> ('s, error, unit) op" where
  "put_composites mu c eid composites old wr = forS composites (\<lambda>(i, fids).
     case composite_tuples wr old fids of (new_tuple, old_tuple) \<Rightarrow>
       if \<not> tuple_eq new_tuple old_tuple \<and> list_all (\<lambda>x. x \<noteq> None) new_tuple
       then mu_put mu (tuple_key c i eid new_tuple) [] else retS ())"

definition put_fields :: "'s mutator \<Rightarrow> 32 word \<Rightarrow> bytes \<Rightarrow> bytes list \<Rightarrow> (32 word \<times> val) list \<Rightarrow> ('s, error, unit) op" where
  "put_fields mu c eid stale wr =
     bindS (forS stale (\<lambda>k. mu_delete mu k)) (\<lambda>_.
     forS wr (\<lambda>(f, v). mu_put mu (encode_entity_key c eid f) (encode v)))"

definition drop_old_index :: "'s mutator \<Rightarrow> 32 word \<Rightarrow> bytes \<Rightarrow> 32 word list \<Rightarrow> (32 word \<times> val) list \<Rightarrow> (32 word \<times> val) list \<Rightarrow>
    ('s, error, unit) op" where
  "drop_old_index mu c eid idx old wr = forS old (\<lambda>(f, ov).
     if f \<notin> set idx then retS ()
     else if list_ex (\<lambda>(g, v). g = f \<and> val_eq v ov) wr then retS ()
     else mu_delete mu (encode_index_key c f (encode_ordered ov) eid))"

definition drop_old_composites :: "'s mutator \<Rightarrow> 32 word \<Rightarrow> bytes \<Rightarrow> (32 word \<times> 32 word list) list \<Rightarrow> (32 word \<times> val) list \<Rightarrow>
    (32 word \<times> val) list \<Rightarrow> ('s, error, unit) op" where
  "drop_old_composites mu c eid composites old wr = forS composites (\<lambda>(i, fids).
     case composite_tuples wr old fids of (new_tuple, old_tuple) \<Rightarrow>
       if \<not> tuple_eq new_tuple old_tuple \<and> list_all (\<lambda>x. x \<noteq> None) old_tuple
       then mu_delete mu (tuple_key c i eid old_tuple) else retS ())"

definition put_body :: "'s mutator \<Rightarrow> schema \<Rightarrow> 32 word list option \<Rightarrow> 32 word \<Rightarrow> bytes \<Rightarrow> (32 word \<times> val) list \<Rightarrow>
    ('s, error, unit) op" where
  "put_body mu schema hint c eid wr =
     (let idx = indexed_field_ids schema c; composites = composite_index_defs schema c;
          need_old = idx @ concat (map snd composites) in
      bindS (old_state mu hint c eid need_old wr) (\<lambda>(old, stale).
      bindS (put_index mu c eid idx old wr) (\<lambda>_.
      bindS (put_composites mu c eid composites old wr) (\<lambda>_.
      bindS (put_fields mu c eid stale wr) (\<lambda>_.
      bindS (drop_old_index mu c eid idx old wr) (\<lambda>_.
      drop_old_composites mu c eid composites old wr))))))"

text \<open>The hints of the fields an entity has; \<^verbatim>\<open>None\<close> where the caller keeps none.\<close>

type_synonym hints = "32 word \<times> bytes \<Rightarrow> 32 word list option"

definition core_put_entity :: "'s mutator \<Rightarrow> 32 word \<Rightarrow> bytes \<Rightarrow> entity \<Rightarrow> (schema \<times> hints option \<times> 's, error, unit) op" where
  "core_put_entity mu c eid entity st = (case st of (schema, hint, s) \<Rightarrow>
     if \<not> utf8_valid eid then (Inl (InvalidArgument (str ''entity id is not valid utf8'')), st)
     else case assign_fields c (en_fields entity) schema of (wr, schema) \<Rightarrow>
       (case put_body mu schema (case hint of Some h \<Rightarrow> h (c, eid) | None \<Rightarrow> None) c eid wr s of
          (Inl e, s) \<Rightarrow> (Inl e, (schema, hint, s))
        | (Inr _, s) \<Rightarrow> (Inr (), (schema, map_option (\<lambda>h. h((c, eid) \<mapsto> map fst wr)) hint, s))))"

fun delete_rows :: "'s mutator \<Rightarrow> 32 word list \<Rightarrow> item list \<Rightarrow> (32 word \<times> val) list \<Rightarrow> ('s, error, (32 word \<times> val) list) op" where
  "delete_rows mu need [] vals = retS vals"
| "delete_rows mu need ((key, value) # rows) vals = (case decode_entity_key key of
     None \<Rightarrow> delete_rows mu need rows vals
   | Some (_, _, f) \<Rightarrow> bindS (mu_delete mu key) (\<lambda>_. delete_rows mu need rows
       (case value of Some b \<Rightarrow> if f \<in> set need then add_old f b vals else vals | None \<Rightarrow> vals)))"

definition core_delete_entity :: "schema \<Rightarrow> 's mutator \<Rightarrow> 32 word \<Rightarrow> bytes \<Rightarrow> ('s, error, unit) op" where
  "core_delete_entity schema mu c eid =
     (if \<not> utf8_valid eid then failS (InvalidArgument (str ''entity id is not valid utf8''))
      else case entity_range c eid of (start, stop) \<Rightarrow>
        bindS (mu_rows mu (Some start) stop) (\<lambda>rows.
        let idx = indexed_field_ids schema c; composites = composite_index_defs schema c in
        bindS (delete_rows mu (idx @ concat (map snd composites)) rows []) (\<lambda>vals.
        bindS (forS vals (\<lambda>(f, v). if f \<in> set idx
          then mu_delete mu (encode_index_key c f (encode_ordered v) eid) else retS ())) (\<lambda>_.
        forS composites (\<lambda>(i, fids). case components fids (map_of vals) of
          None \<Rightarrow> retS ()
        | Some comps \<Rightarrow> mu_delete mu (encode_composite_index_key c i comps eid))))))"

text \<open>The check of a conditional update. An entity id reaches this layer as the bytes of a string.\<close>

definition check_expected :: "expected \<Rightarrow> 32 word \<Rightarrow> bytes \<Rightarrow> entity option \<Rightarrow> unit result" where
  "check_expected ex c eid current = (case ex of
     EAny \<Rightarrow> Inr ()
   | EAbsent \<Rightarrow> if current \<noteq> None then Inl (Conflict c eid ExpectedAbsentButExists) else Inr ()
   | EEntity e \<Rightarrow>
       if (case current of Some cur \<Rightarrow> entity_eq cur e | None \<Rightarrow> False) then Inr ()
       else Inl (Conflict c eid ExpectedValueMismatch)
   | EField name v \<Rightarrow>
       if (case current of Some cur \<Rightarrow> opt_eq (entity_field name cur) (Some v) | None \<Rightarrow> False) then Inr ()
       else Inl (Conflict c eid ExpectedFieldMismatch))"

definition core_cas_entity :: "(val \<Rightarrow> bytes) \<Rightarrow> 's mutator \<Rightarrow> 32 word \<Rightarrow> bytes \<Rightarrow> expected \<Rightarrow> patch list \<Rightarrow>
    (schema \<times> hints option \<times> 's, error, entity) op" where
  "core_cas_entity shown mu c eid ex ps st = (case st of (schema, hint, s) \<Rightarrow>
     (case entity_range c eid of (start, stop) \<Rightarrow>
      (case mu_rows mu (Some start) stop s of
         (Inl e, s) \<Rightarrow> (Inl e, (schema, hint, s))
       | (Inr rows, s) \<Rightarrow>
         (case bindE (fst (core_get_entity schema direct_scan_view c eid rows)) (\<lambda>current.
               bindE (check_expected ex c eid current) (\<lambda>_.
               apply_patch shown ps (unwrap_or entity_new current))) of
            Inl e \<Rightarrow> (Inl e, (schema, hint, s))
          | Inr new_entity \<Rightarrow>
              bindS (core_put_entity mu c eid new_entity) (\<lambda>_. retS new_entity) (schema, hint, s)))))"

end
