(* ===== verification/Candidates.thy ===== *)
theory Candidates
  imports Entity
begin

text \<open>
  What a view of the entity layer holds: well-formed keys, readable fields, indexes that miss no entity; and
  the query that is exact on such a view.
\<close>

section \<open>Well-formed views\<close>

definition id_ok :: "bytes \<Rightarrow> bool" where
  "id_ok e \<longleftrightarrow> utf8_valid e \<and> length e < 2 ^ 32"

text \<open>The key of the index entry of a value.\<close>

definition ikey :: "32 word \<Rightarrow> 32 word \<Rightarrow> val \<Rightarrow> bytes \<Rightarrow> bytes" where
  "ikey c f v e = encode_index_key c f (encode_ordered v) e"

inductive key_ok :: "bytes \<Rightarrow> bool" where
  "id_ok e \<Longrightarrow> key_ok (encode_entity_key c e f)"
| "id_ok e \<Longrightarrow> f \<noteq> COMPOSITE_FIELD_MARKER \<Longrightarrow> key_ok (ikey c f v e)"
| "id_ok e \<Longrightarrow> key_ok (encode_composite_index_key c i comps e)"

text \<open>The value of a field in a map of values.\<close>

definition fval :: "(bytes \<Rightarrow> bytes option) \<Rightarrow> 32 word \<Rightarrow> bytes \<Rightarrow> 32 word \<Rightarrow> val option" where
  "fval V c e f = (case V (encode_entity_key c e f) of
     None \<Rightarrow> None
   | Some b \<Rightarrow> (case decode b of Inr v \<Rightarrow> Some v | Inl _ \<Rightarrow> None))"

definition keys_ok :: "(bytes \<Rightarrow> entry option) \<Rightarrow> bool" where
  "keys_ok E \<longleftrightarrow> (\<forall>k. E k \<noteq> None \<longrightarrow> key_ok k)"

text \<open>Every live field has a readable value and a name.\<close>

definition fields_ok :: "schema \<Rightarrow> (bytes \<Rightarrow> bytes option) \<Rightarrow> bool" where
  "fields_ok s V \<longleftrightarrow> (\<forall>c e f b. id_ok e \<longrightarrow> V (encode_entity_key c e f) = Some b \<longrightarrow>
     (\<exists>v. decode b = Inr v) \<and> field_name c f s \<noteq> None)"

text \<open>An index misses no entity: the entry of every value a field has is there.\<close>

definition complete :: "(bytes \<Rightarrow> bytes option) \<Rightarrow> 32 word \<Rightarrow> 32 word \<Rightarrow> bool" where
  "complete V c f \<longleftrightarrow> (\<forall>e v. id_ok e \<longrightarrow> fval V c e f = Some v \<longrightarrow> V (ikey c f v e) \<noteq> None)"

abbreviation vals :: "(bytes \<Rightarrow> entry option) \<Rightarrow> bytes \<Rightarrow> bytes option" where
  "vals E \<equiv> \<lambda>k. flat (E k)"

section \<open>Keys\<close>

lemma index_key_decode: "length e < 2 ^ 32 \<Longrightarrow> decode_index_key (ikey c f v e) = Some (c, f, e)"
  unfolding ikey_def by (rule index_key_roundtrip)

lemma entity_key_decode: "length e < 2 ^ 32 \<Longrightarrow> decode_entity_key (encode_entity_key c e f) = Some (c, e, f)"
  by (rule entity_key_roundtrip)

lemma ikey_inject:
  assumes "length e < 2 ^ 32" and "length e' < 2 ^ 32"
  shows "ikey c f v e = ikey c' f' v' e' \<longleftrightarrow> c = c' \<and> f = f' \<and> e = e' \<and> encode_ordered v = encode_ordered v'"
proof
  assume e: "ikey c f v e = ikey c' f' v' e'"
  then have "c = c' \<and> f = f' \<and> e = e'"
    using index_key_decode[OF assms(1), of c f v] index_key_decode[OF assms(2), of c' f' v'] by simp
  with e show "c = c' \<and> f = f' \<and> e = e' \<and> encode_ordered v = encode_ordered v'"
    by (simp add: ikey_def encode_index_key_def)
qed (simp add: ikey_def)

lemma entity_key_inject:
  assumes "length e < 2 ^ 32" and "length e' < 2 ^ 32"
  shows "encode_entity_key c e f = encode_entity_key c' e' f' \<longleftrightarrow> c = c' \<and> e = e' \<and> f = f'"
proof
  assume "encode_entity_key c e f = encode_entity_key c' e' f'"
  then have "decode_entity_key (encode_entity_key c e f) = decode_entity_key (encode_entity_key c' e' f')" by (rule arg_cong)
  then have "Some (c, e, f) = Some (c', e', f')"
    unfolding entity_key_decode[OF assms(1)] entity_key_decode[OF assms(2)] .
  then show "c = c' \<and> e = e' \<and> f = f'" by simp
qed simp

lemma keys_differ [simp]:
  "encode_entity_key c e f \<noteq> ikey c' f' v e'" "ikey c' f' v e' \<noteq> encode_entity_key c e f"
  "encode_composite_index_key c' i vs e' \<noteq> encode_entity_key c e f"
  "f \<noteq> COMPOSITE_FIELD_MARKER \<Longrightarrow> ikey c f v e \<noteq> encode_composite_index_key c' i vs e'"
  "f \<noteq> COMPOSITE_FIELD_MARKER \<Longrightarrow> encode_composite_index_key c' i vs e' \<noteq> ikey c f v e"
  using index_not_composite[of f c "encode_ordered v" e, THEN not_sym] index_not_composite[of f c "encode_ordered v" e]
    entity_not_index(2)[of c e f, THEN not_sym]
  by (simp_all add: ikey_def entity_not_index[THEN not_sym])

lemma key_ok_decode:
  assumes "key_ok k" and "decode_entity_key k = Some (c, e, f)"
  shows "k = encode_entity_key c e f \<and> id_ok e"
  using assms
proof cases
  case (1 e' c' f')
  then show ?thesis using assms(2) entity_key_decode[of e'] by (auto simp: id_ok_def)
next
  case (2 e' f' c' v)
  then show ?thesis using assms(2) by (simp add: ikey_def)
next
  case (3 e' c' i comps)
  then show ?thesis using assms(2) by simp
qed

text \<open>The well-formed keys of a field's index.\<close>

lemma key_ok_field_prefix:
  assumes "key_ok k" and "prefix (index_field_prefix c f) k" and "f \<noteq> COMPOSITE_FIELD_MARKER"
  shows "\<exists>v e. k = ikey c f v e \<and> id_ok e"
  using assms
proof cases
  case (2 e f' c' v)
  then have "c' = c \<and> f' = f" using assms(2) by (auto simp: prefix_def ikey_def key_defs)
  then show ?thesis using 2 by auto
qed (use assms in \<open>auto simp: prefix_def key_defs\<close>)

section \<open>The range of a query\<close>

lemma value_prefix: "prefix (index_value_prefix c f (encode_ordered w)) (ikey c f v e) \<longleftrightarrow> value_cmp v w = CEqual"
proof
  assume "prefix (index_value_prefix c f (encode_ordered w)) (ikey c f v e)"
  then obtain z where z: "encode_ordered v @ u32_le (as_u32 (length e)) @ e = encode_ordered w @ z"
    by (auto simp: prefix_def ikey_def key_defs)
  show "value_cmp v w = CEqual"
  proof (cases "value_cmp v w")
    case CLess
    from encode_ordered_less[OF this, of "u32_le (as_u32 (length e)) @ e" z] z show ?thesis by simp
  next
    case CGreater
    then have "value_cmp w v = CLess" by (simp add: value_cmp_greater)
    from encode_ordered_less[OF this, of z "u32_le (as_u32 (length e)) @ e"] z show ?thesis by simp
  qed simp
next
  assume "value_cmp v w = CEqual"
  then show "prefix (index_value_prefix c f (encode_ordered w)) (ikey c f v e)"
    by (simp add: encode_ordered_eq prefix_def ikey_def key_defs)
qed

lemma value_prefix_less:
  "value_cmp v w = CLess \<Longrightarrow> ikey c f v e < index_value_prefix c f (encode_ordered w)"
  "value_cmp v w = CGreater \<Longrightarrow> index_value_prefix c f (encode_ordered w) < ikey c f v e"
  using encode_ordered_less[of v w "u32_le (as_u32 (length e)) @ e" "[]"]
    encode_ordered_less[of w v "[]" "u32_le (as_u32 (length e)) @ e"] value_cmp_greater[of v w]
  by (simp_all add: ikey_def key_defs)

lemma in_range_split: "in_range (Some a) stop k \<longleftrightarrow> a \<le> k \<and> in_range None stop k"
  by (simp add: in_range_def)

lemma field_prefix_range: "in_range (Some (index_field_prefix c f)) (successor (index_field_prefix c f)) (ikey c f v e)"
  by (simp add: prefix_range) (simp add: ikey_def key_defs)

text \<open>The start and the end of the range, for the key of a value.\<close>

lemma index_start:
  "fst (index_range c f lower upper) \<le> ikey c f v e \<longleftrightarrow>
     (case lower of Unbounded \<Rightarrow> True | Inclusive w \<Rightarrow> value_cmp v w \<noteq> CLess | Exclusive w \<Rightarrow> value_cmp v w = CGreater)"
proof (cases lower)
  case Unbounded
  then show ?thesis using field_prefix_range[of c f v e] by (simp add: index_range_def Let_def in_range_split)
next
  case (Inclusive w)
  have "index_value_prefix c f (encode_ordered w) \<le> ikey c f v e \<longleftrightarrow> value_cmp v w \<noteq> CLess"
    using value_prefix_less(1)[of v w c f e] value_prefix_less(2)[of v w c f e] value_prefix[of c f w v e]
      prefix_range[of "index_value_prefix c f (encode_ordered w)" "ikey c f v e"]
    by (cases "value_cmp v w") (auto simp: in_range_split not_le)
  then show ?thesis using Inclusive by (simp add: index_range_def Let_def)
next
  case (Exclusive w)
  let ?p = "index_value_prefix c f (encode_ordered w)"
  obtain s where s: "successor ?p = Some s"
    using successor_Cons[of INDEX_TAG] by (auto simp: key_defs)
  have "s \<le> ikey c f v e \<longleftrightarrow> value_cmp v w = CGreater"
  proof (cases "value_cmp v w")
    case CLess
    have "?p < s" using prefix_range[of ?p ?p] s by (simp add: in_range_def)
    then have "ikey c f v e < s" using value_prefix_less(1)[OF CLess, of c f e] by (rule less_trans[rotated])
    then show ?thesis using CLess by (simp add: not_le)
  next
    case CEqual
    then show ?thesis using value_prefix[of c f w v e] prefix_range[of ?p "ikey c f v e"] s by (simp add: in_range_def not_le)
  next
    case CGreater
    then have "\<not> prefix ?p (ikey c f v e)" using value_prefix[of c f w v e] by simp
    then show ?thesis using CGreater value_prefix_less(2)[OF CGreater, of c f e] prefix_range[of ?p "ikey c f v e"] s
      by (auto simp: in_range_def not_le not_less)
  qed
  then show ?thesis using Exclusive s by (simp add: index_range_def Let_def unwrap_or_def)
qed

lemma index_stop:
  "in_range None (snd (index_range c f lower upper)) (ikey c f v e) \<longleftrightarrow>
     (case upper of Unbounded \<Rightarrow> True | Exclusive w \<Rightarrow> value_cmp v w = CLess | Inclusive w \<Rightarrow> value_cmp v w \<noteq> CGreater)"
proof (cases upper)
  case Unbounded
  then show ?thesis using field_prefix_range[of c f v e] by (simp add: index_range_def Let_def in_range_split)
next
  case (Exclusive w)
  have "ikey c f v e < index_value_prefix c f (encode_ordered w) \<longleftrightarrow> value_cmp v w = CLess"
    using value_prefix_less(1)[of v w c f e] value_prefix_less(2)[of v w c f e] value_prefix[of c f w v e]
      prefix_range[of "index_value_prefix c f (encode_ordered w)" "ikey c f v e"]
    by (cases "value_cmp v w") (auto simp: in_range_split not_le)
  then show ?thesis using Exclusive by (simp add: index_range_def Let_def in_range_def)
next
  case (Inclusive w)
  let ?p = "index_value_prefix c f (encode_ordered w)"
  obtain s where s: "successor ?p = Some s"
    using successor_Cons[of INDEX_TAG] by (auto simp: key_defs)
  have "ikey c f v e < s \<longleftrightarrow> value_cmp v w \<noteq> CGreater"
  proof (cases "value_cmp v w")
    case CLess
    have "?p < s" using prefix_range[of ?p ?p] s by (simp add: in_range_def)
    then show ?thesis using CLess value_prefix_less(1)[OF CLess, of c f e] by (auto intro: less_trans)
  next
    case CEqual
    then show ?thesis using value_prefix[of c f w v e] prefix_range[of ?p "ikey c f v e"] s by (simp add: in_range_def)
  next
    case CGreater
    then have "\<not> prefix ?p (ikey c f v e)" using value_prefix[of c f w v e] by simp
    then show ?thesis using CGreater value_prefix_less(2)[OF CGreater, of c f e] prefix_range[of ?p "ikey c f v e"] s
      by (simp add: in_range_def not_less)
  qed
  then show ?thesis using Inclusive s by (simp add: index_range_def Let_def in_range_def)
qed

text \<open>The range holds the index keys of exactly the values within the bounds.\<close>

lemma index_range_exact:
  "in_range (Some (fst (index_range c f lower upper))) (snd (index_range c f lower upper)) (ikey c f v e) \<longleftrightarrow> within v lower upper"
  unfolding in_range_split index_start index_stop within_def by (simp split: bound.split)

lemma in_range_none_mono: "in_range None (Some a) k \<Longrightarrow> a \<le> b \<Longrightarrow> in_range None (Some b) k"
  by (simp add: in_range_def)

lemma index_range_prefix:
  assumes "in_range (Some (fst (index_range c f lower upper))) (snd (index_range c f lower upper)) k"
  shows "prefix (index_field_prefix c f) k"
proof -
  let ?p = "index_field_prefix c f" and ?v = "\<lambda>w. index_value_prefix c f (encode_ordered w)"
  have v: "prefix ?p (?v w)" for w by (simp add: key_defs)
  obtain t where t: "successor ?p = Some t" using successor_Cons[of INDEX_TAG] by (auto simp: key_defs)
  have pv: "?p \<le> ?v w \<and> ?v w < t" for w using prefix_range[of ?p "?v w"] v t by (simp add: in_range_def)
  have sv: "\<exists>s. successor (?v w) = Some s \<and> ?p \<le> s \<and> s \<le> t" for w
  proof -
    obtain s where s: "successor (?v w) = Some s" using successor_Cons[of INDEX_TAG] by (auto simp: key_defs)
    have "?v w < s" using prefix_range[of "?v w" "?v w"] s by (simp add: in_range_def)
    then have "?p \<le> s" using pv[of w] by auto
    moreover have "\<not> t < s"
    proof
      assume "t < s"
      then have "prefix (?v w) t" using prefix_range[of "?v w" t] s pv[of w] by (auto simp: in_range_def)
      then have "prefix ?p t" using v[of w] by (rule prefix_order.trans[rotated])
      then show False using prefix_range[of ?p t] t by (simp add: in_range_def)
    qed
    ultimately show ?thesis using s by (simp add: not_less)
  qed
  have sv': "?p \<le> s \<and> s \<le> t" if "successor (?v w) = Some s" for s w using sv[of w] that by auto
  have "?p \<le> fst (index_range c f lower upper)"
    using pv sv' by (cases lower) (auto simp: index_range_def Let_def unwrap_or_def split: option.split)
  moreover have "\<exists>u. snd (index_range c f lower upper) = Some u \<and> u \<le> t"
    using pv sv t by (cases upper) (auto simp: index_range_def Let_def intro: order_less_imp_le)
  ultimately have "in_range (Some ?p) (successor ?p) k"
    using assms t by (auto simp: in_range_def)
  then show ?thesis by (simp add: prefix_range)
qed

section \<open>The query\<close>

text \<open>The entities of the rows of an index.\<close>

definition row_ids :: "item list \<Rightarrow> bytes set" where
  "row_ids rows = {e. \<exists>c f v. ikey c f v e \<in> fst ` set rows \<and> id_ok e}"

definition matches :: "(bytes \<Rightarrow> bytes option) \<Rightarrow> 32 word \<Rightarrow> 32 word \<Rightarrow> bound \<Rightarrow> bound \<Rightarrow> bytes \<Rightarrow> bool" where
  "matches V c f lower upper e \<longleftrightarrow> id_ok e \<and> (\<exists>v. fval V c e f = Some v \<and> within v lower upper)"

lemma row_ids_Cons: "id_ok e \<Longrightarrow> row_ids ((ikey c f v e, x) # rows) = insert e (row_ids rows)"
  by (auto simp: row_ids_def id_ok_def ikey_inject)

context kv_read
begin

lemma field_value:
  assumes "ok s" and "fields_ok schema (vals (ent s))" and "id_ok e"
  shows "\<exists>s'. field_value_m mu c e f s = (Inr (fval (vals (ent s)) c e f), s') \<and> ok s' \<and> ent s' = ent s"
proof -
  obtain s' where g: "mu_get mu (encode_entity_key c e f) s = (Inr (vals (ent s) (encode_entity_key c e f)), s')"
      "ok s'" "ent s' = ent s"
    using get[OF assms(1)] by blast
  show ?thesis
  proof (cases "vals (ent s) (encode_entity_key c e f)")
    case None
    then show ?thesis using g by (simp add: field_value_m_def bindS_def fval_def)
  next
    case (Some b)
    then obtain v where "decode b = Inr v" using assms(2,3) unfolding fields_ok_def by blast
    then show ?thesis using g Some by (simp add: field_value_m_def bindS_def fval_def)
  qed
qed

lemma find_loop:
  assumes "ok s" and "fields_ok schema (vals (ent s))"
    and "\<forall>k \<in> fst ` set rows. \<exists>v e. k = ikey c f v e \<and> id_ok e"
  shows "\<exists>out s'. find_loop mu c f lower upper rows seen ids s = (Inr (ids @ out), s') \<and> ok s' \<and> ent s' = ent s \<and>
     distinct out \<and> set out = {e \<in> row_ids rows. e \<notin> seen \<and> matches (vals (ent s)) c f lower upper e}"
  using assms
proof (induction rows arbitrary: seen ids s)
  case Nil
  then show ?case by (simp add: row_ids_def)
next
  case (Cons row rows)
  obtain v e where k: "fst row = ikey c f v e" "id_ok e" using Cons.prems(3) by auto
  obtain x where row: "row = (ikey c f v e, x)" using k(1) by (cases row) simp
  have dk: "decode_index_key (ikey c f v e) = Some (c, f, e)" using index_key_decode k(2) by (simp add: id_ok_def)
  have di: "decode_entity_id e = Inr e" using k(2) by (simp add: decode_entity_id_def id_ok_def)
  have ids: "row_ids (row # rows) = insert e (row_ids rows)" using row_ids_Cons[OF k(2)] row by simp
  show ?case
  proof (cases "e \<in> seen")
    case True
    obtain out s' where "find_loop mu c f lower upper rows seen ids s = (Inr (ids @ out), s')" "ok s'" "ent s' = ent s"
        "distinct out" "set out = {e \<in> row_ids rows. e \<notin> seen \<and> matches (vals (ent s)) c f lower upper e}"
      using Cons.IH[OF Cons.prems(1,2), of seen ids] Cons.prems(3) by auto
    moreover have "find_loop mu c f lower upper (row # rows) seen ids s = find_loop mu c f lower upper rows seen ids s"
      using True by (simp add: row dk di bindS_def)
    moreover have "{e \<in> row_ids (row # rows). e \<notin> seen \<and> matches (vals (ent s)) c f lower upper e} =
        {e \<in> row_ids rows. e \<notin> seen \<and> matches (vals (ent s)) c f lower upper e}"
      unfolding ids using True by blast
    ultimately show ?thesis by (intro exI[of _ out] exI[of _ s']) simp
  next
    case False
    obtain s1 where s1: "field_value_m mu c e f s = (Inr (fval (vals (ent s)) c e f), s1)" "ok s1" "ent s1 = ent s"
      using field_value[OF Cons.prems(1,2) k(2)] by blast
    let ?new = "if matches (vals (ent s)) c f lower upper e then [e] else []"
    have new: "(case fval (vals (ent s)) c e f of Some v \<Rightarrow> if within v lower upper then ids @ [e] else ids | None \<Rightarrow> ids) = ids @ ?new"
      using k(2) by (auto simp: matches_def split: option.split)
    obtain out s' where r: "find_loop mu c f lower upper rows (insert e seen) (ids @ ?new) s1 = (Inr ((ids @ ?new) @ out), s')"
        "ok s'" "ent s' = ent s1" "distinct out"
        "set out = {e' \<in> row_ids rows. e' \<notin> insert e seen \<and> matches (vals (ent s1)) c f lower upper e'}"
      using Cons.IH[OF s1(2), of "insert e seen" "ids @ ?new"] Cons.prems(2,3) s1(3) by auto
    have "find_loop mu c f lower upper (row # rows) seen ids s = (Inr (ids @ (?new @ out)), s')"
      using False s1(1) r(1) new by (simp add: row dk di bindS_def)
    moreover have "distinct (?new @ out) \<and> set (?new @ out) =
        {e' \<in> row_ids (row # rows). e' \<notin> seen \<and> matches (vals (ent s)) c f lower upper e'}"
      using r(4,5) s1(3) False unfolding ids by auto
    ultimately show ?thesis using r(2,3) s1(3) by (intro exI[of _ "?new @ out"] exI[of _ s']) simp
  qed
qed

text \<open>A query on a view that misses no entity returns exactly the entities within the bounds.\<close>

lemma find_exact:
  assumes s: "ok s" and keys: "keys_ok (ent s)" and flds: "fields_ok schema (vals (ent s))"
    and all: "complete (vals (ent s)) c f" and ix: "find_index c f schema \<noteq> None" and m: "f \<noteq> COMPOSITE_FIELD_MARKER"
  shows "\<exists>out s'. find_m mu schema c f lower upper s = (Inr out, s') \<and> ok s' \<and> ent s' = ent s \<and>
     distinct out \<and> set out = {e. matches (vals (ent s)) c f lower upper e}"
proof -
  let ?r = "in_range (Some (fst (index_range c f lower upper))) (snd (index_range c f lower upper))"
  obtain rows s1 where sc: "mu_rows mu (Some (fst (index_range c f lower upper))) (snd (index_range c f lower upper)) s = (Inr rows, s1)"
      "ok s1" "ent s1 = ent s" "map_of rows = (\<lambda>k. if ?r k then ent s k else None)"
    using rows[OF s] by blast
  have dom: "k \<in> fst ` set rows \<longleftrightarrow> ?r k \<and> ent s k \<noteq> None" for k
    using sc(4) by (metis (no_types, lifting) map_of_eq_None_iff option.distinct(1))
  have rk: "\<forall>k \<in> fst ` set rows. \<exists>v e. k = ikey c f v e \<and> id_ok e"
    using dom keys key_ok_field_prefix[OF _ index_range_prefix m] unfolding keys_ok_def by blast
  obtain out s' where f: "find_loop mu c f lower upper rows {} [] s1 = (Inr out, s')" "ok s'" "ent s' = ent s1" "distinct out"
      "set out = {e \<in> row_ids rows. matches (vals (ent s)) c f lower upper e}"
    using find_loop[OF sc(2) _ rk, of schema lower upper "{}" "[]"] flds sc(3) by auto
  have "e \<in> row_ids rows" if e: "matches (vals (ent s)) c f lower upper e" for e
  proof -
    obtain v where v: "id_ok e" "fval (vals (ent s)) c e f = Some v" "within v lower upper" using e by (auto simp: matches_def)
    then have "vals (ent s) (ikey c f v e) \<noteq> None" using all by (simp add: complete_def)
    then have "ent s (ikey c f v e) \<noteq> None" by (cases "ent s (ikey c f v e)") simp_all
    then have "ikey c f v e \<in> fst ` set rows" using dom index_range_exact v(3) by blast
    then show ?thesis using v(1) by (auto simp: row_ids_def)
  qed
  then have "set out = {e. matches (vals (ent s)) c f lower upper e}" using f(5) by auto
  moreover have "find_m mu schema c f lower upper s = (Inr out, s')"
    using ix sc(1) f(1) by (cases "index_range c f lower upper") (auto simp: find_m_def bindS_def)
  ultimately show ?thesis using f(2-4) sc(3) by metis
qed

end

end
