(* ===== verification/Upkeep.thy ===== *)
theory Upkeep
  imports Candidates
begin

text \<open>
  The writes of a put and of a delete as lists, and what they do to the map of values: the fields of the entity
  become those given, no other entity changes, and no index ever misses an entity, after any number of the
  writes.
\<close>

section \<open>The writes as lists\<close>

lemma forS_append: "forS (a @ b) f = bindS (forS a f) (\<lambda>_. forS b f)"
  by (induction a) (auto simp: bindS_def fun_eq_iff split: prod.split sum.split)

lemma bindS_assoc: "bindS (bindS m f) g = bindS m (\<lambda>x. bindS (f x) g)"
  by (auto simp: bindS_def fun_eq_iff split: prod.split sum.split)

lemma forS_writes:
  "(\<And>x. x \<in> set xs \<Longrightarrow> g x = (if P x then mu_write mu (w x) else retS ())) \<Longrightarrow>
     forS xs g = forS (map w (filter P xs)) (mu_write mu)"
proof (induction xs)
  case (Cons x xs)
  have x: "g x = (if P x then mu_write mu (w x) else retS ())" using Cons.prems[of x] by simp
  have "bindS (retS ()) f = f ()" for f :: "unit \<Rightarrow> ('a, error, unit) op" by (simp add: fun_eq_iff)
  then show ?case using Cons.IH Cons.prems by (simp add: x)
qed simp

definition index_writes :: "32 word \<Rightarrow> bytes \<Rightarrow> 32 word list \<Rightarrow> (32 word \<times> val) list \<Rightarrow> (32 word \<times> val) list \<Rightarrow>
    (bytes \<times> bytes option) list" where
  "index_writes c eid idx old wr = map (\<lambda>(f, v). (ikey c f v eid, Some []))
     (filter (\<lambda>(f, v). f \<in> set idx \<and> \<not> opt_eq (map_of old f) (Some v)) wr)"

definition composite_writes :: "32 word \<Rightarrow> bytes \<Rightarrow> (32 word \<times> 32 word list) list \<Rightarrow> (32 word \<times> val) list \<Rightarrow>
    (32 word \<times> val) list \<Rightarrow> (bytes \<times> bytes option) list" where
  "composite_writes c eid composites old wr = map (\<lambda>(i, fids). (tuple_key c i eid (fst (composite_tuples wr old fids)), Some []))
     (filter (\<lambda>(i, fids). \<not> tuple_eq (fst (composite_tuples wr old fids)) (snd (composite_tuples wr old fids)) \<and>
        list_all (\<lambda>x. x \<noteq> None) (fst (composite_tuples wr old fids))) composites)"

definition field_writes :: "32 word \<Rightarrow> bytes \<Rightarrow> bytes list \<Rightarrow> (32 word \<times> val) list \<Rightarrow> (bytes \<times> bytes option) list" where
  "field_writes c eid stale wr =
     map (\<lambda>k. (k, None)) stale @ map (\<lambda>(f, v). (encode_entity_key c eid f, Some (encode v))) wr"

definition index_removals :: "32 word \<Rightarrow> bytes \<Rightarrow> 32 word list \<Rightarrow> (32 word \<times> val) list \<Rightarrow> (32 word \<times> val) list \<Rightarrow>
    (bytes \<times> bytes option) list" where
  "index_removals c eid idx old wr = map (\<lambda>(f, v). (ikey c f v eid, None))
     (filter (\<lambda>(f, ov). f \<in> set idx \<and> \<not> list_ex (\<lambda>(g, v). g = f \<and> val_eq v ov) wr) old)"

definition composite_removals :: "32 word \<Rightarrow> bytes \<Rightarrow> (32 word \<times> 32 word list) list \<Rightarrow> (32 word \<times> val) list \<Rightarrow>
    (32 word \<times> val) list \<Rightarrow> (bytes \<times> bytes option) list" where
  "composite_removals c eid composites old wr = map (\<lambda>(i, fids). (tuple_key c i eid (snd (composite_tuples wr old fids)), None))
     (filter (\<lambda>(i, fids). \<not> tuple_eq (fst (composite_tuples wr old fids)) (snd (composite_tuples wr old fids)) \<and>
        list_all (\<lambda>x. x \<noteq> None) (snd (composite_tuples wr old fids))) composites)"

definition put_writes :: "32 word \<Rightarrow> bytes \<Rightarrow> 32 word list \<Rightarrow> (32 word \<times> 32 word list) list \<Rightarrow> (32 word \<times> val) list \<Rightarrow> bytes list \<Rightarrow>
    (32 word \<times> val) list \<Rightarrow> (bytes \<times> bytes option) list" where
  "put_writes c eid idx composites old stale wr =
     (index_writes c eid idx old wr @ composite_writes c eid composites old wr) @
     field_writes c eid stale wr @
     (index_removals c eid idx old wr @ composite_removals c eid composites old wr)"

lemmas writes_defs = index_writes_def composite_writes_def field_writes_def index_removals_def composite_removals_def

lemma put_body_writes:
  "put_body mu schema hint c eid wr =
     (let idx = indexed_field_ids schema c; composites = composite_index_defs schema c in
      bindS (old_state mu hint c eid (idx @ concat (map snd composites)) wr) (\<lambda>(old, stale).
        forS (put_writes c eid idx composites old stale wr) (mu_write mu)))"
proof -
  have "put_index mu c eid idx old wr = forS (index_writes c eid idx old wr) (mu_write mu)" for idx old
    unfolding put_index_def index_writes_def by (rule forS_writes) (auto simp: mu_write_def ikey_def)
  moreover have "put_composites mu c eid composites old wr = forS (composite_writes c eid composites old wr) (mu_write mu)"
    for composites old
    unfolding put_composites_def composite_writes_def
    by (rule forS_writes) (auto simp: mu_write_def split: prod.split)
  moreover have "put_fields mu c eid stale wr = forS (field_writes c eid stale wr) (mu_write mu)" for stale
    unfolding put_fields_def field_writes_def forS_append
    using forS_writes[of stale "mu_delete mu" "\<lambda>_. True" mu "\<lambda>k. (k, None)"]
      forS_writes[of wr "\<lambda>(f, v). mu_put mu (encode_entity_key c eid f) (encode v)" "\<lambda>_. True" mu
        "\<lambda>(f, v). (encode_entity_key c eid f, Some (encode v))"]
    by (simp add: mu_write_def case_prod_beta)
  moreover have "drop_old_index mu c eid idx old wr = forS (index_removals c eid idx old wr) (mu_write mu)" for idx old
    unfolding drop_old_index_def index_removals_def by (rule forS_writes) (auto simp: mu_write_def ikey_def)
  moreover have "drop_old_composites mu c eid composites old wr = forS (composite_removals c eid composites old wr) (mu_write mu)"
    for composites old
    unfolding drop_old_composites_def composite_removals_def
    by (rule forS_writes) (auto simp: mu_write_def split: prod.split)
  ultimately show ?thesis
    unfolding put_body_def put_writes_def Let_def by (simp add: forS_append bindS_assoc case_prod_beta)
qed

section \<open>What holds after every write\<close>

fun all_along :: "((bytes \<Rightarrow> bytes option) \<Rightarrow> bool) \<Rightarrow> (bytes \<times> bytes option) list \<Rightarrow> (bytes \<Rightarrow> bytes option) \<Rightarrow> bool" where
  "all_along P [] V = P V"
| "all_along P (w # ws) V = (P V \<and> all_along P ws (V(fst w := snd w)))"

lemma all_along_append: "all_along P (a @ b) V \<longleftrightarrow> all_along P a V \<and> all_along P b (apply_writes a V)"
proof (induction a arbitrary: V)
  case Nil
  have "all_along P b V \<Longrightarrow> P V" by (cases b) simp_all
  then show ?case by auto
next
  case (Cons w a)
  then show ?case by (simp del: fun_upd_apply)
qed

lemma all_along_take: "all_along P ws V \<longleftrightarrow> (\<forall>n. P (apply_writes (take n ws) V))"
proof (induction ws arbitrary: V)
  case (Cons w ws)
  have "(\<forall>n. P (apply_writes (take n (w # ws)) V)) \<longleftrightarrow> P V \<and> (\<forall>n. P (apply_writes (take n ws) (V(fst w := snd w))))"
    (is "?l \<longleftrightarrow> ?r")
  proof
    assume l: ?l
    have "P V" using spec[OF l, of 0] by simp
    moreover have "P (apply_writes (take n ws) (V(fst w := snd w)))" for n using spec[OF l, of "Suc n"] by simp
    ultimately show ?r by blast
  next
    assume r: ?r
    show ?l
    proof
      fix n show "P (apply_writes (take n (w # ws)) V)" using r by (cases n) auto
    qed
  qed
  then show ?case using Cons by (simp del: fun_upd_apply)
qed simp

lemma all_along_step:
  "P V \<Longrightarrow> (\<And>V w. w \<in> set ws \<Longrightarrow> P V \<Longrightarrow> P (V(fst w := snd w))) \<Longrightarrow> all_along P ws V \<and> P (apply_writes ws V)"
  by (induction ws arbitrary: V) (auto simp del: fun_upd_apply)

lemma all_along_mono: "all_along P ws V \<Longrightarrow> (\<And>V. P V \<Longrightarrow> Q V) \<Longrightarrow> all_along Q ws V"
  by (induction ws arbitrary: V) auto

section \<open>The keys of one entity\<close>

definition own_key :: "32 word \<Rightarrow> bytes \<Rightarrow> bytes \<Rightarrow> bool" where
  "own_key c eid k \<longleftrightarrow> (\<exists>f. k = encode_entity_key c eid f) \<or> (\<exists>f v. f \<noteq> COMPOSITE_FIELD_MARKER \<and> k = ikey c f v eid) \<or>
     (\<exists>i comps. k = encode_composite_index_key c i comps eid)"

lemma own_keyI:
  "own_key c eid (encode_entity_key c eid f)" "f \<noteq> COMPOSITE_FIELD_MARKER \<Longrightarrow> own_key c eid (ikey c f v eid)"
  "own_key c eid (encode_composite_index_key c i comps eid)"
  unfolding own_key_def by blast+

lemma own_key_ok: "own_key c eid k \<Longrightarrow> id_ok eid \<Longrightarrow> key_ok k"
  unfolding own_key_def using key_ok.intros by blast

lemma own_key_other:
  assumes "own_key c eid k" and "id_ok eid" and "id_ok e" and "c' \<noteq> c \<or> e \<noteq> eid"
  shows "k \<noteq> encode_entity_key c' e f" and "f \<noteq> COMPOSITE_FIELD_MARKER \<Longrightarrow> k \<noteq> ikey c' f v e"
  using assms unfolding own_key_def id_ok_def by (auto simp: entity_key_inject ikey_inject)

definition covered :: "(bytes \<Rightarrow> bytes option) \<Rightarrow> 32 word \<Rightarrow> 32 word \<Rightarrow> bytes \<Rightarrow> bool" where
  "covered V c f e \<longleftrightarrow> (\<forall>v. fval V c e f = Some v \<longrightarrow> V (ikey c f v e) \<noteq> None)"

lemma complete_covered: "complete V c f \<longleftrightarrow> (\<forall>e. id_ok e \<longrightarrow> covered V c f e)"
  by (auto simp: complete_def covered_def)

lemma covered_other:
  assumes "\<forall>w \<in> set ws. own_key c eid (fst w)" and "id_ok eid" and "id_ok e" and "c' \<noteq> c \<or> e \<noteq> eid"
    and "f \<noteq> COMPOSITE_FIELD_MARKER"
  shows "covered (apply_writes ws V) c' f e = covered V c' f e"
proof -
  have "apply_writes ws V k = V k" if k: "k = encode_entity_key c' e f \<or> k = ikey c' f v e" for k v
  proof (rule apply_writes_other)
    show "k \<notin> fst ` set ws"
    proof
      assume "k \<in> fst ` set ws"
      then have "own_key c eid k" using assms(1) by auto
      then show False using own_key_other[OF _ assms(2-4)] k assms(5) by blast
    qed
  qed
  then show ?thesis by (simp add: covered_def fval_def)
qed

text \<open>An index that misses no entity does so after any writes for one entity, if it covers that entity.\<close>

lemma complete_along:
  assumes own: "\<forall>w \<in> set ws. own_key c eid (fst w)" and "id_ok eid" and "f \<noteq> COMPOSITE_FIELD_MARKER"
    and "complete V c' f" and cov: "c' = c \<Longrightarrow> all_along (\<lambda>V. covered V c f eid) ws V"
  shows "all_along (\<lambda>V. complete V c' f) ws V"
  unfolding all_along_take complete_covered
proof (intro allI impI)
  fix n e assume e: "id_ok e"
  have own': "\<forall>w \<in> set (take n ws). own_key c eid (fst w)" using own by (auto dest: in_set_takeD)
  show "covered (apply_writes (take n ws) V) c' f e"
  proof (cases "c' = c \<and> e = eid")
    case True
    then show ?thesis using cov unfolding all_along_take by simp
  next
    case False
    then show ?thesis using covered_other[OF own' assms(2) e _ assms(3)] assms(4) e by (auto simp: complete_covered)
  qed
qed

section \<open>A put\<close>

text \<open>What a put reads of the old state of the entity.\<close>

definition old_read :: "(bytes \<Rightarrow> bytes option) \<Rightarrow> 32 word \<Rightarrow> bytes \<Rightarrow> 32 word list \<Rightarrow> (32 word \<times> val) list \<Rightarrow> bytes list \<Rightarrow>
    (32 word \<times> val) list \<Rightarrow> bool" where
  "old_read V c eid need old stale wr \<longleftrightarrow>
     (\<forall>f \<in> set need. map_of old f = fval V c eid f) \<and>
     (\<forall>k \<in> set stale. \<exists>f. k = encode_entity_key c eid f \<and> f \<notin> fst ` set wr) \<and>
     (\<forall>f. f \<notin> fst ` set wr \<longrightarrow> V (encode_entity_key c eid f) \<noteq> None \<longrightarrow> encode_entity_key c eid f \<in> set stale)"

lemma put_writes_own:
  assumes "old_read V c eid need old stale wr" and "COMPOSITE_FIELD_MARKER \<notin> set idx"
    and "w \<in> set (put_writes c eid idx composites old stale wr)"
  shows "own_key c eid (fst w)"
  using assms by (fastforce simp: put_writes_def writes_defs tuple_key_def old_read_def intro: own_keyI)

lemma apply_writes_some: "\<forall>w \<in> set ws. snd w \<noteq> None \<Longrightarrow> apply_writes ws V k \<noteq> None \<longleftrightarrow> V k \<noteq> None \<or> k \<in> fst ` set ws"
  by (induction ws arbitrary: V) auto

lemma fval_written: "val_ok v \<Longrightarrow> V (encode_entity_key c eid f) = Some (encode v) \<Longrightarrow> fval V c eid f = Some v"
  using decode_encode_append[of v "[]"] by (simp add: fval_def)

text \<open>The index entries a put writes and removes are no fields.\<close>

lemma entries_no_field:
  "encode_entity_key c eid f \<notin> fst ` set (index_writes c e idx old wr @ composite_writes c e composites old wr)"
  "encode_entity_key c eid f \<notin> fst ` set (index_removals c e idx old wr @ composite_removals c e composites old wr)"
  by (auto simp: writes_defs tuple_key_def dest: sym)

text \<open>The fields of the entity after the put: those given, the last one of a name, and no other.\<close>

lemma fields_after:
  assumes old: "old_read V c eid need old stale wr" and len: "length eid < 2 ^ 32"
  shows "apply_writes (put_writes c eid idx composites old stale wr) V (encode_entity_key c eid f) =
     map_option encode (map_of (rev wr) f)"
proof -
  let ?k = "encode_entity_key c eid f"
  let ?W1 = "index_writes c eid idx old wr @ composite_writes c eid composites old wr"
  have wr: "apply_writes (map (\<lambda>(f, v). (encode_entity_key c eid f, Some (encode v))) ws) U ?k =
      (case map_of (rev ws) f of Some v \<Rightarrow> Some (encode v) | None \<Rightarrow> U ?k)" for ws U
    using len by (induction ws arbitrary: U) (auto simp: entity_key_inject map_add_def split: option.split)
  have st: "apply_writes (map (\<lambda>k. (k, None)) ks) U ?k = (if ?k \<in> set ks then None else U ?k)" for ks U
    by (induction ks arbitrary: U) auto
  have "map_of (rev wr) f = None \<longleftrightarrow> f \<notin> fst ` set wr" by (simp add: map_of_eq_None_iff)
  then have "apply_writes (field_writes c eid stale wr) (apply_writes ?W1 V) ?k = map_option encode (map_of (rev wr) f)"
    using old apply_writes_other[OF entries_no_field(1)[where c = c and e = eid and eid = eid and f = f], of idx old wr composites V]
    by (auto simp: field_writes_def wr st old_read_def split: option.split)
  then show ?thesis
    unfolding put_writes_def apply_writes_simps(3) using apply_writes_other[OF entries_no_field(2)]
    by (metis apply_writes_simps(3))
qed

text \<open>
  No write leaves an index without an entity it covered: new entries first, then the fields, then the removals.
  The values written must agree with the old ones on equality and on their encodings, which zeros of both
  signs and NaN do not.
\<close>

definition same_equality :: "val \<Rightarrow> val \<Rightarrow> bool" where
  "same_equality v w \<longleftrightarrow> (val_eq v w \<longleftrightarrow> encode_ordered v = encode_ordered w) \<and> (val_eq w v \<longleftrightarrow> encode_ordered v = encode_ordered w)"

lemma all_along_invariant:
  assumes "P V" and "\<And>U k x. (k, x) \<in> set ws \<Longrightarrow> P U \<Longrightarrow> P (U(k := x))"
  shows "all_along P ws V" and "P (apply_writes ws V)"
  using all_along_step[of P V ws] assms by (auto simp del: fun_upd_apply)

lemma entries_phase:
  assumes ws: "ws = index_writes c eid idx old wr @ composite_writes c eid composites old wr"
    and cov: "covered V c f eid"
  shows "all_along (\<lambda>U. covered U c f eid) ws V"
    and "apply_writes ws V (encode_entity_key c eid f) = V (encode_entity_key c eid f)"
    and "f \<in> set idx \<Longrightarrow> map_of old f = fval V c eid f \<Longrightarrow> (f, v) \<in> set wr \<Longrightarrow>
      \<forall>ov. fval V c eid f = Some ov \<longrightarrow> same_equality v ov \<Longrightarrow> apply_writes ws V (ikey c f v eid) \<noteq> None"
    and "fval V c eid f = Some ov \<Longrightarrow> apply_writes ws V (ikey c f ov eid) \<noteq> None"
proof -
  let ?P = "\<lambda>U. (\<forall>k. V k \<noteq> None \<longrightarrow> U k \<noteq> None) \<and> U (encode_entity_key c eid f) = V (encode_entity_key c eid f)"
  have step: "?P (U(k := x))" if "(k, x) \<in> set ws" "?P U" for U k x
  proof -
    have "x = Some []" using that(1) by (auto simp: ws writes_defs)
    moreover have "k \<noteq> encode_entity_key c eid f" using that(1) entries_no_field(1) unfolding ws by force
    ultimately show ?thesis using that(2) by simp
  qed
  have base: "?P V" by simp
  have along: "all_along ?P ws V" and last: "?P (apply_writes ws V)"
    using all_along_invariant[of ?P V ws, OF base step] by blast+
  have mono: "covered U c f eid" if P: "?P U" for U
    using that cov by (auto simp: covered_def fval_def)
  show "all_along (\<lambda>U. covered U c f eid) ws V" by (rule all_along_mono[OF along]) (rule mono)
  show "apply_writes ws V (encode_entity_key c eid f) = V (encode_entity_key c eid f)" using last by blast
  show *: "apply_writes ws V (ikey c f ov eid) \<noteq> None" if "fval V c eid f = Some ov" for ov
    using last cov that unfolding covered_def by blast
  show "apply_writes ws V (ikey c f v eid) \<noteq> None"
    if h: "f \<in> set idx" "map_of old f = fval V c eid f" "(f, v) \<in> set wr"
      "\<forall>ov. fval V c eid f = Some ov \<longrightarrow> same_equality v ov"
  proof (cases "opt_eq (map_of old f) (Some v)")
    case True
    then obtain ov where "fval V c eid f = Some ov" "val_eq ov v"
      unfolding h(2) by (cases "fval V c eid f") auto
    then show ?thesis using *[of ov] h(4) by (simp add: ikey_def same_equality_def)
  next
    case False
    then have "(ikey c f v eid, Some []) \<in> set ws"
      using h(1,3) by (force simp: ws writes_defs)
    moreover have "\<forall>w \<in> set ws. snd w \<noteq> None" by (auto simp: ws writes_defs)
    ultimately show ?thesis using apply_writes_some[of ws V] by force
  qed
qed

lemma removals_keep:
  assumes "(k, x) \<in> set (index_removals c eid idx old wr @ composite_removals c eid composites old wr)"
    and "f \<noteq> COMPOSITE_FIELD_MARKER" and "length eid < 2 ^ 32" and "distinct (map fst old)"
    and "f \<in> set idx \<longrightarrow> map_of old f = fval V c eid f" and "(f, v) \<in> set wr"
    and "\<forall>ov. fval V c eid f = Some ov \<longrightarrow> same_equality v ov"
  shows "k \<noteq> ikey c f v eid"
proof
  assume k: "k = ikey c f v eid"
  then have "(k, x) \<in> set (index_removals c eid idx old wr)"
    using assms(1,2) by (auto simp: composite_removals_def tuple_key_def)
  then obtain g ov where g: "k = ikey c g ov eid" "(g, ov) \<in> set old" "g \<in> set idx"
      "\<not> list_ex (\<lambda>(g', v). g' = g \<and> val_eq v ov) wr"
    by (auto simp: index_removals_def)
  then have "g = f" "encode_ordered ov = encode_ordered v" using k assms(3) by (auto simp: ikey_inject)
  moreover have "fval V c eid f = Some ov"
    using map_of_is_SomeI[OF assms(4) g(2)] g(3) assms(5) \<open>g = f\<close> by simp
  ultimately have "val_eq v ov" using assms(7) by (simp add: same_equality_def)
  then show False using g(4) \<open>g = f\<close> assms(6) by (auto simp: list_ex_iff)
qed

text \<open>The fields are written: the entries of the old and of the new value are both there.\<close>

lemma fields_phase:
  assumes old: "old_read V c eid need old stale wr" and len: "length eid < 2 ^ 32" and vals: "\<forall>(f, v) \<in> set wr. val_ok v"
    and entries: "\<And>v. (f, v) \<in> set wr \<or> fval V c eid f = Some v \<Longrightarrow> U (ikey c f v eid) \<noteq> None"
    and field: "U (encode_entity_key c eid f) = V (encode_entity_key c eid f)"
  shows "all_along (\<lambda>U. covered U c f eid) (field_writes c eid stale wr) U"
    and "(f, v) \<in> set wr \<Longrightarrow> apply_writes (field_writes c eid stale wr) U (ikey c f v eid) \<noteq> None"
proof -
  let ?e = "encode_entity_key c eid f" and ?ws = "field_writes c eid stale wr"
  let ?P = "\<lambda>U. (\<forall>v. (f, v) \<in> set wr \<or> fval V c eid f = Some v \<longrightarrow> U (ikey c f v eid) \<noteq> None) \<and>
    (U ?e = V ?e \<or> U ?e = None \<or> (\<exists>v. (f, v) \<in> set wr \<and> U ?e = Some (encode v)))"
  have mono: "covered U c f eid" if P: "?P U" for U
    unfolding covered_def
  proof (intro allI impI)
    fix v assume v: "fval U c eid f = Some v"
    consider "U ?e = V ?e" | "U ?e = None" | w where "(f, w) \<in> set wr" "U ?e = Some (encode w)"
      using conjunct2[OF P] by auto
    then have "(f, v) \<in> set wr \<or> fval V c eid f = Some v"
    proof cases
      case 3
      then have "v = w" using fval_written[of w U c eid f] vals v by auto
      then show ?thesis using 3(1) by simp
    qed (use v in \<open>simp_all add: fval_def\<close>)
    then show "U (ikey c f v eid) \<noteq> None" using P by blast
  qed
  have base: "?P U" using entries field by blast
  have step: "?P (U(k := x))" if "(k, x) \<in> set ?ws" "?P U" for U k x
  proof -
    have k: "\<forall>v. k \<noteq> ikey c f v eid" using that(1) old by (auto simp: field_writes_def old_read_def)
    have "k = ?e \<Longrightarrow> x = None \<or> (\<exists>v. (f, v) \<in> set wr \<and> x = Some (encode v))"
      using that(1) len by (auto simp: field_writes_def entity_key_inject)
    then show ?thesis using that(2) k by (cases "k = ?e") (auto simp: fun_upd_def)
  qed
  have along: "all_along ?P ?ws U" and last: "?P (apply_writes ?ws U)"
    using all_along_invariant[of ?P U ?ws, OF base step] by blast+
  show "all_along (\<lambda>U. covered U c f eid) ?ws U" by (rule all_along_mono[OF along]) (rule mono)
  show "(f, v) \<in> set wr \<Longrightarrow> apply_writes ?ws U (ikey c f v eid) \<noteq> None" using last by blast
qed

text \<open>The old entries are removed: those of the values written stay.\<close>

lemma removals_phase:
  assumes ws: "ws = index_removals c eid idx old wr @ composite_removals c eid composites old wr"
    and keep: "\<And>k x v. (k, x) \<in> set ws \<Longrightarrow> (f, v) \<in> set wr \<Longrightarrow> k \<noteq> ikey c f v eid"
    and vals: "\<forall>(f, v) \<in> set wr. val_ok v"
    and entries: "\<And>v. (f, v) \<in> set wr \<Longrightarrow> U (ikey c f v eid) \<noteq> None"
    and field: "U (encode_entity_key c eid f) = map_option encode (map_of (rev wr) f)"
  shows "all_along (\<lambda>U. covered U c f eid) ws U"
proof -
  let ?e = "encode_entity_key c eid f"
  let ?Q = "\<lambda>W. (\<forall>v. (f, v) \<in> set wr \<longrightarrow> W (ikey c f v eid) \<noteq> None) \<and> W ?e = U ?e"
  have base: "?Q U" using entries by simp
  have step: "?Q (W(k := x))" if "(k, x) \<in> set ws" "?Q W" for W k x
  proof -
    have "k \<noteq> ?e" using that(1) entries_no_field(2) unfolding ws by force
    then show ?thesis using that(2) keep[OF that(1)] by auto
  qed
  have along: "all_along ?Q ws U" using all_along_invariant[of ?Q U ws, OF base step] by blast
  have mono: "covered W c f eid" if Q: "?Q W" for W
    unfolding covered_def
  proof (intro allI impI)
    fix v assume v: "fval W c eid f = Some v"
    then obtain w where w: "map_of (rev wr) f = Some w" using Q field by (auto simp: fval_def split: option.splits)
    then have "val_ok w" using vals by (auto dest!: map_of_SomeD)
    then have "fval W c eid f = Some w" using fval_written[of w W c eid f] Q field w by simp
    then show "W (ikey c f v eid) \<noteq> None" using Q v map_of_SomeD[OF w] by simp
  qed
  show ?thesis by (rule all_along_mono[OF along]) (rule mono)
qed

text \<open>The put as a whole.\<close>

lemma put_covers:
  assumes old: "old_read V c eid need old stale wr" "distinct (map fst old)" and len: "length eid < 2 ^ 32"
    and f: "f \<in> set idx" "f \<in> set need" "f \<noteq> COMPOSITE_FIELD_MARKER"
    and vals: "\<forall>(f, v) \<in> set wr. val_ok v" and cov: "covered V c f eid"
    and same: "\<And>v ov. (f, v) \<in> set wr \<Longrightarrow> fval V c eid f = Some ov \<Longrightarrow> same_equality v ov"
  shows "all_along (\<lambda>U. covered U c f eid) (put_writes c eid idx composites old stale wr) V"
proof -
  define W1 where "W1 = index_writes c eid idx old wr @ composite_writes c eid composites old wr"
  define W2 where "W2 = field_writes c eid stale wr"
  define W3 where "W3 = index_removals c eid idx old wr @ composite_removals c eid composites old wr"
  define V1 where "V1 = apply_writes W1 V"
  have of: "map_of old f = fval V c eid f" using old(1) f(2) by (simp add: old_read_def)
  have s: "(f, v) \<in> set wr \<Longrightarrow> \<forall>ov. fval V c eid f = Some ov \<longrightarrow> same_equality v ov" for v using same by blast
  note one = entries_phase[OF W1_def cov, folded V1_def]
  have e1: "(f, v) \<in> set wr \<or> fval V c eid f = Some v \<Longrightarrow> V1 (ikey c f v eid) \<noteq> None" for v
    using one(3)[OF f(1) of _ s] one(4) by blast
  have two: "all_along (\<lambda>U. covered U c f eid) W2 V1"
      "(f, v) \<in> set wr \<Longrightarrow> apply_writes W2 V1 (ikey c f v eid) \<noteq> None" for v
    unfolding W2_def by (rule fields_phase[OF old(1) len vals e1 one(2)]; assumption)+
  have keep: "(k, x) \<in> set W3 \<Longrightarrow> (f, v) \<in> set wr \<Longrightarrow> k \<noteq> ikey c f v eid" for k x v
    using removals_keep[OF _ f(3) len old(2), where k = k and x = x and idx = idx and wr = wr and composites = composites
        and V = V and c = c and v = v] of s[of v] unfolding W3_def by blast
  have "apply_writes (W1 @ W2 @ W3) V (encode_entity_key c eid f) = map_option encode (map_of (rev wr) f)"
    using fields_after[OF old(1) len, where idx = idx and composites = composites and f = f]
    by (simp add: put_writes_def W1_def W2_def W3_def)
  then have "apply_writes W2 V1 (encode_entity_key c eid f) = map_option encode (map_of (rev wr) f)"
    using apply_writes_other[OF entries_no_field(2)] by (simp add: V1_def W3_def)
  then have "all_along (\<lambda>U. covered U c f eid) W3 (apply_writes W2 V1)"
    using two(2) by (intro removals_phase[OF W3_def keep vals])
  then show ?thesis
    using one(1) two(1) unfolding put_writes_def by (simp add: V1_def W1_def W2_def W3_def all_along_append)
qed

end
