(* ===== verification/Updates.thy ===== *)
theory Updates
  imports Upkeep
begin

text \<open>
  Reading and writing an entity over any view: the old state a put reads, by the hint or by a scan, and the put,
  the read of an entity, the deletion and the conditional update as a whole.
\<close>

section \<open>The rows of an entity\<close>

lemma entity_range_split: "entity_range c e = (entity_prefix c e, successor (entity_prefix c e))"
  by (simp add: entity_range_def Let_def)

definition own_row :: "32 word \<Rightarrow> bytes \<Rightarrow> item \<Rightarrow> bool" where
  "own_row c eid row \<longleftrightarrow> (\<exists>f. fst row = encode_entity_key c eid f)"

lemma key_ok_entity_prefix:
  assumes "key_ok k" and "id_ok eid"
  shows "prefix (entity_prefix c eid) k \<longleftrightarrow> (\<exists>f. k = encode_entity_key c eid f)"
  using assms(1)
proof cases
  case (1 e c' f)
  then show ?thesis
    using assms(2) entity_prefix_key[of eid e c c' f] by (auto simp: id_ok_def entity_key_inject)
next
  case (2 e f c' v)
  then show ?thesis by (auto simp: prefix_def ikey_def key_defs)
next
  case (3 e c' i comps)
  then show ?thesis by (auto simp: prefix_def key_defs)
qed

text \<open>What a scan returned for a range.\<close>

definition rows_of :: "(bytes \<Rightarrow> entry option) \<Rightarrow> bytes option \<Rightarrow> bytes option \<Rightarrow> item list \<Rightarrow> bool" where
  "rows_of E start stop rows \<longleftrightarrow> ssorted (map fst rows) \<and> map_of rows = (\<lambda>k. if in_range start stop k then E k else None)"

abbreviation entity_scan :: "(bytes \<Rightarrow> entry option) \<Rightarrow> 32 word \<Rightarrow> bytes \<Rightarrow> item list \<Rightarrow> bool" where
  "entity_scan E c eid \<equiv> rows_of E (Some (entity_prefix c eid)) (successor (entity_prefix c eid))"

lemma rows_of_unique: "rows_of E a b rows \<Longrightarrow> rows_of E a b rows' \<Longrightarrow> rows = rows'"
  unfolding rows_of_def by (rule sorted_assoc_unique) simp_all

lemma entity_scan_rows:
  assumes "entity_scan E c eid rows" and "keys_ok E" and "id_ok eid"
  shows "\<forall>row \<in> set rows. own_row c eid row"
    and "map_of rows (encode_entity_key c eid f) = E (encode_entity_key c eid f)"
proof -
  show "\<forall>row \<in> set rows. own_row c eid row"
  proof
    fix row assume r: "row \<in> set rows"
    then have "map_of rows (fst row) \<noteq> None" by (metis map_of_eq_None_iff imageI)
    then have "prefix (entity_prefix c eid) (fst row)" "key_ok (fst row)"
      using assms(1,2) by (auto simp: rows_of_def prefix_range keys_ok_def split: if_splits)
    then show "own_row c eid row" using key_ok_entity_prefix assms(3) by (simp add: own_row_def)
  qed
  have "prefix (entity_prefix c eid) (encode_entity_key c eid f)" by (simp add: entity_key_prefix)
  then show "map_of rows (encode_entity_key c eid f) = E (encode_entity_key c eid f)"
    using assms(1) by (simp add: rows_of_def prefix_range)
qed

section \<open>The old state\<close>

lemma map_of_add_old:
  "ssorted (map fst old) \<Longrightarrow> ssorted (map fst (add_old f b old)) \<and>
     map_of (add_old f b old) = (case decode b of Inr v \<Rightarrow> (map_of old)(f \<mapsto> v) | Inl _ \<Rightarrow> map_of old)"
  by (auto simp: add_old_def split: sum.split)

text \<open>The value of a field read as bytes.\<close>

definition read_val :: "bytes option \<Rightarrow> val option" where
  "read_val x = (case x of None \<Rightarrow> None | Some b \<Rightarrow> (case decode b of Inr v \<Rightarrow> Some v | Inl _ \<Rightarrow> None))"

lemma fval_read: "fval V c eid f = read_val (V (encode_entity_key c eid f))"
  by (simp add: fval_def read_val_def)

lemma cold_rows:
  assumes "\<forall>row \<in> set rows. own_row c eid row" and "distinct (map fst rows)" and "ssorted (map fst old)" and "id_ok eid"
    and "\<forall>f. encode_entity_key c eid f \<in> fst ` set rows \<longrightarrow> map_of old f = None"
  shows "\<exists>old'. cold_rows ids rows old stale = (old', stale @ filter (\<lambda>k. \<forall>f \<in> set ids. k \<noteq> encode_entity_key c eid f) (map fst rows)) \<and>
     ssorted (map fst old') \<and>
     (\<forall>f. map_of old' f = (if encode_entity_key c eid f \<in> fst ` set rows
        then read_val (flat (map_of rows (encode_entity_key c eid f))) else map_of old f))"
  using assms
proof (induction rows arbitrary: old stale)
  case (Cons row rows)
  have len: "length eid < 2 ^ 32" using Cons.prems(4) by (simp add: id_ok_def)
  obtain f x where row: "row = (encode_entity_key c eid f, x)" using Cons.prems(1) by (cases row) (auto simp: own_row_def)
  let ?o = "case x of Some b \<Rightarrow> add_old f b old | None \<Rightarrow> old"
  have o: "ssorted (map fst ?o)" "map_of ?o = (map_of old)(f := read_val x)"
    using map_of_add_old[OF Cons.prems(3)] Cons.prems(3,5) row
    by (auto simp: read_val_def fun_eq_iff split: option.split sum.split)
  have fresh: "\<forall>g. encode_entity_key c eid g \<in> fst ` set rows \<longrightarrow> map_of ?o g = None"
    using Cons.prems(2,5) row o(2) by (auto simp: entity_key_inject[OF len len])
  have st: "(f \<notin> set ids) = (\<forall>g \<in> set ids. encode_entity_key c eid f \<noteq> encode_entity_key c eid g)"
    by (auto simp: entity_key_inject[OF len len])
  obtain old' where r: "cold_rows ids rows ?o (if f \<notin> set ids then stale @ [encode_entity_key c eid f] else stale) =
      (old', (if f \<notin> set ids then stale @ [encode_entity_key c eid f] else stale) @
        filter (\<lambda>k. \<forall>f \<in> set ids. k \<noteq> encode_entity_key c eid f) (map fst rows))"
      "ssorted (map fst old')"
      "\<forall>g. map_of old' g = (if encode_entity_key c eid g \<in> fst ` set rows
        then read_val (flat (map_of rows (encode_entity_key c eid g))) else map_of ?o g)"
    using Cons.IH[OF _ _ o(1) Cons.prems(4) fresh] Cons.prems(1,2) by fastforce
  have "cold_rows ids (row # rows) old stale =
      (old', stale @ filter (\<lambda>k. \<forall>f \<in> set ids. k \<noteq> encode_entity_key c eid f) (map fst (row # rows)))"
    using r(1) st by (simp add: row entity_key_decode[OF len] split: if_splits)
  moreover have "map_of old' g = (if encode_entity_key c eid g \<in> fst ` set (row # rows)
        then read_val (flat (map_of (row # rows) (encode_entity_key c eid g))) else map_of old g)" for g
    using r(3) o(2) Cons.prems(2) by (auto simp: row entity_key_inject[OF len len])
  ultimately show ?case using r(2) by blast
qed simp

text \<open>A hint is usable if it names every live field of the entity.\<close>

definition hint_ok :: "(bytes \<Rightarrow> bytes option) \<Rightarrow> 32 word \<Rightarrow> bytes \<Rightarrow> 32 word list option \<Rightarrow> bool" where
  "hint_ok V c eid hint \<longleftrightarrow> (\<forall>h. hint = Some h \<longrightarrow> (\<forall>f. V (encode_entity_key c eid f) \<noteq> None \<longrightarrow> f \<in> set h))"

context kv_read
begin

lemma warm_stale:
  assumes "ok s" and "ssorted (map fst old)"
  shows "\<exists>old' s'. warm_stale mu c eid need fs old stale s =
       (Inr (old', stale @ map (encode_entity_key c eid) (filter (\<lambda>f. vals (ent s) (encode_entity_key c eid f) \<noteq> None) fs)), s') \<and>
     ok s' \<and> ent s' = ent s \<and> ssorted (map fst old') \<and>
     (\<forall>f. map_of old' f = (if f \<in> set fs \<and> f \<in> set need \<and> fval (vals (ent s)) c eid f \<noteq> None
        then fval (vals (ent s)) c eid f else map_of old f))"
  using assms
proof (induction fs arbitrary: old stale s)
  case (Cons f fs)
  let ?k = "encode_entity_key c eid f"
  obtain s1 where g: "mu_get mu ?k s = (Inr (vals (ent s) ?k), s1)" "ok s1" "ent s1 = ent s"
    using get[OF Cons.prems(1)] by blast
  show ?case
  proof (cases "vals (ent s) ?k")
    case None
    then have "fval (vals (ent s)) c eid f = None" by (simp add: fval_def)
    then show ?thesis using Cons.IH[OF g(2) Cons.prems(2), of stale] g None by (auto simp: bindS_def Let_def)
  next
    case (Some b)
    let ?o = "if f \<in> set need then add_old f b old else old"
    have o: "ssorted (map fst ?o)" "map_of ?o = (if f \<in> set need \<and> fval (vals (ent s)) c eid f \<noteq> None
        then (map_of old)(f := fval (vals (ent s)) c eid f) else map_of old)"
      using map_of_add_old[OF Cons.prems(2)] Cons.prems(2) Some by (auto simp: fval_def split: sum.split)
    obtain old' s' where "warm_stale mu c eid need fs ?o (stale @ [?k]) s1 =
       (Inr (old', (stale @ [?k]) @ map (encode_entity_key c eid) (filter (\<lambda>f. vals (ent s1) (encode_entity_key c eid f) \<noteq> None) fs)), s')"
       "ok s'" "ent s' = ent s1" "ssorted (map fst old')"
       "\<forall>f. map_of old' f = (if f \<in> set fs \<and> f \<in> set need \<and> fval (vals (ent s1)) c eid f \<noteq> None
        then fval (vals (ent s1)) c eid f else map_of ?o f)"
      using Cons.IH[OF g(2) o(1), of "stale @ [?k]"] by blast
    then show ?thesis using g Some o(2) by (intro exI[of _ old'] exI[of _ s']) (auto simp: bindS_def Let_def)
  qed
qed simp

lemma warm_old:
  assumes "ok s" and "ssorted (map fst old)"
  shows "\<exists>old' s'. warm_old mu c eid need ws old s = (Inr old', s') \<and>
     ok s' \<and> ent s' = ent s \<and> ssorted (map fst old') \<and>
     (\<forall>f. map_of old' f = (if f \<in> fst ` set ws \<and> f \<in> set need \<and> fval (vals (ent s)) c eid f \<noteq> None
        then fval (vals (ent s)) c eid f else map_of old f))"
  using assms
proof (induction ws arbitrary: old s)
  case (Cons w ws)
  obtain f v where w: "w = (f, v)" by (cases w)
  let ?k = "encode_entity_key c eid f"
  obtain s1 where g: "mu_get mu ?k s = (Inr (vals (ent s) ?k), s1)" "ok s1" "ent s1 = ent s"
    using get[OF Cons.prems(1)] by blast
  show ?case
  proof (cases "f \<in> set need")
    case False
    then show ?thesis using Cons.IH[OF Cons.prems] w by auto
  next
    case need: True
    let ?o = "case vals (ent s) ?k of Some b \<Rightarrow> add_old f b old | None \<Rightarrow> old"
    have o: "ssorted (map fst ?o)" "map_of ?o = (if fval (vals (ent s)) c eid f \<noteq> None
        then (map_of old)(f := fval (vals (ent s)) c eid f) else map_of old)"
      using map_of_add_old[OF Cons.prems(2)] Cons.prems(2) by (auto simp: fval_def split: sum.split option.split)
    obtain old' s' where r: "warm_old mu c eid need ws ?o s1 = (Inr old', s')"
       "ok s'" "ent s' = ent s1" "ssorted (map fst old')"
       "\<forall>f. map_of old' f = (if f \<in> fst ` set ws \<and> f \<in> set need \<and> fval (vals (ent s1)) c eid f \<noteq> None
        then fval (vals (ent s1)) c eid f else map_of ?o f)"
      using Cons.IH[OF g(2) o(1)] by blast
    have "warm_old mu c eid need (w # ws) old s = (Inr old', s')"
      using g r(1) need w by (auto simp: bindS_def split: option.split)
    then show ?thesis using g r(2-5) o(2) need w by (intro exI[of _ old'] exI[of _ s']) auto
  qed
qed simp

lemma old_state:
  assumes s: "ok s" and keys: "keys_ok (ent s)" and eid: "id_ok eid" and hint: "hint_ok (vals (ent s)) c eid hint"
  shows "\<exists>old stale s'. old_state mu hint c eid need wr s = (Inr (old, stale), s') \<and> ok s' \<and> ent s' = ent s \<and>
     old_read (vals (ent s)) c eid need old stale wr \<and> distinct (map fst old)"
proof (cases hint)
  case None
  obtain rows s1 where r: "mu_rows mu (Some (entity_prefix c eid)) (successor (entity_prefix c eid)) s = (Inr rows, s1)"
      "ok s1" "ent s1 = ent s" "entity_scan (ent s) c eid rows"
    using rows[OF s] unfolding rows_of_def by blast
  note er = entity_scan_rows[OF r(4) keys eid]
  have dist: "distinct (map fst rows)" using r(4) by (simp add: rows_of_def ssorted_distinct)
  obtain old where o: "cold_rows (map fst wr) rows [] [] = (old, filter (\<lambda>k. \<forall>f \<in> fst ` set wr. k \<noteq> encode_entity_key c eid f) (map fst rows))"
      "ssorted (map fst old)"
      "\<forall>f. map_of old f = (if encode_entity_key c eid f \<in> fst ` set rows
        then read_val (flat (map_of rows (encode_entity_key c eid f))) else None)"
    using cold_rows[OF er(1) dist _ eid, of "[]" "map fst wr" "[]"] by auto
  have dom: "encode_entity_key c eid f \<in> fst ` set rows \<longleftrightarrow> ent s (encode_entity_key c eid f) \<noteq> None" for f
    using er(2)[of f] by (metis map_of_eq_None_iff)
  let ?stale = "filter (\<lambda>k. \<forall>f \<in> fst ` set wr. k \<noteq> encode_entity_key c eid f) (map fst rows)"
  have len: "length eid < 2 ^ 32" using eid by (simp add: id_ok_def)
  have "\<exists>f. k = encode_entity_key c eid f \<and> f \<notin> fst ` set wr" if k: "k \<in> set ?stale" for k
  proof -
    obtain f where "k = encode_entity_key c eid f" using er(1) k by (auto simp: own_row_def dest: bspec)
    then show ?thesis using k by auto
  qed
  moreover have "encode_entity_key c eid f \<in> set ?stale"
    if "f \<notin> fst ` set wr" "vals (ent s) (encode_entity_key c eid f) \<noteq> None" for f
  proof -
    have "ent s (encode_entity_key c eid f) \<noteq> None"
      using that(2) by (cases "ent s (encode_entity_key c eid f)") simp_all
    then have "encode_entity_key c eid f \<in> fst ` set rows" using dom by blast
    then show ?thesis using that(1) by (auto simp: entity_key_inject[OF len len])
  qed
  moreover have "map_of old f = fval (vals (ent s)) c eid f" for f
    using er(2) dom o(3) by (auto simp: fval_read read_val_def)
  ultimately have "old_read (vals (ent s)) c eid need old ?stale wr" by (simp add: old_read_def)
  then show ?thesis
    using r(1-3) o(1,2) None by (auto simp: old_state_def entity_range_split bindS_def ssorted_distinct)
next
  case (Some h)
  let ?fs = "filter (\<lambda>f. f \<notin> set (map fst wr)) h"
  obtain o1 s1 where w1: "warm_stale mu c eid need ?fs [] [] s =
       (Inr (o1, map (encode_entity_key c eid) (filter (\<lambda>f. vals (ent s) (encode_entity_key c eid f) \<noteq> None) ?fs)), s1)"
       "ok s1" "ent s1 = ent s" "ssorted (map fst o1)"
       "\<forall>f. map_of o1 f = (if f \<in> set ?fs \<and> f \<in> set need \<and> fval (vals (ent s)) c eid f \<noteq> None
        then fval (vals (ent s)) c eid f else None)"
    using warm_stale[OF s, of "[]" c eid need ?fs "[]"] by auto
  obtain o2 s2 where w2: "warm_old mu c eid need wr o1 s1 = (Inr o2, s2)" "ok s2" "ent s2 = ent s1" "ssorted (map fst o2)"
       "\<forall>f. map_of o2 f = (if f \<in> fst ` set wr \<and> f \<in> set need \<and> fval (vals (ent s1)) c eid f \<noteq> None
        then fval (vals (ent s1)) c eid f else map_of o1 f)"
    using warm_old[OF w1(2,4)] by blast
  have "fval (vals (ent s)) c eid f \<noteq> None \<Longrightarrow> f \<in> set h" for f
    using hint Some unfolding hint_ok_def by (auto simp: fval_def split: option.splits)
  then have "map_of o2 f = fval (vals (ent s)) c eid f" if "f \<in> set need" for f
    using w2(5) w1(3,5) that by (cases "fval (vals (ent s)) c eid f") auto
  then have "old_read (vals (ent s)) c eid need o2
      (map (encode_entity_key c eid) (filter (\<lambda>f. vals (ent s) (encode_entity_key c eid f) \<noteq> None) ?fs)) wr"
    using hint Some unfolding old_read_def hint_ok_def by auto
  then show ?thesis
    using w1 w2 Some by (auto simp: old_state_def bindS_def ssorted_distinct)
qed

end

section \<open>The put\<close>

text \<open>What every operation of the layer keeps of a view: its keys, its fields and its indexes.\<close>

definition view_ok :: "schema \<Rightarrow> (bytes \<Rightarrow> entry option) \<Rightarrow> bool" where
  "view_ok schema E \<longleftrightarrow> keys_ok E \<and> fields_ok schema (vals E) \<and>
     (\<forall>c. \<forall>f \<in> set (indexed_field_ids schema c). f \<noteq> COMPOSITE_FIELD_MARKER \<and> complete (vals E) c f)"

text \<open>Whether the view has room for the writes of a put.\<close>

definition put_fits :: "(bytes \<times> bytes option \<Rightarrow> bool) \<Rightarrow> 's mutator \<Rightarrow> schema \<Rightarrow> 32 word list option \<Rightarrow> 32 word \<Rightarrow> bytes \<Rightarrow>
    (32 word \<times> val) list \<Rightarrow> 's \<Rightarrow> bool" where
  "put_fits room mu schema hint c eid wr s =
     (let idx = indexed_field_ids schema c; composites = composite_index_defs schema c in
      case old_state mu hint c eid (idx @ concat (map snd composites)) wr s of
        (Inr (old, stale), _) \<Rightarrow> list_all room (put_writes c eid idx composites old stale wr)
      | _ \<Rightarrow> False)"

text \<open>Old and new values of the indexed fields on which equality and encoding agree.\<close>

definition same_equalities :: "schema \<Rightarrow> (bytes \<Rightarrow> bytes option) \<Rightarrow> 32 word \<Rightarrow> bytes \<Rightarrow> (32 word \<times> val) list \<Rightarrow> bool" where
  "same_equalities schema V c eid wr \<longleftrightarrow> (\<forall>(f, v) \<in> set wr. f \<in> set (indexed_field_ids schema c) \<longrightarrow>
     (case fval V c eid f of None \<Rightarrow> True | Some ov \<Rightarrow> same_equality v ov))"

lemma keys_ok_writes:
  assumes "keys_ok E" and "\<forall>w \<in> set ws. own_key c eid (fst w)" and "id_ok eid"
    and "\<forall>k. k \<notin> fst ` set ws \<longrightarrow> E k = None \<longrightarrow> E' k = None"
  shows "keys_ok E'"
  unfolding keys_ok_def
proof (intro allI impI)
  fix k assume k: "E' k \<noteq> None"
  show "key_ok k"
  proof (cases "k \<in> fst ` set ws")
    case True
    then have "own_key c eid k" using assms(2) by auto
    then show ?thesis using assms(3) by (rule own_key_ok)
  next
    case False
    then have "E k \<noteq> None" using spec[OF assms(4), of k] k by auto
    then show ?thesis using assms(1) by (simp add: keys_ok_def)
  qed
qed

text \<open>The indexes of a view after any number of writes.\<close>

abbreviation indexes_along :: "schema \<Rightarrow> (bytes \<times> bytes option) list \<Rightarrow> (bytes \<Rightarrow> bytes option) \<Rightarrow> bool" where
  "indexes_along schema ws V \<equiv> \<forall>c. \<forall>f \<in> set (indexed_field_ids schema c). all_along (\<lambda>V. complete V c f) ws V"

lemma put_indexes_along:
  assumes view: "view_ok schema E" and eid: "id_ok eid" and vals: "\<forall>(f, v) \<in> set wr. val_ok v"
    and same: "same_equalities schema (vals E) c eid wr"
    and old: "old_read (vals E) c eid (indexed_field_ids schema c @ need) old stale wr" "distinct (map fst old)"
  shows "indexes_along schema (put_writes c eid (indexed_field_ids schema c) composites old stale wr) (vals E)"
proof (intro allI ballI)
  fix c' f assume f: "f \<in> set (indexed_field_ids schema c')"
  have m: "f \<noteq> COMPOSITE_FIELD_MARKER" "complete (vals E) c' f" using view f by (auto simp: view_ok_def)
  have marker: "COMPOSITE_FIELD_MARKER \<notin> set (indexed_field_ids schema c)" using view by (auto simp: view_ok_def)
  have len: "length eid < 2 ^ 32" using eid by (simp add: id_ok_def)
  show "all_along (\<lambda>V. complete V c' f) (put_writes c eid (indexed_field_ids schema c) composites old stale wr) (vals E)"
  proof (rule complete_along[OF _ eid m])
    show "\<forall>w \<in> set (put_writes c eid (indexed_field_ids schema c) composites old stale wr). own_key c eid (fst w)"
      using put_writes_own[OF old(1) marker] by blast
    assume c: "c' = c"
    have cov: "covered (vals E) c f eid" using m(2) eid c by (simp add: complete_covered)
    have "same_equality v ov" if "(f, v) \<in> set wr" "fval (vals E) c eid f = Some ov" for v ov
      using same f c that by (auto simp: same_equalities_def)
    then show "all_along (\<lambda>V. covered V c f eid) (put_writes c eid (indexed_field_ids schema c) composites old stale wr) (vals E)"
      using f c m(1) by (intro put_covers[OF old len _ _ _ vals cov]) auto
  qed
qed

lemma all_along_last: "all_along P ws V \<Longrightarrow> P (apply_writes ws V)"
  using all_along_take[of P ws V] by (metis take_all_iff order_refl)

section \<open>Field numbers\<close>

lemma field_id_grows:
  assumes inv: "schema_inv s" and room: "unat (sc_next_field_id s) + 1 < 2 ^ 32" and r: "field_id c name s = (f, s')"
  shows "schema_inv s'" "lookup_field_id c name s' = Some f" "sc_indexes s' = sc_indexes s"
    "unat (sc_next_field_id s') \<le> unat (sc_next_field_id s) + 1"
    "lookup_field_id c' n s = Some g \<Longrightarrow> lookup_field_id c' n s' = Some g"
    "sc_collection_id_of s' = sc_collection_id_of s"
proof -
  have "unat (sc_next_field_id s + 1) = unat (sc_next_field_id s) + 1"
    using room by (simp add: unat_word_ariths)
  moreover from this have "sc_next_field_id s + 1 \<noteq> 0" by (metis add_is_0 one_neq_zero unat_0)
  ultimately show "schema_inv s'" "lookup_field_id c name s' = Some f" "sc_indexes s' = sc_indexes s"
    "unat (sc_next_field_id s') \<le> unat (sc_next_field_id s) + 1"
    "lookup_field_id c' n s = Some g \<Longrightarrow> lookup_field_id c' n s' = Some g" "sc_collection_id_of s' = sc_collection_id_of s"
    using field_id_inv[OF inv, of c name] inv r
    by (auto simp: field_id_def lookup_field_id_def schema_inv_defs Let_def split: option.splits if_splits)
qed

lemma field_name_lookup: "schema_inv s \<Longrightarrow> field_name c f s = Some n \<longleftrightarrow> lookup_field_id c n s = Some f"
  by (simp add: schema_inv_defs one_to_one_def field_name_def lookup_field_id_def)

lemma lookup_inject: "schema_inv s \<Longrightarrow> lookup_field_id c m s = Some f \<Longrightarrow> lookup_field_id c n s = Some f \<Longrightarrow> m = n"
  by (simp flip: field_name_lookup)

lemma assign_fields:
  assumes "schema_inv s" and "unat (sc_next_field_id s) + length fs < 2 ^ 32" and "assign_fields c fs s = (wr, s')"
  shows "schema_inv s' \<and> sc_indexes s' = sc_indexes s \<and> sc_collection_id_of s' = sc_collection_id_of s \<and>
     list_all2 (\<lambda>(n, v) (f, w). v = w \<and> lookup_field_id c n s' = Some f) fs wr \<and>
     (\<forall>c' n g. lookup_field_id c' n s = Some g \<longrightarrow> lookup_field_id c' n s' = Some g)"
  using assms
proof (induction fs arbitrary: s wr)
  case (Cons nv fs)
  obtain n v where nv: "nv = (n, v)" by (cases nv)
  obtain f s1 where f: "field_id c n s = (f, s1)" by (cases "field_id c n s")
  have small: "unat (sc_next_field_id s) + 1 < 2 ^ 32" using Cons.prems(2) by simp
  note g = field_id_grows[OF Cons.prems(1) small f]
  obtain wr' where w: "assign_fields c fs s1 = (wr', s')" "wr = (f, v) # wr'"
    using Cons.prems(3) nv f by (auto split: prod.splits)
  have "unat (sc_next_field_id s1) + length fs < 2 ^ 32" using g(4) Cons.prems(2) by simp
  then show ?case using Cons.IH[OF g(1) _ w(1)] g w(2) nv by auto
qed simp

lemma names_kept:
  assumes "schema_inv s" and "schema_inv s'" and "\<forall>c n g. lookup_field_id c n s = Some g \<longrightarrow> lookup_field_id c n s' = Some g"
    and "fields_ok s V"
  shows "fields_ok s' V"
proof -
  have "field_name c f s' \<noteq> None" if "field_name c f s \<noteq> None" for c f
    using that assms(3) field_name_lookup[OF assms(1), of c f] field_name_lookup[OF assms(2), of c f] by auto
  then show ?thesis using assms(4) unfolding fields_ok_def by meson
qed

lemma indexed_same: "sc_indexes s' = sc_indexes s \<Longrightarrow> indexed_field_ids s' c = indexed_field_ids s c"
  by (simp add: indexed_field_ids_def)

lemma composites_same: "sc_indexes s' = sc_indexes s \<Longrightarrow> composite_index_defs s' c = composite_index_defs s c"
  by (simp add: composite_index_defs_def)

lemma list_all2_vals:
  assumes "list_all2 (\<lambda>(n, v) (f, w). v = w \<and> lookup_field_id c n s = Some f) fs wr"
  shows "\<forall>(n, v) \<in> set fs. P v \<Longrightarrow> \<forall>(f, v) \<in> set wr. P v" and "\<forall>(f, v) \<in> set wr. \<exists>n. lookup_field_id c n s = Some f"
  using assms by (induction fs wr rule: list_all2_induct) auto

text \<open>The last value of a name is the last value of its number.\<close>

lemma written_fields:
  assumes "schema_inv s" and "list_all2 (\<lambda>(n, v) (f, w). v = w \<and> lookup_field_id c n s = Some f) fs wr"
    and "lookup_field_id c n s = Some f"
  shows "map_of (rev wr) f = map_of (rev fs) n"
  using assms(2)
proof (induction fs wr rule: list_all2_induct)
  case (Cons nv fs fw wr)
  obtain m v where nv: "nv = (m, v)" by (cases nv)
  obtain g w where fw: "fw = (g, w)" by (cases fw)
  have g: "v = w" "lookup_field_id c m s = Some g" using Cons.hyps(1) nv fw by simp_all
  have "g = f \<longleftrightarrow> m = n"
    using g(2) assms(3) lookup_inject[OF assms(1), of c m f n] by auto
  then show ?case using Cons.IH g(1) nv fw by (auto simp: map_add_def split: option.split)
qed simp

lemma written_none:
  assumes "list_all2 (\<lambda>(n, v) (f, w). v = w \<and> lookup_field_id c n s = Some f) fs wr" and "lookup_field_id c n s = None"
  shows "map_of (rev fs) n = None"
proof -
  have "n \<notin> fst ` set fs"
    using assms by (induction fs wr rule: list_all2_induct) auto
  then show ?thesis by (simp add: map_of_eq_None_iff)
qed

lemma own_writes_other:
  assumes "\<forall>w \<in> set ws. own_key c eid (fst w)" and "id_ok eid" and "id_ok e" and "\<not> (c' = c \<and> e = eid)"
  shows "apply_writes ws V (encode_entity_key c' e f) = V (encode_entity_key c' e f)"
proof (rule apply_writes_other)
  show "encode_entity_key c' e f \<notin> fst ` set ws"
  proof
    assume "encode_entity_key c' e f \<in> fst ` set ws"
    then have "own_key c eid (encode_entity_key c' e f)" using assms(1) by auto
    then show False using own_key_other(1)[OF _ assms(2,3)] assms(4) by blast
  qed
qed

lemma fval_fields:
  assumes "\<forall>f. V (encode_entity_key c eid f) = map_option encode (map_of (rev wr) f)" and "\<forall>(f, v) \<in> set wr. val_ok v"
  shows "fval V c eid f = map_of (rev wr) f"
proof (cases "map_of (rev wr) f")
  case (Some v)
  then have "val_ok v" using assms(2) by (auto dest!: map_of_SomeD)
  then show ?thesis using fval_written[of v V c eid f] assms(1) Some by simp
qed (use assms(1) in \<open>simp add: fval_def\<close>)

lemma fields_ok_writes:
  assumes own: "\<forall>w \<in> set ws. own_key c eid (fst w)" and eid: "id_ok eid" and fld: "fields_ok schema V"
    and wr: "\<forall>f. apply_writes ws V (encode_entity_key c eid f) = map_option encode (map_of (rev wr) f)"
    and vals: "\<forall>(f, v) \<in> set wr. val_ok v" and inv: "schema_inv schema"
    and named: "\<forall>(f, v) \<in> set wr. \<exists>n. lookup_field_id c n schema = Some f"
  shows "fields_ok schema (apply_writes ws V)"
  unfolding fields_ok_def
proof (intro allI impI)
  fix c' e' f b assume e': "id_ok e'" "apply_writes ws V (encode_entity_key c' e' f) = Some b"
  show "(\<exists>v. decode b = Inr v) \<and> field_name c' f schema \<noteq> None"
  proof (cases "c' = c \<and> e' = eid")
    case True
    then obtain v where v: "map_of (rev wr) f = Some v" "b = encode v" using wr e'(2) by auto
    then have fv: "(f, v) \<in> set wr" by (auto dest!: map_of_SomeD)
    then obtain n where "lookup_field_id c n schema = Some f" using named by auto
    moreover have "val_ok v" using vals fv by auto
    ultimately show ?thesis
      using decode_encode_append[of v "[]"] v(2) True field_name_lookup[OF inv, of c f n] by auto
  next
    case False
    then have "V (encode_entity_key c' e' f) = Some b" using e' own_writes_other[OF own eid e'(1)] by simp
    then show ?thesis using fld e'(1) unfolding fields_ok_def by blast
  qed
qed

context kv_write
begin

lemma put_body:
  assumes s: "ok s" and view: "view_ok schema (ent s)" and eid: "id_ok eid" and hint: "hint_ok (vals (ent s)) c eid hint"
    and vals: "\<forall>(f, v) \<in> set wr. val_ok v" and same: "same_equalities schema (vals (ent s)) c eid wr"
    and fits: "put_fits room mu schema hint c eid wr s"
  shows "\<exists>ws s'. put_body mu schema hint c eid wr s = (Inr (), s') \<and> ok s' \<and> vals (ent s') = apply_writes ws (vals (ent s)) \<and>
     keys_ok (ent s') \<and> (\<forall>w \<in> set ws. own_key c eid (fst w)) \<and>
     (\<forall>f. vals (ent s') (encode_entity_key c eid f) = map_option encode (map_of (rev wr) f)) \<and>
     indexes_along schema ws (vals (ent s))"
proof -
  let ?idx = "indexed_field_ids schema c" and ?comp = "composite_index_defs schema c"
  have keys: "keys_ok (ent s)" and marker: "COMPOSITE_FIELD_MARKER \<notin> set ?idx" using view by (auto simp: view_ok_def)
  obtain old stale s1 where o: "old_state mu hint c eid (?idx @ concat (map snd ?comp)) wr s = (Inr (old, stale), s1)"
      "ok s1" "ent s1 = ent s" "old_read (vals (ent s)) c eid (?idx @ concat (map snd ?comp)) old stale wr" "distinct (map fst old)"
    using old_state[OF s keys eid hint] by blast
  let ?ws = "put_writes c eid ?idx ?comp old stale wr"
  have room: "\<forall>w \<in> set ?ws. room w" using fits o(1) by (simp add: put_fits_def Let_def list_all_iff)
  obtain s2 where w: "forS ?ws (mu_write mu) s1 = (Inr (), s2)" "ok s2"
      "vals (ent s2) = apply_writes ?ws (vals (ent s1))"
      "\<forall>k. k \<notin> fst ` set ?ws \<longrightarrow> ent s1 k = None \<longrightarrow> ent s2 k = None"
    using writes[OF o(2) room] by blast
  have own: "\<forall>w \<in> set ?ws. own_key c eid (fst w)" using put_writes_own[OF o(4) marker] by blast
  have "put_body mu schema hint c eid wr s = (Inr (), s2)"
    unfolding put_body_writes Let_def using o(1) w(1) by (simp add: bindS_def)
  moreover have "keys_ok (ent s2)" using keys_ok_writes[OF keys own eid] w(4) o(3) by simp
  moreover have "vals (ent s2) (encode_entity_key c eid f) = map_option encode (map_of (rev wr) f)" for f
    using fields_after[OF o(4), where idx = ?idx and composites = ?comp and f = f]
      fun_cong[OF w(3), of "encode_entity_key c eid f"] o(3) eid by (simp add: id_ok_def)
  moreover have "indexes_along schema ?ws (vals (ent s))"
    by (rule put_indexes_along[OF view eid vals same o(4,5)])
  ultimately show ?thesis using w(2,3) o(3) own by (intro exI[of _ ?ws] exI[of _ s2]) simp
qed

text \<open>\<^verbatim>\<open>put\<close>: the entity has the fields given, every index still misses nothing.\<close>

lemma put_entity:
  assumes s: "ok s" and inv: "schema_inv schema" and view: "view_ok schema (ent s)" and eid: "id_ok eid"
    and hint: "hint_ok (vals (ent s)) c eid (case hints of Some h \<Rightarrow> h (c, eid) | None \<Rightarrow> None)"
    and vals: "\<forall>(n, v) \<in> set (en_fields e). val_ok v" and room: "unat (sc_next_field_id schema) + length (en_fields e) < 2 ^ 32"
    and wr: "assign_fields c (en_fields e) schema = (wr, schema')"
    and same: "same_equalities schema (vals (ent s)) c eid wr"
    and fits: "put_fits room mu schema' (case hints of Some h \<Rightarrow> h (c, eid) | None \<Rightarrow> None) c eid wr s"
  shows "\<exists>ws s'. core_put_entity mu c eid e (schema, hints, s) =
       (Inr (), schema', map_option (\<lambda>h. h((c, eid) \<mapsto> map fst wr)) hints, s') \<and>
     ok s' \<and> schema_inv schema' \<and> view_ok schema' (ent s') \<and>
     vals (ent s') = apply_writes ws (vals (ent s)) \<and> (\<forall>w \<in> set ws. own_key c eid (fst w)) \<and>
     indexes_along schema ws (vals (ent s)) \<and>
     (\<forall>n. (case lookup_field_id c n schema' of None \<Rightarrow> None | Some f \<Rightarrow> fval (vals (ent s')) c eid f) = map_of (rev (en_fields e)) n) \<and>
     (\<forall>f. vals (ent s') (encode_entity_key c eid f) = map_option encode (map_of (rev wr) f))"
proof -
  note a = assign_fields[OF inv room wr]
  have idx: "indexed_field_ids schema' c' = indexed_field_ids schema c'" for c' using a indexed_same by blast
  have fld: "fields_ok schema' (vals (ent s))"
    using names_kept[OF inv, of schema'] view a by (simp add: view_ok_def)
  have view': "view_ok schema' (ent s)" using view fld idx by (simp add: view_ok_def)
  have vals': "\<forall>(f, v) \<in> set wr. val_ok v"
    using list_all2_vals a vals by blast
  have same': "same_equalities schema' (vals (ent s)) c eid wr" using same idx by (simp add: same_equalities_def)
  obtain ws s' where p: "put_body mu schema' (case hints of Some h \<Rightarrow> h (c, eid) | None \<Rightarrow> None) c eid wr s = (Inr (), s')"
      "ok s'" "vals (ent s') = apply_writes ws (vals (ent s))" "keys_ok (ent s')" "\<forall>w \<in> set ws. own_key c eid (fst w)"
      "\<forall>f. vals (ent s') (encode_entity_key c eid f) = map_option encode (map_of (rev wr) f)"
      "indexes_along schema' ws (vals (ent s))"
    using put_body[OF s view' eid hint vals' same' fits] by blast
  have fval': "fval (vals (ent s')) c eid f = map_of (rev wr) f" for f by (rule fval_fields[OF p(6) vals'])
  have "fields_ok schema' (vals (ent s'))"
    unfolding p(3)
  proof (rule fields_ok_writes[OF p(5) eid fld _ vals'])
    show "\<forall>f. apply_writes ws (vals (ent s)) (encode_entity_key c eid f) = map_option encode (map_of (rev wr) f)"
      using p(6) by (simp add: fun_cong[OF p(3), symmetric])
    show "schema_inv schema'" "\<forall>(f, v) \<in> set wr. \<exists>n. lookup_field_id c n schema' = Some f"
      using a list_all2_vals(2) by blast+
  qed
  moreover have "complete (vals (ent s')) c' f" if "f \<in> set (indexed_field_ids schema' c')" for c' f
    using all_along_last[of "\<lambda>V. complete V c' f"] p(3,7) that by auto
  ultimately have "view_ok schema' (ent s')" using p(4) view' by (simp add: view_ok_def)
  moreover have "(case lookup_field_id c n schema' of None \<Rightarrow> None | Some f \<Rightarrow> fval (vals (ent s')) c eid f) = map_of (rev (en_fields e)) n"
    for n
    using written_none[of c schema' "en_fields e" wr n] written_fields[of schema' c "en_fields e" wr n] a fval'
    by (simp split: option.split)
  moreover have "utf8_valid eid" using eid by (simp add: id_ok_def)
  ultimately show ?thesis
    using p a wr idx by (intro exI[of _ ws] exI[of _ s']) (simp add: core_put_entity_def)
qed

end

section \<open>The read of an entity\<close>

definition live_field :: "schema \<Rightarrow> 32 word \<Rightarrow> item \<Rightarrow> (bytes \<times> val) option" where
  "live_field schema c row = (case (decode_entity_key (fst row), read_val (snd row)) of
     (Some (_, _, f), Some v) \<Rightarrow> map_option (\<lambda>n. (n, v)) (field_name c f schema)
   | _ \<Rightarrow> None)"

definition live_fields :: "schema \<Rightarrow> 32 word \<Rightarrow> item list \<Rightarrow> (bytes \<times> val) list" where
  "live_fields schema c rows = List.map_filter (live_field schema c) rows"

lemma live_fields_simps [simp]:
  "live_fields schema c [] = []"
  "live_fields schema c (row # rows) = (case live_field schema c row of None \<Rightarrow> [] | Some x \<Rightarrow> [x]) @ live_fields schema c rows"
  by (simp_all add: live_fields_def map_filter_Cons split: option.split)

lemma live_fields_append: "live_fields schema c (xs @ ys) = live_fields schema c xs @ live_fields schema c ys"
  by (induction xs) simp_all

text \<open>A row with a readable value and a known field, or a tombstone.\<close>

definition row_ok :: "schema \<Rightarrow> 32 word \<Rightarrow> item \<Rightarrow> bool" where
  "row_ok schema c row \<longleftrightarrow> (\<exists>e f. id_ok e \<and> fst row = encode_entity_key c e f \<and>
     (\<forall>b. snd row = Some b \<longrightarrow> (\<exists>v. decode b = Inr v) \<and> field_name c f schema \<noteq> None))"

lemma entity_rows_live:
  assumes "\<forall>row \<in> set rows. row_ok schema c row"
  shows "entity_rows schema c rows = Inr (live_fields schema c rows)"
  using assms
proof (induction rows)
  case (Cons row rows)
  obtain k x where row: "row = (k, x)" by (cases row)
  obtain e f where k: "id_ok e" "k = encode_entity_key c e f"
      "\<forall>b. x = Some b \<longrightarrow> (\<exists>v. decode b = Inr v) \<and> field_name c f schema \<noteq> None"
    using Cons.prems row by (auto simp: row_ok_def)
  have d: "decode_entity_key k = Some (c, e, f)" using k(1,2) entity_key_decode by (simp add: id_ok_def)
  show ?case
  proof (cases x)
    case None
    then show ?thesis using Cons d row by (simp add: live_field_def read_val_def)
  next
    case (Some b)
    then obtain v n where "decode b = Inr v" "field_name c f schema = Some n" using k(3) by auto
    then show ?thesis using Cons d row Some by (simp add: live_field_def read_val_def)
  qed
qed simp

lemma entity_field_map_of: "entity_field n e = map_of (en_fields e) n"
proof -
  have "map_option snd (find (\<lambda>(m, _). m = n) fs) = map_of fs n" for fs :: "(bytes \<times> val) list"
    by (induction fs) auto
  then show ?thesis by (simp add: entity_field_def)
qed

text \<open>The fields of the rows, by name.\<close>

lemma live_fields_names:
  assumes inv: "schema_inv schema" and "\<forall>row \<in> set rows. own_row c eid row" and "distinct (map fst rows)" and "id_ok eid"
  shows "distinct (map fst (live_fields schema c rows)) \<and>
     (\<forall>n. map_of (live_fields schema c rows) n = (case lookup_field_id c n schema of None \<Rightarrow> None
        | Some f \<Rightarrow> read_val (flat (map_of rows (encode_entity_key c eid f)))))"
  using assms(2,3)
proof (induction rows)
  case Nil
  then show ?case by (auto simp: read_val_def split: option.split)
next
  case (Cons row rows)
  have len: "length eid < 2 ^ 32" using assms(4) by (simp add: id_ok_def)
  obtain f x where row: "row = (encode_entity_key c eid f, x)" using Cons.prems(1) by (cases row) (auto simp: own_row_def)
  have fresh: "map_of rows (encode_entity_key c eid f) = None"
    using Cons.prems(2) row by (auto simp: map_of_eq_None_iff)
  have IH: "distinct (map fst (live_fields schema c rows))"
      "\<And>n. map_of (live_fields schema c rows) n = (case lookup_field_id c n schema of None \<Rightarrow> None
        | Some f \<Rightarrow> read_val (flat (map_of rows (encode_entity_key c eid f))))"
    using Cons by simp_all
  have key: "encode_entity_key c eid g = encode_entity_key c eid f \<longleftrightarrow> g = f" for g
    by (simp add: entity_key_inject[OF len len])
  have lf: "live_field schema c row = (case read_val x of None \<Rightarrow> None | Some v \<Rightarrow> map_option (\<lambda>n. (n, v)) (field_name c f schema))"
    by (simp add: row live_field_def entity_key_decode[OF len] split: option.split)
  show ?case
  proof (cases "live_field schema c row")
    case None
    have "read_val (flat (map_of (row # rows) (encode_entity_key c eid g))) = read_val (flat (map_of rows (encode_entity_key c eid g)))"
      if "lookup_field_id c n schema = Some g" for n g
      using None lf fresh that field_name_lookup[OF inv, of c f n]
      by (auto simp: row key read_val_def split: option.splits)
    then show ?thesis using IH None by (auto split: option.split)
  next
    case (Some p)
    then obtain n v where p: "p = (n, v)" "read_val x = Some v" "field_name c f schema = Some n"
      using lf by (auto split: option.splits)
    have n: "lookup_field_id c m schema = Some f \<longleftrightarrow> m = n" for m
      using p(3) field_name_lookup[OF inv, of c f n] lookup_inject[OF inv, of c m f n] by auto
    have "map_of (live_fields schema c rows) n = None"
      using IH(2)[of n] n[of n] by (simp add: read_val_def fresh)
    then have "n \<notin> fst ` set (live_fields schema c rows)" by (simp add: map_of_eq_None_iff)
    moreover have "map_of (live_fields schema c (row # rows)) m = (case lookup_field_id c m schema of None \<Rightarrow> None
        | Some g \<Rightarrow> read_val (flat (map_of (row # rows) (encode_entity_key c eid g))))" for m
    proof (cases "m = n")
      case True
      then have "lookup_field_id c m schema = Some f" using n by simp
      then show ?thesis using True Some p by (simp add: row)
    next
      case False
      then have "lookup_field_id c m schema \<noteq> Some f" using n by simp
      then show ?thesis using False Some p IH(2)[of m] by (auto simp: row key split: option.split)
    qed
    ultimately show ?thesis using IH(1) Some p by simp
  qed
qed

context kv_read
begin

lemma get_entity:
  assumes s: "ok s" and inv: "schema_inv schema" and keys: "keys_ok (ent s)" and fld: "fields_ok schema (vals (ent s))" and eid: "id_ok eid"
  shows "\<exists>rows s'. entity_scan (ent s) c eid rows \<and> ok s' \<and> ent s' = ent s \<and>
     core_get_entity schema mu c eid s =
       (Inr (if live_fields schema c rows = [] then None else Some \<lparr>en_fields = live_fields schema c rows\<rparr>), s') \<and>
     distinct (map fst (live_fields schema c rows)) \<and>
     (\<forall>n. map_of (live_fields schema c rows) n = (case lookup_field_id c n schema of None \<Rightarrow> None | Some f \<Rightarrow> fval (vals (ent s)) c eid f))"
proof -
  obtain rows s1 where r: "mu_rows mu (Some (entity_prefix c eid)) (successor (entity_prefix c eid)) s = (Inr rows, s1)"
      "ok s1" "ent s1 = ent s" "entity_scan (ent s) c eid rows"
    using rows[OF s] unfolding rows_of_def by blast
  note er = entity_scan_rows[OF r(4) keys eid]
  have dist: "distinct (map fst rows)" using r(4) by (simp add: rows_of_def ssorted_distinct)
  have "row_ok schema c row" if row: "row \<in> set rows" for row
  proof -
    obtain f where f: "fst row = encode_entity_key c eid f" using er(1) row by (auto simp: own_row_def dest: bspec)
    have "map_of rows (fst row) = Some (snd row)" using row dist by simp
    then have e: "ent s (encode_entity_key c eid f) = Some (snd row)" using er(2)[of f] f by simp
    have "(\<exists>v. decode b = Inr v) \<and> field_name c f schema \<noteq> None" if "snd row = Some b" for b
    proof -
      have "vals (ent s) (encode_entity_key c eid f) = Some b" using e that by simp
      then show ?thesis using fld eid unfolding fields_ok_def by blast
    qed
    then show ?thesis using f eid unfolding row_ok_def by blast
  qed
  then have "entity_rows schema c rows = Inr (live_fields schema c rows)" using entity_rows_live by blast
  then have "core_get_entity schema mu c eid s =
       (Inr (if live_fields schema c rows = [] then None else Some \<lparr>en_fields = live_fields schema c rows\<rparr>), s1)"
    using r(1) by (auto simp: core_get_entity_def entity_range_split bindS_def)
  then show ?thesis
    using r live_fields_names[OF inv er(1) dist eid] er(2)
    by (intro exI[of _ rows] exI[of _ s1]) (auto simp: fval_read split: option.split)
qed

end

section \<open>The deletion\<close>

text \<open>The values of the deleted rows, by field, and the writes of a deletion.\<close>

fun deleted_values :: "32 word list \<Rightarrow> item list \<Rightarrow> (32 word \<times> val) list \<Rightarrow> (32 word \<times> val) list" where
  "deleted_values need [] vs = vs"
| "deleted_values need ((key, value) # rows) vs = deleted_values need rows (case decode_entity_key key of
     None \<Rightarrow> vs
   | Some (_, _, f) \<Rightarrow> (case value of Some b \<Rightarrow> if f \<in> set need then add_old f b vs else vs | None \<Rightarrow> vs))"

text \<open>They are the values the entity had in the fields needed.\<close>

lemma deleted_values_old:
  assumes "\<forall>row \<in> set rows. own_row c eid row" and "distinct (map fst rows)" and "ssorted (map fst vs)" and "id_ok eid"
    and "f \<in> set need" and "encode_entity_key c eid f \<in> fst ` set rows \<longrightarrow> map_of vs f = None"
  shows "map_of (deleted_values need rows vs) f = (if encode_entity_key c eid f \<in> fst ` set rows
     then read_val (flat (map_of rows (encode_entity_key c eid f))) else map_of vs f)"
  using assms
proof (induction rows arbitrary: vs)
  case (Cons row rows)
  have len: "length eid < 2 ^ 32" using Cons.prems(4) by (simp add: id_ok_def)
  obtain g x where row: "row = (encode_entity_key c eid g, x)" using Cons.prems(1) by (cases row) (auto simp: own_row_def)
  let ?o = "case x of Some b \<Rightarrow> if g \<in> set need then add_old g b vs else vs | None \<Rightarrow> vs"
  have o: "ssorted (map fst ?o)" "map_of ?o f = (if f = g then read_val x else map_of vs f)"
    using map_of_add_old[OF Cons.prems(3)] Cons.prems(3,5,6) row
    by (auto simp: read_val_def split: option.split sum.split)
  have fresh: "encode_entity_key c eid f \<in> fst ` set rows \<longrightarrow> map_of ?o f = None"
    using Cons.prems(2,6) row o(2) by (auto simp: entity_key_inject[OF len len])
  have "map_of (deleted_values need rows ?o) f = (if encode_entity_key c eid f \<in> fst ` set rows
     then read_val (flat (map_of rows (encode_entity_key c eid f))) else map_of ?o f)"
    using Cons.IH[OF _ _ o(1) Cons.prems(4,5) fresh] Cons.prems(1,2) by simp
  then show ?case
    using o(2) Cons.prems(2,6) by (auto simp: row entity_key_decode[OF len] entity_key_inject[OF len len] split: option.split)
qed simp

lemma deleted_values_sorted: "ssorted (map fst vs) \<Longrightarrow> ssorted (map fst (deleted_values need rows vs))"
  using map_of_add_old by (induction need rows vs rule: deleted_values.induct) (auto split: option.split)

lemma components_cong: "(\<And>f. f \<in> set fids \<Longrightarrow> g f = h f) \<Longrightarrow> components fids g = components fids h"
  by (induction fids) (auto split: option.split)

definition entry_deletes :: "schema \<Rightarrow> 32 word \<Rightarrow> bytes \<Rightarrow> item list \<Rightarrow> (bytes \<times> bytes option) list" where
  "entry_deletes schema c eid rows =
     (let idx = indexed_field_ids schema c; composites = composite_index_defs schema c;
          vs = deleted_values (idx @ concat (map snd composites)) rows [] in
      map (\<lambda>(f, v). (ikey c f v eid, None)) (filter (\<lambda>(f, v). f \<in> set idx) vs) @
      map (\<lambda>(i, fids). (encode_composite_index_key c i (the (components fids (map_of vs))) eid, None))
        (filter (\<lambda>(i, fids). components fids (map_of vs) \<noteq> None) composites))"

definition delete_writes :: "schema \<Rightarrow> 32 word \<Rightarrow> bytes \<Rightarrow> item list \<Rightarrow> (bytes \<times> bytes option) list" where
  "delete_writes schema c eid rows = map (\<lambda>row. (fst row, None)) rows @ entry_deletes schema c eid rows"

lemma delete_writes_none: "w \<in> set (delete_writes schema c eid rows) \<Longrightarrow> snd w = None"
  by (auto simp: delete_writes_def entry_deletes_def Let_def)

lemma delete_writes_own:
  assumes "\<forall>row \<in> set rows. own_row c eid row" and "COMPOSITE_FIELD_MARKER \<notin> set (indexed_field_ids schema c)"
    and "w \<in> set (delete_writes schema c eid rows)"
  shows "own_key c eid (fst w)"
  using assms by (fastforce simp: delete_writes_def entry_deletes_def Let_def own_row_def intro: own_keyI)

lemma bindS_retS: "bindS (retS x) f = f x"
  by (rule ext) (simp add: bindS_def)

lemma delete_rows_writes:
  "\<forall>row \<in> set rows. decode_entity_key (fst row) \<noteq> None \<Longrightarrow>
     delete_rows mu need rows vs = bindS (forS (map (\<lambda>row. (fst row, None)) rows) (mu_write mu)) (\<lambda>_. retS (deleted_values need rows vs))"
proof (induction rows arbitrary: vs)
  case (Cons row rows)
  obtain k x where row: "row = (k, x)" by (cases row)
  obtain c e f where "decode_entity_key k = Some (c, e, f)" using Cons.prems row by auto
  then show ?case using Cons row by (simp add: bindS_assoc mu_write_def)
qed (simp add: bindS_def fun_eq_iff)

lemma core_delete_writes:
  assumes "utf8_valid eid" and "mu_rows mu (Some (entity_prefix c eid)) (successor (entity_prefix c eid)) s = (Inr rows, s1)"
    and "\<forall>row \<in> set rows. decode_entity_key (fst row) \<noteq> None"
  shows "core_delete_entity schema mu c eid s = forS (delete_writes schema c eid rows) (mu_write mu) s1"
proof -
  let ?idx = "indexed_field_ids schema c" and ?comp = "composite_index_defs schema c"
  let ?vs = "deleted_values (?idx @ concat (map snd ?comp)) rows []"
  have i: "forS ?vs (\<lambda>(f, v). if f \<in> set ?idx then mu_delete mu (encode_index_key c f (encode_ordered v) eid) else retS ()) =
      forS (map (\<lambda>(f, v). (ikey c f v eid, None)) (filter (\<lambda>(f, v). f \<in> set ?idx) ?vs)) (mu_write mu)"
    by (rule forS_writes) (auto simp: mu_write_def ikey_def)
  have c: "forS ?comp (\<lambda>(i, fids). case components fids (map_of ?vs) of None \<Rightarrow> retS ()
        | Some comps \<Rightarrow> mu_delete mu (encode_composite_index_key c i comps eid)) =
      forS (map (\<lambda>(i, fids). (encode_composite_index_key c i (the (components fids (map_of ?vs))) eid, None))
        (filter (\<lambda>(i, fids). components fids (map_of ?vs) \<noteq> None) ?comp)) (mu_write mu)"
    by (rule forS_writes) (auto simp: mu_write_def split: option.split)
  show ?thesis
    using assms(1) by (simp add: core_delete_entity_def entity_range_split bindS_Inr[of "mu_rows _ _ _", OF assms(2)] Let_def
      delete_rows_writes[OF assms(3)] i c delete_writes_def entry_deletes_def forS_append bindS_assoc bindS_retS)
qed

text \<open>Whether the view has room for the tombstones of a deletion.\<close>

definition delete_fits :: "(bytes \<times> bytes option \<Rightarrow> bool) \<Rightarrow> 's mutator \<Rightarrow> schema \<Rightarrow> 32 word \<Rightarrow> bytes \<Rightarrow> 's \<Rightarrow> bool" where
  "delete_fits room mu schema c eid s =
     (case mu_rows mu (Some (entity_prefix c eid)) (successor (entity_prefix c eid)) s of
        (Inr rows, _) \<Rightarrow> list_all room (delete_writes schema c eid rows)
      | _ \<Rightarrow> False)"

lemma apply_deletes: "\<forall>w \<in> set ws. snd w = None \<Longrightarrow> apply_writes ws V k = (if k \<in> fst ` set ws then None else V k)"
  by (induction ws arbitrary: V) auto

text \<open>A deletion never takes an entry from an index while the field still has the value.\<close>

lemma delete_covers:
  assumes eid: "id_ok eid" and rows: "entity_scan E c eid rows" and keys: "keys_ok E" and f: "f \<noteq> COMPOSITE_FIELD_MARKER"
    and cov: "covered (vals E) c f eid"
  shows "all_along (\<lambda>U. covered U c f eid) (delete_writes schema c eid rows) (vals E)"
proof -
  let ?e = "encode_entity_key c eid f"
  let ?W1 = "map (\<lambda>row. (fst row, None :: bytes option)) rows"
  define W2 where "W2 = entry_deletes schema c eid rows"
  have W: "delete_writes schema c eid rows = ?W1 @ W2" by (simp add: delete_writes_def W2_def)
  have none: "\<forall>w \<in> set W2. snd w = None" using delete_writes_none[of _ schema c eid rows] unfolding W by simp
  note er = entity_scan_rows[OF rows keys eid]
  let ?P = "\<lambda>U. (U ?e = vals E ?e \<or> U ?e = None) \<and> (\<forall>v. U (ikey c f v eid) = vals E (ikey c f v eid))"
  have step: "?P (U(k := x))" if h: "(k, x) \<in> set ?W1" "?P U" for U k x
  proof -
    obtain row where "row \<in> set rows" "(k, x) = (fst row, None)" using h(1) unfolding set_map by blast
    then obtain g where "k = encode_entity_key c eid g" "x = None" using er(1) unfolding own_row_def by blast
    then show ?thesis using h(2) by auto
  qed
  have base: "?P (vals E)" by simp
  have along: "all_along ?P ?W1 (vals E)"
    using all_along_invariant[of ?P "vals E" ?W1, OF base step] by blast
  have mono: "covered U c f eid" if "?P U" for U
    using that cov by (auto simp: covered_def fval_def)
  have gone: "apply_writes ?W1 (vals E) ?e = None"
  proof (cases "?e \<in> fst ` set ?W1")
    case False
    then have "map_of rows ?e = None" by (auto simp: map_of_eq_None_iff image_image)
    then show ?thesis using er(2)[of f] apply_deletes[of ?W1 "vals E" ?e] False by simp
  qed (use apply_deletes[of ?W1 "vals E" ?e] in simp)
  let ?Q = "\<lambda>U :: bytes \<Rightarrow> bytes option. U ?e = None"
  have step2: "?Q (U(k := x))" if "(k, x) \<in> set W2" "?Q U" for U k x using that none by force
  have along2: "all_along ?Q W2 (apply_writes ?W1 (vals E))"
    using all_along_invariant[of ?Q "apply_writes ?W1 (vals E)" W2, OF gone step2] by blast
  have mono2: "covered U c f eid" if "?Q U" for U using that by (simp add: covered_def fval_def)
  have "all_along (\<lambda>U. covered U c f eid) ?W1 (vals E)" by (rule all_along_mono[OF along]) (rule mono)
  moreover have "all_along (\<lambda>U. covered U c f eid) W2 (apply_writes ?W1 (vals E))"
    by (rule all_along_mono[OF along2]) (rule mono2)
  ultimately show ?thesis unfolding W all_along_append by simp
qed

text \<open>The entries of the values the entity had, in the indexes of one field and of several.\<close>

definition own_entry :: "schema \<Rightarrow> (bytes \<Rightarrow> bytes option) \<Rightarrow> 32 word \<Rightarrow> bytes \<Rightarrow> bytes \<Rightarrow> bool" where
  "own_entry schema V c eid k \<longleftrightarrow>
     (\<exists>f v. f \<in> set (indexed_field_ids schema c) \<and> fval V c eid f = Some v \<and> k = ikey c f v eid) \<or>
     (\<exists>i fids comps. (i, fids) \<in> set (composite_index_defs schema c) \<and> components fids (fval V c eid) = Some comps \<and>
        k = encode_composite_index_key c i comps eid)"

lemma delete_writes_entries:
  assumes rows: "entity_scan E c eid rows" and keys: "keys_ok E" and eid: "id_ok eid" and k: "own_entry schema (vals E) c eid k"
  shows "k \<in> fst ` set (delete_writes schema c eid rows)"
proof -
  let ?idx = "indexed_field_ids schema c" and ?comp = "composite_index_defs schema c"
  let ?need = "?idx @ concat (map snd ?comp)"
  let ?vs = "deleted_values ?need rows []"
  note er = entity_scan_rows[OF rows keys eid]
  have dist: "distinct (map fst rows)" using rows by (simp add: rows_of_def ssorted_distinct)
  have dom: "encode_entity_key c eid f \<in> fst ` set rows \<longleftrightarrow> E (encode_entity_key c eid f) \<noteq> None" for f
    using er(2)[of f] by (metis map_of_eq_None_iff)
  have v: "map_of ?vs f = fval (vals E) c eid f" if "f \<in> set ?need" for f
    using deleted_values_old[OF er(1) dist _ eid that, of "[]"] er(2)[of f] dom[of f] by (auto simp: fval_read read_val_def)
  from k show ?thesis
    unfolding own_entry_def
  proof (elim disjE exE conjE)
    fix f w assume f: "f \<in> set ?idx" "fval (vals E) c eid f = Some w" "k = ikey c f w eid"
    then have "(f, w) \<in> set ?vs" using v[of f] by (simp add: map_of_SomeD)
    then show ?thesis using f by (force simp: delete_writes_def entry_deletes_def Let_def)
  next
    fix i fids comps
    assume i: "(i, fids) \<in> set ?comp" "components fids (fval (vals E) c eid) = Some comps"
      "k = encode_composite_index_key c i comps eid"
    have "components fids (map_of ?vs) = components fids (fval (vals E) c eid)"
      by (rule components_cong) (use i(1) in \<open>force intro: v\<close>)
    then have "k = fst ((\<lambda>(i, fids). (encode_composite_index_key c i (the (components fids (map_of ?vs))) eid, None :: bytes option)) (i, fids))"
      "(i, fids) \<in> set (filter (\<lambda>(i, fids). components fids (map_of ?vs) \<noteq> None) ?comp)"
      using i by simp_all
    then show ?thesis unfolding delete_writes_def entry_deletes_def Let_def set_append set_map by blast
  qed
qed

context kv_write
begin

lemma delete_entity:
  assumes s: "ok s" and view: "view_ok schema (ent s)" and eid: "id_ok eid" and fits: "delete_fits room mu schema c eid s"
  shows "\<exists>ws s'. core_delete_entity schema mu c eid s = (Inr (), s') \<and> ok s' \<and> view_ok schema (ent s') \<and>
     vals (ent s') = apply_writes ws (vals (ent s)) \<and> (\<forall>w \<in> set ws. own_key c eid (fst w)) \<and>
     indexes_along schema ws (vals (ent s)) \<and> (\<forall>f. vals (ent s') (encode_entity_key c eid f) = None) \<and>
     (\<forall>k. own_entry schema (vals (ent s)) c eid k \<longrightarrow> vals (ent s') k = None)"
proof -
  have keys: "keys_ok (ent s)" and fld: "fields_ok schema (vals (ent s))" using view by (auto simp: view_ok_def)
  obtain rows s1 where r: "mu_rows mu (Some (entity_prefix c eid)) (successor (entity_prefix c eid)) s = (Inr rows, s1)"
      "ok s1" "ent s1 = ent s" "entity_scan (ent s) c eid rows"
    using rows[OF s] unfolding rows_of_def by blast
  note er = entity_scan_rows[OF r(4) keys eid]
  let ?ws = "delete_writes schema c eid rows"
  have dec: "\<forall>row \<in> set rows. decode_entity_key (fst row) \<noteq> None"
    using er(1) eid by (auto simp: own_row_def id_ok_def entity_key_decode dest!: bspec)
  have room: "\<forall>w \<in> set ?ws. room w" using fits r(1) by (simp add: delete_fits_def list_all_iff)
  obtain s2 where w: "forS ?ws (mu_write mu) s1 = (Inr (), s2)" "ok s2" "vals (ent s2) = apply_writes ?ws (vals (ent s1))"
      "\<forall>k. k \<notin> fst ` set ?ws \<longrightarrow> ent s1 k = None \<longrightarrow> ent s2 k = None"
    using writes[OF r(2) room] by blast
  have marker: "COMPOSITE_FIELD_MARKER \<notin> set (indexed_field_ids schema c)" using view by (auto simp: view_ok_def)
  have own: "\<forall>w \<in> set ?ws. own_key c eid (fst w)" using delete_writes_own[OF er(1) marker] by blast
  have none: "\<forall>w \<in> set ?ws. snd w = None" using delete_writes_none by blast
  have v2: "vals (ent s2) k = (if k \<in> fst ` set ?ws then None else vals (ent s) k)" for k
    using fun_cong[OF w(3), of k] apply_deletes[OF none, of "vals (ent s)" k] r(3) by simp
  have along: "indexes_along schema ?ws (vals (ent s))"
  proof (intro allI ballI)
    fix c' f assume "f \<in> set (indexed_field_ids schema c')"
    then have m: "f \<noteq> COMPOSITE_FIELD_MARKER" "complete (vals (ent s)) c' f" using view by (auto simp: view_ok_def)
    then have "c' = c \<Longrightarrow> covered (vals (ent s)) c f eid" using eid by (simp add: complete_covered)
    then show "all_along (\<lambda>V. complete V c' f) ?ws (vals (ent s))"
      using complete_along[OF own eid m] delete_covers[OF eid r(4) keys m(1)] by blast
  qed
  have "keys_ok (ent s2)" using keys_ok_writes[OF keys own eid] w(4) r(3) by simp
  moreover have "fields_ok schema (vals (ent s2))"
    using fld v2 unfolding fields_ok_def by (metis option.distinct(1))
  moreover have "complete (vals (ent s2)) c' f" if "f \<in> set (indexed_field_ids schema c')" for c' f
    using all_along_last[of "\<lambda>V. complete V c' f" ?ws] along that w(3) r(3) by auto
  ultimately have "view_ok schema (ent s2)" using view by (simp add: view_ok_def)
  moreover have "vals (ent s2) (encode_entity_key c eid f) = None" for f
  proof (cases "encode_entity_key c eid f \<in> fst ` set ?ws")
    case False
    then have "map_of rows (encode_entity_key c eid f) = None"
      by (auto simp: delete_writes_def map_of_eq_None_iff image_Un image_image)
    then show ?thesis using v2 False er(2)[of f] by simp
  qed (use v2 in simp)
  moreover have "vals (ent s2) k = None" if "own_entry schema (vals (ent s)) c eid k" for k
    using v2 delete_writes_entries[OF r(4) keys eid that] by simp
  moreover have "core_delete_entity schema mu c eid s = (Inr (), s2)"
    using core_delete_writes[OF _ r(1) dec, of schema] w(1) eid by (simp add: id_ok_def)
  ultimately show ?thesis using w(2,3) r(3) own along by (intro exI[of _ ?ws] exI[of _ s2]) simp
qed

end

section \<open>The conditional update\<close>

lemma get_from_rows:
  assumes "entity_scan E c eid rows"
  shows "core_get_entity schema direct_scan_view c eid rows =
     (if rows = [] then (Inr None, rows)
      else (bindE (entity_rows schema c rows) (\<lambda>fs. Inr (if fs = [] then None else Some \<lparr>en_fields = fs\<rparr>)), rows))"
proof -
  have "in_range (Some (entity_prefix c eid)) (successor (entity_prefix c eid)) k" if "k \<in> fst ` set rows" for k
    using assms that by (metis map_of_eq_None_iff rows_of_def)
  then have "filter (\<lambda>(k, _). in_range (Some (entity_prefix c eid)) (successor (entity_prefix c eid)) k) rows = rows"
    by (force simp: filter_id_conv)
  then have "mu_rows direct_scan_view (Some (entity_prefix c eid)) (successor (entity_prefix c eid)) rows = (Inr rows, rows)"
    by (simp add: mu_rows_def direct_scan_view_def bindS_def)
  then show ?thesis
    by (auto simp: core_get_entity_def entity_range_split bindS_def bindE_def split: sum.split)
qed

context kv_read
begin

text \<open>A refused update leaves the view and the registry as they were; an accepted one is the put of the patched entity.\<close>

lemma cas_entity:
  assumes s: "ok s"
  shows "\<exists>r s1. core_get_entity schema mu c eid s = (r, s1) \<and> ok s1 \<and> ent s1 = ent s \<and>
     core_cas_entity shown mu c eid ex ps (schema, hints, s) =
       (case bindE r (\<lambda>current. bindE (check_expected ex c eid current) (\<lambda>_. apply_patch shown ps (unwrap_or entity_new current))) of
          Inl e \<Rightarrow> (Inl e, schema, hints, s1)
        | Inr e \<Rightarrow> bindS (core_put_entity mu c eid e) (\<lambda>_. retS e) (schema, hints, s1))"
proof -
  obtain rows s1 where r: "mu_rows mu (Some (entity_prefix c eid)) (successor (entity_prefix c eid)) s = (Inr rows, s1)"
      "ok s1" "ent s1 = ent s" "entity_scan (ent s) c eid rows"
    using rows[OF s] unfolding rows_of_def by blast
  have "core_get_entity schema mu c eid s = (fst (core_get_entity schema direct_scan_view c eid rows), s1)"
    using r(1) get_from_rows[OF r(4), of schema]
    by (auto simp: core_get_entity_def entity_range_split bindS_def bindE_def split: sum.split)
  then show ?thesis
    using r by (auto simp: core_cas_entity_def entity_range_split split: sum.split)
qed

end

end
