(* ===== verification/Guarantees.thy ===== *)
theory Guarantees
  imports Store
begin

text \<open>
  The guarantees of the engine: what its reads return, what a crash can and cannot lose, and the bounds
  it keeps, each for every state the operations and crashes can reach.
\<close>

section \<open>Reads and writes\<close>

text \<open>
  C1: In every reachable state, whatever the flushes, compactions, reopenings and cache fills
  before it, a point lookup returns the value the map of all writes has for the key, and a range scan
  returns exactly the live keys of the range in ascending order with their values.
\<close>

theorem reads_correct:
  assumes "run crc B opts db v l" and "opts_ok B opts"
  shows "(\<exists>db'. db_get key db = (Inr (v key), db')) \<and>
     (\<exists>out db'. db_scan start stop db = (Inr out, db') \<and> ssorted (map fst out) \<and>
        (\<forall>k. map_of out k = (if in_range start stop k then map_option Some (v k) else None)))"
proof -
  have "run_inv crc B opts db v l" using assms by (rule run_invariant)
  then have "db_inv db" "db_value db = v" by (simp_all add: run_inv_def db_ok_def)
  then show ?thesis using db_get_correct[of db key] db_scan_correct[of db start stop] by metis
qed

text \<open>Sample states: one write, and the same state flushed to a table.\<close>

definition sample_db :: database where
  "sample_db = snd (db_put (\<lambda>_. 0) (str ''a'') (str ''1'') (fresh_db default_options))"

lemma sample_opts: "opts_ok 1000 default_options"
  by (simp add: opts_ok_def default_options_def)

lemma sample_put:
  "put_room 1000 (str ''a'') (Some (str ''1'')) (fresh_db default_options)"
  "db_put (\<lambda>_. 0) (str ''a'') (str ''1'') (fresh_db default_options) =
     (Inr (), written (\<lambda>_. 0) (str ''a'') (Some (str ''1'')) (fresh_db default_options))"
  by (simp_all add: put_room_def fresh_db_def item_size_def entry_len_def str_def mt_put_def memtable_new_def
      table_size_def db_put_def put_internal_def flush_if_over_limit_def written_def default_options_def)

lemma sample_db_eq: "sample_db = written (\<lambda>_. 0) (str ''a'') (Some (str ''1'')) (fresh_db default_options)"
  by (simp add: sample_db_def sample_put)

lemma sample_memory: "mt_map (db_memtable sample_db) = [(str ''a'', Some (str ''1''))]"
  by (simp add: sample_db_eq written_def fresh_db_def mt_put_def memtable_new_def)

lemma sample_run:
  "run (\<lambda>_. 0) 1000 default_options sample_db [str ''a'' \<mapsto> str ''1''] (Some [LPut (str ''a'') (str ''1'')])"
proof -
  have 0: "run (\<lambda>_. 0) 1000 default_options (fresh_db default_options) (\<lambda>_. None) (Some [])"
    by (rule run_open[OF open_fresh])
  have n: "mf_next_table_id (db_manifest sample_db) < 2 ^ 64"
    by (simp add: sample_db_eq written_def fresh_db_def manifest_new_def)
  have l: "log_after (Some []) [LPut (str ''a'') (str ''1'')] sample_db = Some [LPut (str ''a'') (str ''1'')]"
    using sample_memory by (simp add: log_after_def mt_is_empty_def)
  have "run (\<lambda>_. 0) 1000 default_options sample_db [str ''a'' \<mapsto> str ''1'']
      (log_after (Some []) [LPut (str ''a'') (str ''1'')] sample_db)"
    by (rule run_put[OF 0 _ sample_put(1)])
      (use sample_put(2) n in \<open>simp_all add: sample_db_eq str_def\<close>)
  then show ?thesis by (simp only: l)
qed

definition sample_flushed :: database where
  "sample_flushed = snd (flush sample_db)"

lemma sample_flush: "flush sample_db = (Inr (), flushed sample_db)"
proof -
  have "level0 (db_manifest sample_db) = []" "l0_compact_threshold (db_opts sample_db) = 4"
    by (simp_all add: sample_db_eq written_def fresh_db_def level0_def manifest_new_def default_options_def)
  then show ?thesis using sample_memory by (simp add: flush_flushed flushed_simps mt_is_empty_def)
qed

lemma sample_flushed_run:
  "run (\<lambda>_. 0) 1000 default_options sample_flushed [str ''a'' \<mapsto> str ''1''] (Some [])"
proof -
  note e = sample_flush
  have "mf_next_table_id (db_manifest (flushed sample_db)) < 2 ^ 64"
    by (simp add: flushed_simps sample_db_eq written_def fresh_db_def manifest_new_def)
  then have "run (\<lambda>_. 0) 1000 default_options (flushed sample_db) [str ''a'' \<mapsto> str ''1'']
      (log_after (Some [LPut (str ''a'') (str ''1'')]) [] (flushed sample_db))"
    using run_flush[OF sample_run _ e] sample_memory
    by (simp add: mem_room_def table_size_def item_size_def entry_len_def str_def)
  moreover have "log_after (Some [LPut (str ''a'') (str ''1'')]) [] (flushed sample_db) = Some []"
    by (simp add: log_after_def flushed_simps mt_is_empty_def memtable_new_def)
  ultimately show ?thesis by (simp add: sample_flushed_def e)
qed

theorem reads_correct_witness:
  "(\<exists>db'. db_get (str ''a'') sample_flushed = (Inr (Some (str ''1'')), db')) \<and>
   (\<exists>out db'. db_scan None None sample_flushed = (Inr out, db') \<and> map_of out (str ''a'') = Some (Some (str ''1'')))"
  using reads_correct[OF sample_flushed_run sample_opts, of "str ''a''" None None] by (auto simp: in_range_def)

text \<open>
  C11: In every reachable state a write, a delete, a flush and a full compaction of a database
  within the format's limits succeed, with no error and no panic, and have the effect on the map that they
  claim: the write sets its key, the delete removes it, the other two change nothing.
\<close>

theorem writes_succeed:
  assumes "run crc B opts db v l" and "opts_ok B opts"
    and "put_room B key (Some x) db" and "put_room B key None db" and "mem_room db"
  shows "(\<exists>db'. db_put crc key x db = (Inr (), db') \<and> db_value db' = v(key \<mapsto> x)) \<and>
     (\<exists>db'. db_delete crc key db = (Inr (), db') \<and> db_value db' = v(key := None)) \<and>
     (\<exists>db'. flush db = (Inr (), db') \<and> db_value db' = v \<and> mt_map (db_memtable db') = []) \<and>
     (\<exists>n db'. compact_full db = (Inr n, db') \<and> db_value db' = v \<and> level0 (db_manifest db') = [] \<and>
        mt_map (db_memtable db') = [])"
proof -
  have "run_inv crc B opts db v l" using assms(1,2) by (rule run_invariant)
  then have i: "db_inv db" "db_fits B db" and v: "db_value db = v" by (simp_all add: run_inv_def db_ok_def)
  have room: "table_size (mt_map (db_memtable db)) < 2 ^ 32" using assms(5) by (simp add: mem_room_def)
  obtain a b c d where "db_put crc key x db = (Inr (), a)" "db_value a = v(key \<mapsto> x)"
    "db_delete crc key db = (Inr (), b)" "db_value b = v(key := None)"
    "flush db = (Inr (), c)" "reorganised B db c" "mt_map (db_memtable c) = []"
    "compact_full db = (Inr (length (mf_segments (db_manifest d))), d)" "reorganised B db d"
    "mt_map (db_memtable d) = []" "level0 (db_manifest d) = []"
    using put_internal_correct[OF i assms(3), of crc] put_internal_correct[OF i assms(4), of crc]
      flush_correct[OF i room] compact_full_correct[OF i room] unfolding v db_put_def db_delete_def by blast
  moreover from this have "db_value c = v" "db_value d = v" using v by (simp_all add: reorganised_def)
  ultimately show ?thesis by blast
qed

theorem writes_succeed_witness:
  "\<exists>db'. db_delete (\<lambda>_. 0) (str ''a'') sample_db = (Inr (), db') \<and> db_value db' = [str ''a'' \<mapsto> str ''1''](str ''a'' := None)"
proof -
  have "put_room 1000 (str ''a'') (Some (str ''2'')) sample_db" "put_room 1000 (str ''a'') None sample_db" "mem_room sample_db"
    using sample_memory by (simp_all add: put_room_def mem_room_def item_size_def entry_len_def str_def mt_put_def
        table_size_def)
  from writes_succeed[OF sample_run sample_opts this] show ?thesis by blast
qed

section \<open>Crashes\<close>

lemma whole_log: "whole_records crc (length (log_bytes crc rs)) rs = length rs"
  using whole_records_all by blast

text \<open>
  C2: After a crash that keeps any number of bytes of the log, cut anywhere, the directory can be
  opened again; every key then has the value of the tables overwritten by the records wholly in the kept
  part. If the whole log was kept the map is unchanged.
\<close>

theorem crash_prefix:
  assumes "run crc B opts db v (Some rs)" and "opts_ok B opts"
  shows "\<exists>db'. fst (open_with crc opts (fs_write WAL_FILE (take n (wal_log (db_wal db))) (db_dir db))) = Inr db' \<and>
     db_value db' = value_over db (take (whole_records crc n rs) rs) \<and>
     (length (wal_log (db_wal db)) \<le> n \<longrightarrow> db_value db' = v)"
proof -
  have inv: "run_inv crc B opts db v (Some rs)" using assms by (rule run_invariant)
  obtain db' where d: "fst (open_with crc opts (fs_write WAL_FILE (take n (wal_log (db_wal db))) (db_dir db))) = Inr db'"
      "run_inv crc B opts db' (value_over db (take (whole_records crc n rs) rs)) (log_cut crc n rs)"
    using run_crashed[OF inv] by blast
  have l: "logged crc rs db" and v: "db_value db = v" using inv by (simp_all add: run_inv_def)
  have "value_over db (take (whole_records crc n rs) rs) = v" if "length (wal_log (db_wal db)) \<le> n"
    using that l v value_logged[OF l] whole_records_all[of crc rs n] by (simp add: logged_def)
  then show ?thesis using d by (auto simp: run_inv_def)
qed

theorem crash_prefix_witness:
  "\<exists>db'. fst (open_with (\<lambda>_. 0) default_options (fs_write WAL_FILE (take 100 (wal_log (db_wal sample_db))) (db_dir sample_db)))
       = Inr db' \<and> db_value db' = [str ''a'' \<mapsto> str ''1'']"
proof -
  have "length (wal_log (db_wal sample_db)) \<le> 100"
    by (simp add: sample_db_eq written_def fresh_db_def rec_bytes_def rec_body_def str_def)
      (simp add: wal_log_def)
  then show ?thesis using crash_prefix[OF sample_run sample_opts, of 100] by blast
qed

text \<open>
  C13: In a state whose log holds whole records only, so one in front of which no crash has left a
  torn record that was not flushed away since, nothing is lost once the log is synced: the files as a crash leaves
  them right after the sync open to the same map. Behind a torn record this is false.
\<close>

theorem synced_survives:
  assumes "run crc B opts db v (Some rs)" and "opts_ok B opts" and "db_wal_sync db = (r, db1)"
  shows "\<exists>db'. fst (open_with crc opts (disk db1)) = Inr db' \<and> db_value db' = v"
proof -
  have inv: "run_inv crc B opts db v (Some rs)" using assms(1,2) by (rule run_invariant)
  have db1: "db1 = db\<lparr>db_wal := wal_sync (db_wal db)\<rparr>" using assms(3) by (simp add: db_wal_sync_def on_wal_def)
  then have "disk db1 = fs_write WAL_FILE (take (length (wal_log (db_wal db))) (wal_log (db_wal db))) (db_dir db)"
    by (simp add: disk_def)
  then obtain db' where d: "fst (open_with crc opts (disk db1)) = Inr db'"
      "run_inv crc B opts db' (value_over db (take (whole_records crc (length (wal_log (db_wal db))) rs) rs))
         (log_cut crc (length (wal_log (db_wal db))) rs)"
    using run_crashed[OF inv, of "length (wal_log (db_wal db))"] by metis
  have l: "logged crc rs db" and v: "db_value db = v" using inv by (simp_all add: run_inv_def)
  then have "whole_records crc (length (wal_log (db_wal db))) rs = length rs"
    using whole_log by (simp add: logged_def)
  then show ?thesis using d l v value_logged[OF l] by (auto simp: run_inv_def)
qed

theorem synced_survives_witness:
  "\<exists>db'. fst (open_with (\<lambda>_. 0) default_options (disk (snd (db_wal_sync sample_db)))) = Inr db' \<and>
     db_value db' = [str ''a'' \<mapsto> str ''1'']"
  by (rule synced_survives[OF sample_run sample_opts]) (rule surjective_pairing)

text \<open>
  C3: A commit is atomic and durable. It succeeds; a crash at any point of the log it writes
  leaves a directory that opens to the map before it, or to the map with all its writes once the commit record
  is on disk; when it returns the log is synced, and the writes are visible.
\<close>

theorem commit_atomic:
  assumes "run crc B opts db v (Some rs)" and "opts_ok B opts" and "tx \<notin> set (List.map_filter rec_tx rs)"
    and "commit_room B pending db"
  shows "\<exists>db1. commit_log crc tx pending db = (Inr (), db1) \<and> wal_buf (db_wal db1) = [] \<and>
     db_value (commit_memory pending db1) = apply_writes pending v \<and>
     (\<forall>n. \<exists>db'. fst (open_with crc opts (fs_write WAL_FILE (take n (wal_log (db_wal db1))) (db_dir db1))) = Inr db' \<and>
        db_value db' = (if length (wal_log (db_wal db1)) \<le> n then apply_writes pending v
          else value_over db (take (whole_records crc n rs) rs)))"
proof -
  let ?rs = "rs @ tx_block tx pending"
  have inv: "run_inv crc B opts db v (Some rs)" using assms(1,2) by (rule run_invariant)
  have l: "logged crc rs db" and v: "db_value db = v" and ok: "db_ok B db" using inv by (simp_all add: run_inv_def)
  obtain w where c: "commit_log crc tx pending db = (Inr (), db\<lparr>db_wal := w\<rparr>)" "wal_buf w = []"
      "wal_log w = log_bytes crc ?rs"
    using commit_log_correct[of crc tx pending db] l by (auto simp: logged_def)
  let ?db1 = "db\<lparr>db_wal := w\<rparr>"
  have ok1: "db_ok B ?db1" "commit_room B pending ?db1" "db_value ?db1 = v"
    using ok assms(4) commit_room_memory[of ?db1 db B pending] v by simp_all
  note p = db_ok_pending[OF ok1(1,2)]
  have "db_value (commit_memory pending ?db1) = apply_writes pending v"
    using flush_if_over_limit_correct[of "apply_pending pending ?db1" B] p ok1(3)
    by (auto simp: commit_memory_def db_ok_def mem_room_def reorganised_def)
  moreover have "\<exists>db'. fst (open_with crc opts (fs_write WAL_FILE (take n (wal_log w)) (db_dir ?db1))) = Inr db' \<and>
        db_value db' = (if length (wal_log w) \<le> n then apply_writes pending v
          else value_over db (take (whole_records crc n rs) rs))" for n
  proof -
    let ?kept = "take (whole_records crc n ?rs) ?rs"
    let ?d = "fs_write WAL_FILE (take n (wal_log w)) (db_dir ?db1)"
    have "\<forall>r \<in> set ?rs. rec_ok r"
      using l block_rec_ok[of pending B tx] p opts_ok_bound[OF assms(2)] by (auto simp: logged_def)
    then have "replay crc (log_file ?d) = recovered ?kept"
      using replay_take[of ?rs crc n] c(3) by (simp add: log_file_def)
    moreover have "openable db" using ok by (simp add: db_ok_def)
    moreover have "same_store db ?d" by simp
    ultimately obtain db' where d: "fst (open_with crc opts ?d) = Inr db'" "reopened db ?kept db'"
      using open_openable[of db ?d crc ?kept opts] by auto
    have "effects ?kept = (if length (log_bytes crc ?rs) \<le> n then effects rs @ pending
        else effects (take (whole_records crc n rs) rs))"
      using recovered_cut_block[OF assms(3), of crc n pending] effects_block[OF assms(3), of pending]
      by (auto simp: effects_def recovered_full_block[OF assms(3)])
    then have "value_over db ?kept = (if length (log_bytes crc ?rs) \<le> n then apply_writes pending v
        else value_over db (take (whole_records crc n rs) rs))"
      using v value_logged[OF l]
      by (auto simp: value_over_def log_entries_def apply_writes_map fun_eq_iff map_add_def split: option.split)
    then show ?thesis using d reopened_value[OF d(2)] c(3) by simp
  qed
  ultimately show ?thesis using c(1,2) by (intro exI[of _ ?db1]) simp
qed

theorem commit_atomic_witness:
  "\<exists>db1. commit_log (\<lambda>_. 0) 1 [(str ''a'', None), (str ''b'', Some (str ''2''))] sample_db = (Inr (), db1) \<and>
     db_value (commit_memory [(str ''a'', None), (str ''b'', Some (str ''2''))] db1) = [str ''b'' \<mapsto> str ''2'']"
proof -
  have "commit_room 1000 [(str ''a'', None), (str ''b'', Some (str ''2''))] sample_db"
    using sample_memory by (simp add: put_room_def item_size_def entry_len_def str_def mt_put_def table_size_def)
  from commit_atomic[OF sample_run sample_opts _ this, of 1] show ?thesis
    by (auto simp: List.map_filter_def str_def fun_eq_iff)
qed

text \<open>A whole record with a wrong checksum ends the replay, whatever stands behind it.\<close>

lemma read_record_corrupt:
  assumes "rec_ok r" and "c \<noteq> crc (rec_body r)"
  shows "read_record crc (u32_le c @ rec_body r @ rest) = None"
  using assms read_payload_rec[OF assms(1), of rest]
  by (simp add: read_record_def rec_body_def read_n_app[of 4] read_n_app[of 1 "[_]", simplified])

text \<open>
  C40: A whole record with a wrong checksum at the end of the log hides everything that is
  logged behind it. The database opens with the map of the records in front of it, but \<^verbatim>\<open>Wal::create\<close> leaves the
  record in the file and appends after it. A transaction committed then succeeds, its log block is on disk when it
  returns, its writes are visible; and the next open, from the files as they are then, does not have them.
\<close>

theorem corrupt_record_hides_rest:
  assumes "run crc B opts db v (Some rs)" and "opts_ok B opts" and "rec_ok r" and "c \<noteq> crc (rec_body r)"
  shows "\<exists>db1. fst (open_with crc opts (fs_write WAL_FILE (wal_log (db_wal db) @ u32_le c @ rec_body r) (db_dir db))) = Inr db1 \<and>
     db_value db1 = v \<and>
     (\<forall>tx pending. \<exists>db2. commit_log crc tx pending db1 = (Inr (), db2) \<and> wal_buf (db_wal db2) = [] \<and>
        wal_file (db_wal db2) = wal_log (db_wal db) @ u32_le c @ rec_body r @ log_bytes crc (tx_block tx pending) \<and>
        (commit_room B pending db1 \<longrightarrow> db_value (commit_memory pending db2) = apply_writes pending v) \<and>
        (\<exists>db3. fst (open_with crc opts (disk db2)) = Inr db3 \<and> db_value db3 = v))"
proof -
  let ?bad = "u32_le c @ rec_body r"
  have inv: "run_inv crc B opts db v (Some rs)" using assms(1,2) by (rule run_invariant)
  then have l: "logged crc rs db" "log_small B rs" and v: "db_value db = v" and ok: "db_ok B db" and opts: "db_opts db = opts"
    by (simp_all add: run_inv_def)
  have op: "openable db" using ok by (simp add: db_ok_def)
  have log: "replay crc (wal_log (db_wal db) @ ?bad @ rest) = recovered rs" for rest
    using l(1) replay_log[OF _ read_record_corrupt[where crc = crc and rest = rest, OF assms(3,4)], of rs] by (simp add: logged_def)
  have same: "db_value db' = v" if "reopened db rs db'" for db'
    using reopened_value[OF that] value_logged[OF l(1)] v by simp
  let ?d = "fs_write WAL_FILE (wal_log (db_wal db) @ ?bad) (db_dir db)"
  obtain db1 where d: "fst (open_with crc opts ?d) = Inr db1" "reopened db rs db1"
      "wal_log (db_wal db1) = wal_log (db_wal db) @ ?bad" "db_dir db1 = fs_remove WAL_FILE ?d" "db_opts db1 = opts"
    using open_openable[OF op, of ?d crc rs opts] log[of "[]"] by (auto simp: log_file_def)
  have ok1: "db_ok B db1" using db_ok_reopened[OF ok d(2) l(2)] d(5) opts by simp
  have "\<exists>db2. commit_log crc tx pending db1 = (Inr (), db2) \<and> wal_buf (db_wal db2) = [] \<and>
        wal_file (db_wal db2) = wal_log (db_wal db) @ ?bad @ log_bytes crc (tx_block tx pending) \<and>
        (commit_room B pending db1 \<longrightarrow> db_value (commit_memory pending db2) = apply_writes pending v) \<and>
        (\<exists>db3. fst (open_with crc opts (disk db2)) = Inr db3 \<and> db_value db3 = v)" for tx pending
  proof -
    obtain w where c: "commit_log crc tx pending db1 = (Inr (), db1\<lparr>db_wal := w\<rparr>)" "wal_buf w = []"
        "wal_log w = wal_log (db_wal db) @ ?bad @ log_bytes crc (tx_block tx pending)"
      using commit_log_correct[of crc tx pending db1] d(3) by auto
    let ?db2 = "db1\<lparr>db_wal := w\<rparr>"
    have f: "wal_file w = wal_log w" using c(2) by (simp add: wal_log_def)
    have "db_value (commit_memory pending ?db2) = apply_writes pending v" if room: "commit_room B pending db1"
    proof -
      have "db_ok B ?db2" "commit_room B pending ?db2" "db_value ?db2 = v"
        using ok1 room commit_room_memory[of ?db2 db1 B pending] same[OF d(2)] by simp_all
      then show ?thesis
        using db_ok_pending[of B ?db2 pending] flush_if_over_limit_correct[of "apply_pending pending ?db2" B]
        by (auto simp: commit_memory_def db_ok_def mem_room_def reorganised_def)
    qed
    moreover have "\<exists>db3. fst (open_with crc opts (disk ?db2)) = Inr db3 \<and> reopened db rs db3"
    proof -
      have "log_file (disk ?db2) = wal_log w" by (simp add: log_file_def disk_def f)
      moreover have "same_store db (disk ?db2)"
        using d(2) by (simp add: reopened_def same_store_def disk_def)
      ultimately show ?thesis using open_openable[OF op, of "disk ?db2" crc rs opts] log by (auto simp: c(3))
    qed
    ultimately show ?thesis using c same by (auto simp: f)
  qed
  from this[unfolded append_assoc] show ?thesis using d(1) same[OF d(2)] by blast
qed

theorem corrupt_record_hides_rest_witness:
  "\<exists>db1 db2 db3. fst (open_with (\<lambda>_. 0) default_options
       (fs_write WAL_FILE (wal_log (db_wal sample_db) @ u32_le 7 @ rec_body (LDelete [9])) (db_dir sample_db))) = Inr db1 \<and>
     commit_log (\<lambda>_. 0) 1 [(str ''b'', Some (str ''2''))] db1 = (Inr (), db2) \<and>
     fst (open_with (\<lambda>_. 0) default_options (disk db2)) = Inr db3 \<and> db_value db3 = [str ''a'' \<mapsto> str ''1'']"
  using corrupt_record_hides_rest[OF sample_run sample_opts, of "LDelete [9]" 7] by force

text \<open>
  C28: A flush commits the manifest with the new table before it empties the log. If the
  process dies in between, the next open replays the part of the log that had reached the file on top of the
  new table: a key with a record in that part goes back to the value it had there, while the others keep
  their newest value. When the log had been synced in full this is the map itself; otherwise it can be a
  state the database never was in.
\<close>

theorem flush_crash_mixes:
  assumes "run crc B opts db v (Some rs)" and "opts_ok B opts" and "mem_room db" and "mt_map (db_memtable db) \<noteq> []"
    and "mf_next_table_id (db_manifest db) + 1 < 2 ^ 64"
  defines "dying \<equiv> flush_commit (mf_next_table_id (db_manifest db)) (flush_build db)"
    and "kept \<equiv> take (whole_records crc (length (wal_file (db_wal db))) rs) rs"
  shows "\<exists>db'. fst (open_with crc opts (disk dying)) = Inr db' \<and>
     (\<forall>k. db_value db' k = (case log_entries kept k of Some e \<Rightarrow> e | None \<Rightarrow> v k)) \<and>
     (wal_buf (db_wal db) = [] \<longrightarrow> db_value db' = v)"
proof -
  have inv: "run_inv crc B opts db v (Some rs)" using assms(1,2) by (rule run_invariant)
  then have ok: "db_ok B db" and l: "logged crc rs db" and v: "db_value db = v" by (simp_all add: run_inv_def)
  have r: "reorganised B db (flushed db)"
    using flushed_correct(1)[of db B] ok assms(3,4) by (simp add: db_ok_def mem_room_def mt_is_empty_def)
  have "db_ok B (flushed db)" using db_ok_reorganised[OF ok r] assms(5) by (simp add: flushed_simps)
  then have op: "openable (flushed db)" by (simp add: db_ok_def)
  have "db_wal dying = db_wal db" "db_dir dying = db_dir (flushed db)"
    by (simp_all add: dying_def flushed_def flush_clear_def flush_commit_def flush_build_def write_table_def Let_def)
  then have dk: "disk dying = fs_write WAL_FILE (wal_file (db_wal db)) (db_dir (flushed db))" by (simp add: disk_def)
  have wf: "wal_file (db_wal db) = take (length (wal_file (db_wal db))) (log_bytes crc rs)"
    using l by (simp add: logged_def wal_log_def flip: append_eq_conv_conj) (metis append_eq_conv_conj)
  have "replay crc (wal_file (db_wal db)) = recovered kept"
    unfolding kept_def using l replay_take[of rs crc "length (wal_file (db_wal db))"] wf by (simp add: logged_def)
  then have "replay crc (log_file (disk dying)) = recovered kept" by (simp add: dk log_file_def)
  moreover have "same_store (flushed db) (disk dying)" by (simp add: dk)
  ultimately obtain db' where
    d: "fst (open_with crc opts (disk dying)) = Inr db'" "reopened (flushed db) kept db'"
    using open_openable[OF op, of "disk dying" crc kept opts] by blast
  have tables: "flat (layers (map (file_records (db_dir (flushed db))) (table_order (db_manifest (flushed db)))) k) = v k" for k
  proof -
    have "mt_map (db_memtable (flushed db)) = []" by (simp add: flushed_simps memtable_new_def)
    then show ?thesis using value_layers[of "flushed db" k] r v by (simp add: reorganised_def)
  qed
  have val: "db_value db' k = (case log_entries kept k of Some e \<Rightarrow> e | None \<Rightarrow> v k)" for k
    using tables[of k] by (simp add: reopened_value[OF d(2)] value_over_def split: option.split)
  have "db_value db' = v" if "wal_buf (db_wal db) = []"
  proof -
    have "wal_file (db_wal db) = log_bytes crc rs" using that l by (simp add: logged_def wal_log_def)
    then have "kept = rs" by (simp add: kept_def whole_log)
    then have "db_value db' k = v k" for k
      using val[of k] l v value_layers[of db k] by (simp add: logged_def mt_get_def[symmetric] split: option.splits)
    then show ?thesis by (rule ext)
  qed
  then show ?thesis using d(1) val by blast
qed

text \<open>
  The witness: \<open>a = 1\<close> is synced, then \<open>a = 2\<close> and \<open>b = 1\<close> are written, and the flush dies. The reopened
  database has \<open>a = 1\<close> and \<open>b = 1\<close>, although \<open>b\<close> was never set before \<open>a\<close> was 2.
\<close>

definition step_put :: "bytes \<Rightarrow> bytes \<Rightarrow> database \<Rightarrow> database" where
  "step_put key x db = written (\<lambda>_. 0) key (Some x) db"

definition torn_db :: database where
  "torn_db = step_put (str ''b'') (str ''1'') (step_put (str ''a'') (str ''2'') (snd (db_wal_sync sample_db)))"

lemma put_below_limit:
  "mt_size_bytes (db_memtable (written crc key x db)) < memtable_limit (db_opts db) \<Longrightarrow>
     put_internal crc key x db = (Inr (), written crc key x db)"
  by (simp add: put_internal_def flush_if_over_limit_def written_def)

lemma torn_run:
  "run (\<lambda>_. 0) 1000 default_options torn_db [str ''a'' \<mapsto> str ''1'', str ''a'' \<mapsto> str ''2'', str ''b'' \<mapsto> str ''1'']
     (Some [LPut (str ''a'') (str ''1''), LPut (str ''a'') (str ''2''), LPut (str ''b'') (str ''1'')])"
proof -
  note ev = step_put_def written_def sample_db_eq fresh_db_def mt_put_def memtable_new_def
    default_options_def str_def item_size_def entry_len_def table_size_def db_wal_sync_def on_wal_def
    manifest_new_def mt_is_empty_def
  let ?s0 = "snd (db_wal_sync sample_db)" and ?s1 = "step_put (str ''a'') (str ''2'') (snd (db_wal_sync sample_db))"
  have 0: "run (\<lambda>_. 0) 1000 default_options ?s0 [str ''a'' \<mapsto> str ''1''] (Some [LPut (str ''a'') (str ''1'')])"
    by (rule run_sync[OF sample_run surjective_pairing])
  have p1: "db_put (\<lambda>_. 0) (str ''a'') (str ''2'') ?s0 = (Inr (), ?s1)"
    unfolding db_put_def step_put_def by (rule put_below_limit) (simp add: ev)
  have "run (\<lambda>_. 0) 1000 default_options ?s1 [str ''a'' \<mapsto> str ''1'', str ''a'' \<mapsto> str ''2'']
      (log_after (Some [LPut (str ''a'') (str ''1'')]) [LPut (str ''a'') (str ''2'')] ?s1)"
    by (rule run_put[OF 0 _ _ p1]) (simp_all add: put_room_def ev)
  moreover have "log_after (Some [LPut (str ''a'') (str ''1'')]) [LPut (str ''a'') (str ''2'')] ?s1 =
      Some [LPut (str ''a'') (str ''1''), LPut (str ''a'') (str ''2'')]"
    by (simp add: log_after_def ev)
  ultimately have 1: "run (\<lambda>_. 0) 1000 default_options ?s1 [str ''a'' \<mapsto> str ''1'', str ''a'' \<mapsto> str ''2'']
      (Some [LPut (str ''a'') (str ''1''), LPut (str ''a'') (str ''2'')])" by simp
  have p2: "db_put (\<lambda>_. 0) (str ''b'') (str ''1'') ?s1 = (Inr (), torn_db)"
    unfolding db_put_def torn_db_def step_put_def[of "str ''b''"] by (rule put_below_limit) (simp add: ev)
  have "run (\<lambda>_. 0) 1000 default_options torn_db [str ''a'' \<mapsto> str ''1'', str ''a'' \<mapsto> str ''2'', str ''b'' \<mapsto> str ''1'']
      (log_after (Some [LPut (str ''a'') (str ''1''), LPut (str ''a'') (str ''2'')]) [LPut (str ''b'') (str ''1'')] torn_db)"
    by (rule run_put[OF 1 _ _ p2]) (simp_all add: put_room_def torn_db_def ev)
  moreover have "log_after (Some [LPut (str ''a'') (str ''1''), LPut (str ''a'') (str ''2'')]) [LPut (str ''b'') (str ''1'')] torn_db =
      Some [LPut (str ''a'') (str ''1''), LPut (str ''a'') (str ''2''), LPut (str ''b'') (str ''1'')]"
    by (simp add: log_after_def torn_db_def ev)
  ultimately show ?thesis by simp
qed

theorem flush_crash_mixes_witness:
  "\<exists>db'. fst (open_with (\<lambda>_. 0) default_options
       (disk (flush_commit (mf_next_table_id (db_manifest torn_db)) (flush_build torn_db)))) = Inr db' \<and>
     db_value db' (str ''a'') = Some (str ''1'') \<and> db_value db' (str ''b'') = Some (str ''1'')"
proof -
  note ev = torn_db_def step_put_def written_def sample_db_eq fresh_db_def mt_put_def memtable_new_def
    str_def item_size_def entry_len_def table_size_def db_wal_sync_def on_wal_def manifest_new_def mem_room_def
  let ?rs = "[LPut (str ''a'') (str ''1''), LPut (str ''a'') (str ''2''), LPut (str ''b'') (str ''1'')]"
  have c: "mem_room torn_db" "mt_map (db_memtable torn_db) \<noteq> []" "mf_next_table_id (db_manifest torn_db) + 1 < 2 ^ 64"
    by (simp_all add: ev)
  have "length (wal_file (db_wal torn_db)) = 15"
    by (simp add: torn_db_def step_put_def written_def db_wal_sync_def on_wal_def sample_db_eq fresh_db_def
        wal_append_def write_record_def write_all_def wal_flush_def wal_sync_def BUF_CAPACITY_def Let_def str_def)
  then have kept: "take (whole_records (\<lambda>_. 0) (length (wal_file (db_wal torn_db))) ?rs) ?rs = [LPut (str ''a'') (str ''1'')]"
    by (simp add: rec_bytes_def rec_body_def str_def)
  have e: "log_entries [LPut (str ''a'') (str ''1'')] = [str ''a'' \<mapsto> Some (str ''1'')]"
    by (simp add: log_entries_def effects_def recovered_def fun_eq_iff)
  obtain db' where db': "fst (open_with (\<lambda>_. 0) default_options
       (disk (flush_commit (mf_next_table_id (db_manifest torn_db)) (flush_build torn_db)))) = Inr db'"
    and val: "db_value db' k = (case [str ''a'' \<mapsto> Some (str ''1'')] k of Some e \<Rightarrow> e
       | None \<Rightarrow> [str ''a'' \<mapsto> str ''1'', str ''a'' \<mapsto> str ''2'', str ''b'' \<mapsto> str ''1''] k)" for k
    using flush_crash_mixes[OF torn_run sample_opts c] unfolding kept e by blast
  show ?thesis using db' val[of "str ''a''"] val[of "str ''b''"] by (simp add: str_def)
qed

section \<open>Consistency of the files\<close>

text \<open>
  C12: In every reachable state each table the manifest names is a file that parses to a
  non-empty sorted list of records; no table id occurs twice and all are below the next id; the segments are
  in ascending order without overlap, and each states the first and last key and the number of records of
  its file. So the checks of the next open succeed.
\<close>

theorem files_consistent:
  assumes "run crc B opts db v l" and "opts_ok B opts"
  shows "(\<forall>i \<in> set (all_ids (db_manifest db)). i < mf_next_table_id (db_manifest db) \<and>
       (\<exists>rs. map_of (db_dir db) (table_path i) = Some (fst (build_table_from_sorted rs)) \<and>
          file_records (db_dir db) i = rs \<and> rs \<noteq> [] \<and> ssorted (map fst rs))) \<and>
     distinct (all_ids (db_manifest db)) \<and> segments_ok (mf_segments (db_manifest db)) \<and>
     (\<forall>s \<in> set (mf_segments (db_manifest db)). segment_at (db_dir db) s) \<and>
     validate_open_state db = Inr () \<and> validate (db_manifest db) = Inr ()"
proof -
  have "run_inv crc B opts db v l" using assms by (rule run_invariant)
  then have ti: "tables_inv (db_manifest db) (db_dir db)" by (simp add: run_inv_def db_ok_def db_inv_def)
  have "\<exists>rs. map_of (db_dir db) (table_path i) = Some (fst (build_table_from_sorted rs)) \<and>
      file_records (db_dir db) i = rs \<and> rs \<noteq> [] \<and> ssorted (map fst rs)" if "i \<in> set (all_ids (db_manifest db))" for i
    using ti that by (auto simp: tables_inv_def table_at_def table_file_def table_ok_def)
  then show ?thesis using ti validate_open_state_ok(1)[OF ti] by (auto simp: tables_inv_def validate_iff)
qed

theorem files_consistent_witness:
  "validate_open_state sample_flushed = Inr () \<and> segments_ok (mf_segments (db_manifest sample_flushed))"
  using files_consistent[OF sample_flushed_run sample_opts] by blast

text \<open>
  C29: The binary search over the segments finds the segment whose range holds the key exactly
  if there is one, and no other segment holds it; the loop ends for every input.
\<close>

theorem segment_search:
  assumes "segments_ok segs"
  shows "find_segment segs key = Some i \<longleftrightarrow>
     i < length segs \<and> sm_min_key (segs ! i) \<le> key \<and> key \<le> sm_max_key (segs ! i)"
  using find_segment_spec[OF assms, of key] by (auto split: option.splits)

theorem segment_search_witness:
  "find_segment (mf_segments sample_manifest) (str ''p'') = Some 1"
proof -
  have "segments_ok (mf_segments sample_manifest)" using sample_manifest_ok by (simp add: manifest_ok_def)
  from segment_search[OF this, of "str ''p''" 1] show ?thesis by (simp add: sample_manifest_def str_def)
qed

section \<open>Bounds\<close>

lemma flush_level0:
  assumes "db_inv db" and "db_fits B db" and "mem_room db" and "0 < l0_compact_threshold (db_opts db)"
    and "mt_map (db_memtable db) \<noteq> []"
  shows "\<exists>db'. flush db = (Inr (), db') \<and> length (level0 (db_manifest db')) < l0_compact_threshold (db_opts db) \<and>
     db_memtable db' = memtable_new"
proof -
  have ne: "\<not> mt_is_empty (db_memtable db)" using assms(5) by (simp add: mt_is_empty_def)
  have size: "table_size (mt_map (db_memtable db)) < 2 ^ 32" using assms(3) by (simp add: mem_room_def)
  note f = flushed_correct(1)[OF assms(1,2) ne size]
  show ?thesis
  proof (cases "l0_compact_threshold (db_opts (flushed db)) \<le> length (level0 (db_manifest (flushed db)))")
    case True
    have "level0 (db_manifest (flushed db)) \<noteq> []" by (simp add: flushed_simps)
    then obtain db' where c: "compact (flushed db) = (Inr (), db')" "compacted B (flushed db) db'"
      using compact_correct[of "flushed db" B] f True by (auto simp: reorganised_def)
    then have "level0 (db_manifest db') = []" "db_memtable db' = memtable_new"
      by (auto simp: compacted_def flushed_simps)
    then show ?thesis using c ne True assms(4) by (simp add: flush_flushed)
  next
    case False
    then show ?thesis using ne by (simp add: flush_flushed) (simp add: flushed_simps)
  qed
qed

text \<open>
  C27: With positive limits, memory after a write is below the flush limit, whatever the write was and
  whatever the tables were. A write that brings memory to the limit leaves memory empty and
  leaves level 0 below the compaction threshold, also where it was not before, as after a crash between a flush and
  its compaction or a reopening with a lower threshold; any other write leaves the tables as they are. So no write
  brings level 0 to the threshold, and the first one that flushes brings it below.
\<close>

theorem resource_bounds:
  assumes "db_inv db" and "db_fits B db" and "put_room B key x db"
    and "0 < memtable_limit (db_opts db)" and "0 < l0_compact_threshold (db_opts db)"
  shows "\<exists>db'. put_internal crc key x db = (Inr (), db') \<and>
     mt_size_bytes (db_memtable db') < memtable_limit (db_opts db) \<and>
     (if memtable_limit (db_opts db) \<le> mt_size_bytes (mt_put key x (db_memtable db))
      then length (level0 (db_manifest db')) < l0_compact_threshold (db_opts db) \<and> mt_map (db_memtable db') = []
      else db_manifest db' = db_manifest db \<and> db_dir db' = db_dir db)"
proof -
  let ?w = "written crc key x db"
  have mt: "mt_inv (db_memtable db)" using assms(1) by (simp add: db_inv_def)
  have w: "db_inv ?w" "db_fits B ?w" "mem_room ?w"
    using db_inv_mem_put[OF assms(1)] db_fits_mem_put[OF assms(2)] assms(3)
    by (simp_all add: written_def put_room_def mem_room_def)
  have same: "db_opts ?w = db_opts db" "db_manifest ?w = db_manifest db" "db_dir ?w = db_dir db"
      "db_memtable ?w = mt_put key x (db_memtable db)"
    by (simp_all add: written_def)
  have ne: "mt_map (db_memtable ?w) \<noteq> []"
  proof -
    have "mt_get (db_memtable ?w) key = Some x" using mt by (simp add: written_def)
    then show ?thesis by (auto simp: mt_get_def)
  qed
  show ?thesis
  proof (cases "memtable_limit (db_opts db) \<le> mt_size_bytes (db_memtable ?w)")
    case True
    obtain db' where "flush ?w = (Inr (), db')" "length (level0 (db_manifest db')) < l0_compact_threshold (db_opts db)"
        "db_memtable db' = memtable_new"
      using flush_level0[OF w] assms(5) ne by (auto simp: same)
    then show ?thesis
      using True assms(4) by (simp add: put_internal_def flush_if_over_limit_def written_def) (simp add: memtable_new_def)
  next
    case False
    then show ?thesis
      by (simp add: put_internal_def flush_if_over_limit_def written_def)
  qed
qed

theorem resource_bounds_witness:
  "\<exists>db'. put_internal (\<lambda>_. 0) (str ''a'') (Some (str ''1'')) (fresh_db default_options) = (Inr (), db') \<and>
     mt_size_bytes (db_memtable db') < 4194304 \<and> length (level0 (db_manifest db')) < 4"
proof -
  have "run_inv (\<lambda>_. 0) 1000 default_options (fresh_db default_options) (\<lambda>_. None) (Some [])"
    by (rule fresh_run_inv[OF sample_opts])
  then have i: "db_inv (fresh_db default_options)" "db_fits 1000 (fresh_db default_options)"
    by (simp_all add: run_inv_def db_ok_def)
  have d: "memtable_limit (db_opts (fresh_db default_options)) = 4194304"
      "l0_compact_threshold (db_opts (fresh_db default_options)) = 4"
      "length (level0 (db_manifest (fresh_db default_options))) < 4"
    by (simp_all add: fresh_db_def default_options_def level0_def manifest_new_def)
  show ?thesis
    using resource_bounds[OF i sample_put(1), of "\<lambda>_. 0", unfolded d(1,2)] d(3) by (auto split: if_splits)
qed

end
