(* ===== verification/Maintenance.thy ===== *)
theory Maintenance
  imports Guarantees
begin

text \<open>
  The operations of \<^verbatim>\<open>src/lib.rs\<close> around the engine: closing and dropping a database, the collection of
  orphaned tables, backup and restore, and the views for inspection. A directory that may not exist is a
  \<open>dir option\<close>.
\<close>

section \<open>Closing\<close>

definition db_close :: "(database, error, unit) op" where
  "db_close db = (if db_closed db then (Inr (), db)
     else bindS flush (\<lambda>_. bindS db_wal_sync (\<lambda>_.
       modS (\<lambda>db. db\<lparr>db_dir := manifest_save (db_manifest db) (db_dir db), db_closed := True\<rparr>))) db)"

text \<open>\<^verbatim>\<open>Drop\<close>: errors are ignored. The result is the files it leaves.\<close>

definition db_drop :: "database \<Rightarrow> dir" where
  "db_drop db = (if db_closed db then disk db else disk (snd (db_wal_sync (snd (flush db)))))"

definition close_without_flush :: "database \<Rightarrow> dir" where
  "close_without_flush db = db_drop (db\<lparr>db_closed := True\<rparr>)"

section \<open>Garbage collection\<close>

text \<open>The id of a file name of the form \<^verbatim>\<open>dddddd.sst\<close>.\<close>

definition table_name_id :: "bytes \<Rightarrow> nat option" where
  "table_name_id name =
     (if length name = 10 \<and> drop 6 name = str ''.sst'' \<and> (\<forall>b \<in> set (take 6 name). is_digit b)
      then parse_digits 0 (take 6 name) else None)"

fun gc_loop :: "nat set \<Rightarrow> bytes list \<Rightarrow> nat \<times> dir \<Rightarrow> nat \<times> dir" where
  "gc_loop referenced [] st = st"
| "gc_loop referenced (name # names) (removed, d) =
     (case table_name_id name of
        None \<Rightarrow> gc_loop referenced names (removed, d)
      | Some i \<Rightarrow>
          if i \<in> referenced then gc_loop referenced names (removed, d)
          else gc_loop referenced names (removed + 1, fs_remove name d))"

definition gc :: "(database, error, nat) op" where
  "gc db =
     (let referenced = set (all_ids (db_manifest db));
          (removed, d) = gc_loop referenced (map fst (db_dir db)) (0, db_dir db);
          d = (if fs_exists manifest_tmp d then fs_remove manifest_tmp d else d) in
      (Inr removed, db\<lparr>db_dir := d,
         db_cache := (\<lambda>i. if i \<in> referenced then db_cache db i else None)\<rparr>))"

section \<open>Backup and restore\<close>

text \<open>
  The copy loop with its clean-up: on a failure the files copied so far and then the empty target
  directory are removed. The result is the number of files and the target.
\<close>

fun copy_files :: "bytes list \<Rightarrow> dir \<Rightarrow> bytes list \<Rightarrow> dir \<Rightarrow> nat result \<times> dir option" where
  "copy_files [] src copied dest = (Inr (length copied), Some dest)"
| "copy_files (name # names) src copied dest =
     (case map_of src name of
        Some c \<Rightarrow> copy_files names src (copied @ [name]) (fs_write name c dest)
      | None \<Rightarrow>
          (let dest = fold fs_remove copied dest in
           (Inl (Io FileNotFound), if dest = [] then None else Some dest)))"

text \<open>The target must not exist or be empty; it is created anew.\<close>

definition prepare_target :: "bytes \<Rightarrow> dir option \<Rightarrow> dir result" where
  "prepare_target msg dest = (case dest of
     None \<Rightarrow> Inr []
   | Some d \<Rightarrow> if d \<noteq> [] then Inl (InvalidArgument msg) else Inr [])"

definition backup :: "dir option \<Rightarrow> database \<Rightarrow> nat result \<times> database \<times> dir option" where
  "backup dest db = (case flush db of
     (Inl e, db) \<Rightarrow> (Inl e, db, dest)
   | (Inr _, db) \<Rightarrow>
       (case prepare_target (str ''backup destination exists and is not empty'') dest of
          Inl e \<Rightarrow> (Inl e, db, dest)
        | Inr target \<Rightarrow>
            (let files = filter (\<lambda>name. fs_exists name (db_dir db)) [VERSION_FILE, MANIFEST_FILE, SCHEMA_FILE] @
                   map table_path (all_ids (db_manifest db));
                 (r, dest) = copy_files files (db_dir db) [] target in
             (r, db, dest))))"

definition restore :: "dir \<Rightarrow> dir option \<Rightarrow> nat result \<times> dir option" where
  "restore src dest =
     (case bindE (read_version src) (\<lambda>v. case v of Some v \<Rightarrow> check_compatible v | None \<Rightarrow> Inr ()) of
        Inl e \<Rightarrow> (Inl e, dest)
      | Inr _ \<Rightarrow>
          if \<not> fs_exists MANIFEST_FILE src then (Inl (InvalidFormat (str ''backup missing MANIFEST'')), dest)
          else (case prepare_target (str ''restore target exists and is not empty'') dest of
            Inl e \<Rightarrow> (Inl e, dest)
          | Inr target \<Rightarrow> (case manifest_load src of
              Inl e \<Rightarrow> (Inl e, Some target)
            | Inr m \<Rightarrow>
                copy_files (filter (\<lambda>name. fs_exists name src) ([VERSION_FILE, MANIFEST_FILE, SCHEMA_FILE] @
                  map table_path (all_ids m))) src [] target)))"

section \<open>Inspection\<close>

definition table_count :: "database \<Rightarrow> nat" where
  "table_count db = length (all_ids (db_manifest db))"

definition level_count :: "database \<Rightarrow> nat" where
  "level_count db = length (mf_levels (db_manifest db))"

definition format_version :: "database \<Rightarrow> 32 word" where
  "format_version db = db_format_version db"

record manifest_view =
  ms_next_table_id :: nat
  ms_levels :: "nat list list"
  ms_segments :: "segment_meta list"
  ms_level_count :: nat

definition manifest_summary :: "database \<Rightarrow> manifest_view" where
  "manifest_summary db = \<lparr>ms_next_table_id = mf_next_table_id (db_manifest db), ms_levels = mf_levels (db_manifest db),
     ms_segments = map (\<lambda>s. \<lparr>sm_file_id = sm_file_id s, sm_min_key = sm_min_key s, sm_max_key = sm_max_key s,
       sm_records = sm_records s\<rparr>) (mf_segments (db_manifest db)),
     ms_level_count = length (mf_levels (db_manifest db))\<rparr>"

record table_view =
  tv_id :: nat
  tv_level :: nat
  tv_path :: bytes
  tv_num_records :: nat
  tv_key_bounds_hex :: bytes
  tv_size_bytes :: nat

text \<open>A table that cannot be opened is shown with no records and no bounds; a panic of the opening is not caught.\<close>

definition table_info :: "nat \<Rightarrow> nat \<Rightarrow> database \<Rightarrow> table_view result" where
  "table_info i level db =
     (let size = (case map_of (db_dir db) (table_path i) of None \<Rightarrow> 0 | Some f \<Rightarrow> length f);
          info = (\<lambda>n bounds. \<lparr>tv_id = i, tv_level = level, tv_path = table_path i, tv_num_records = n,
            tv_key_bounds_hex = bounds, tv_size_bytes = size\<rparr>) in
      case open_table i db of
        Inl (Panic m) \<Rightarrow> Inl (Panic m)
      | Inl _ \<Rightarrow> Inr (info 0 [])
      | Inr r \<Rightarrow> Inr (info (num_records r) (case key_bounds r of
          None \<Rightarrow> [] | Some (a, b) \<Rightarrow> hex_encode a @ str ''..'' @ hex_encode b)))"

definition table_infos :: "database \<Rightarrow> table_view list result" where
  "table_infos db =
     bindE (mapE (\<lambda>i. table_info i 0 db) (level0 (db_manifest db))) (\<lambda>l0.
     bindE (mapE (\<lambda>s. table_info (sm_file_id s) 1 db) (mf_segments (db_manifest db))) (\<lambda>l1.
       Inr (l0 @ l1)))"

definition wal_size :: "database \<Rightarrow> nat" where
  "wal_size db = length (wal_file (db_wal db))"

definition db_size :: "database \<Rightarrow> nat" where
  "db_size db = sum_list (map (length \<circ> snd) (disk db))"

definition options_view :: "database \<Rightarrow> db_options" where
  "options_view db = \<lparr>memtable_limit = memtable_limit (db_opts db),
     l0_compact_threshold = l0_compact_threshold (db_opts db),
     segment_max_records = segment_max_records (db_opts db)\<rparr>"

definition level_tables :: "nat \<Rightarrow> database \<Rightarrow> nat" where
  "level_tables level db =
     (if level = 1 then length (mf_segments (db_manifest db))
      else if level < length (mf_levels (db_manifest db)) then length (mf_levels (db_manifest db) ! level) else 0)"

definition segment_count :: "database \<Rightarrow> nat" where
  "segment_count db = length (mf_segments (db_manifest db))"

definition segments :: "database \<Rightarrow> segment_meta list" where
  "segments db = mf_segments (db_manifest db)"

definition table_ids :: "database \<Rightarrow> nat list" where
  "table_ids db = all_ids (db_manifest db)"

section \<open>Closing is durable\<close>

text \<open>A log that has been written out in full, with the memory it stands for.\<close>

lemma run_disk:
  assumes inv: "run_inv crc B opts db v (Some rs)" and "wal_buf (db_wal db) = []"
  shows "\<exists>db'. fst (open_with crc opts (disk db)) = Inr db' \<and> db_value db' = v \<and> db_ok B db'"
proof -
  have l: "logged crc rs db" and v: "db_value db = v" using inv by (simp_all add: run_inv_def)
  have d: "disk db = fs_write WAL_FILE (take (length (wal_log (db_wal db))) (wal_log (db_wal db))) (db_dir db)"
    using assms(2) by (simp add: disk_def wal_log_def)
  have "value_over db (take (whole_records crc (length (wal_log (db_wal db))) rs) rs) = v"
    using l v value_logged[OF l] by (simp add: logged_def whole_log)
  then show ?thesis
    using run_crashed[OF inv, of "length (wal_log (db_wal db))"] unfolding d run_inv_def by auto
qed

lemma run_flushed:
  assumes inv: "run_inv crc B opts db v (Some rs)" and "mem_room db"
    and "\<forall>db'. flush db = (Inr (), db') \<longrightarrow> mf_next_table_id (db_manifest db') < 2 ^ 64"
  obtains db' rs' where "flush db = (Inr (), db')" "run_inv crc B opts db' v (Some rs')" "mt_map (db_memtable db') = []"
    "reorganised B db db'"
proof -
  have i: "db_inv db" "db_fits B db" using inv by (simp_all add: run_inv_def db_ok_def)
  obtain db' where f: "flush db = (Inr (), db')" "reorganised B db db'" "mt_map (db_memtable db') = []"
    using flush_correct[OF i] assms(2) by (auto simp: mem_room_def)
  then have "run_inv crc B opts db' v (log_after (Some rs) [] db')"
    using run_reorganised[OF inv] assms(3) by blast
  moreover have "\<exists>rs'. log_after (Some rs) [] db' = Some rs'" by (simp add: log_after_def)
  ultimately show ?thesis using that f by auto
qed

lemma db_ok_saved:
  assumes "db_ok B db" and db'_def: "db' = db\<lparr>db_dir := manifest_save (db_manifest db) (db_dir db), db_closed := c\<rparr>"
  shows "db_ok B db'" and "db_value db' = db_value db"
proof -
  have lay: "db_layers db' = db_layers db" by (simp add: db'_def db_layers_def)
  then have e: "db_entry db' = db_entry db" by (simp add: fun_eq_iff db_entry_def)
  then show "db_value db' = db_value db" by (simp add: fun_eq_iff db_value_def)
  have "tables_inv (db_manifest db') (db_dir db')"
    using assms(1) by (simp add: db'_def tables_inv_def db_ok_def db_inv_def)
  moreover have "cache_inv (db_manifest db') (db_dir db') (db_cache db')"
    using assms(1) by (simp add: db'_def cache_inv_def db_ok_def db_inv_def)
  ultimately have "db_inv db'" using assms(1) by (simp add: db'_def db_inv_def db_ok_def)
  moreover have "version_readable (db_dir db')"
    using assms(1) version_readable_mono[of "db_dir db" "db_dir db'"]
    by (simp add: db_ok_def openable_def db'_def map_of_manifest_save fs_exists_def)
  moreover have "saved db'" by (simp add: saved_def db'_def map_of_manifest_save)
  ultimately show "db_ok B db'"
    using assms(1) lay e \<open>tables_inv (db_manifest db') (db_dir db')\<close>
    by (simp add: db_ok_def openable_def db_fits_def) (simp add: db'_def)
qed

lemma run_closed:
  assumes inv: "run_inv crc B opts db v (Some rs)" and "wal_buf (db_wal db) = []"
  shows "\<exists>db'. fst (open_with crc opts (disk (db\<lparr>db_dir := manifest_save (db_manifest db) (db_dir db), db_closed := c\<rparr>)))
       = Inr db' \<and> db_value db' = v"
proof -
  let ?db = "db\<lparr>db_dir := manifest_save (db_manifest db) (db_dir db), db_closed := c\<rparr>"
  have "db_ok B db" using inv by (simp add: run_inv_def)
  from db_ok_saved[OF this refl] have "run_inv crc B opts ?db v (Some rs)"
    using inv by (auto simp: run_inv_def logged_def)
  then show ?thesis using run_disk[of crc B opts ?db v rs] assms(2) by auto
qed

lemma run_inv_sync: "run_inv crc B opts db v l \<Longrightarrow> run_inv crc B opts (db\<lparr>db_wal := wal_sync (db_wal db)\<rparr>) v l"
  by (simp add: run_inv_def logged_def)

lemma synced_buf [simp]: "wal_buf (wal_sync w) = []"
  by (simp add: wal_sync_def wal_flush_def)

lemma run_inv_closed:
  assumes inv: "run_inv crc B opts db v (Some rs)" and "mem_room db" and "\<not> db_closed db"
    and "\<forall>db'. flush db = (Inr (), db') \<longrightarrow> mf_next_table_id (db_manifest db') < 2 ^ 64"
  shows "(\<exists>db' db''. db_close db = (Inr (), db') \<and> db_close db' = (Inr (), db') \<and> db_closed db' \<and>
       fst (open_with crc opts (disk db')) = Inr db'' \<and> db_value db'' = v) \<and>
     (\<exists>db''. fst (open_with crc opts (db_drop db)) = Inr db'' \<and> db_value db'' = v)"
proof -
  obtain db1 rs' where f: "flush db = (Inr (), db1)" "run_inv crc B opts db1 v (Some rs')"
    using run_flushed[OF inv assms(2,4)] by blast
  define db2 where "db2 = db1\<lparr>db_wal := wal_sync (db_wal db1)\<rparr>"
  have i2: "run_inv crc B opts db2 v (Some rs')" "wal_buf (db_wal db2) = []"
    using run_inv_sync[OF f(2)] by (simp_all add: db2_def)
  define db' where "db' = db2\<lparr>db_dir := manifest_save (db_manifest db2) (db_dir db2), db_closed := True\<rparr>"
  have "db_close db = (Inr (), db')"
    using f(1) assms(3) by (simp add: db_close_def bindS_def db_wal_sync_def on_wal_def db'_def db2_def)
  moreover have "db_close db' = (Inr (), db')" "db_closed db'" by (simp_all add: db_close_def db'_def)
  moreover have "db_drop db = disk db2"
    using f(1) assms(3) by (simp add: db_drop_def db_wal_sync_def on_wal_def db2_def)
  ultimately show ?thesis using run_closed[OF i2, of True] run_disk[OF i2] unfolding db'_def by metis
qed

text \<open>
  C25: Closing a reachable database succeeds, and the files it leaves open to the same map;
  dropping it without closing has the same effect. Closing twice does nothing.
\<close>

theorem close_durable:
  assumes "run crc B opts db v (Some rs)" and "opts_ok B opts" and "mem_room db" and "\<not> db_closed db"
    and "\<forall>db'. flush db = (Inr (), db') \<longrightarrow> mf_next_table_id (db_manifest db') < 2 ^ 64"
  shows "(\<exists>db' db''. db_close db = (Inr (), db') \<and> db_close db' = (Inr (), db') \<and>
       fst (open_with crc opts (disk db')) = Inr db'' \<and> db_value db'' = v) \<and>
     (\<exists>db''. fst (open_with crc opts (db_drop db)) = Inr db'' \<and> db_value db'' = v)"
  using run_inv_closed[OF run_invariant[OF assms(1,2)] assms(3-5)] by blast

theorem close_durable_witness:
  "\<exists>db' db''. db_close sample_db = (Inr (), db') \<and> fst (open_with (\<lambda>_. 0) default_options (disk db')) = Inr db'' \<and>
     db_value db'' = [str ''a'' \<mapsto> str ''1'']"
proof -
  have "mem_room sample_db" "\<not> db_closed sample_db"
    using sample_memory by (simp_all add: mem_room_def table_size_def item_size_def entry_len_def str_def
        sample_db_eq written_def fresh_db_def)
  moreover have "\<forall>db'. flush sample_db = (Inr (), db') \<longrightarrow> mf_next_table_id (db_manifest db') < 2 ^ 64"
    using sample_flush by (simp add: flushed_simps sample_db_eq written_def fresh_db_def manifest_new_def)
  ultimately show ?thesis using close_durable[OF sample_run sample_opts] by blast
qed

section \<open>Garbage collection removes orphans only\<close>

lemma manifest_tmp_other [simp]: "MANIFEST_FILE \<noteq> manifest_tmp"
  by (simp add: MANIFEST_FILE_def manifest_tmp_def str_def)

definition orphan :: "nat set \<Rightarrow> bytes \<Rightarrow> bool" where
  "orphan referenced name \<longleftrightarrow> (case table_name_id name of None \<Rightarrow> False | Some i \<Rightarrow> i \<notin> referenced)"

lemma gc_loop_spec:
  "gc_loop R names (n, d) = (n + length (filter (orphan R) names), snd (gc_loop R names (n, d))) \<and>
   map_of (snd (gc_loop R names (n, d))) =
     (\<lambda>name. if name \<in> set names \<and> orphan R name then None else map_of d name)"
proof (induction names arbitrary: n d)
  case Nil
  then show ?case by simp
next
  case (Cons a names)
  show ?case
  proof (cases "orphan R a")
    case True
    then obtain i where i: "table_name_id a = Some i" "i \<notin> R" by (auto simp: orphan_def split: option.splits)
    then show ?thesis using Cons[of "n + 1" "fs_remove a d"] True by (auto simp: fun_eq_iff)
  next
    case False
    then have "gc_loop R (a # names) (n, d) = gc_loop R names (n, d)"
      by (auto simp: orphan_def split: option.split)
    then show ?thesis using Cons[of n d] False by (auto simp: fun_eq_iff)
  qed
qed

lemma table_name_id_path: "table_name_id (table_path i) = Some j \<Longrightarrow> j = i"
proof -
  let ?p = "replicate (6 - length (dec i)) 48 @ dec i"
  assume a: "table_name_id (table_path i) = Some j"
  then have "length (table_path i) = 10" by (simp add: table_name_id_def split: if_splits)
  then have "length ?p = 6" by (simp add: table_path_def str_def)
  then have "take 6 (table_path i) = ?p" by (simp add: table_path_def)
  moreover have "parse_digits 0 ?p = Some i" by (simp add: digits_zero parse_digits_dec)
  ultimately show "j = i" using a by (simp add: table_name_id_def split: if_splits)
qed

lemma table_name_id_small:
  assumes "length (dec i) \<le> 6"
  shows "table_name_id (table_path i) = Some i"
proof -
  let ?p = "replicate (6 - length (dec i)) 48 @ dec i"
  have l: "length ?p = 6" using assms by simp
  then have t: "take 6 (table_path i) = ?p" "drop 6 (table_path i) = str ''.sst''" by (simp_all add: table_path_def)
  moreover have "length (table_path i) = 10" using l by (simp add: table_path_def str_def)
  moreover have "\<forall>b \<in> set ?p. is_digit b" using dec_digits by (auto simp: is_digit_def)
  moreover have "parse_digits 0 ?p = Some i" by (simp add: digits_zero parse_digits_dec)
  ultimately show ?thesis by (simp add: table_name_id_def)
qed

lemma orphan_names [simp]:
  "i \<in> R \<Longrightarrow> \<not> orphan R (table_path i)" "\<not> orphan R MANIFEST_FILE" "\<not> orphan R VERSION_FILE"
  "\<not> orphan R SCHEMA_FILE" "\<not> orphan R WAL_FILE"
proof -
  show "i \<in> R \<Longrightarrow> \<not> orphan R (table_path i)"
    using table_name_id_path by (auto simp: orphan_def split: option.split)
qed (simp_all add: orphan_def table_name_id_def MANIFEST_FILE_def VERSION_FILE_def SCHEMA_FILE_def WAL_FILE_def str_def)

lemma gc_files:
  assumes "gc db = (r, db')"
  shows "r = Inr (length (filter (orphan (set (all_ids (db_manifest db)))) (map fst (db_dir db)))) \<and>
     map_of (db_dir db') name = (if orphan (set (all_ids (db_manifest db))) name \<or> name = manifest_tmp then None
       else map_of (db_dir db) name) \<and>
     (\<exists>d c. db' = db\<lparr>db_dir := d, db_cache := c\<rparr> \<and> (\<forall>i x. c i = Some x \<longrightarrow> db_cache db i = Some x))"
proof -
  let ?R = "set (all_ids (db_manifest db))"
  let ?g = "gc_loop ?R (map fst (db_dir db)) (0, db_dir db)"
  define d where "d = (if fs_exists manifest_tmp (snd ?g) then fs_remove manifest_tmp (snd ?g) else snd ?g)"
  have g: "?g = (length (filter (orphan ?R) (map fst (db_dir db))), snd ?g)"
    "map_of (snd ?g) = (\<lambda>name. if name \<in> set (map fst (db_dir db)) \<and> orphan ?R name then None else map_of (db_dir db) name)"
    using gc_loop_spec[of ?R "map fst (db_dir db)" 0 "db_dir db"] by simp_all
  have m: "map_of (snd ?g) name = (if orphan ?R name then None else map_of (db_dir db) name)" for name
    unfolding g(2) by (auto simp: map_of_eq_None_iff)
  have "map_of d name = (if orphan ?R name \<or> name = manifest_tmp then None else map_of (db_dir db) name)"
    using m[of name] m[of manifest_tmp] by (auto simp: d_def fs_exists_def split: if_splits)
  moreover have "gc db = (Inr (length (filter (orphan ?R) (map fst (db_dir db)))),
      db\<lparr>db_dir := d, db_cache := (\<lambda>i. if i \<in> ?R then db_cache db i else None)\<rparr>)"
    unfolding gc_def Let_def by (subst g(1)) (simp add: d_def)
  then have "r = Inr (length (filter (orphan ?R) (map fst (db_dir db))))"
    and "db' = db\<lparr>db_dir := d, db_cache := (\<lambda>i. if i \<in> ?R then db_cache db i else None)\<rparr>"
    using assms by simp_all
  moreover have "\<forall>i x. (if i \<in> ?R then db_cache db i else None) = Some x \<longrightarrow> db_cache db i = Some x"
    by (simp split: if_split)
  ultimately show ?thesis by (intro conjI exI[of _ d] exI) simp_all
qed

lemma gc_keeps:
  assumes "db_ok B db" and "gc db = (r, db')"
  shows "r = Inr (length (filter (orphan (set (all_ids (db_manifest db)))) (map fst (db_dir db)))) \<and>
     map_of (db_dir db') name = (if orphan (set (all_ids (db_manifest db))) name \<or> name = manifest_tmp then None
       else map_of (db_dir db) name) \<and>
     db_ok B db' \<and> db_value db' = db_value db"
proof -
  let ?m = "db_manifest db" and ?R = "set (all_ids (db_manifest db))"
  have files: "map_of (db_dir db') name = (if orphan ?R name \<or> name = manifest_tmp then None else map_of (db_dir db) name)" for name
    using gc_files[OF assms(2)] by blast
  obtain d c where db': "db' = db\<lparr>db_dir := d, db_cache := c\<rparr>" and c: "\<And>i x. c i = Some x \<Longrightarrow> db_cache db i = Some x"
    using gc_files[OF assms(2)] by blast
  have ti: "tables_inv ?m (db_dir db)" using assms(1) by (simp add: db_ok_def db_inv_def)
  have path: "map_of d (table_path i) = map_of (db_dir db) (table_path i)" if "i \<in> ?R" for i
    using files[of "table_path i"] that by (simp add: db')
  note fr = file_records_cong[OF path] and at = table_at_cong[OF path]
  have sg: "segment_at d s" if "s \<in> set (mf_segments ?m)" for s
    using ti that fr[of "sm_file_id s"] by (simp add: tables_inv_def segment_at_def all_ids_def)
  have tid: "tables_inv ?m d" using ti at sg by (simp add: tables_inv_def)
  have order: "map (file_records d) (table_order ?m) = map (file_records (db_dir db)) (table_order ?m)"
    using fr all_ids_order[OF ti] by simp
  have lay: "db_layers db' = db_layers db" using order by (simp add: db_layers_def db')
  then have e: "db_entry db' = db_entry db" by (simp add: fun_eq_iff db_entry_def)
  have "cache_inv ?m d c" using assms(1) c fr unfolding cache_inv_def db_ok_def db_inv_def by metis
  then have inv: "db_inv db'" using tid assms(1) by (simp add: db' db_inv_def db_ok_def)
  have mv: "map_of d MANIFEST_FILE = map_of (db_dir db) MANIFEST_FILE" "map_of d VERSION_FILE = map_of (db_dir db) VERSION_FILE"
    using files[of MANIFEST_FILE] files[of VERSION_FILE] by (simp_all add: db')
  have "version_readable d"
    using assms(1) mv version_readable_cong[OF mv(2,1)] by (simp add: db_ok_def openable_def)
  moreover have "layers (map (file_records d) (table_order ?m)) [] = None"
    unfolding order using assms(1) by (simp add: db_ok_def openable_def)
  moreover have "saved db'" using assms(1) mv(1) by (simp add: db' db_ok_def openable_def saved_def)
  moreover have "db_fits B db'" using assms(1) lay by (simp add: db_ok_def db_fits_def) (simp add: db')
  ultimately have "db_ok B db'"
    using assms(1) inv e tid by (simp add: db_ok_def openable_def) (simp add: db')
  moreover have "db_value db' = db_value db" by (simp add: fun_eq_iff db_value_def e)
  ultimately show ?thesis using files gc_files[OF assms(2)] by blast
qed

text \<open>
  C24: The collection removes exactly the files named like tables whose id the manifest does not
  hold, and the manifest's temporary file; it counts the former. Every referenced table and every other
  file stays, so the invariant and the map are unchanged, and the files still open to it.
\<close>

theorem gc_only_orphans:
  assumes "db_ok B db" and "gc db = (r, db')"
  shows "r = Inr (length (filter (orphan (set (all_ids (db_manifest db)))) (map fst (db_dir db)))) \<and>
     map_of (db_dir db') name = (if orphan (set (all_ids (db_manifest db))) name \<or> name = manifest_tmp then None
       else map_of (db_dir db) name) \<and>
     db_ok B db' \<and> db_value db' = db_value db"
  using assms by (rule gc_keeps)

lemma sample_ok: "db_ok 1000 sample_flushed"
  using run_invariant[OF sample_flushed_run sample_opts] by (simp add: run_inv_def)

lemma sample_value: "db_value sample_flushed = [str ''a'' \<mapsto> str ''1'']"
  using run_invariant[OF sample_flushed_run sample_opts] by (simp add: run_inv_def)

theorem gc_only_orphans_witness:
  "\<exists>r db'. gc sample_flushed = (r, db') \<and> map_of (db_dir db') (table_path 1) = map_of (db_dir sample_flushed) (table_path 1) \<and>
     map_of (db_dir db') (table_path 7) = None \<and> db_value db' = [str ''a'' \<mapsto> str ''1'']"
proof -
  obtain r db' where g: "gc sample_flushed = (r, db')" by fastforce
  have ids: "all_ids (db_manifest sample_flushed) = [1]"
  proof -
    have "db_manifest sample_flushed = \<lparr>mf_levels = [[1]], mf_segments = [], mf_next_table_id = 2\<rparr>"
      unfolding sample_flushed_def sample_flush snd_conv flushed_simps
      by (simp add: sample_db_eq written_def fresh_db_def level0_def set_level0_def manifest_new_def)
    then show ?thesis by (simp add: all_ids_def)
  qed
  have "table_name_id (table_path 7) = Some 7"
    by (rule table_name_id_small) (simp add: dec.simps[of 7])
  then have "orphan (set (all_ids (db_manifest sample_flushed))) (table_path 7)" by (simp add: orphan_def ids)
  then show ?thesis
    using gc_only_orphans[OF sample_ok g, of "table_path 1"] gc_only_orphans[OF sample_ok g, of "table_path 7"] g
    by (simp add: ids sample_value)
qed

section \<open>A backup restores to the same map\<close>

lemma copy_files_ok:
  "\<forall>name \<in> set names. map_of src name \<noteq> None \<Longrightarrow>
     \<exists>d. copy_files names src copied dest = (Inr (length copied + length names), Some d) \<and>
       map_of d = (\<lambda>name. if name \<in> set names then map_of src name else map_of dest name)"
proof (induction names arbitrary: copied dest)
  case (Cons n names)
  then obtain c where c: "map_of src n = Some c" by auto
  show ?case
    using Cons.IH[of "copied @ [n]" "fs_write n c dest"] Cons.prems c by (auto simp: fun_eq_iff)
qed simp

lemma pad_all_ids [simp]: "all_ids (pad_levels m) = all_ids m"
  by (simp add: pad_levels_def all_ids_def)

definition root_files :: "dir \<Rightarrow> nat list \<Rightarrow> bytes list" where
  "root_files d ids = filter (\<lambda>name. fs_exists name d) [VERSION_FILE, MANIFEST_FILE, SCHEMA_FILE] @ map table_path ids"

lemma root_files_names [simp]: "WAL_FILE \<notin> set (root_files d ids)"
proof -
  have "WAL_FILE \<noteq> SCHEMA_FILE" by (simp add: WAL_FILE_def SCHEMA_FILE_def str_def)
  then show ?thesis by (auto simp: root_files_def)
qed

lemma copied_store:
  assumes "openable db" and "map_of b = (\<lambda>name. if name \<in> set (root_files (db_dir db) (all_ids (db_manifest db)))
    then map_of (db_dir db) name else None)"
  shows "same_store db b" and "root_files b (all_ids (db_manifest db)) = root_files (db_dir db) (all_ids (db_manifest db))"
    and "\<forall>name \<in> set (root_files (db_dir db) (all_ids (db_manifest db))). map_of (db_dir db) name \<noteq> None"
proof -
  have at: "map_of (db_dir db) (table_path i) \<noteq> None" if "i \<in> set (all_ids (db_manifest db))" for i
    using assms(1) that by (auto simp: openable_def tables_inv_def table_at_def)
  show "\<forall>name \<in> set (root_files (db_dir db) (all_ids (db_manifest db))). map_of (db_dir db) name \<noteq> None"
    using at by (auto simp: root_files_def fs_exists_def)
  have n: "map_of b name = map_of (db_dir db) name" if "name \<in> {VERSION_FILE, MANIFEST_FILE, SCHEMA_FILE}" for name
    using that unfolding assms(2) by (auto simp: root_files_def fs_exists_def)
  have t: "map_of b (table_path i) = map_of (db_dir db) (table_path i)" if "i \<in> set (all_ids (db_manifest db))" for i
    using that unfolding assms(2) by (simp add: root_files_def)
  show "same_store db b" using n t by (simp add: same_store_def)
  show "root_files b (all_ids (db_manifest db)) = root_files (db_dir db) (all_ids (db_manifest db))"
    using n by (simp add: root_files_def fs_exists_def)
qed

lemma restore_copy:
  assumes "openable db" and "same_store db b" and "fs_exists MANIFEST_FILE b"
    and ex: "\<forall>name \<in> set (root_files b (all_ids (db_manifest db))). map_of b name \<noteq> None"
  shows "\<exists>d. restore b None = (Inr (length (root_files b (all_ids (db_manifest db)))), Some d) \<and>
     map_of d = (\<lambda>name. if name \<in> set (root_files b (all_ids (db_manifest db))) then map_of b name else None)"
proof -
  have ti: "tables_inv (db_manifest db) (db_dir db)" using assms(1) by (simp add: openable_def)
  obtain m where m: "manifest_load b = Inr m" "same_tables (db_manifest db) (pad_levels m)"
    using load_openable[OF assms(1), of b] assms(2) by (auto simp: same_store_def)
  have ids: "all_ids m = all_ids (db_manifest db)" using same_tables_ids[OF ti m(2)] by simp
  have "version_readable b"
    using assms(1,2) version_readable_cong[of b "db_dir db"] by (simp add: openable_def same_store_def)
  then have v: "bindE (read_version b) (\<lambda>v. case v of Some v \<Rightarrow> check_compatible v | None \<Rightarrow> Inr ()) = Inr ()"
    by (auto simp: version_readable_def)
  have all: "filter (\<lambda>name. fs_exists name b) ([VERSION_FILE, MANIFEST_FILE, SCHEMA_FILE] @ map table_path (all_ids m)) =
      root_files b (all_ids (db_manifest db))"
  proof -
    have "\<forall>name \<in> set (map table_path (all_ids (db_manifest db))). fs_exists name b"
      using ex unfolding root_files_def set_append fs_exists_def by blast
    then show ?thesis unfolding root_files_def ids filter_append by (simp only: filter_True)
  qed
  have "restore b None = copy_files (root_files b (all_ids (db_manifest db))) b [] []"
    unfolding restore_def v prepare_target_def m(1) sum.case option.case all using assms(3) by simp
  then show ?thesis using copy_files_ok[OF ex, of "[]" "[]"] by (simp only: list.size(3) add_0_left map_of.simps(1)) 
qed

lemma reopened_copy:
  assumes op: "openable db" and mem: "mt_map (db_memtable db) = []" and st: "same_store db d"
    and "map_of d WAL_FILE = None"
  shows "\<exists>db'. fst (open_with crc opts d) = Inr db' \<and> db_value db' = db_value db"
proof -
  have "replay crc (log_file d) = recovered []" using assms(4) by (simp add: log_file_def)
  from open_openable[OF op st this, of opts] obtain db' where
    d: "fst (open_with crc opts d) = Inr db'" "reopened db [] db'" by blast
  have "value_over db [] = db_value db"
    using mem by (simp add: fun_eq_iff value_over_def value_layers)
  then show ?thesis using d reopened_value[OF d(2)] by auto
qed

text \<open>What a backup of a database with an empty memory copies, and what a restore makes of it.\<close>

lemma backup_copies:
  assumes "openable db1" and "flush db = (Inr (), db1)"
  obtains b where "backup None db = (Inr (length (root_files (db_dir db1) (all_ids (db_manifest db1)))), db1, Some b)"
    "map_of b = (\<lambda>name. if name \<in> set (root_files (db_dir db1) (all_ids (db_manifest db1)))
       then map_of (db_dir db1) name else None)"
proof -
  let ?files = "root_files (db_dir db1) (all_ids (db_manifest db1))"
  have "\<forall>name \<in> set ?files. map_of (db_dir db1) name \<noteq> None"
    using assms(1) by (auto simp: root_files_def fs_exists_def openable_def tables_inv_def table_at_def)
  from copy_files_ok[OF this, of "[]" "[]"] obtain b where
    b: "copy_files ?files (db_dir db1) [] [] = (Inr (length ?files), Some b)"
       "map_of b = (\<lambda>name. if name \<in> set ?files then map_of (db_dir db1) name else None)"
    by (auto simp: fun_eq_iff)
  have "backup None db = (Inr (length ?files), db1, Some b)"
    unfolding backup_def root_files_def[symmetric] assms(2) prepare_target_def by (simp add: b(1))
  then show thesis using that b(2) by blast
qed

lemma restore_reopens:
  assumes op: "openable db" and mem: "mt_map (db_memtable db) = []" and ex: "fs_exists MANIFEST_FILE b"
    and b: "map_of b = (\<lambda>name. if name \<in> set (root_files (db_dir db) (all_ids (db_manifest db))) then map_of (db_dir db) name else None)"
  shows "\<exists>d db2. restore b None = (Inr (length (root_files (db_dir db) (all_ids (db_manifest db)))), Some d) \<and>
     fst (open_with crc opts d) = Inr db2 \<and> db_value db2 = db_value db \<and> map_of d SCHEMA_FILE = map_of (db_dir db) SCHEMA_FILE"
proof -
  let ?files = "root_files (db_dir db) (all_ids (db_manifest db))"
  note cs = copied_store[OF op b]
  have "\<forall>name \<in> set (root_files b (all_ids (db_manifest db))). map_of b name \<noteq> None"
    unfolding cs(2) using cs(3) b by simp
  from restore_copy[OF op cs(1) ex this] obtain d where
    d: "restore b None = (Inr (length ?files), Some d)"
       "map_of d = (\<lambda>name. if name \<in> set ?files then map_of b name else None)"
    unfolding cs(2) by blast
  then have md: "map_of d = map_of b" using b by (auto simp: fun_eq_iff)
  then have "same_store db d" using cs(1) by (simp add: same_store_def)
  moreover have "map_of d WAL_FILE = None" by (simp add: d(2))
  moreover have "map_of d SCHEMA_FILE = map_of (db_dir db) SCHEMA_FILE"
    unfolding md b by (auto simp: root_files_def fs_exists_def)
  ultimately show ?thesis using reopened_copy[OF op mem, of d crc opts] d(1) by blast
qed

lemma restore_unwritten:
  assumes op: "openable db" and "mt_map (db_memtable db) = []" and ex: "\<not> fs_exists MANIFEST_FILE b" and st: "same_store db b"
  shows "restore b None = (Inl (InvalidFormat (str ''backup missing MANIFEST'')), None) \<and> db_value db = (\<lambda>_. None)"
proof -
  have "map_of (db_dir db) MANIFEST_FILE = None" using ex st by (simp add: same_store_def fs_exists_def)
  then have "db_manifest db = manifest_new\<lparr>mf_levels := [[]]\<rparr>" using op by (simp add: openable_def saved_def)
  then have "db_value db = (\<lambda>_. None)"
    using assms(2) by (simp add: fun_eq_iff value_layers table_order_def level0_def manifest_new_def)
  moreover have "version_readable b"
    using op st version_readable_cong[of b "db_dir db"] by (simp add: openable_def same_store_def)
  then have "restore b None = (Inl (InvalidFormat (str ''backup missing MANIFEST'')), None)"
    using ex by (auto simp: restore_def version_readable_def)
  ultimately show ?thesis by blast
qed

text \<open>
  C22: A backup of a reachable database into a new directory succeeds and leaves the map as it
  was. When it holds a manifest, restoring it into a new directory copies the same number of files and the
  result opens to the same map, with the tables, the version and the schema but no log. The backup of a
  database that never wrote a table holds no manifest: it is reported as a success, and restoring it is
  refused.
\<close>

theorem backup_restores:
  assumes "run crc B opts db v (Some rs)" and "opts_ok B opts" and "mem_room db"
    and "\<forall>db'. flush db = (Inr (), db') \<longrightarrow> mf_next_table_id (db_manifest db') < 2 ^ 64"
  shows "\<exists>n db1 b. backup None db = (Inr n, db1, Some b) \<and> db_value db1 = v \<and>
     (if fs_exists MANIFEST_FILE b
      then \<exists>d db2. restore b None = (Inr n, Some d) \<and> fst (open_with crc opts d) = Inr db2 \<and> db_value db2 = v \<and>
        map_of d SCHEMA_FILE = map_of (db_dir db) SCHEMA_FILE
      else restore b None = (Inl (InvalidFormat (str ''backup missing MANIFEST'')), None) \<and> v = (\<lambda>_. None))"
proof -
  have inv: "run_inv crc B opts db v (Some rs)" using assms(1,2) by (rule run_invariant)
  obtain db1 rs' where f: "flush db = (Inr (), db1)" "run_inv crc B opts db1 v (Some rs')" "mt_map (db_memtable db1) = []"
      "reorganised B db db1"
    using run_flushed[OF inv assms(3,4)] .
  have op: "openable db1" and v: "db_value db1 = v" using f(2) by (simp_all add: run_inv_def db_ok_def)
  have schema: "map_of (db_dir db1) SCHEMA_FILE = map_of (db_dir db) SCHEMA_FILE"
    using f(4) by (simp add: reorganised_def other_files_def)
  obtain b where b: "backup None db = (Inr (length (root_files (db_dir db1) (all_ids (db_manifest db1)))), db1, Some b)"
      "map_of b = (\<lambda>name. if name \<in> set (root_files (db_dir db1) (all_ids (db_manifest db1)))
         then map_of (db_dir db1) name else None)"
    using backup_copies[OF op f(1)] .
  show ?thesis
  proof (cases "fs_exists MANIFEST_FILE b")
    case True
    then show ?thesis using restore_reopens[OF op f(3) True b(2), of crc opts] b(1) v schema by auto
  next
    case False
    then show ?thesis using restore_unwritten[OF op f(3) False copied_store(1)[OF op b(2)]] b(1) v by auto
  qed
qed

theorem backup_restores_witness:
  "\<exists>n db1 b. backup None sample_flushed = (Inr n, db1, Some b) \<and> db_value db1 = [str ''a'' \<mapsto> str ''1''] \<and>
     (\<exists>d db2. restore b None = (Inr n, Some d) \<and> fst (open_with (\<lambda>_. 0) default_options d) = Inr db2 \<and>
        db_value db2 = [str ''a'' \<mapsto> str ''1''])"
proof -
  have e: "mt_is_empty (db_memtable sample_flushed)"
    by (simp add: sample_flushed_def sample_flush flushed_simps mt_is_empty_def memtable_new_def)
  then have fl: "flush sample_flushed = (Inr (), sample_flushed)" by (simp add: flush_def)
  have "mem_room sample_flushed" using e by (simp add: mem_room_def mt_is_empty_def table_size_def)
  moreover have "\<forall>db'. flush sample_flushed = (Inr (), db') \<longrightarrow> mf_next_table_id (db_manifest db') < 2 ^ 64"
    using fl sample_ok by (simp add: db_ok_def openable_def manifest_fits_def)
  moreover have "[str ''a'' \<mapsto> str ''1''] \<noteq> (\<lambda>_. None)" by (metis map_upd_nonempty)
  ultimately show ?thesis
    using backup_restores[OF sample_flushed_run sample_opts] by (auto split: if_splits)
qed

end
