(* ===== verification/Entities.thy ===== *)
theory Entities
  imports Entity Maintenance
begin

text \<open>
  The store of entities (\<^verbatim>\<open>EntityStore\<close> and \<^verbatim>\<open>CollectionHandle\<close> of \<^verbatim>\<open>src/entity.rs\<close>): the engine, the registry kept
  in the file SCHEMA beside it, and the hints of the fields an entity has.
\<close>

record entity_store =
  es_db :: database
  es_schema :: schema
  es_hint :: hints

text \<open>Operations of the engine, and of the core on engine, registry and hints, as operations of the store.\<close>

definition on_db :: "(database, error, 'a) op \<Rightarrow> (entity_store, error, 'a) op" where
  "on_db f es = (case f (es_db es) of (r, db) \<Rightarrow> (r, es\<lparr>es_db := db\<rparr>))"

definition on_core :: "(schema \<times> hints option \<times> database, error, 'a) op \<Rightarrow> (entity_store, error, 'a) op" where
  "on_core f es = (case f (es_schema es, Some (es_hint es), es_db es) of
     (r, schema, hint, db) \<Rightarrow> (r, \<lparr>es_db = db, es_schema = schema, es_hint = unwrap_or (es_hint es) hint\<rparr>))"

definition save_schema :: "(entity_store, error, unit) op" where
  "save_schema es = (case schema_save SCHEMA_FILE (es_schema es) (db_dir (es_db es)) of
     (schema, d) \<Rightarrow> (Inr (), es\<lparr>es_schema := schema, es_db := (es_db es)\<lparr>db_dir := d\<rparr>\<rparr>))"

definition persist_schema :: "(entity_store, error, unit) op" where
  "persist_schema es = (if is_changed (es_schema es) then save_schema es else (Inr (), es))"

section \<open>Indexes\<close>

definition es_create_index :: "(bytes \<Rightarrow> 32 word) \<Rightarrow> 32 word \<Rightarrow> 32 word \<Rightarrow> (entity_store, error, unit) op" where
  "es_create_index crc c f es = (case create_index c f (es_schema es) of (i, schema) \<Rightarrow>
     bindS save_schema (\<lambda>_.
     bindS (on_db (index_rebuild crc c f)) (\<lambda>_.
     bindS (modS (\<lambda>es. es\<lparr>es_schema := set_index_ready i (es_schema es)\<rparr>)) (\<lambda>_.
     save_schema))) (es\<lparr>es_schema := schema\<rparr>))"

definition es_create_composite_index :: "(bytes \<Rightarrow> 32 word) \<Rightarrow> 32 word \<Rightarrow> 32 word list \<Rightarrow> (entity_store, error, unit) op" where
  "es_create_composite_index crc c fids es = (case create_composite_index c fids (es_schema es) of (i, schema) \<Rightarrow>
     bindS save_schema (\<lambda>_.
     bindS (on_db (rebuild_composite crc c i fids)) (\<lambda>_.
     bindS (modS (\<lambda>es. es\<lparr>es_schema := set_index_ready i (es_schema es)\<rparr>)) (\<lambda>_.
     save_schema))) (es\<lparr>es_schema := schema\<rparr>))"

definition es_drop_index :: "(bytes \<Rightarrow> 32 word) \<Rightarrow> 32 word \<Rightarrow> 32 word \<Rightarrow> (entity_store, error, unit) op" where
  "es_drop_index crc c f es = (case find_index c f (es_schema es) of
     None \<Rightarrow> (Inr (), es)
   | Some d \<Rightarrow>
       bindS (on_db (index_clear crc c f)) (\<lambda>_.
       bindS (modS (\<lambda>es. es\<lparr>es_schema := drop_index (ix_id d) (es_schema es)\<rparr>)) (\<lambda>_. save_schema)) es)"

definition es_drop_composite_index :: "(bytes \<Rightarrow> 32 word) \<Rightarrow> 32 word \<Rightarrow> 32 word list \<Rightarrow> (entity_store, error, unit) op" where
  "es_drop_composite_index crc c fids es = (case find_index_by_fields c fids (es_schema es) of
     None \<Rightarrow> (Inr (), es)
   | Some d \<Rightarrow>
       bindS (on_db (clear_composite crc c (ix_id d))) (\<lambda>_.
       bindS (modS (\<lambda>es. es\<lparr>es_schema := drop_index (ix_id d) (es_schema es)\<rparr>)) (\<lambda>_. save_schema)) es)"

text \<open>After an open, every index whose build was not finished is built anew.\<close>

definition recover_indexes :: "(bytes \<Rightarrow> 32 word) \<Rightarrow> (entity_store, error, unit) op" where
  "recover_indexes crc es = forS (map (\<lambda>i. (ix_collection_id i, ix_field_ids i)) (building_indexes (es_schema es)))
     (\<lambda>(c, fids). if length fids = 1 then es_create_index crc c (fids ! 0) else es_create_composite_index crc c fids) es"

section \<open>Opening and closing\<close>

text \<open>A store whose open fails drops the engine it had opened.\<close>

definition es_open_with :: "(bytes \<Rightarrow> 32 word) \<Rightarrow> db_options \<Rightarrow> (dir, error, entity_store) op" where
  "es_open_with crc opts = bindS (open_with crc opts) (\<lambda>db _.
     case schema_load SCHEMA_FILE (db_dir db) of
       Inl e \<Rightarrow> (Inl e, db_drop db)
     | Inr schema \<Rightarrow>
         (case recover_indexes crc \<lparr>es_db = db, es_schema = schema, es_hint = (\<lambda>_. None)\<rparr> of
            (Inl e, es) \<Rightarrow> (Inl e, db_drop (es_db es))
          | (Inr _, es) \<Rightarrow> (Inr es, disk (es_db es))))"

definition es_open :: "(bytes \<Rightarrow> 32 word) \<Rightarrow> (dir, error, entity_store) op" where
  "es_open crc = es_open_with crc default_options"

definition es_close :: "(entity_store, error, unit) op" where
  "es_close = bindS persist_schema (\<lambda>_. on_db db_close)"

definition es_flush :: "(entity_store, error, unit) op" where
  "es_flush = on_db flush"

definition es_format_version :: "entity_store \<Rightarrow> 32 word" where
  "es_format_version es = format_version (es_db es)"

definition es_backup :: "dir option \<Rightarrow> entity_store \<Rightarrow> nat result \<times> entity_store \<times> dir option" where
  "es_backup dest es = (case backup dest (es_db es) of (r, db, dest) \<Rightarrow> (r, es\<lparr>es_db := db\<rparr>, dest))"

definition es_restore :: "dir \<Rightarrow> dir option \<Rightarrow> nat result \<times> dir option" where
  "es_restore src dest = restore src dest"

section \<open>Entities\<close>

definition es_collection :: "bytes \<Rightarrow> (entity_store, error, 32 word) op" where
  "es_collection name es = (case collection_id name (es_schema es) of (c, schema) \<Rightarrow>
     bindS persist_schema (\<lambda>_. retS c) (es\<lparr>es_schema := schema\<rparr>))"

definition es_put_entity :: "(bytes \<Rightarrow> 32 word) \<Rightarrow> 32 word \<Rightarrow> bytes \<Rightarrow> entity \<Rightarrow> (entity_store, error, unit) op" where
  "es_put_entity crc c eid e = bindS (on_core (core_put_entity (direct_mutator crc) c eid e)) (\<lambda>_. persist_schema)"

definition es_cas_update :: "(val \<Rightarrow> bytes) \<Rightarrow> (bytes \<Rightarrow> 32 word) \<Rightarrow> bytes \<Rightarrow> bytes \<Rightarrow> expected \<Rightarrow> patch list \<Rightarrow>
    (entity_store, error, entity) op" where
  "es_cas_update shown crc name eid ex ps es = (case collection_id name (es_schema es) of (c, schema) \<Rightarrow>
     bindS (on_core (core_cas_entity shown (direct_mutator crc) c eid ex ps)) (\<lambda>e.
     bindS persist_schema (\<lambda>_. retS e)) (es\<lparr>es_schema := schema\<rparr>))"

definition es_get_entity :: "(bytes \<Rightarrow> 32 word) \<Rightarrow> 32 word \<Rightarrow> bytes \<Rightarrow> (entity_store, error, entity option) op" where
  "es_get_entity crc c eid es = on_db (core_get_entity (es_schema es) (direct_mutator crc) c eid) es"

definition es_delete_entity :: "(bytes \<Rightarrow> 32 word) \<Rightarrow> 32 word \<Rightarrow> bytes \<Rightarrow> (entity_store, error, unit) op" where
  "es_delete_entity crc c eid es = bindS (on_db (core_delete_entity (es_schema es) (direct_mutator crc) c eid)) (\<lambda>_.
     modS (\<lambda>es. es\<lparr>es_hint := (es_hint es)((c, eid) := None)\<rparr>)) es"

definition es_scan_collection :: "(bytes \<Rightarrow> 32 word) \<Rightarrow> bytes \<Rightarrow> (entity_store, error, (bytes \<times> entity) list) op" where
  "es_scan_collection crc name es = (case lookup_collection_id name (es_schema es) of
     None \<Rightarrow> (Inr [], es)
   | Some c \<Rightarrow> on_db (core_scan_collection (es_schema es) (direct_mutator crc) c) es)"

section \<open>The handle of a collection\<close>

definition col_create_index :: "(bytes \<Rightarrow> 32 word) \<Rightarrow> 32 word \<Rightarrow> bytes \<Rightarrow> (entity_store, error, unit) op" where
  "col_create_index crc c name es = (case field_id c name (es_schema es) of (f, schema) \<Rightarrow>
     es_create_index crc c f (es\<lparr>es_schema := schema\<rparr>))"

definition col_drop_index :: "(bytes \<Rightarrow> 32 word) \<Rightarrow> 32 word \<Rightarrow> bytes \<Rightarrow> (entity_store, error, unit) op" where
  "col_drop_index crc c name es = (case lookup_field_id c name (es_schema es) of
     None \<Rightarrow> (Inr (), es)
   | Some f \<Rightarrow> es_drop_index crc c f es)"

fun field_ids_of :: "32 word \<Rightarrow> bytes list \<Rightarrow> schema \<Rightarrow> 32 word list \<times> schema" where
  "field_ids_of c [] s = ([], s)"
| "field_ids_of c (name # names) s =
     (case field_id c name s of (f, s) \<Rightarrow> (case field_ids_of c names s of (fids, s) \<Rightarrow> (f # fids, s)))"

definition col_create_composite_index :: "(bytes \<Rightarrow> 32 word) \<Rightarrow> 32 word \<Rightarrow> bytes list \<Rightarrow> (entity_store, error, unit) op" where
  "col_create_composite_index crc c names es = (case field_ids_of c names (es_schema es) of (fids, schema) \<Rightarrow>
     es_create_composite_index crc c fids (es\<lparr>es_schema := schema\<rparr>))"

text \<open>\<^verbatim>\<open>filter_map\<close> of the lookups: unknown names are left out.\<close>

definition known_fields :: "32 word \<Rightarrow> bytes list \<Rightarrow> schema \<Rightarrow> 32 word list" where
  "known_fields c names s = List.map_filter (\<lambda>n. lookup_field_id c n s) names"

definition col_drop_composite_index :: "(bytes \<Rightarrow> 32 word) \<Rightarrow> 32 word \<Rightarrow> bytes list \<Rightarrow> (entity_store, error, unit) op" where
  "col_drop_composite_index crc c names es =
     (let fids = known_fields c names (es_schema es) in
      if length fids = length names then es_drop_composite_index crc c fids es else (Inr (), es))"

definition col_find_composite :: "(bytes \<Rightarrow> 32 word) \<Rightarrow> 32 word \<Rightarrow> bytes list \<Rightarrow> (nat \<times> bound \<times> bound) list \<Rightarrow>
    (entity_store, error, bytes list) op" where
  "col_find_composite crc c names leading es =
     (let fids = known_fields c names (es_schema es) in
      if length fids \<noteq> length names then (Inl (InvalidArgument (str ''unknown composite field'')), es)
      else case find_index_by_fields c fids (es_schema es) of
        None \<Rightarrow> (Inl (InvalidArgument (str ''no composite index on fields'')), es)
      | Some d \<Rightarrow> on_db (find_composite_m (direct_mutator crc) (es_schema es) c (ix_id d) (length fids) leading) es)"

definition col_find :: "(bytes \<Rightarrow> 32 word) \<Rightarrow> 32 word \<Rightarrow> bytes \<Rightarrow> find_op \<Rightarrow> (entity_store, error, bytes list) op" where
  "col_find crc c name f_op es = (case lookup_field_id c name (es_schema es) of
     None \<Rightarrow> (Inl (InvalidArgument (str ''unknown field '' @ name)), es)
   | Some f \<Rightarrow> (case to_bounds f_op of (lower, upper) \<Rightarrow>
       on_db (index_find crc (es_schema es) c f lower upper) es))"

end
