(* ===== verification/Transactions.thy ===== *)
theory Transactions
  imports Entities Updates
begin

text \<open>
  Transactions (\<^verbatim>\<open>TxMutator\<close>, \<^verbatim>\<open>TxScan\<close> and \<^verbatim>\<open>Transaction\<close> of \<^verbatim>\<open>src/entity.rs\<close>): a buffer of pending writes over
  the committed engine, the merge of both in a scan, and the commit that logs the writes as one block, syncs
  and applies them to memory.
\<close>

section \<open>The merging scan\<close>

record tx_scan =
  ts_committed :: merge_iter
  ts_pending :: "item list"
  ts_pending_buf :: "item option"
  ts_committed_buf :: "item option"
  ts_start :: "bytes option"
  ts_end :: "bytes option"

text \<open>The loop over the pending writes up to the first one in range.\<close>

fun pending_loop :: "bytes option \<Rightarrow> bytes option \<Rightarrow> item list \<Rightarrow> item option \<times> item list" where
  "pending_loop start stop [] = (None, [])"
| "pending_loop start stop ((k, v) # ps) =
     (if \<not> in_range start stop k then pending_loop start stop ps else (Some (k, v), ps))"

definition load_pending :: "tx_scan \<Rightarrow> tx_scan" where
  "load_pending t = (if ts_pending_buf t \<noteq> None then t
     else case pending_loop (ts_start t) (ts_end t) (ts_pending t) of
       (b, ps) \<Rightarrow> t\<lparr>ts_pending := ps, ts_pending_buf := b\<rparr>)"

definition load_committed :: "(tx_scan, error, unit) op" where
  "load_committed t = (if ts_committed_buf t \<noteq> None then (Inr (), t)
     else case merge_next (ts_committed t) of
       (Inl e, m) \<Rightarrow> (Inl e, t\<lparr>ts_committed := m\<rparr>)
     | (Inr x, m) \<Rightarrow> (Inr (), t\<lparr>ts_committed := m, ts_committed_buf := x\<rparr>))"

definition tx_next :: "(tx_scan, error, item option) op" where
  "tx_next t = bindS load_committed (\<lambda>_ t.
     case (ts_committed_buf t, ts_pending_buf t) of
       (None, None) \<Rightarrow> (Inr None, t)
     | (None, Some p) \<Rightarrow> (Inr (Some p), t\<lparr>ts_pending_buf := None\<rparr>)
     | (Some c, None) \<Rightarrow> (Inr (Some c), t\<lparr>ts_committed_buf := None\<rparr>)
     | (Some c, Some p) \<Rightarrow> (case cmp (fst p) (fst c) of
         CEqual \<Rightarrow> (Inr (Some p), t\<lparr>ts_committed_buf := None, ts_pending_buf := None\<rparr>)
       | CLess \<Rightarrow> (Inr (Some p), t\<lparr>ts_pending_buf := None\<rparr>)
       | CGreater \<Rightarrow> (Inr (Some c), t\<lparr>ts_committed_buf := None\<rparr>))) (load_pending t)"

text \<open>What is left of a scan, for the end of its collection.\<close>

definition buffered :: "'a option \<Rightarrow> nat" where
  "buffered b = (case b of None \<Rightarrow> 0 | Some _ \<Rightarrow> 1)"

definition ts_left :: "tx_scan \<Rightarrow> nat" where
  "ts_left t = mi_left (ts_committed t) + buffered (ts_committed_buf t) + length (ts_pending t) + buffered (ts_pending_buf t)"

lemma pending_loop_left: "pending_loop start stop ps = (b, ps') \<Longrightarrow> length ps' + buffered b \<le> length ps"
  by (induction ps arbitrary: b ps') (auto simp: buffered_def split: if_splits)

lemma load_pending_left: "ts_left (load_pending t) \<le> ts_left t"
  using pending_loop_left[of "ts_start t" "ts_end t" "ts_pending t"]
  by (auto simp: load_pending_def ts_left_def buffered_def split: prod.split)

lemma merge_next_left: "mi_left (snd (merge_next m)) \<le> mi_left m"
proof -
  have p: "mi_left (snd (bindS prime (\<lambda>_. modS (\<lambda>m. m\<lparr>mi_primed := True\<rparr>)) m)) \<le> mi_left m" for m
  proof (rule bindS_left)
    show "mi_left (snd (prime m)) \<le> mi_left m" for m unfolding prime_def by (intro forS_left peek_push_left)
  qed (simp add: mi_left_def)
  have t: "mi_left (snd (take_top key idx m)) \<le> mi_left m" for key idx m
    unfolding take_top_def
  proof (rule bindS_left)
    show "mi_left (snd (on_source idx source_peek m)) \<le> mi_left m" for m by (rule on_source_left[OF peek_left])
    show "mi_left (snd ((case x of None \<Rightarrow> failS (Panic (str ''Heap-Eintrag entspricht einem peek'')) | Some item \<Rightarrow>
        bindS (on_source idx source_advance) (\<lambda>_. bindS (skip_older key) (\<lambda>_. bindS (peek_push idx) (\<lambda>_. retS (Some item))))) m))
      \<le> mi_left m" for x m
      by (cases x) (auto intro!: bindS_left on_source_left advance_left skip_older_left peek_push_left)
  qed
  show ?thesis
    unfolding merge_next_def
  proof (rule bindS_left)
    show "mi_left (snd (ensure_primed m)) \<le> mi_left m" for m
      using p by (simp add: ensure_primed_def)
    show "mi_left (snd (case mi_heap m of [] \<Rightarrow> (Inr None, m) | (key, idx) # h \<Rightarrow> take_top key idx (m\<lparr>mi_heap := h\<rparr>)))
        \<le> mi_left m" for m
      using t[of _ _ "m\<lparr>mi_heap := _\<rparr>"] by (auto simp: mi_left_def split: list.split prod.split)
  qed
qed

lemma load_committed_left: "load_committed t = (r, t') \<Longrightarrow> r = Inr () \<Longrightarrow> ts_left t' \<le> ts_left t"
  using merge_next_left[of "ts_committed t"] merge_next_progress[of "ts_committed t"]
  by (fastforce simp: load_committed_def ts_left_def buffered_def split: if_splits prod.splits sum.splits option.splits)

lemma tx_next_progress:
  assumes "tx_next t = (Inr (Some x), t')"
  shows "ts_left t' < ts_left t"
proof -
  obtain t1 where l: "load_committed (load_pending t) = (Inr (), t1)"
    using assms by (auto simp: tx_next_def bindS_eq_Inr)
  then have "ts_left t1 \<le> ts_left t" using load_committed_left load_pending_left by (metis order_trans)
  moreover have "ts_left t' < ts_left t1"
    using assms l by (auto simp: tx_next_def bindS_def ts_left_def buffered_def split: option.splits cmp_result.splits)
  ultimately show ?thesis by simp
qed

function tx_stream :: "tx_scan \<Rightarrow> item result list" where
  "tx_stream t =
     (case tx_next t of
        (Inl e, _) \<Rightarrow> [Inl e]
      | (Inr None, _) \<Rightarrow> []
      | (Inr (Some x), t) \<Rightarrow> Inr x # tx_stream t)"
  by pat_completeness auto
termination
  by (relation "measure ts_left") (auto dest!: sym[of _ "tx_next _"] tx_next_progress)

declare tx_stream.simps [simp del]

section \<open>The view of a transaction\<close>

text \<open>The pending writes are a \<^verbatim>\<open>BTreeMap\<close>: \<^verbatim>\<open>None\<close> is a deletion.\<close>

definition tx_scan_of :: "bytes option \<Rightarrow> bytes option \<Rightarrow> item list \<Rightarrow> merge_iter \<Rightarrow> tx_scan" where
  "tx_scan_of start stop pending m = load_pending \<lparr>ts_committed = m, ts_pending = pending, ts_pending_buf = None,
     ts_committed_buf = None, ts_start = start, ts_end = stop\<rparr>"

definition on_fst :: "('a, error, 'r) op \<Rightarrow> ('a \<times> 'b, error, 'r) op" where
  "on_fst f s = (case f (fst s) of (r, a) \<Rightarrow> (r, (a, snd s)))"

definition tx_mutator :: "(database \<times> item list) mutator" where
  "tx_mutator = \<lparr>mu_get = (\<lambda>key s. case map_of (snd s) key of
       Some v \<Rightarrow> (Inr v, s)
     | None \<Rightarrow> on_fst (db_get key) s),
     mu_scan = (\<lambda>start stop. bindS (on_fst (scan_stream start stop)) (\<lambda>m s.
       (Inr (tx_stream (tx_scan_of start stop (snd s) m)), s))),
     mu_put = (\<lambda>key value. modS (\<lambda>(db, p). (db, bt_insert key (Some value) p))),
     mu_delete = (\<lambda>key. modS (\<lambda>(db, p). (db, bt_insert key None p)))\<rparr>"

section \<open>Its laws\<close>

text \<open>Pending writes over committed ones, as two sorted lists.\<close>

fun overlay :: "item list \<Rightarrow> item list \<Rightarrow> item list" where
  "overlay [] cs = cs"
| "overlay ps [] = ps"
| "overlay (p # ps) (c # cs) =
     (if fst p = fst c then p # overlay ps cs
      else if fst p < fst c then p # overlay ps (c # cs) else c # overlay (p # ps) cs)"

lemma overlay_Nil [simp]: "overlay ps [] = ps"
  by (cases ps) simp_all

lemma keys_overlay: "fst ` set (overlay ps cs) = fst ` set ps \<union> fst ` set cs"
  by (induction ps cs rule: overlay.induct) auto

lemma overlay_correct:
  "ssorted (map fst ps) \<Longrightarrow> ssorted (map fst cs) \<Longrightarrow>
     ssorted (map fst (overlay ps cs)) \<and>
     map_of (overlay ps cs) = (\<lambda>k. case map_of ps k of Some v \<Rightarrow> Some v | None \<Rightarrow> map_of cs k)"
proof (induction ps cs rule: overlay.induct)
  case (3 p ps c cs)
  have n: "map_of ps k = None" if "k \<le> fst p" for k using 3(4) that by (force simp: map_of_eq_None_iff)
  have m: "map_of cs k = None" if "k \<le> fst c" for k using 3(5) that by (force simp: map_of_eq_None_iff)
  consider "fst p = fst c" | "fst p < fst c" | "fst c < fst p" by force
  then show ?case
  proof cases
    case 1
    then show ?thesis using 3 n m keys_overlay[of ps cs] by (cases p; cases c) (auto simp: fun_eq_iff split: option.split)
  next
    case 2
    then have "\<forall>k \<in> fst ` set (overlay ps (c # cs)). fst p < k"
      using 3(4,5) keys_overlay[of ps "c # cs"] by auto
    then show ?thesis using 2 3 n by (cases p) (auto simp: fun_eq_iff)
  next
    case less: 3
    then have "\<forall>k \<in> fst ` set (overlay (p # ps) cs). fst c < k"
      using 3(4,5) keys_overlay[of "p # ps" cs] by auto
    moreover have "map_of (p # ps) (fst c) = None"
      using less n by (cases p) auto
    ultimately show ?thesis using less 3 by (cases c) (auto simp: fun_eq_iff split: option.split)
  qed
qed (auto simp: fun_eq_iff split: option.split)

text \<open>A merge that has ended stays at its end.\<close>

lemma merge_next_end:
  assumes "merge_next m = (Inr None, m')"
  shows "merge_next m' = (Inr None, m')"
proof -
  obtain m1 where m1: "ensure_primed m = (Inr (), m1)"
      "(case mi_heap m1 of [] \<Rightarrow> (Inr None, m1) | (key, idx) # h \<Rightarrow> take_top key idx (m1\<lparr>mi_heap := h\<rparr>)) = (Inr None, m')"
    using assms by (auto simp: merge_next_def bindS_eq_Inr)
  have "mi_primed m1" using m1(1) by (auto simp: ensure_primed_def bindS_eq_Inr split: if_splits)
  moreover have "take_top key idx m \<noteq> (Inr None, m')" for key idx m
    by (auto simp: take_top_def bindS_def split: prod.splits sum.splits option.splits)
  then have "mi_heap m1 = []" "m' = m1" using m1(2) by (auto split: list.splits prod.splits)
  ultimately show ?thesis by (simp add: merge_next_def ensure_primed_def bindS_def)
qed

lemma merge_stream_next:
  assumes "merge_stream m = map Inr cs"
  shows "\<exists>m'. merge_next m = (Inr (case cs of [] \<Rightarrow> None | c # _ \<Rightarrow> Some c), m') \<and> merge_stream m' = map Inr (tl cs)"
proof (cases cs)
  case Nil
  then obtain m' where m: "merge_next m = (Inr None, m')"
    using assms by (subst (asm) merge_stream.simps) (auto split: prod.splits sum.splits option.splits)
  then have "merge_stream m' = []" using merge_next_end[OF m] by (subst merge_stream.simps) simp
  then show ?thesis using m Nil by simp
next
  case (Cons c cs')
  then show ?thesis
    using assms by (subst (asm) merge_stream.simps) (auto split: prod.splits sum.splits option.splits)
qed

text \<open>What is left of the two sides of a scan.\<close>

definition opt_list :: "'a option \<Rightarrow> 'a list" where
  "opt_list x = (case x of None \<Rightarrow> [] | Some a \<Rightarrow> [a])"

definition scan_state :: "tx_scan \<Rightarrow> item list \<Rightarrow> item list \<Rightarrow> bool" where
  "scan_state t ps cs \<longleftrightarrow>
     ps = opt_list (ts_pending_buf t) @ filter (\<lambda>kv. in_range (ts_start t) (ts_end t) (fst kv)) (ts_pending t) \<and>
     (\<exists>cs'. merge_stream (ts_committed t) = map Inr cs' \<and> cs = opt_list (ts_committed_buf t) @ cs')"

lemma pending_loop_filter:
  "pending_loop start stop ps = (b, ps') \<Longrightarrow>
     filter (\<lambda>kv. in_range start stop (fst kv)) ps = opt_list b @ filter (\<lambda>kv. in_range start stop (fst kv)) ps' \<and>
     (b = None \<longrightarrow> ps' = [])"
  by (induction ps arbitrary: b ps') (auto simp: opt_list_def split: if_splits)

lemma load_pending_state:
  assumes "scan_state t ps cs"
  shows "scan_state (load_pending t) ps cs \<and> ts_pending_buf (load_pending t) = (case ps of [] \<Rightarrow> None | p # _ \<Rightarrow> Some p)"
proof (cases "ts_pending_buf t")
  case None
  obtain b r where l: "pending_loop (ts_start t) (ts_end t) (ts_pending t) = (b, r)"
    by (cases "pending_loop (ts_start t) (ts_end t) (ts_pending t)")
  then show ?thesis
    using assms None pending_loop_filter[OF l]
    by (cases b) (auto simp: scan_state_def load_pending_def opt_list_def)
next
  case (Some p)
  then show ?thesis using assms by (auto simp: scan_state_def load_pending_def opt_list_def)
qed

lemma load_committed_state:
  assumes "scan_state t ps cs"
  shows "\<exists>t'. load_committed t = (Inr (), t') \<and> scan_state t' ps cs \<and> ts_pending_buf t' = ts_pending_buf t \<and>
     ts_committed_buf t' = (case cs of [] \<Rightarrow> None | c # _ \<Rightarrow> Some c)"
proof (cases "ts_committed_buf t")
  case None
  then obtain m where "merge_next (ts_committed t) = (Inr (case cs of [] \<Rightarrow> None | c # _ \<Rightarrow> Some c), m)"
      "merge_stream m = map Inr (tl cs)"
    using assms merge_stream_next[of "ts_committed t" cs] by (auto simp: scan_state_def opt_list_def)
  then show ?thesis
    using None assms by (cases cs) (auto simp: scan_state_def load_committed_def opt_list_def)
next
  case (Some c)
  then show ?thesis using assms by (auto simp: scan_state_def load_committed_def opt_list_def)
qed

lemma tx_next_state:
  assumes "scan_state t ps cs"
  shows "\<exists>t'. tx_next t = (Inr (case overlay ps cs of [] \<Rightarrow> None | x # _ \<Rightarrow> Some x), t') \<and>
     (\<exists>ps' cs'. scan_state t' ps' cs' \<and> overlay ps' cs' = tl (overlay ps cs))"
proof -
  obtain t1 where t1: "load_committed (load_pending t) = (Inr (), t1)" "scan_state t1 ps cs"
      "ts_pending_buf t1 = (case ps of [] \<Rightarrow> None | p # _ \<Rightarrow> Some p)"
      "ts_committed_buf t1 = (case cs of [] \<Rightarrow> None | c # _ \<Rightarrow> Some c)"
    using load_committed_state load_pending_state[OF assms] by metis
  have p: "scan_state (t1\<lparr>ts_pending_buf := None\<rparr>) (tl ps) cs"
    using t1(2,3) by (cases ps) (auto simp: scan_state_def opt_list_def)
  have c: "scan_state (t1\<lparr>ts_committed_buf := None\<rparr>) ps (tl cs)"
    using t1(2,4) by (cases cs) (auto simp: scan_state_def opt_list_def)
  have pc: "scan_state (t1\<lparr>ts_committed_buf := None, ts_pending_buf := None\<rparr>) (tl ps) (tl cs)"
    using t1(2-4) by (cases ps; cases cs) (auto simp: scan_state_def opt_list_def)
  show ?thesis
  proof (cases ps)
    case Nil
    show ?thesis
    proof (cases cs)
      case Nil
      then show ?thesis using \<open>ps = []\<close> t1 by (auto simp: tx_next_def bindS_def intro!: exI[of _ "[]"])
    next
      case (Cons c cs')
      then have "tx_next t = (Inr (Some c), t1\<lparr>ts_committed_buf := None\<rparr>)"
        using \<open>ps = []\<close> t1 by (simp add: tx_next_def bindS_def)
      then show ?thesis using \<open>ps = []\<close> Cons c by (intro exI conjI) (assumption | simp)+
    qed
  next
    case (Cons p ps')
    show ?thesis
    proof (cases cs)
      case Nil
      then have "tx_next t = (Inr (Some p), t1\<lparr>ts_pending_buf := None\<rparr>)"
        using Cons t1 by (simp add: tx_next_def bindS_def)
      then show ?thesis using Cons Nil p by (intro exI conjI) (assumption | simp)+
    next
      case (Cons c cs')
      then show ?thesis
        using \<open>ps = p # ps'\<close> t1 p c pc by (cases "cmp (fst p) (fst c)") (auto simp: tx_next_def bindS_def cmp_def split: if_splits)
    qed
  qed
qed

lemma tx_stream_overlay: "scan_state t ps cs \<Longrightarrow> tx_stream t = map Inr (overlay ps cs)"
proof (induction t arbitrary: ps cs rule: tx_stream.induct)
  case (1 t)
  obtain t' ps' cs' where n: "tx_next t = (Inr (case overlay ps cs of [] \<Rightarrow> None | x # _ \<Rightarrow> Some x), t')"
      "scan_state t' ps' cs'" "overlay ps' cs' = tl (overlay ps cs)"
    using tx_next_state[OF 1(2)] by blast
  show ?case
  proof (cases "overlay ps cs")
    case Nil
    then show ?thesis using n(1) by (subst tx_stream.simps) simp
  next
    case (Cons x xs)
    have "tx_stream t' = map Inr (overlay ps' cs')" using 1(1)[OF n(1)[symmetric] _ _ n(2)] Cons by simp
    then show ?thesis using n Cons by (subst tx_stream.simps) simp
  qed
qed

text \<open>The engine is the one the transaction began on, but for its cache: no operation of the view writes to it.\<close>

definition tx_ok :: "database \<Rightarrow> database \<times> item list \<Rightarrow> bool" where
  "tx_ok db s \<longleftrightarrow> db_inv (fst s) \<and> same_but_cache db (fst s) \<and> ssorted (map fst (snd s))"

definition tx_entry :: "database \<times> item list \<Rightarrow> bytes \<Rightarrow> entry option" where
  "tx_entry s k = (case map_of (snd s) k of Some v \<Rightarrow> Some v | None \<Rightarrow> db_entry (fst s) k)"

interpretation tx: kv_write tx_mutator "tx_ok D" tx_entry "\<lambda>_. True" for D
proof
  fix s :: "database \<times> item list" and k start stop w
  assume ok: "tx_ok D s"
  obtain db p where s: "s = (db, p)" by (cases s)
  have i: "db_inv db" "ssorted (map fst p)" "same_but_cache D db" using ok s by (simp_all add: tx_ok_def)
  show "\<exists>s'. mu_get tx_mutator k s = (Inr (flat (tx_entry s k)), s') \<and> tx_ok D s' \<and> tx_entry s' = tx_entry s"
  proof (cases "map_of p k")
    case None
    obtain db' where "db_get k db = (Inr (db_value db k), db')" "db_inv db'" "same_but_cache db db'"
      using db_get_correct[OF i(1)] by blast
    then show ?thesis
      using None s i same_but_cacheD(4)[of db db'] same_but_cache_trans[of D db db'] by (simp add: tx_mutator_def on_fst_def tx_entry_def tx_ok_def db_value_def fun_eq_iff split: option.split)
  next
    case (Some v)
    then show ?thesis using ok s by (simp add: tx_mutator_def tx_entry_def)
  qed
  show "\<exists>out s'. mu_scan tx_mutator start stop s = (Inr (map Inr out), s') \<and> tx_ok D s' \<and> tx_entry s' = tx_entry s \<and>
      ssorted (map fst out) \<and> map_of out = (\<lambda>k. if in_range start stop k then tx_entry s k else None)"
  proof -
    obtain m db' where m: "scan_stream start stop db = (Inr m, db')"
        "merge_state m (map (items_in start stop) (db_layers db))" "db_inv db'" "same_but_cache db db'"
      using scan_stream_correct[OF i(1)] by blast
    obtain cs m' where c: "merge_collect m = (Inr cs, m')" "merged (map (items_in start stop) (db_layers db)) cs"
      using merge_collect_state[OF m(2)] by blast
    let ?ps = "filter (\<lambda>kv. in_range start stop (fst kv)) p"
    have "merge_stream m = map Inr cs" using c(1) collect_merge_stream[of m] by (simp add: collectE_eq_Inr)
    then have st: "scan_state (tx_scan_of start stop p m) ?ps cs"
      unfolding tx_scan_of_def by (intro conjunct1[OF load_pending_state]) (simp add: scan_state_def opt_list_def)
    have cs: "ssorted (map fst cs)" "map_of cs = (\<lambda>k. if in_range start stop k then db_entry db k else None)"
      using c(2) by (auto simp: merged_def fun_eq_iff layers_items_in db_entry_def)
    have "?ps = filter (\<lambda>(k, _). in_range start stop k) p" by (rule filter_cong) auto
    then have ps: "ssorted (map fst ?ps)" "map_of ?ps = (\<lambda>k. if in_range start stop k then map_of p k else None)"
      using i(2) map_of_filter_key[of "in_range start stop" p] by (simp_all add: ssorted_map_filter fun_eq_iff)
    have "map_of (overlay ?ps cs) = (\<lambda>k. if in_range start stop k then tx_entry s k else None)"
      using overlay_correct[OF ps(1) cs(1)] ps(2) cs(2) s by (auto simp: fun_eq_iff tx_entry_def split: option.split)
    moreover have "mu_scan tx_mutator start stop s = (Inr (map Inr (overlay ?ps cs)), (db', p))"
      using m(1) tx_stream_overlay[OF st] s by (simp add: tx_mutator_def bindS_def on_fst_def)
    moreover have "tx_entry (db', p) = tx_entry s" "tx_ok D (db', p)"
      using same_but_cacheD(4)[OF m(4)] same_but_cache_trans[OF i(3) m(4)] m(3) i(2) s by (auto simp: tx_entry_def tx_ok_def fun_eq_iff split: option.split)
    ultimately show ?thesis using overlay_correct[OF ps(1) cs(1)] by blast
  qed
  show "\<exists>s'. mu_write tx_mutator w s = (Inr (), s') \<and> tx_ok D s' \<and>
      (\<lambda>k. flat (tx_entry s' k)) = (\<lambda>k. flat (tx_entry s k))(fst w := snd w) \<and>
      (\<forall>k. k \<noteq> fst w \<longrightarrow> tx_entry s k = None \<longrightarrow> tx_entry s' k = None)"
    using i s by (cases w; cases "snd w")
      (auto simp: mu_write_def tx_mutator_def tx_ok_def tx_entry_def fun_eq_iff split: option.splits)
qed

section \<open>Transactions\<close>

datatype tx_state = Active | Committed | Aborted

record transaction =
  tx_id :: "64 word"
  tx_pending :: "item list"
  tx_status :: tx_state

text \<open>A transaction borrows its store: the state of its operations is both.\<close>

type_synonym 'a tx_op = "(entity_store \<times> transaction, error, 'a) op"

definition tx_begin :: "(entity_store, error, transaction) op" where
  "tx_begin es = (case alloc_tx_id (es_db es) of
     (Inl e, db) \<Rightarrow> (Inl e, es\<lparr>es_db := db\<rparr>)
   | (Inr i, db) \<Rightarrow> (Inr \<lparr>tx_id = i, tx_pending = [], tx_status = Active\<rparr>, es\<lparr>es_db := db\<rparr>))"

definition check_active :: "unit tx_op" where
  "check_active st = (if tx_status (snd st) \<noteq> Active then (Inl (InvalidArgument (str ''transaction is not active'')), st)
     else (Inr (), st))"

definition on_view :: "(database \<times> item list, error, 'a) op \<Rightarrow> 'a tx_op" where
  "on_view f st = (case st of (es, tx) \<Rightarrow> (case f (es_db es, tx_pending tx) of
     (r, db, p) \<Rightarrow> (r, es\<lparr>es_db := db\<rparr>, tx\<lparr>tx_pending := p\<rparr>)))"

definition on_view_core :: "(schema \<times> hints option \<times> database \<times> item list, error, 'a) op \<Rightarrow> 'a tx_op" where
  "on_view_core f st = (case st of (es, tx) \<Rightarrow> (case f (es_schema es, None, es_db es, tx_pending tx) of
     (r, schema, _, db, p) \<Rightarrow> (r, es\<lparr>es_schema := schema, es_db := db\<rparr>, tx\<lparr>tx_pending := p\<rparr>)))"

definition tx_collection :: "bytes \<Rightarrow> 32 word tx_op" where
  "tx_collection name st = (case st of (es, tx) \<Rightarrow> (case collection_id name (es_schema es) of
     (c, schema) \<Rightarrow> (Inr c, es\<lparr>es_schema := schema\<rparr>, tx)))"

definition tx_update :: "bytes \<Rightarrow> bytes \<Rightarrow> entity \<Rightarrow> unit tx_op" where
  "tx_update name eid e = bindS check_active (\<lambda>_. bindS (tx_collection name) (\<lambda>c.
     on_view_core (core_put_entity tx_mutator c eid e)))"

definition tx_cas_update :: "(val \<Rightarrow> bytes) \<Rightarrow> bytes \<Rightarrow> bytes \<Rightarrow> expected \<Rightarrow> patch list \<Rightarrow> entity tx_op" where
  "tx_cas_update shown name eid ex ps = bindS check_active (\<lambda>_. bindS (tx_collection name) (\<lambda>c.
     on_view_core (core_cas_entity shown tx_mutator c eid ex ps)))"

definition tx_delete :: "bytes \<Rightarrow> bytes \<Rightarrow> unit tx_op" where
  "tx_delete name eid = bindS check_active (\<lambda>_. bindS (tx_collection name) (\<lambda>c st.
     on_view (core_delete_entity (es_schema (fst st)) tx_mutator c eid) st))"

text \<open>The reads scan first and read the entity out of the rows.\<close>

definition tx_get :: "bytes \<Rightarrow> bytes \<Rightarrow> entity option tx_op" where
  "tx_get name eid = bindS check_active (\<lambda>_ st.
     case lookup_collection_id name (es_schema (fst st)) of
       None \<Rightarrow> (Inr None, st)
     | Some c \<Rightarrow> (case entity_range c eid of (start, stop) \<Rightarrow>
         bindS (on_view (mu_rows tx_mutator (Some start) stop)) (\<lambda>rows.
           liftS (fst (core_get_entity (es_schema (fst st)) direct_scan_view c eid rows))) st))"

definition tx_scan_collection :: "bytes \<Rightarrow> (bytes \<times> entity) list tx_op" where
  "tx_scan_collection name = bindS check_active (\<lambda>_ st.
     case lookup_collection_id name (es_schema (fst st)) of
       None \<Rightarrow> (Inr [], st)
     | Some c \<Rightarrow>
         bindS (on_view (mu_rows tx_mutator (Some (collection_prefix c)) (successor (collection_prefix c)))) (\<lambda>rows.
           liftS (fst (core_scan_collection (es_schema (fst st)) direct_scan_view c rows))) st)"

definition tx_find :: "bytes \<Rightarrow> bytes \<Rightarrow> find_op \<Rightarrow> bytes list tx_op" where
  "tx_find name field f_op = bindS check_active (\<lambda>_ st.
     case lookup_collection_id name (es_schema (fst st)) of
       None \<Rightarrow> (Inr [], st)
     | Some c \<Rightarrow> (case lookup_field_id c field (es_schema (fst st)) of
         None \<Rightarrow> (Inl (InvalidArgument (str ''unknown field '' @ field)), st)
       | Some f \<Rightarrow> (case to_bounds f_op of (lower, upper) \<Rightarrow>
           on_view (find_m tx_mutator (es_schema (fst st)) c f lower upper) st)))"

text \<open>After the commit on the engine the hints of the entities written to are forgotten.\<close>

definition forget_hints :: "item list \<Rightarrow> hints \<Rightarrow> hints" where
  "forget_hints pending h = fold (\<lambda>(k, _) h. case decode_entity_key k of
     Some (c, eid, _) \<Rightarrow> h((c, eid) := None) | None \<Rightarrow> h) pending h"

definition tx_commit :: "(bytes \<Rightarrow> 32 word) \<Rightarrow> unit tx_op" where
  "tx_commit crc = bindS check_active (\<lambda>_. bindS (on_fst persist_schema) (\<lambda>_ st.
     case st of (es, tx) \<Rightarrow> (case commit_log crc (tx_id tx) (tx_pending tx) (es_db es) of
       (Inl e, db) \<Rightarrow> (Inl e, es\<lparr>es_db := db\<rparr>, tx)
     | (Inr _, db) \<Rightarrow> (Inr (), es\<lparr>es_db := commit_memory (tx_pending tx) db,
           es_hint := forget_hints (tx_pending tx) (es_hint es)\<rparr>, tx\<lparr>tx_status := Committed\<rparr>))))"

definition tx_abort :: "unit tx_op" where
  "tx_abort = bindS check_active (\<lambda>_. modS (\<lambda>(es, tx). (es, tx\<lparr>tx_pending := [], tx_status := Aborted\<rparr>)))"

text \<open>\<^verbatim>\<open>Drop\<close>: what is still pending is forgotten.\<close>

definition tx_drop :: "entity_store \<times> transaction \<Rightarrow> entity_store" where
  "tx_drop st = fst st"

text \<open>\<^verbatim>\<open>transaction_with\<close>: the closure is an operation on the transaction.\<close>

definition transaction_with :: "(bytes \<Rightarrow> 32 word) \<Rightarrow> 'a tx_op \<Rightarrow> (entity_store, error, 'a) op" where
  "transaction_with crc f = bindS tx_begin (\<lambda>tx es.
     case f (es, tx) of
       (Inr v, st) \<Rightarrow> (case tx_commit crc st of
           (Inl e, st) \<Rightarrow> (Inl e, tx_drop st)
         | (Inr _, st) \<Rightarrow> (Inr v, tx_drop st))
     | (Inl e, st) \<Rightarrow> (case tx_abort st of
           (Inl e', st) \<Rightarrow> (Inl e', tx_drop st)
         | (Inr _, st) \<Rightarrow> (Inl e, tx_drop st)))"

end
