(* ===== verification/Collections.thy ===== *)
theory Collections
  imports Updates Transactions Guarantees Maintenance
begin

text \<open>
  What the layer of entities guarantees on the engine and inside a transaction: the laws of the entity layer,
  proved over any view, on the two views the program has.
\<close>

section \<open>Room for a put\<close>

context kv_read
begin

lemma put_fitsI:
  assumes "ok s" and "keys_ok (ent s)" and "id_ok eid" and "hint_ok (vals (ent s)) c eid hint"
    and room: "\<And>old stale w. old_read (vals (ent s)) c eid (indexed_field_ids schema c @ concat (map snd (composite_index_defs schema c))) old stale wr \<Longrightarrow>
      w \<in> set (put_writes c eid (indexed_field_ids schema c) (composite_index_defs schema c) old stale wr) \<Longrightarrow> room w"
  shows "put_fits room mu schema hint c eid wr s"
  using old_state[OF assms(1-4), of "indexed_field_ids schema c @ concat (map snd (composite_index_defs schema c))" wr] room
  by (force simp: put_fits_def Let_def list_all_iff)

end

section \<open>The store\<close>

text \<open>The value of a field, by its name.\<close>

definition named_value :: "schema \<Rightarrow> (bytes \<Rightarrow> bytes option) \<Rightarrow> 32 word \<Rightarrow> bytes \<Rightarrow> bytes \<Rightarrow> val option" where
  "named_value schema V c eid n = (case lookup_field_id c n schema of None \<Rightarrow> None | Some f \<Rightarrow> fval V c eid f)"

definition has_fields :: "entity option \<Rightarrow> (bytes \<Rightarrow> val option) \<Rightarrow> bool" where
  "has_fields g F \<longleftrightarrow> (\<forall>n. (case g of None \<Rightarrow> None | Some e \<Rightarrow> entity_field n e) = F n)"

lemma has_fields_unique: "has_fields g F \<Longrightarrow> has_fields g F' \<Longrightarrow> F = F'"
  by (auto simp: has_fields_def)

text \<open>An entity that is read has a field, and no name twice.\<close>

definition entity_wf :: "entity option \<Rightarrow> bool" where
  "entity_wf g \<longleftrightarrow> (\<forall>e. g = Some e \<longrightarrow> en_fields e \<noteq> [] \<and> distinct (map fst (en_fields e)))"

context kv_read
begin

lemma get_named:
  assumes "ok s" and "schema_inv schema" and "view_ok schema (ent s)" and "id_ok eid"
  shows "\<exists>g s'. core_get_entity schema mu c eid s = (Inr g, s') \<and> ok s' \<and> ent s' = ent s \<and>
     has_fields g (named_value schema (vals (ent s)) c eid) \<and> entity_wf g"
proof -
  have k: "keys_ok (ent s)" "fields_ok schema (vals (ent s))" using assms(3) by (simp_all add: view_ok_def)
  show ?thesis
    using get_entity[OF assms(1,2) k assms(4), of c]
    by (auto simp: has_fields_def entity_wf_def entity_field_map_of named_value_def)
qed

end

text \<open>The invariant of a store of entities: the engine, the registry, the view and the hints.\<close>

definition hints_ok :: "hints \<Rightarrow> (bytes \<Rightarrow> bytes option) \<Rightarrow> bool" where
  "hints_ok h V \<longleftrightarrow> (\<forall>c eid. id_ok eid \<longrightarrow> hint_ok V c eid (h (c, eid)))"

definition store_ok :: "nat \<Rightarrow> entity_store \<Rightarrow> bool" where
  "store_ok B es \<longleftrightarrow> direct_ok B (es_db es) \<and> schema_inv (es_schema es) \<and>
     view_ok (es_schema es) (db_entry (es_db es)) \<and> hints_ok (es_hint es) (vals (db_entry (es_db es)))"

abbreviation es_vals :: "entity_store \<Rightarrow> bytes \<Rightarrow> bytes option" where
  "es_vals es \<equiv> vals (db_entry (es_db es))"

abbreviation es_named :: "entity_store \<Rightarrow> 32 word \<Rightarrow> bytes \<Rightarrow> bytes \<Rightarrow> val option" where
  "es_named es \<equiv> named_value (es_schema es) (es_vals es)"

section \<open>The file of the registry\<close>

lemma SCHEMA_tmp [simp]: "table_path i \<noteq> with_extension SCHEMA_FILE (str ''schema.tmp'')"
  using table_path_last[of i] by (auto simp: SCHEMA_FILE_def str_def with_extension_def Let_def)

lemma direct_ok_files:
  assumes "direct_ok B db" and "\<And>i. map_of d (table_path i) = map_of (db_dir db) (table_path i)"
  shows "direct_ok B (db\<lparr>db_dir := d\<rparr>) \<and> db_entry (db\<lparr>db_dir := d\<rparr>) = db_entry db"
proof -
  have f: "file_records d i = file_records (db_dir db) i" "table_at d i = table_at (db_dir db) i" for i
    using file_records_cong[OF assms(2)] table_at_cong[OF assms(2)] by auto
  have l: "db_layers (db\<lparr>db_dir := d\<rparr>) = db_layers db" by (simp add: db_layers_def f)
  moreover have "tables_inv (db_manifest db) d = tables_inv (db_manifest db) (db_dir db)"
    by (simp add: tables_inv_def f segment_at_def)
  moreover have "cache_inv (db_manifest db) d (db_cache db) = cache_inv (db_manifest db) (db_dir db) (db_cache db)"
    by (simp add: cache_inv_def f)
  ultimately show ?thesis
    using assms(1) by (simp add: direct_ok_def db_inv_def db_fits_def mem_bounded_def db_entry_def)
qed

lemma view_ok_schema:
  assumes "sc_field_name s' = sc_field_name s" and "sc_indexes s' = sc_indexes s"
  shows "view_ok s' E = view_ok s E"
  using assms by (simp add: view_ok_def fields_ok_def field_name_def indexed_field_ids_def)

lemma save_store:
  assumes "store_ok B es"
  shows "\<exists>es'. save_schema es = (Inr (), es') \<and> store_ok B es' \<and> db_entry (es_db es') = db_entry (es_db es) \<and>
     es_schema es' = (es_schema es)\<lparr>sc_changed := False\<rparr> \<and> es_hint es' = es_hint es"
proof -
  let ?d = "fs_replace (with_extension SCHEMA_FILE (str ''schema.tmp'')) SCHEMA_FILE (schema_text (es_schema es)) (db_dir (es_db es))"
  have "direct_ok B ((es_db es)\<lparr>db_dir := ?d\<rparr>) \<and> db_entry ((es_db es)\<lparr>db_dir := ?d\<rparr>) = db_entry (es_db es)"
    using assms by (intro direct_ok_files) (simp_all add: store_ok_def)
  moreover have "schema_inv ((es_schema es)\<lparr>sc_changed := False\<rparr>)" using assms by (simp add: store_ok_def schema_inv_defs)
  moreover have "view_ok ((es_schema es)\<lparr>sc_changed := False\<rparr>) E = view_ok (es_schema es) E" for E by (rule view_ok_schema) simp_all
  ultimately show ?thesis using assms by (simp add: save_schema_def schema_save_def store_ok_def)
qed

lemma persist_store:
  assumes "store_ok B es"
  shows "\<exists>es'. persist_schema es = (Inr (), es') \<and> store_ok B es' \<and> db_entry (es_db es') = db_entry (es_db es) \<and>
     (\<forall>c n. lookup_field_id c n (es_schema es') = lookup_field_id c n (es_schema es)) \<and>
     sc_indexes (es_schema es') = sc_indexes (es_schema es) \<and> sc_collection_id_of (es_schema es') = sc_collection_id_of (es_schema es)"
proof (cases "is_changed (es_schema es)")
  case True
  obtain es' where "save_schema es = (Inr (), es')" "store_ok B es'" "db_entry (es_db es') = db_entry (es_db es)"
      "es_schema es' = (es_schema es)\<lparr>sc_changed := False\<rparr>"
    using save_store[OF assms] by blast
  then show ?thesis using True by (simp add: persist_schema_def lookup_field_id_def)
next
  case False
  then show ?thesis using assms by (simp add: persist_schema_def)
qed

section \<open>The operations of the store\<close>

text \<open>What a put needs: a string as id, values that fit the codec, field numbers left, room in memory.\<close>

definition put_ready :: "(bytes \<Rightarrow> 32 word) \<Rightarrow> nat \<Rightarrow> 32 word \<Rightarrow> bytes \<Rightarrow> entity \<Rightarrow> entity_store \<Rightarrow> bool" where
  "put_ready crc B c eid e es \<longleftrightarrow> id_ok eid \<and> (\<forall>(n, v) \<in> set (en_fields e). val_ok v) \<and>
     unat (sc_next_field_id (es_schema es)) + length (en_fields e) < 2 ^ 32 \<and>
     (case assign_fields c (en_fields e) (es_schema es) of (wr, schema) \<Rightarrow>
        same_equalities (es_schema es) (es_vals es) c eid wr \<and>
        put_fits (direct_room B) (direct_mutator crc) schema (es_hint es (c, eid)) c eid wr (es_db es))"

lemma named_kept:
  assumes inv: "schema_inv s" "schema_inv s'" and grow: "\<forall>c n g. lookup_field_id c n s = Some g \<longrightarrow> lookup_field_id c n s' = Some g"
    and "fields_ok s V" and "id_ok eid" and same: "\<And>f. V' (encode_entity_key c eid f) = V (encode_entity_key c eid f)"
  shows "named_value s' V' c eid n = named_value s V c eid n"
proof -
  have fv: "fval V' c eid f = fval V c eid f" for f by (simp add: fval_def same)
  show ?thesis
  proof (cases "lookup_field_id c n s")
    case (Some f)
    then have "lookup_field_id c n s' = Some f" using grow by blast
    then show ?thesis using Some fv by (simp add: named_value_def)
  next
    case None
    have "fval V c eid f = None" if f: "lookup_field_id c n s' = Some f" for f
    proof -
      have "field_name c f s \<noteq> Some m" for m
        using field_name_lookup[OF inv(1), of c f m] spec[OF grow, of c] lookup_inject[OF inv(2) f, of m] None by auto
      then have "V (encode_entity_key c eid f) = None"
        using assms(4,5) unfolding fields_ok_def by (meson not_None_eq)
      then show ?thesis by (simp add: fval_def)
    qed
    then show ?thesis using None fv by (simp add: named_value_def split: option.split)
  qed
qed

text \<open>The entities other than the one written keep their fields and their hints.\<close>

lemma hints_ok_write:
  assumes "hints_ok h V" and "\<forall>w \<in> set ws. own_key c eid (fst w)" and "id_ok eid" and "V' = apply_writes ws V"
    and "hint_ok V' c eid x"
  shows "hints_ok (h((c, eid) := x)) V'"
  unfolding hints_ok_def
proof (intro allI impI)
  fix c' e' assume e': "id_ok e'"
  show "hint_ok V' c' e' ((h((c, eid) := x)) (c', e'))"
  proof (cases "c' = c \<and> e' = eid")
    case True
    then show ?thesis using assms(5) by simp
  next
    case False
    then have "V' (encode_entity_key c' e' f) = V (encode_entity_key c' e' f)" for f
      using own_writes_other[OF assms(2,3) e' False, of V f] assms(4) by simp
    then show ?thesis using assms(1) e' False unfolding hints_ok_def hint_ok_def by auto
  qed
qed

text \<open>What a put does to the registry: names keep their numbers, indexes stay.\<close>

definition registry_grows :: "schema \<Rightarrow> schema \<Rightarrow> bool" where
  "registry_grows s s' \<longleftrightarrow> (\<forall>c n g. lookup_field_id c n s = Some g \<longrightarrow> lookup_field_id c n s' = Some g) \<and>
     sc_indexes s' = sc_indexes s \<and> sc_collection_id_of s' = sc_collection_id_of s"

lemma store_put:
  assumes ok: "store_ok B es" and ready: "put_ready crc B c eid e es"
  shows "\<exists>ws es'. es_put_entity crc c eid e es = (Inr (), es') \<and> store_ok B es' \<and>
     es_vals es' = apply_writes ws (es_vals es) \<and> (\<forall>w \<in> set ws. own_key c eid (fst w)) \<and>
     indexes_along (es_schema es) ws (es_vals es) \<and>
     es_named es' c eid = map_of (rev (en_fields e)) \<and>
     (\<forall>c' e'. id_ok e' \<longrightarrow> (c', e') \<noteq> (c, eid) \<longrightarrow> es_named es' c' e' = es_named es c' e') \<and>
     registry_grows (es_schema es) (es_schema es')"
proof -
  let ?E = "db_entry (es_db es)"
  have o: "direct_ok B (es_db es)" "schema_inv (es_schema es)" "view_ok (es_schema es) ?E" "hints_ok (es_hint es) (vals ?E)"
    using ok by (simp_all add: store_ok_def)
  obtain wr schema where wr: "assign_fields c (en_fields e) (es_schema es) = (wr, schema)"
    by (cases "assign_fields c (en_fields e) (es_schema es)")
  have r: "id_ok eid" "\<forall>(n, v) \<in> set (en_fields e). val_ok v"
      "unat (sc_next_field_id (es_schema es)) + length (en_fields e) < 2 ^ 32"
      "same_equalities (es_schema es) (vals ?E) c eid wr"
      "put_fits (direct_room B) (direct_mutator crc) schema (case Some (es_hint es) of Some h \<Rightarrow> h (c, eid) | None \<Rightarrow> None) c eid wr (es_db es)"
    using ready wr by (simp_all add: put_ready_def)
  have h: "hint_ok (vals ?E) c eid (case Some (es_hint es) of Some h \<Rightarrow> h (c, eid) | None \<Rightarrow> None)"
    using o(4) r(1) by (simp add: hints_ok_def)
  obtain ws s where p: "core_put_entity (direct_mutator crc) c eid e (es_schema es, Some (es_hint es), es_db es) =
       (Inr (), schema, map_option (\<lambda>h. h((c, eid) \<mapsto> map fst wr)) (Some (es_hint es)), s)"
      "direct_ok B s" "schema_inv schema" "view_ok schema (db_entry s)"
      "vals (db_entry s) = apply_writes ws (vals ?E)" "\<forall>w \<in> set ws. own_key c eid (fst w)"
      "indexes_along (es_schema es) ws (vals ?E)"
      "\<forall>n. (case lookup_field_id c n schema of None \<Rightarrow> None | Some f \<Rightarrow> fval (vals (db_entry s)) c eid f) = map_of (rev (en_fields e)) n"
      "\<forall>f. vals (db_entry s) (encode_entity_key c eid f) = map_option encode (map_of (rev wr) f)"
    using direct.put_entity[OF o(1,2,3) r(1) h r(2,3) wr r(4,5)] by blast
  let ?es1 = "\<lparr>es_db = s, es_schema = schema, es_hint = (es_hint es)((c, eid) \<mapsto> map fst wr)\<rparr>"
  have "hint_ok (vals (db_entry s)) c eid (Some (map fst wr))"
    unfolding hint_ok_def using p(9) by (auto simp: map_of_eq_None_iff image_iff dest!: map_of_SomeD)
  then have "hints_ok ((es_hint es)((c, eid) \<mapsto> map fst wr)) (vals (db_entry s))"
    by (rule hints_ok_write[OF o(4) p(6) r(1) p(5)])
  then have ok1: "store_ok B ?es1" using p by (simp add: store_ok_def)
  obtain es' where q: "persist_schema ?es1 = (Inr (), es')" "store_ok B es'" "db_entry (es_db es') = db_entry s"
      "\<forall>c n. lookup_field_id c n (es_schema es') = lookup_field_id c n schema"
      "sc_indexes (es_schema es') = sc_indexes schema" "sc_collection_id_of (es_schema es') = sc_collection_id_of schema"
    using persist_store[OF ok1] by auto
  have grows: "registry_grows (es_schema es) (es_schema es')"
    using assign_fields[OF o(2) r(3) wr] q(4-6) by (simp add: registry_grows_def)
  have n: "es_named es' = named_value schema (vals (db_entry s))" using q(3,4) by (simp add: named_value_def fun_eq_iff)
  have "es_put_entity crc c eid e es = (Inr (), es')"
    using p(1) q(1) by (simp add: es_put_entity_def on_core_def bindS_def unwrap_or_def)
  moreover have "es_named es' c eid = map_of (rev (en_fields e))"
    using p(8) n by (simp add: named_value_def fun_eq_iff)
  moreover have "es_named es' c' e' = es_named es c' e'" if h: "id_ok e'" "(c', e') \<noteq> (c, eid)" for c' e'
  proof
    fix m
    have v: "vals (db_entry s) (encode_entity_key c' e' f) = vals ?E (encode_entity_key c' e' f)" for f
      using own_writes_other[OF p(6) r(1) h(1), of c' "vals ?E" f] h(2) fun_cong[OF p(5)] by auto
    have g: "\<forall>c n g. lookup_field_id c n (es_schema es) = Some g \<longrightarrow> lookup_field_id c n schema = Some g"
      using assign_fields[OF o(2) r(3) wr] by blast
    have fo: "fields_ok (es_schema es) (vals ?E)" using o(3) by (simp add: view_ok_def)
    show "es_named es' c' e' m = es_named es c' e' m"
      unfolding n by (rule named_kept[OF o(2) p(3) g fo h(1) v])
  qed
  ultimately show ?thesis using q(2,3) p(5-7) grows by (intro exI[of _ ws] exI[of _ es']) simp
qed

lemma store_same_entries:
  assumes "store_ok B es" and "direct_ok B db" and "db_entry db = db_entry (es_db es)"
  shows "store_ok B (es\<lparr>es_db := db\<rparr>)"
  using assms by (simp add: store_ok_def)

lemma store_get:
  assumes ok: "store_ok B es" and eid: "id_ok eid"
  shows "\<exists>g db. es_get_entity crc c eid es = (Inr g, es\<lparr>es_db := db\<rparr>) \<and> store_ok B (es\<lparr>es_db := db\<rparr>) \<and>
     db_entry db = db_entry (es_db es) \<and> has_fields g (es_named es c eid) \<and> entity_wf g"
proof -
  obtain g db where "core_get_entity (es_schema es) (direct_mutator crc) c eid (es_db es) = (Inr g, db)" "direct_ok B db"
      "db_entry db = db_entry (es_db es)" "has_fields g (es_named es c eid)" "entity_wf g"
    using direct.get_named[of B "es_db es" "es_schema es" eid crc c] ok eid by (auto simp: store_ok_def)
  then show ?thesis
    using store_same_entries[OF ok] by (intro exI[of _ g] exI[of _ db]) (simp add: es_get_entity_def on_db_def)
qed

lemma store_delete:
  assumes ok: "store_ok B es" and eid: "id_ok eid"
    and fits: "delete_fits (direct_room B) (direct_mutator crc) (es_schema es) c eid (es_db es)"
  shows "\<exists>ws es'. es_delete_entity crc c eid es = (Inr (), es') \<and> store_ok B es' \<and>
     es_vals es' = apply_writes ws (es_vals es) \<and> (\<forall>w \<in> set ws. own_key c eid (fst w)) \<and>
     indexes_along (es_schema es) ws (es_vals es) \<and> es_named es' c eid = Map.empty \<and>
     (\<forall>c' e'. id_ok e' \<longrightarrow> (c', e') \<noteq> (c, eid) \<longrightarrow> es_named es' c' e' = es_named es c' e') \<and>
     (\<forall>f. es_vals es' (encode_entity_key c eid f) = None) \<and>
     (\<forall>k. own_entry (es_schema es) (es_vals es) c eid k \<longrightarrow> es_vals es' k = None)"
proof -
  let ?E = "db_entry (es_db es)"
  have o: "direct_ok B (es_db es)" "view_ok (es_schema es) ?E" "hints_ok (es_hint es) (vals ?E)"
    using ok by (simp_all add: store_ok_def)
  obtain ws s where d: "core_delete_entity (es_schema es) (direct_mutator crc) c eid (es_db es) = (Inr (), s)"
      "direct_ok B s" "view_ok (es_schema es) (db_entry s)" "vals (db_entry s) = apply_writes ws (vals ?E)"
      "\<forall>w \<in> set ws. own_key c eid (fst w)" "indexes_along (es_schema es) ws (vals ?E)"
      "\<forall>f. vals (db_entry s) (encode_entity_key c eid f) = None"
      "\<forall>k. own_entry (es_schema es) (vals ?E) c eid k \<longrightarrow> vals (db_entry s) k = None"
    using direct.delete_entity[OF o(1,2) eid fits] by blast
  let ?es' = "es\<lparr>es_db := s, es_hint := (es_hint es)((c, eid) := None)\<rparr>"
  have "hint_ok (vals (db_entry s)) c eid None" by (simp add: hint_ok_def)
  then have "hints_ok ((es_hint es)((c, eid) := None)) (vals (db_entry s))"
    by (rule hints_ok_write[OF o(3) d(5) eid d(4)])
  then have "store_ok B ?es'" using ok d by (simp add: store_ok_def)
  moreover have "es_named ?es' c eid = Map.empty"
    using d(7) by (simp add: named_value_def fval_def fun_eq_iff split: option.split)
  moreover have "es_named ?es' c' e' = es_named es c' e'" if h: "id_ok e'" "(c', e') \<noteq> (c, eid)" for c' e'
  proof -
    have "vals (db_entry s) (encode_entity_key c' e' f) = vals ?E (encode_entity_key c' e' f)" for f
      using own_writes_other[OF d(5) eid h(1), of c' "vals ?E" f] h(2) fun_cong[OF d(4)] by auto
    then show ?thesis by (simp add: named_value_def fval_def fun_eq_iff split: option.split)
  qed
  moreover have "es_delete_entity crc c eid es = (Inr (), ?es')"
    using d(1) by (simp add: es_delete_entity_def on_db_def bindS_def)
  ultimately show ?thesis using d(4-8) by (intro exI[of _ ws] exI[of _ ?es']) simp
qed

lemma store_cas:
  assumes ok: "store_ok B es" and eid: "id_ok eid" and c: "lookup_collection_id name (es_schema es) = Some c"
  shows "\<exists>g db. es_get_entity crc c eid es = (Inr g, es\<lparr>es_db := db\<rparr>) \<and> store_ok B (es\<lparr>es_db := db\<rparr>) \<and>
     db_entry db = db_entry (es_db es) \<and> has_fields g (es_named es c eid) \<and> entity_wf g \<and>
     es_cas_update shown crc name eid ex ps es =
       (case bindE (check_expected ex c eid g) (\<lambda>_. apply_patch shown ps (unwrap_or entity_new g)) of
          Inl err \<Rightarrow> (Inl err, es\<lparr>es_db := db\<rparr>)
        | Inr e \<Rightarrow> bindS (es_put_entity crc c eid e) (\<lambda>_. retS e) (es\<lparr>es_db := db\<rparr>))"
proof -
  obtain g db where g: "es_get_entity crc c eid es = (Inr g, es\<lparr>es_db := db\<rparr>)" "store_ok B (es\<lparr>es_db := db\<rparr>)"
      "db_entry db = db_entry (es_db es)" "has_fields g (es_named es c eid)" "entity_wf g"
    using store_get[OF ok eid] by blast
  have o: "direct_ok B (es_db es)" using ok by (simp add: store_ok_def)
  have "core_get_entity (es_schema es) (direct_mutator crc) c eid (es_db es) = (Inr g, db)"
    using g(1) by (cases es) (auto simp: es_get_entity_def on_db_def split: prod.splits)
  then have k: "core_cas_entity shown (direct_mutator crc) c eid ex ps (es_schema es, Some (es_hint es), es_db es) =
       (case bindE (check_expected ex c eid g) (\<lambda>_. apply_patch shown ps (unwrap_or entity_new g)) of
          Inl err \<Rightarrow> (Inl err, es_schema es, Some (es_hint es), db)
        | Inr e \<Rightarrow> bindS (core_put_entity (direct_mutator crc) c eid e) (\<lambda>_. retS e) (es_schema es, Some (es_hint es), db))"
    using direct.cas_entity[OF o, of "es_schema es" crc c eid shown ex ps "Some (es_hint es)"] by auto
  have "collection_id name (es_schema es) = (c, es_schema es)"
    using c by (simp add: lookup_collection_id_def collection_id_def)
  then have "es_cas_update shown crc name eid ex ps es =
       (case bindE (check_expected ex c eid g) (\<lambda>_. apply_patch shown ps (unwrap_or entity_new g)) of
          Inl err \<Rightarrow> (Inl err, es\<lparr>es_db := db\<rparr>)
        | Inr e \<Rightarrow> bindS (es_put_entity crc c eid e) (\<lambda>_. retS e) (es\<lparr>es_db := db\<rparr>))"
    using k by (auto simp: es_cas_update_def on_core_def bindS_def es_put_entity_def unwrap_or_def split: sum.split prod.split)
  then show ?thesis using g by blast
qed

section \<open>Queries by an index\<close>

text \<open>What an operator asks of a value.\<close>

fun op_holds :: "find_op \<Rightarrow> val \<Rightarrow> bool" where
  "op_holds (FEq w) v = (value_cmp v w = CEqual)"
| "op_holds (FGt w) v = (value_cmp v w = CGreater)"
| "op_holds (FGte w) v = (value_cmp v w \<noteq> CLess)"
| "op_holds (FLt w) v = (value_cmp v w = CLess)"
| "op_holds (FLte w) v = (value_cmp v w \<noteq> CGreater)"
| "op_holds (FBetween l h) v = (value_cmp v l \<noteq> CLess \<and> value_cmp v h \<noteq> CGreater)"

lemma within_bounds: "to_bounds p = (lower, upper) \<Longrightarrow> within v lower upper = op_holds p v"
  by (cases p; cases "value_cmp v (case p of FEq w \<Rightarrow> w | FBetween w _ \<Rightarrow> w | FGt w \<Rightarrow> w | FGte w \<Rightarrow> w | FLt w \<Rightarrow> w | FLte w \<Rightarrow> w)")
    (auto simp: within_def)

lemma ready_index: "f \<in> set (indexed_field_ids s c) \<Longrightarrow> find_index c f s \<noteq> None"
  by (auto simp: indexed_field_ids_def find_index_def find_None_iff)

lemma store_find:
  assumes ok: "store_ok B es" and f: "lookup_field_id c name (es_schema es) = Some f" "f \<in> set (indexed_field_ids (es_schema es) c)"
  shows "\<exists>out db. col_find crc c name p es = (Inr out, es\<lparr>es_db := db\<rparr>) \<and> store_ok B (es\<lparr>es_db := db\<rparr>) \<and>
     db_entry db = db_entry (es_db es) \<and>
     distinct out \<and> set out = {e. id_ok e \<and> (\<exists>v. es_named es c e name = Some v \<and> op_holds p v)}"
proof -
  let ?E = "db_entry (es_db es)"
  obtain lower upper where b: "to_bounds p = (lower, upper)" by (cases "to_bounds p")
  have o: "direct_ok B (es_db es)" "keys_ok ?E" "fields_ok (es_schema es) (vals ?E)" "complete (vals ?E) c f"
      "f \<noteq> COMPOSITE_FIELD_MARKER"
    using ok f(2) by (auto simp: store_ok_def view_ok_def)
  obtain out db where r: "find_m (direct_mutator crc) (es_schema es) c f lower upper (es_db es) = (Inr out, db)" "direct_ok B db"
      "db_entry db = ?E" "distinct out" "set out = {e. matches (vals ?E) c f lower upper e}"
    using direct.find_exact[OF o(1-4) ready_index[OF f(2)] o(5)] by blast
  moreover have "matches (vals ?E) c f lower upper e \<longleftrightarrow> id_ok e \<and> (\<exists>v. es_named es c e name = Some v \<and> op_holds p v)" for e
    using f(1) within_bounds[OF b] by (simp add: matches_def named_value_def)
  ultimately show ?thesis
    using f(1) b store_same_entries[OF ok r(2,3)]
    by (intro exI[of _ out] exI[of _ db]) (simp add: col_find_def index_find_def on_db_def)
qed

section \<open>The guarantees of the store\<close>

text \<open>A store with one collection, one field and an index on it.\<close>

definition sample_registry :: schema where
  "sample_registry = \<lparr>sc_next_collection_id = 1, sc_next_field_id = 1, sc_collection_name = [(0, str ''p'')],
     sc_collection_id_of = [(str ''p'', 0)], sc_field_name = [((0, 0), str ''age'')], sc_field_id_of = [((0, str ''age''), 0)],
     sc_changed = True, sc_next_index_id = 1,
     sc_indexes = [\<lparr>ix_id = 0, ix_collection_id = 0, ix_field_ids = [0], ix_status = Ready\<rparr>]\<rparr>"

definition sample_store :: entity_store where
  "sample_store = \<lparr>es_db = fresh_db default_options, es_schema = sample_registry, es_hint = (\<lambda>_. None)\<rparr>"

definition sample_entity :: entity where
  "sample_entity = \<lparr>en_fields = [(str ''age'', VInt 7), (str ''name'', VString (str ''x''))]\<rparr>"

lemma sample_registry_inv: "schema_inv sample_registry"
  by (auto simp: sample_registry_def schema_inv_defs one_to_one_def below_def)

lemma sample_indexed: "indexed_field_ids sample_registry c = (if c = 0 then [0] else [])" "composite_index_defs sample_registry c = []"
  by (simp_all add: sample_registry_def indexed_field_ids_def composite_index_defs_def)

lemma sample_entry: "db_entry (fresh_db opts) k = None"
proof -
  have "db_layers (fresh_db opts) = [[]]"
    by (simp add: fresh_db_def db_layers_def memtable_new_def table_order_def level0_def manifest_new_def)
  then show ?thesis by (simp add: db_entry_def)
qed

lemma sample_direct: "direct_ok 1000 (fresh_db default_options)"
proof -
  have "run_inv (\<lambda>_. 0) 1000 default_options (fresh_db default_options) (\<lambda>_. None) (Some [])"
    by (rule fresh_run_inv[OF sample_opts])
  then show ?thesis
    by (simp add: run_inv_def db_ok_def direct_ok_def mem_bounded_def)
      (simp add: fresh_db_def memtable_new_def default_options_def)
qed

lemma sample_store_ok: "store_ok 1000 sample_store"
proof -
  have "view_ok sample_registry (db_entry (fresh_db default_options))"
    by (simp add: view_ok_def keys_ok_def fields_ok_def complete_def fval_def sample_entry sample_indexed COMPOSITE_FIELD_MARKER_def)
  then show ?thesis
    using sample_direct sample_registry_inv
    by (simp add: store_ok_def sample_store_def hints_ok_def hint_ok_def)
qed

lemma sample_eid: "id_ok (str ''e'')"
  by (simp add: id_ok_def str_def utf8_valid_ascii)

lemma sample_assign:
  "assign_fields 0 (en_fields sample_entity) sample_registry =
     ([(0, VInt 7), (1, VString (str ''x''))],
      sample_registry\<lparr>sc_next_field_id := 2, sc_field_name := [((0, 0), str ''age''), ((0, 1), str ''name'')],
        sc_field_id_of := [((0, str ''age''), 0), ((0, str ''name''), 1)]\<rparr>)"
  by (simp add: sample_entity_def sample_registry_def field_id_def Let_def str_def less_prod_def)

lemma sample_writes:
  assumes "map_of old 0 = None" and "\<And>k. k \<in> set stale \<Longrightarrow> length k = 14"
    and "w \<in> set (put_writes 0 (str ''e'') [0] [] old stale [(0, VInt 7), (1, VString (str ''x''))])"
  shows "direct_room 1000 w"
proof -
  have "(0, v) \<notin> set old" for v using assms(1) by (auto simp: map_of_eq_None_iff image_iff)
  then show ?thesis
    using assms
    by (fastforce simp: put_writes_def writes_defs direct_room_def item_size_def entry_len_def ikey_def key_defs str_def)
qed

lemma sample_ready: "put_ready crc 1000 0 (str ''e'') sample_entity sample_store"
proof -
  define s where "s = sample_registry\<lparr>sc_next_field_id := 2, sc_field_name := [((0, 0), str ''age''), ((0, 1), str ''name'')],
        sc_field_id_of := [((0, str ''age''), 0), ((0, str ''name''), 1)]\<rparr>"
  let ?V = "vals (db_entry (fresh_db default_options))"
  have idx: "indexed_field_ids s c = (if c = 0 then [0] else [])" "composite_index_defs s c = []" for c
    by (simp_all add: s_def sample_registry_def indexed_field_ids_def composite_index_defs_def)
  have none: "fval ?V c e f = None" for c e f by (simp add: fval_def sample_entry)
  have key: "length (encode_entity_key 0 (str ''e'') f) = 14" for f
    by (simp add: key_defs str_def)
  have "put_fits (direct_room 1000) (direct_mutator crc) s None 0 (str ''e'') [(0, VInt 7), (1, VString (str ''x''))]
      (fresh_db default_options)"
  proof (rule direct.put_fitsI[OF sample_direct _ sample_eid])
    show "keys_ok (db_entry (fresh_db default_options))" by (simp add: keys_ok_def sample_entry)
    fix old stale w
    assume "old_read ?V 0 (str ''e'') (indexed_field_ids s 0 @ concat (map snd (composite_index_defs s 0))) old stale
          [(0, VInt 7), (1, VString (str ''x''))]"
      and w: "w \<in> set (put_writes 0 (str ''e'') (indexed_field_ids s 0) (composite_index_defs s 0) old stale
          [(0, VInt 7), (1, VString (str ''x''))])"
    then have "map_of old 0 = None" "\<And>k. k \<in> set stale \<Longrightarrow> length k = 14"
      by (auto simp: old_read_def idx none key)
    with w show "direct_room 1000 w" using sample_writes[of old stale w] by (simp add: idx)
  qed (simp add: hint_ok_def)
  then show ?thesis
    using sample_eid
    by (simp add: put_ready_def sample_assign sample_store_def s_def)
      (simp add: sample_entity_def sample_registry_def same_equalities_def none str_def utf8_valid_ascii)
qed

text \<open>
  C4: An entity put is the entity read: the put succeeds on a store in order, and the read that
  follows shows, for every name, the last value the entity gave it, and no other field, whatever the entity had
  before. Every other entity keeps its fields.
\<close>

theorem put_get_roundtrip:
  assumes "store_ok B es" and "put_ready crc B c eid e es"
  shows "\<exists>es' g es''. es_put_entity crc c eid e es = (Inr (), es') \<and> es_get_entity crc c eid es' = (Inr g, es'') \<and>
     has_fields g (map_of (rev (en_fields e))) \<and> store_ok B es'' \<and>
     (\<forall>c' e'. id_ok e' \<longrightarrow> (c', e') \<noteq> (c, eid) \<longrightarrow>
        (\<exists>g' es3. es_get_entity crc c' e' es'' = (Inr g', es3) \<and> has_fields g' (es_named es c' e')))"
proof -
  obtain es' where p: "es_put_entity crc c eid e es = (Inr (), es')" "store_ok B es'"
      "es_named es' c eid = map_of (rev (en_fields e))"
      "\<forall>c' e'. id_ok e' \<longrightarrow> (c', e') \<noteq> (c, eid) \<longrightarrow> es_named es' c' e' = es_named es c' e'"
    using store_put[OF assms] by blast
  have eid: "id_ok eid" using assms(2) by (simp add: put_ready_def)
  obtain g db where g: "es_get_entity crc c eid es' = (Inr g, es'\<lparr>es_db := db\<rparr>)" "store_ok B (es'\<lparr>es_db := db\<rparr>)"
      "db_entry db = db_entry (es_db es')" "has_fields g (es_named es' c eid)"
    using store_get[OF p(2) eid] by blast
  have "\<exists>g' es3. es_get_entity crc c' e' (es'\<lparr>es_db := db\<rparr>) = (Inr g', es3) \<and> has_fields g' (es_named es c' e')"
    if "id_ok e'" "(c', e') \<noteq> (c, eid)" for c' e'
    using store_get[OF g(2) that(1), of crc c'] g(3) p(4) that by auto
  then show ?thesis using p g by auto
qed

theorem put_get_roundtrip_witness:
  "\<exists>es' g es''. es_put_entity (\<lambda>_. 0) 0 (str ''e'') sample_entity sample_store = (Inr (), es') \<and>
     es_get_entity (\<lambda>_. 0) 0 (str ''e'') es' = (Inr g, es'') \<and>
     has_fields g [str ''age'' \<mapsto> VInt 7, str ''name'' \<mapsto> VString (str ''x'')]"
proof -
  have "map_of (rev (en_fields sample_entity)) = [str ''age'' \<mapsto> VInt 7, str ''name'' \<mapsto> VString (str ''x'')]"
    by (auto simp: sample_entity_def str_def)
  then show ?thesis using put_get_roundtrip[OF sample_store_ok sample_ready, of "\<lambda>_. 0"] by metis
qed

text \<open>
  C5: A query by an index returns each entity whose field satisfies the operator, once, and no
  other, although the index may hold entries of values an entity no longer has.
\<close>

theorem find_exact_ids:
  assumes "store_ok B es" and "lookup_field_id c name (es_schema es) = Some f"
    and "f \<in> set (indexed_field_ids (es_schema es) c)"
  shows "\<exists>out es'. col_find crc c name p es = (Inr out, es') \<and> store_ok B es' \<and> distinct out \<and>
     set out = {e. id_ok e \<and> (\<exists>v. es_named es c e name = Some v \<and> op_holds p v)}"
  using store_find[OF assms, of crc p] by auto

text \<open>A store with the entity of the sample.\<close>

lemma sample_stored:
  "\<exists>es. es_put_entity crc 0 (str ''e'') sample_entity sample_store = (Inr (), es) \<and> store_ok 1000 es \<and>
     lookup_field_id 0 (str ''age'') (es_schema es) = Some 0 \<and> indexed_field_ids (es_schema es) 0 = [0] \<and> composite_index_defs (es_schema es) 0 = [] \<and>
     lookup_collection_id (str ''p'') (es_schema es) = Some 0 \<and>
     (\<forall>e v. id_ok e \<longrightarrow> es_named es 0 e (str ''age'') = Some v \<longleftrightarrow> e = str ''e'' \<and> v = VInt 7)"
proof -
  obtain es where p: "es_put_entity crc 0 (str ''e'') sample_entity sample_store = (Inr (), es)" "store_ok 1000 es"
      "es_named es 0 (str ''e'') = map_of (rev (en_fields sample_entity))"
      "\<forall>c' e'. id_ok e' \<longrightarrow> (c', e') \<noteq> (0, str ''e'') \<longrightarrow> es_named es c' e' = es_named sample_store c' e'"
      "registry_grows (es_schema sample_store) (es_schema es)"
    using store_put[OF sample_store_ok sample_ready, of crc] by blast
  have "es_named sample_store 0 e n = None" for e n
    by (simp add: named_value_def fval_def sample_store_def sample_entry split: option.split)
  moreover have "map_of (rev (en_fields sample_entity)) (str ''age'') = Some (VInt 7)"
    by (simp add: sample_entity_def str_def)
  ultimately have "id_ok e \<longrightarrow> es_named es 0 e (str ''age'') = Some v \<longleftrightarrow> e = str ''e'' \<and> v = VInt 7" if "id_ok e" for e v
    using p(3,4) that by (cases "e = str ''e''") auto
  moreover have "lookup_field_id 0 (str ''age'') (es_schema es) = Some 0"
    using p(5) by (simp add: registry_grows_def sample_store_def sample_registry_def lookup_field_id_def)
  moreover have "indexed_field_ids (es_schema es) 0 = [0]"
    using p(5) indexed_same[of "es_schema es" sample_registry] sample_indexed by (simp add: registry_grows_def sample_store_def)
  moreover have "composite_index_defs (es_schema es) 0 = []"
    using p(5) composites_same[of "es_schema es" sample_registry] sample_indexed by (simp add: registry_grows_def sample_store_def)
  moreover have "lookup_collection_id (str ''p'') (es_schema es) = Some 0"
    using p(5) by (simp add: registry_grows_def sample_store_def sample_registry_def lookup_collection_id_def)
  ultimately show ?thesis using p(1,2) by blast
qed

theorem find_exact_ids_witness:
  "\<exists>es out es'. es_put_entity (\<lambda>_. 0) 0 (str ''e'') sample_entity sample_store = (Inr (), es) \<and>
     col_find (\<lambda>_. 0) 0 (str ''age'') (FEq (VInt 7)) es = (Inr out, es') \<and> out = [str ''e'']"
proof -
  obtain es where e: "es_put_entity (\<lambda>_. 0) 0 (str ''e'') sample_entity sample_store = (Inr (), es) \<and> store_ok 1000 es \<and>
     lookup_field_id 0 (str ''age'') (es_schema es) = Some 0 \<and> indexed_field_ids (es_schema es) 0 = [0] \<and> composite_index_defs (es_schema es) 0 = [] \<and>
     lookup_collection_id (str ''p'') (es_schema es) = Some 0 \<and>
     (\<forall>e v. id_ok e \<longrightarrow> es_named es 0 e (str ''age'') = Some v \<longleftrightarrow> e = str ''e'' \<and> v = VInt 7)"
    using sample_stored by (rule exE)
  note s = e[THEN conjunct1] e[THEN conjunct2, THEN conjunct1] e[THEN conjunct2, THEN conjunct2, THEN conjunct1]
    e[THEN conjunct2, THEN conjunct2, THEN conjunct2, THEN conjunct1]
    e[THEN conjunct2, THEN conjunct2, THEN conjunct2, THEN conjunct2, THEN conjunct2, THEN conjunct2]
  have "0 \<in> set (indexed_field_ids (es_schema es) 0)" using s(4) by simp
  from find_exact_ids[OF s(2,3) this, of "\<lambda>_. 0" "FEq (VInt 7)"] obtain out es' where
    o: "col_find (\<lambda>_. 0) 0 (str ''age'') (FEq (VInt 7)) es = (Inr out, es')" "distinct out"
      "set out = {e. id_ok e \<and> (\<exists>v. es_named es 0 e (str ''age'') = Some v \<and> op_holds (FEq (VInt 7)) v)}"
    by blast
  have "set out = {str ''e''}" unfolding o(3) using s(5) sample_eid by (auto simp del: not_None_eq)
  then have "out = [str ''e'']" using o(2) by (cases out rule: list.exhaust; cases "tl out") auto
  then show ?thesis using s(1) o(1) by blast
qed

text \<open>
  C17: A deletion leaves no field of the entity and takes its entries out of the indexes: the entry of
  the value of every indexed field, and of every composite index for which the entity had all fields. Only keys of
  the entity are written, so every other entity, and every entry of another entity, stays as it was.
\<close>

theorem delete_removes:
  assumes "store_ok B es" and "id_ok eid"
    and "delete_fits (direct_room B) (direct_mutator crc) (es_schema es) c eid (es_db es)"
  shows "\<exists>es' g es''. es_delete_entity crc c eid es = (Inr (), es') \<and> store_ok B es' \<and>
     es_get_entity crc c eid es' = (Inr g, es'') \<and> has_fields g Map.empty \<and>
     (\<forall>c' e'. id_ok e' \<longrightarrow> (c', e') \<noteq> (c, eid) \<longrightarrow> es_named es' c' e' = es_named es c' e') \<and>
     (\<forall>f. es_vals es' (encode_entity_key c eid f) = None) \<and>
     (\<forall>f v. f \<in> set (indexed_field_ids (es_schema es) c) \<longrightarrow> fval (es_vals es) c eid f = Some v \<longrightarrow>
        es_vals es' (encode_index_key c f (encode_ordered v) eid) = None) \<and>
     (\<forall>i fids comps. (i, fids) \<in> set (composite_index_defs (es_schema es) c) \<longrightarrow>
        components fids (fval (es_vals es) c eid) = Some comps \<longrightarrow>
        es_vals es' (encode_composite_index_key c i comps eid) = None) \<and>
     (\<forall>k. \<not> own_key c eid k \<longrightarrow> es_vals es' k = es_vals es k)"
proof -
  obtain ws es' where p: "es_delete_entity crc c eid es = (Inr (), es')" "store_ok B es'" "es_named es' c eid = Map.empty"
      "\<forall>c' e'. id_ok e' \<longrightarrow> (c', e') \<noteq> (c, eid) \<longrightarrow> es_named es' c' e' = es_named es c' e'"
      "\<forall>f. es_vals es' (encode_entity_key c eid f) = None"
      "\<forall>k. own_entry (es_schema es) (es_vals es) c eid k \<longrightarrow> es_vals es' k = None"
      "es_vals es' = apply_writes ws (es_vals es)" "\<forall>w \<in> set ws. own_key c eid (fst w)"
    using store_delete[OF assms] by blast
  obtain g es'' where g: "es_get_entity crc c eid es' = (Inr g, es'')" "has_fields g (es_named es' c eid)"
    using store_get[OF p(2) assms(2)] by blast
  have e: "es_vals es' k = None" if "own_entry (es_schema es) (es_vals es) c eid k" for k using p(6) that by blast
  have "es_vals es' k = es_vals es k" if "\<not> own_key c eid k" for k
    using p(8) that apply_writes_other[of k ws "es_vals es"] fun_cong[OF p(7), of k] by auto
  moreover have "es_vals es' (encode_index_key c f (encode_ordered v) eid) = None"
    if "f \<in> set (indexed_field_ids (es_schema es) c)" "fval (es_vals es) c eid f = Some v" for f v
    using that by (intro e) (auto simp: own_entry_def ikey_def)
  moreover have "es_vals es' (encode_composite_index_key c i comps eid) = None"
    if "(i, fids) \<in> set (composite_index_defs (es_schema es) c)" "components fids (fval (es_vals es) c eid) = Some comps"
    for i fids comps
    using that by (intro e) (unfold own_entry_def, blast)
  ultimately show ?thesis using p(1-5) g by auto
qed

lemma sample_delete_fits:
  assumes ok: "store_ok 1000 es" and ix: "indexed_field_ids (es_schema es) 0 = [0]" "composite_index_defs (es_schema es) 0 = []"
    and v: "fval (es_vals es) 0 (str ''e'') 0 = Some (VInt 7)"
  shows "delete_fits (direct_room 1000) (direct_mutator crc) (es_schema es) 0 (str ''e'') (es_db es)"
proof -
  have o: "direct_ok 1000 (es_db es)" "keys_ok (db_entry (es_db es))" using ok by (simp_all add: store_ok_def view_ok_def)
  obtain rows s' where r: "mu_rows (direct_mutator crc) (Some (entity_prefix 0 (str ''e''))) (successor (entity_prefix 0 (str ''e''))) (es_db es) =
        (Inr rows, s')" "entity_scan (db_entry (es_db es)) 0 (str ''e'') rows"
    using direct.rows[OF o(1)] unfolding rows_of_def by blast
  note er = entity_scan_rows[OF r(2) o(2) sample_eid]
  have dist: "distinct (map fst rows)" using r(2) by (simp add: rows_of_def ssorted_distinct)
  let ?vs = "deleted_values [0] rows []"
  have "map_of ?vs 0 = Some (VInt 7)"
  proof -
    have "map_of rows (encode_entity_key 0 (str ''e'') 0) \<noteq> None"
      using v unfolding er(2) by (cases "db_entry (es_db es) (encode_entity_key 0 (str ''e'') 0)") (simp_all add: fval_def)
    then have "encode_entity_key 0 (str ''e'') 0 \<in> fst ` set rows" by (metis map_of_eq_None_iff)
    then show ?thesis
      using deleted_values_old[OF er(1) dist _ sample_eid, of "[]" 0 "[0]"] v er(2)[of 0] by (simp add: fval_read)
  qed
  moreover have "distinct (map fst ?vs)" using deleted_values_sorted[of "[]" "[0]" rows] by (simp add: ssorted_distinct)
  ultimately have "w = VInt 7" if "(0, w) \<in> set ?vs" for w using map_of_is_SomeI[OF _ that] by simp
  moreover have "length k = 14" if "(k, x) \<in> set rows" for k x
    using er(1) that by (auto simp: own_row_def key_defs str_def dest: bspec)
  ultimately have "direct_room 1000 w" if "w \<in> set (delete_writes (es_schema es) 0 (str ''e'') rows)" for w
    using that
    by (fastforce simp: delete_writes_def entry_deletes_def Let_def ix direct_room_def item_size_def entry_len_def ikey_def key_defs str_def)
  then show ?thesis using r(1) by (simp add: delete_fits_def list_all_iff)
qed

theorem delete_removes_witness:
  "\<exists>es es' g es''. es_put_entity (\<lambda>_. 0) 0 (str ''e'') sample_entity sample_store = (Inr (), es) \<and>
     es_vals es (encode_index_key 0 0 (encode_ordered (VInt 7)) (str ''e'')) \<noteq> None \<and>
     es_delete_entity (\<lambda>_. 0) 0 (str ''e'') es = (Inr (), es') \<and>
     es_vals es' (encode_index_key 0 0 (encode_ordered (VInt 7)) (str ''e'')) = None \<and>
     es_get_entity (\<lambda>_. 0) 0 (str ''e'') es' = (Inr g, es'') \<and> has_fields g Map.empty"
proof -
  obtain es where s: "es_put_entity (\<lambda>_. 0) 0 (str ''e'') sample_entity sample_store = (Inr (), es)" "store_ok 1000 es"
      "lookup_field_id 0 (str ''age'') (es_schema es) = Some 0" "indexed_field_ids (es_schema es) 0 = [0]"
      "composite_index_defs (es_schema es) 0 = []" "es_named es 0 (str ''e'') (str ''age'') = Some (VInt 7)"
    using sample_stored[of "\<lambda>_. 0"] sample_eid by blast
  have v: "fval (es_vals es) 0 (str ''e'') 0 = Some (VInt 7)" using s(3,6) by (simp add: named_value_def)
  have "complete (es_vals es) 0 0" using s(2,4) by (simp add: store_ok_def view_ok_def)
  then have "es_vals es (encode_index_key 0 0 (encode_ordered (VInt 7)) (str ''e'')) \<noteq> None"
    using v sample_eid unfolding complete_def ikey_def by blast
  then show ?thesis
    using delete_removes[OF s(2) sample_eid sample_delete_fits[OF s(2,4,5) v]] s(1,4) v by (metis list.set_intros(1))
qed

lemma map_of_rev_distinct: "distinct (map fst ps) \<Longrightarrow> map_of (rev ps) = map_of ps"
proof (induction ps)
  case (Cons p ps)
  then have "map_of ps (fst p) = None" by (simp add: map_of_eq_None_iff)
  then show ?case using Cons by (cases p) (auto simp: map_add_def fun_eq_iff split: option.split)
qed simp

text \<open>What a conditional update expects of the fields an entity has, and what patches make of them.\<close>

definition expected_holds :: "expected \<Rightarrow> (bytes \<Rightarrow> val option) \<Rightarrow> bool" where
  "expected_holds ex F = (case ex of
     EAny \<Rightarrow> True
   | EAbsent \<Rightarrow> F = Map.empty
   | EEntity e \<Rightarrow> F \<noteq> Map.empty \<and> card (dom F) = length (en_fields e) \<and>
       (\<forall>n v. F n = Some v \<longrightarrow> (\<exists>w. map_of (en_fields e) n = Some w \<and> val_eq w v))
   | EField n v \<Rightarrow> (\<exists>w. F n = Some w \<and> val_eq w v))"

fun refusal :: "expected \<Rightarrow> conflict_reason" where
  "refusal EAny = ExpectedValueMismatch"
| "refusal EAbsent = ExpectedAbsentButExists"
| "refusal (EEntity _) = ExpectedValueMismatch"
| "refusal (EField _ _) = ExpectedFieldMismatch"

fun patched :: "patch list \<Rightarrow> (bytes \<Rightarrow> val option) \<Rightarrow> (bytes \<Rightarrow> val option) option" where
  "patched [] F = Some F"
| "patched (PSet n v # ps) F = patched ps (F(n \<mapsto> v))"
| "patched (PRemove n # ps) F = patched ps (F(n := None))"
| "patched (PIncrement n d # ps) F = (case (F n, d) of
     (Some (VInt a), VInt b) \<Rightarrow> patched ps (F(n \<mapsto> VInt (a + b)))
   | (Some (VFloat a), VFloat b) \<Rightarrow> patched ps (F(n \<mapsto> VFloat (f64_add a b)))
   | _ \<Rightarrow> None)"

lemma fields_of_read:
  assumes "has_fields g F" and "entity_wf g"
  shows "map_of (en_fields (unwrap_or entity_new g)) = F" and "distinct (map fst (en_fields (unwrap_or entity_new g)))"
    and "g = None \<longleftrightarrow> F = Map.empty"
proof -
  show "map_of (en_fields (unwrap_or entity_new g)) = F" and "distinct (map fst (en_fields (unwrap_or entity_new g)))"
    using assms by (auto simp: has_fields_def entity_wf_def entity_field_map_of unwrap_or_def entity_new_def fun_eq_iff split: option.splits)
  show "g = None \<longleftrightarrow> F = Map.empty"
  proof (cases g)
    case (Some e)
    then have "map_of (en_fields e) (fst (hd (en_fields e))) \<noteq> None"
      using assms(2) by (cases "en_fields e") (auto simp: entity_wf_def)
    then show ?thesis using assms(1) Some by (auto simp: has_fields_def entity_field_map_of)
  qed (use assms(1) in \<open>auto simp: has_fields_def\<close>)
qed

lemma entity_eq_fields:
  assumes "distinct (map fst (en_fields cur))"
  shows "entity_eq cur e \<longleftrightarrow> card (dom (map_of (en_fields cur))) = length (en_fields e) \<and>
     (\<forall>n v. map_of (en_fields cur) n = Some v \<longrightarrow> (\<exists>w. map_of (en_fields e) n = Some w \<and> val_eq w v))"
proof -
  have "card (dom (map_of (en_fields cur))) = length (en_fields cur)"
    using assms by (metis dom_map_of_conv_image_fst distinct_card length_map list.set_map)
  moreover have "list_all (\<lambda>(k, v). case entity_field k e of Some bv \<Rightarrow> val_eq bv v | None \<Rightarrow> False) (en_fields cur) \<longleftrightarrow>
      (\<forall>n v. map_of (en_fields cur) n = Some v \<longrightarrow> (\<exists>w. map_of (en_fields e) n = Some w \<and> val_eq w v))"
    using assms by (auto simp: list_all_iff entity_field_map_of split: option.splits)
      (metis option.inject)+
  ultimately show ?thesis by (simp add: entity_eq_def)
qed

lemma check_expected_holds:
  assumes "has_fields g F" and "entity_wf g"
  shows "check_expected ex c eid g = (if expected_holds ex F then Inr () else Inl (Conflict c eid (refusal ex)))"
proof (cases g)
  case None
  then have F: "F = Map.empty" using fields_of_read(3)[OF assms] by simp
  show ?thesis using None by (cases ex) (simp_all add: check_expected_def expected_holds_def F)
next
  case (Some e)
  then have F: "F \<noteq> Map.empty" using fields_of_read(3)[OF assms] by simp
  have m: "map_of (en_fields e) = F" "distinct (map fst (en_fields e))"
    using fields_of_read(1,2)[OF assms] Some by (simp_all add: unwrap_or_def)
  show ?thesis
  proof (cases ex)
    case (EEntity e')
    then show ?thesis using Some F entity_eq_fields[OF m(2), of e'] by (simp add: check_expected_def expected_holds_def m(1))
  next
    case (EField n v)
    then show ?thesis using Some by (cases "F n") (auto simp: check_expected_def expected_holds_def entity_field_map_of m(1))
  qed (use Some F in \<open>simp_all add: check_expected_def expected_holds_def\<close>)
qed

lemma set_field_fields:
  assumes "distinct (map fst fs)" and "map_of fs n \<noteq> None"
  shows "map fst (set_field n v fs) = map fst fs" and "map_of (set_field n v fs) = (map_of fs)(n \<mapsto> v)"
  using assms unfolding set_field_def by (induction fs) (auto simp: fun_eq_iff split: if_splits)

lemma map_of_remove: "map_of (filter (\<lambda>(m, _). m \<noteq> n) fs) = (map_of fs)(n := None)"
  by (induction fs) (auto simp: fun_eq_iff)

lemma distinct_remove: "distinct (map fst fs) \<Longrightarrow> distinct (map fst (filter (\<lambda>(m, _). m \<noteq> n) fs))"
  by (induction fs) auto

lemma apply_patch_fields:
  assumes "distinct (map fst (en_fields e))"
  shows "case patched ps (map_of (en_fields e)) of
      None \<Rightarrow> \<exists>msg. apply_patch shown ps e = Inl (InvalidArgument msg)
    | Some F \<Rightarrow> \<exists>e'. apply_patch shown ps e = Inr e' \<and> map_of (en_fields e') = F \<and> distinct (map fst (en_fields e'))"
  using assms
proof (induction ps arbitrary: e)
  case (Cons p ps)
  let ?fs = "en_fields e"
  have found: "find (\<lambda>(m, _). m = n) ?fs = None \<longleftrightarrow> map_of ?fs n = None" for n
    by (force simp: find_None_iff map_of_eq_None_iff)
  note step = set_field_fields[OF Cons.prems]
  show ?case
  proof (cases p)
    case (PSet n v)
    define fs where "fs = (if find (\<lambda>(m, _). m = n) ?fs \<noteq> None then set_field n v ?fs else ?fs @ [(n, v)])"
    have fs: "map_of fs = (map_of ?fs)(n \<mapsto> v) \<and> distinct (map fst fs)"
    proof (cases "map_of ?fs n")
      case None
      then have "n \<notin> fst ` set ?fs" by (simp add: map_of_eq_None_iff)
      moreover have "fs = ?fs @ [(n, v)]" using None found[of n] by (simp add: fs_def)
      ultimately show ?thesis using None Cons.prems by (auto simp: map_add_def fun_eq_iff split: option.split)
    next
      case (Some w)
      then have "fs = set_field n v ?fs" using found[of n] by (simp add: fs_def)
      then show ?thesis using step[of n v] Some Cons.prems by simp
    qed
    have one: "apply_patch shown (p # ps) e = apply_patch shown ps (e\<lparr>en_fields := fs\<rparr>)"
      by (simp add: apply_one_def PSet fs_def bindE_def del: not_None_eq)
    have "map_of (en_fields (e\<lparr>en_fields := fs\<rparr>)) = (map_of ?fs)(n \<mapsto> v)" "distinct (map fst (en_fields (e\<lparr>en_fields := fs\<rparr>)))"
      using fs by simp_all
    from Cons.IH[OF this(2), unfolded this(1)] show ?thesis unfolding one unfolding PSet patched.simps .
  next
    case (PRemove n)
    let ?e = "e\<lparr>en_fields := filter (\<lambda>(m, _). m \<noteq> n) ?fs\<rparr>"
    have one: "apply_patch shown (p # ps) e = apply_patch shown ps ?e" by (simp add: apply_one_def PRemove bindE_def)
    have "map_of (en_fields ?e) = (map_of ?fs)(n := None)" "distinct (map fst (en_fields ?e))"
      using map_of_remove[of n ?fs] distinct_remove[OF Cons.prems, of n] by simp_all
    from Cons.IH[OF this(2), unfolded this(1)] show ?thesis unfolding one unfolding PRemove patched.simps .
  next
    case (PIncrement n d)
    have set: "case patched ps ((map_of ?fs)(n \<mapsto> v)) of
      None \<Rightarrow> \<exists>msg. apply_patch shown ps (e\<lparr>en_fields := set_field n v ?fs\<rparr>) = Inl (InvalidArgument msg)
    | Some F \<Rightarrow> \<exists>e'. apply_patch shown ps (e\<lparr>en_fields := set_field n v ?fs\<rparr>) = Inr e' \<and> map_of (en_fields e') = F \<and>
        distinct (map fst (en_fields e'))" if n: "map_of ?fs n \<noteq> None" for v
    proof -
      have "map_of (en_fields (e\<lparr>en_fields := set_field n v ?fs\<rparr>)) = (map_of ?fs)(n \<mapsto> v)"
          "distinct (map fst (en_fields (e\<lparr>en_fields := set_field n v ?fs\<rparr>)))"
        using step[OF n, of v] Cons.prems by simp_all
      from Cons.IH[OF this(2), unfolded this(1)] show ?thesis .
    qed
    have added: ?thesis if "map_of ?fs n \<noteq> None" "patched (p # ps) (map_of ?fs) = patched ps ((map_of ?fs)(n \<mapsto> v))"
        "apply_one shown p e = Inr (e\<lparr>en_fields := set_field n v ?fs\<rparr>)" for v
      unfolding that(2) apply_patch.simps that(3) bindE_def sum.case using set[OF that(1), of v] .
    consider a b where "map_of ?fs n = Some (VInt a)" "d = VInt b"
      | a b where "map_of ?fs n = Some (VFloat a)" "d = VFloat b"
      | "patched (p # ps) (map_of ?fs) = None" "\<exists>msg. apply_one shown p e = Inl (InvalidArgument msg)"
      by (cases "map_of ?fs n"; cases "the (map_of ?fs n)"; cases d) (auto simp: PIncrement apply_one_def entity_field_map_of)
    then show ?thesis
    proof cases
      case (1 a b)
      then show ?thesis by (intro added[of "VInt (a + b)"]) (simp_all add: PIncrement apply_one_def entity_field_map_of)
    next
      case (2 a b)
      then show ?thesis by (intro added[of "VFloat (f64_add a b)"]) (simp_all add: PIncrement apply_one_def entity_field_map_of)
    qed (auto simp: bindE_def)
  qed
qed simp

text \<open>
  C18: A conditional update of an entity of a known collection compares what was expected with the
  fields the entity has: nothing, that it has none, that they are those of an entity, or that one of them has a
  value. If this does not hold it returns the conflict and its reason; if a patch adds to a field that is absent or
  to a value of another type it returns an error; and in both cases nothing of the store has changed. Otherwise it
  returns the entity with the patched fields, added up with wrap-around for integers and in IEEE arithmetic for
  floats, stores exactly these fields where a put of them succeeds, and leaves every other entity as it was.
\<close>

theorem cas_is_checked_put:
  assumes "store_ok B es" and "id_ok eid" and "lookup_collection_id name (es_schema es) = Some c"
  shows "if \<not> expected_holds ex (es_named es c eid) then
       \<exists>es1. es_cas_update shown crc name eid ex ps es = (Inl (Conflict c eid (refusal ex)), es1) \<and> store_ok B es1 \<and>
         es_schema es1 = es_schema es \<and> es_hint es1 = es_hint es \<and> db_entry (es_db es1) = db_entry (es_db es)
     else case patched ps (es_named es c eid) of
       None \<Rightarrow> \<exists>msg es1. es_cas_update shown crc name eid ex ps es = (Inl (InvalidArgument msg), es1) \<and> store_ok B es1 \<and>
         es_schema es1 = es_schema es \<and> es_hint es1 = es_hint es \<and> db_entry (es_db es1) = db_entry (es_db es)
     | Some F \<Rightarrow> \<exists>e es1. map_of (en_fields e) = F \<and> distinct (map fst (en_fields e)) \<and>
         es_schema es1 = es_schema es \<and> es_hint es1 = es_hint es \<and> db_entry (es_db es1) = db_entry (es_db es) \<and>
         es_cas_update shown crc name eid ex ps es = bindS (es_put_entity crc c eid e) (\<lambda>_. retS e) es1 \<and>
         (put_ready crc B c eid e es1 \<longrightarrow>
           (\<exists>es2. es_cas_update shown crc name eid ex ps es = (Inr e, es2) \<and> store_ok B es2 \<and> es_named es2 c eid = F \<and>
              (\<forall>c' e'. id_ok e' \<longrightarrow> (c', e') \<noteq> (c, eid) \<longrightarrow> es_named es2 c' e' = es_named es c' e')))"
proof -
  let ?F = "es_named es c eid"
  obtain g db where g: "store_ok B (es\<lparr>es_db := db\<rparr>)" "db_entry db = db_entry (es_db es)" "has_fields g ?F" "entity_wf g"
     "es_cas_update shown crc name eid ex ps es =
       (case bindE (check_expected ex c eid g) (\<lambda>_. apply_patch shown ps (unwrap_or entity_new g)) of
          Inl err \<Rightarrow> (Inl err, es\<lparr>es_db := db\<rparr>)
        | Inr e \<Rightarrow> bindS (es_put_entity crc c eid e) (\<lambda>_. retS e) (es\<lparr>es_db := db\<rparr>))"
    using store_cas[OF assms] by blast
  let ?es1 = "es\<lparr>es_db := db\<rparr>"
  have named: "es_named ?es1 = es_named es" using g(2) by simp
  have p: "case patched ps ?F of
      None \<Rightarrow> \<exists>msg. apply_patch shown ps (unwrap_or entity_new g) = Inl (InvalidArgument msg)
    | Some F \<Rightarrow> \<exists>e'. apply_patch shown ps (unwrap_or entity_new g) = Inr e' \<and> map_of (en_fields e') = F \<and> distinct (map fst (en_fields e'))"
    using apply_patch_fields[OF fields_of_read(2)[OF g(3,4)], where ps = ps and shown = shown] unfolding fields_of_read(1)[OF g(3,4)] .
  note ch = check_expected_holds[OF g(3,4), of ex c eid]
  consider "\<not> expected_holds ex ?F" | "expected_holds ex ?F" "patched ps ?F = None"
    | F where "expected_holds ex ?F" "patched ps ?F = Some F" by fastforce
  then show ?thesis
  proof cases
    case 1
    then show ?thesis using g(1,2,5) ch by (auto simp: bindE_def intro!: exI[of _ ?es1])
  next
    case 2
    then show ?thesis using g(1,2,5) ch p by (auto simp: bindE_def intro!: exI[of _ ?es1])
  next
    case (3 F)
    then obtain e where e: "apply_patch shown ps (unwrap_or entity_new g) = Inr e" "map_of (en_fields e) = F" "distinct (map fst (en_fields e))"
      using p by auto
    have cas: "es_cas_update shown crc name eid ex ps es = bindS (es_put_entity crc c eid e) (\<lambda>_. retS e) ?es1"
      using g(5) ch 3(1) e(1) by (simp add: bindE_def)
    have "\<exists>es2. es_cas_update shown crc name eid ex ps es = (Inr e, es2) \<and> store_ok B es2 \<and> es_named es2 c eid = F \<and>
        (\<forall>c' e'. id_ok e' \<longrightarrow> (c', e') \<noteq> (c, eid) \<longrightarrow> es_named es2 c' e' = es_named es c' e')"
      if ready: "put_ready crc B c eid e ?es1"
    proof -
      obtain es2 where q: "es_put_entity crc c eid e ?es1 = (Inr (), es2)" "store_ok B es2"
          "es_named es2 c eid = map_of (rev (en_fields e))"
          "\<forall>c' e'. id_ok e' \<longrightarrow> (c', e') \<noteq> (c, eid) \<longrightarrow> es_named es2 c' e' = es_named ?es1 c' e'"
        using store_put[OF g(1) ready] by blast
      then show ?thesis using cas map_of_rev_distinct[OF e(3)] e(2) unfolding named by (simp add: bindS_def)
    qed
    then show ?thesis
      unfolding 3(2) option.case
      by (simp only: 3(1) not_True_eq_False if_False, intro exI[of _ e] exI[of _ ?es1]) (use e(2,3) cas g(2) in simp)
  qed
qed

theorem cas_is_checked_put_witness:
  "(\<exists>es. es_cas_update (\<lambda>_. []) (\<lambda>_. 0) (str ''p'') (str ''e'') (EField (str ''age'') (VInt 7)) [] sample_store =
       (Inl (Conflict 0 (str ''e'') ExpectedFieldMismatch), es)) \<and>
   (\<exists>msg es. es_cas_update (\<lambda>_. []) (\<lambda>_. 0) (str ''p'') (str ''e'') EAbsent [PIncrement (str ''age'') (VInt 1)] sample_store =
       (Inl (InvalidArgument msg), es)) \<and>
   (\<exists>e es. map_of (en_fields e) = [str ''age'' \<mapsto> VInt 8] \<and>
      es_cas_update (\<lambda>_. []) (\<lambda>_. 0) (str ''p'') (str ''e'') EAbsent [PSet (str ''age'') (VInt 7), PIncrement (str ''age'') (VInt 1)]
        sample_store = bindS (es_put_entity (\<lambda>_. 0) 0 (str ''e'') e) (\<lambda>_. retS e) es)"
proof -
  have c: "lookup_collection_id (str ''p'') (es_schema sample_store) = Some 0"
    by (simp add: sample_store_def sample_registry_def lookup_collection_id_def)
  have none: "es_named sample_store 0 (str ''e'') = Map.empty"
    by (simp add: named_value_def fval_def sample_store_def sample_entry fun_eq_iff split: option.split)
  note cas = cas_is_checked_put[OF sample_store_ok sample_eid c, of _ "\<lambda>_. []" "\<lambda>_. 0"]
  show ?thesis
    using cas[of "EField (str ''age'') (VInt 7)" "[]"] cas[of EAbsent "[PIncrement (str ''age'') (VInt 1)]"]
      cas[of EAbsent "[PSet (str ''age'') (VInt 7), PIncrement (str ''age'') (VInt 1)]"]
    unfolding none by (auto simp: expected_holds_def)
qed

section \<open>Inside a transaction\<close>

text \<open>
  An open transaction: the engine is the one it began on, and its view, the pending writes over the engine, is
  in order.
\<close>

abbreviation tx_vals :: "entity_store \<Rightarrow> transaction \<Rightarrow> bytes \<Rightarrow> bytes option" where
  "tx_vals es tx \<equiv> vals (tx_entry (es_db es, tx_pending tx))"

definition session_ok :: "database \<Rightarrow> entity_store \<Rightarrow> transaction \<Rightarrow> bool" where
  "session_ok db es tx \<longleftrightarrow> tx_status tx = Active \<and> tx_ok db (es_db es, tx_pending tx) \<and> schema_inv (es_schema es) \<and>
     view_ok (es_schema es) (tx_entry (es_db es, tx_pending tx))"

lemma tx_collection_known:
  "lookup_collection_id name (es_schema es) = Some c \<Longrightarrow> tx_collection name (es, tx) = (Inr c, es, tx)"
  by (simp add: tx_collection_def lookup_collection_id_def collection_id_def)

lemma session_get:
  assumes ok: "session_ok db es tx" and eid: "id_ok eid" and c: "lookup_collection_id name (es_schema es) = Some c"
  shows "\<exists>g es' tx'. tx_get name eid (es, tx) = (Inr g, es', tx') \<and> session_ok db es' tx' \<and>
     es_schema es' = es_schema es \<and> tx_vals es' tx' = tx_vals es tx \<and>
     has_fields g (named_value (es_schema es) (tx_vals es tx) c eid)"
proof -
  let ?s = "(es_db es, tx_pending tx)"
  have o: "tx_ok db ?s" "schema_inv (es_schema es)" "view_ok (es_schema es) (tx_entry ?s)" "tx_status tx = Active"
    using ok by (simp_all add: session_ok_def)
  obtain rows s1 where r: "mu_rows tx_mutator (Some (entity_prefix c eid)) (successor (entity_prefix c eid)) ?s = (Inr rows, s1)"
      "tx_ok db s1" "tx_entry s1 = tx_entry ?s" "entity_scan (tx_entry ?s) c eid rows"
    using tx.rows[OF o(1)] unfolding rows_of_def by blast
  obtain g s2 where g: "core_get_entity (es_schema es) tx_mutator c eid ?s = (Inr g, s2)"
      "has_fields g (named_value (es_schema es) (tx_vals es tx) c eid)"
    using tx.get_named[OF o(1-3) eid, of c] by blast
  have "core_get_entity (es_schema es) tx_mutator c eid ?s = (fst (core_get_entity (es_schema es) direct_scan_view c eid rows), s1)"
    using r(1) get_from_rows[OF r(4), of "es_schema es"]
    by (auto simp: core_get_entity_def entity_range_split bindS_def bindE_def split: sum.split)
  then have d: "fst (core_get_entity (es_schema es) direct_scan_view c eid rows) = Inr g" using g(1) by simp
  obtain db1 p1 where s1: "s1 = (db1, p1)" by (cases s1)
  have "tx_get name eid (es, tx) = (Inr g, es\<lparr>es_db := db1\<rparr>, tx\<lparr>tx_pending := p1\<rparr>)"
    using r(1) c o(4) d s1 by (simp add: tx_get_def check_active_def on_view_def bindS_def entity_range_split)
  then show ?thesis
    using r(2,3) o g(2) s1 unfolding session_ok_def
    by (intro exI[of _ g] exI[of _ "es\<lparr>es_db := db1\<rparr>"] exI[of _ "tx\<lparr>tx_pending := p1\<rparr>"]) simp
qed

lemma session_put:
  assumes ok: "session_ok db es tx" and eid: "id_ok eid" and c: "lookup_collection_id name (es_schema es) = Some c"
    and fields: "\<forall>(n, v) \<in> set (en_fields e). val_ok v" "unat (sc_next_field_id (es_schema es)) + length (en_fields e) < 2 ^ 32"
      "same_equalities (es_schema es) (tx_vals es tx) c eid (fst (assign_fields c (en_fields e) (es_schema es)))"
  shows "\<exists>es' tx'. tx_update name eid e (es, tx) = (Inr (), es', tx') \<and> session_ok db es' tx' \<and>
     lookup_collection_id name (es_schema es') = Some c \<and>
     named_value (es_schema es') (tx_vals es' tx') c eid = map_of (rev (en_fields e))"
proof -
  let ?s = "(es_db es, tx_pending tx)"
  have o: "tx_ok db ?s" "schema_inv (es_schema es)" "view_ok (es_schema es) (tx_entry ?s)" "tx_status tx = Active"
    using ok by (simp_all add: session_ok_def)
  obtain wr schema where wr: "assign_fields c (en_fields e) (es_schema es) = (wr, schema)"
    by (cases "assign_fields c (en_fields e) (es_schema es)")
  have h: "hint_ok (tx_vals es tx) c eid (case (None :: hints option) of Some h \<Rightarrow> h (c, eid) | None \<Rightarrow> None)"
    by (simp add: hint_ok_def)
  have k: "keys_ok (tx_entry ?s)" using o(3) by (simp add: view_ok_def)
  have fits: "put_fits (\<lambda>_. True) tx_mutator schema (case (None :: hints option) of Some h \<Rightarrow> h (c, eid) | None \<Rightarrow> None) c eid wr ?s"
    by (rule tx.put_fitsI[OF o(1) k eid h]) simp
  have same: "same_equalities (es_schema es) (tx_vals es tx) c eid wr" using fields(3) wr by simp
  obtain ws s' where p: "core_put_entity tx_mutator c eid e (es_schema es, None, ?s) = (Inr (), schema, None, s')"
      "tx_ok db s'" "schema_inv schema" "view_ok schema (tx_entry s')"
      "\<forall>n. (case lookup_field_id c n schema of None \<Rightarrow> None | Some f \<Rightarrow> fval (vals (tx_entry s')) c eid f) = map_of (rev (en_fields e)) n"
    using tx.put_entity[OF o(1-3) eid h fields(1,2) wr same fits] by auto
  obtain db1 p1 where s': "s' = (db1, p1)" by (cases s')
  have "tx_update name eid e (es, tx) = (Inr (), es\<lparr>es_schema := schema, es_db := db1\<rparr>, tx\<lparr>tx_pending := p1\<rparr>)"
    using p(1) o(4) s' tx_collection_known[OF c] by (simp add: tx_update_def check_active_def on_view_core_def bindS_def)
  moreover have "lookup_collection_id name schema = Some c"
    using assign_fields[OF o(2) fields(2) wr] c by (simp add: lookup_collection_id_def)
  ultimately show ?thesis
    using p(2-5)[unfolded s'] o(4) unfolding session_ok_def
    by (intro exI[of _ "es\<lparr>es_schema := schema, es_db := db1\<rparr>"] exI[of _ "tx\<lparr>tx_pending := p1\<rparr>"])
      (simp add: named_value_def fun_eq_iff)
qed

section \<open>The commit\<close>

lemma pending_direct:
  assumes "db_inv db" and "db_fits B db" and "\<forall>kv \<in> set (mt_map (db_memtable db)). fst kv \<noteq> []" and "commit_room B ps db"
  shows "db_inv (apply_pending ps db) \<and> db_fits B (apply_pending ps db) \<and>
     (\<forall>kv \<in> set (mt_map (db_memtable (apply_pending ps db))). fst kv \<noteq> []) \<and>
     table_size (mt_map (db_memtable (apply_pending ps db))) < 2 ^ 32 \<and>
     (\<forall>k. db_entry (apply_pending ps db) k = (case map_of (rev ps) k of Some v \<Rightarrow> Some v | None \<Rightarrow> db_entry db k))"
  using assms
proof (induction ps arbitrary: db)
  case (Cons p ps)
  obtain k v where p: "p = (k, v)" by (cases p)
  let ?db = "db\<lparr>db_memtable := mt_put k v (db_memtable db)\<rparr>"
  have room: "k \<noteq> []" "put_room B k v db" "commit_room B ps ?db" using Cons.prems(4) p by simp_all
  have mt: "mt_inv (db_memtable db)" using Cons.prems(1) by (simp add: db_inv_def)
  have "db_inv ?db" using db_inv_mem_put[OF Cons.prems(1), where key = k and v = v and w = "db_wal db"] by simp
  moreover have "db_fits B ?db"
    using db_fits_mem_put[OF Cons.prems(2), where key = k and v = v and w = "db_wal db"] room(2) by (simp add: put_room_def)
  moreover have "\<forall>kv \<in> set (mt_map (db_memtable ?db)). fst kv \<noteq> []"
  proof
    fix kv assume "kv \<in> set (mt_map (db_memtable ?db))"
    then have "fst kv \<in> fst ` set (bt_insert k v (mt_map (db_memtable db)))" by (simp add: mt_put_def Let_def)
    then show "fst kv \<noteq> []" using Cons.prems(3) room(1) by (auto simp: keys_bt_insert)
  qed
  moreover have "db_entry ?db k' = (if k' = k then Some v else db_entry db k')" for k'
    using mt by (simp add: entry_layers flip: mt_get_def split: option.split)
  ultimately show ?case
    using Cons.IH[of ?db] room(3) p by (auto simp: map_add_def split: option.split)
qed simp

lemma commit_direct:
  assumes ok: "direct_ok B db" and room: "commit_room B ps db"
  shows "\<exists>db1. commit_log crc tx ps db = (Inr (), db1) \<and> direct_ok B (commit_memory ps db1) \<and>
     db_value (commit_memory ps db1) = apply_writes ps (db_value db) \<and>
     (\<forall>k. k \<notin> fst ` set ps \<longrightarrow> db_entry db k = None \<longrightarrow> db_entry (commit_memory ps db1) k = None)"
proof -
  obtain w where c: "commit_log crc tx ps db = (Inr (), db\<lparr>db_wal := w\<rparr>)" using commit_log_correct by blast
  let ?db1 = "db\<lparr>db_wal := w\<rparr>" and ?p = "apply_pending ps (db\<lparr>db_wal := w\<rparr>)"
  have d1: "db_layers ?db1 = db_layers db" by (simp add: db_layers_def)
  then have e1: "db_entry ?db1 = db_entry db" by (simp add: db_entry_def fun_eq_iff)
  have "db_inv ?db1" "db_fits B ?db1" "\<forall>kv \<in> set (mt_map (db_memtable ?db1)). fst kv \<noteq> []" "commit_room B ps ?db1"
    using ok room commit_room_memory[of ?db1 db B ps] d1
    by (simp_all add: direct_ok_def db_inv_def db_fits_def mem_bounded_def)
  from pending_direct[OF this, unfolded e1] have p: "db_inv ?p" "db_fits B ?p" "\<forall>kv \<in> set (mt_map (db_memtable ?p)). fst kv \<noteq> []"
      "table_size (mt_map (db_memtable ?p)) < 2 ^ 32"
      "\<And>k. db_entry ?p k = (case map_of (rev ps) k of Some v \<Rightarrow> Some v | None \<Rightarrow> db_entry db k)"
    by simp_all
  have val: "db_value ?p = apply_writes ps (db_value db)"
    using p(5) by (auto simp: fun_eq_iff db_value_def apply_writes_map split: option.split)
  have none: "db_entry ?p k = None" if "k \<notin> fst ` set ps" "db_entry db k = None" for k
  proof -
    have "map_of (rev ps) k = None" using that(1) by (simp add: map_of_eq_None_iff)
    then show ?thesis using p(5) that(2) by simp
  qed
  have mb: "22 * memtable_limit (db_opts ?p) + B < 2 ^ 32" using ok by (simp add: direct_ok_def mem_bounded_def)
  have "direct_ok B (commit_memory ps ?db1) \<and> db_value (commit_memory ps ?db1) = db_value ?p \<and>
      (\<forall>k. db_entry ?p k = None \<longrightarrow> db_entry (commit_memory ps ?db1) k = None)"
  proof (cases "memtable_limit (db_opts ?p) \<le> mt_size_bytes (db_memtable ?p)")
    case True
    obtain d where "flush ?p = (Inr (), d)" "reorganised B ?p d" "mt_map (db_memtable d) = []"
      using flush_correct[OF p(1,2,4)] by blast
    then show ?thesis
      using True mb by (simp add: commit_memory_def flush_if_over_limit_def direct_ok_def mem_bounded_def reorganised_def)
  next
    case False
    then show ?thesis using p(1-3) mb by (simp add: commit_memory_def flush_if_over_limit_def direct_ok_def mem_bounded_def)
  qed
  then show ?thesis using c val none by (intro exI[of _ ?db1]) simp
qed

lemma vals_tx: "vals (tx_entry (db, ps)) = (\<lambda>k. case map_of ps k of Some v \<Rightarrow> v | None \<Rightarrow> db_value db k)"
  by (auto simp: tx_entry_def db_value_def fun_eq_iff split: option.split)

lemma forget_hints_Cons:
  "forget_hints ((k, v) # ps) h = forget_hints ps (case decode_entity_key k of Some (c, eid, _) \<Rightarrow> h((c, eid) := None) | None \<Rightarrow> h)"
  by (simp add: forget_hints_def)

lemma forget_hints_other:
  "forget_hints ps h (c, eid) = None \<or>
     forget_hints ps h (c, eid) = h (c, eid) \<and> (\<forall>kv \<in> set ps. \<forall>f. decode_entity_key (fst kv) \<noteq> Some (c, eid, f))"
proof (induction ps arbitrary: h)
  case Nil
  then show ?case by (simp add: forget_hints_def)
next
  case (Cons p ps)
  obtain k v where p: "p = (k, v)" by (cases p)
  show ?case
  proof (cases "decode_entity_key k")
    case None
    then show ?thesis using Cons[of h] by (simp add: p forget_hints_Cons)
  next
    case (Some x)
    obtain c' e' f where x: "x = (c', e', f)" by (cases x)
    define h' where "h' = h((c', e') := None)"
    have "forget_hints (p # ps) h = forget_hints ps h'" using Some x by (simp add: p forget_hints_Cons h'_def)
    moreover have "h' (c, eid) = (if c' = c \<and> e' = eid then None else h (c, eid))" by (auto simp: h'_def)
    ultimately show ?thesis using Cons[of h'] Some x by (auto simp: p split: if_splits)
  qed
qed

text \<open>After a commit no key is misplaced, and the hints that stay name what the pending writes did not touch.\<close>

lemma keys_after_commit:
  assumes "keys_ok (tx_entry (db, ps))" and "\<forall>k. k \<notin> fst ` set ps \<longrightarrow> db_entry db k = None \<longrightarrow> db_entry db' k = None"
  shows "keys_ok (db_entry db')"
  unfolding keys_ok_def
proof (intro allI impI)
  fix k assume "db_entry db' k \<noteq> None"
  then have "k \<in> fst ` set ps \<or> db_entry db k \<noteq> None" using assms(2) by auto
  then have "tx_entry (db, ps) k \<noteq> None" by (auto simp: tx_entry_def split: option.split)
    (metis map_of_eq_None_iff option.distinct(1) image_eqI fst_conv)
  then show "key_ok k" using assms(1) by (simp add: keys_ok_def)
qed

lemma hints_after_commit:
  assumes hints: "hints_ok hs vs" and vals: "\<And>k. map_of ps k = None \<Longrightarrow> vs' k = vs k"
  shows "hints_ok (forget_hints ps hs) vs'"
  unfolding hints_ok_def
proof (intro allI impI)
  fix c eid assume e: "id_ok eid"
  show "hint_ok vs' c eid (forget_hints ps hs (c, eid))"
  proof (cases "forget_hints ps hs (c, eid)")
    case None
    then show ?thesis by (simp add: hint_ok_def)
  next
    case (Some h)
    then have f: "hs (c, eid) = Some h" "\<forall>kv \<in> set ps. \<forall>f. decode_entity_key (fst kv) \<noteq> Some (c, eid, f)"
      using forget_hints_other[of ps hs c eid] by auto
    have "map_of ps (encode_entity_key c eid f) = None" for f
      using f(2) e entity_key_decode[of eid c f] by (force simp: map_of_eq_None_iff id_ok_def)
    then have "vs' (encode_entity_key c eid f) = vs (encode_entity_key c eid f)" for f by (rule vals)
    then show ?thesis using hints e f(1) Some unfolding hints_ok_def hint_ok_def by auto
  qed
qed

text \<open>
  C8: The commit of a transaction succeeds and makes exactly its view the state of the store: every
  field reads afterwards as it read inside the transaction, and the store is in order again.
\<close>

theorem commit_publishes:
  assumes "store_ok B es" and "session_ok db es tx" and "commit_room B (tx_pending tx) (es_db es)"
  shows "\<exists>es' tx'. tx_commit crc (es, tx) = (Inr (), es', tx') \<and> tx_status tx' = Committed \<and> store_ok B es' \<and>
     es_vals es' = tx_vals es tx \<and> es_named es' = named_value (es_schema es) (tx_vals es tx)"
proof -
  let ?ps = "tx_pending tx"
  have s: "tx_status tx = Active" "ssorted (map fst ?ps)" "view_ok (es_schema es) (tx_entry (es_db es, ?ps))"
    using assms(2) by (simp_all add: session_ok_def tx_ok_def)
  obtain es1 where p: "persist_schema es = (Inr (), es1)" "store_ok B es1" "db_entry (es_db es1) = db_entry (es_db es)"
      "\<forall>c n. lookup_field_id c n (es_schema es1) = lookup_field_id c n (es_schema es)"
    using persist_store[OF assms(1)] by blast
  have p': "db_memtable (es_db es1) = db_memtable (es_db es)" "sc_field_name (es_schema es1) = sc_field_name (es_schema es)"
      "sc_indexes (es_schema es1) = sc_indexes (es_schema es)" "es_hint es1 = es_hint es"
    using p(1) by (auto simp: persist_schema_def save_schema_def schema_save_def split: if_splits)
  have o: "direct_ok B (es_db es1)" "schema_inv (es_schema es1)" "hints_ok (es_hint es) (es_vals es)"
    using p(2-3) p'(4) by (simp_all add: store_ok_def)
  have room: "commit_room B ?ps (es_db es1)" using assms(3) commit_room_memory[OF p'(1)] by blast
  obtain db1 where c: "commit_log crc (tx_id tx) ?ps (es_db es1) = (Inr (), db1)" "direct_ok B (commit_memory ?ps db1)"
      "db_value (commit_memory ?ps db1) = apply_writes ?ps (db_value (es_db es1))"
      "\<forall>k. k \<notin> fst ` set ?ps \<longrightarrow> db_entry (es_db es1) k = None \<longrightarrow> db_entry (commit_memory ?ps db1) k = None"
    using commit_direct[OF o(1) room] by blast
  let ?es2 = "es1\<lparr>es_db := commit_memory ?ps db1, es_hint := forget_hints ?ps (es_hint es1)\<rparr>"
  have rev: "map_of (rev ?ps) = map_of ?ps" using s(2) by (simp add: map_of_rev_distinct ssorted_distinct)
  have v1: "db_value (es_db es1) = db_value (es_db es)" using p(3) by (simp add: db_value_def fun_eq_iff)
  have vals: "es_vals ?es2 = tx_vals es tx"
    unfolding vals_tx using c(3) by (simp add: v1 rev apply_writes_map db_value_def fun_eq_iff)
  have "keys_ok (db_entry (commit_memory ?ps db1))"
    using s(3) c(4) p(3) by (intro keys_after_commit[of "es_db es" ?ps]) (simp_all add: view_ok_def)
  then have "view_ok (es_schema es) (db_entry (commit_memory ?ps db1))"
    using s(3) vals by (simp add: view_ok_def)
  then have "view_ok (es_schema es1) (db_entry (commit_memory ?ps db1))" by (simp only: view_ok_schema[OF p'(2,3)])
  moreover have "hints_ok (forget_hints ?ps (es_hint es1)) (es_vals ?es2)"
    unfolding p'(4) by (rule hints_after_commit[OF o(3)]) (use vals in \<open>simp add: tx_entry_def fun_eq_iff\<close>)
  ultimately have "store_ok B ?es2" using o(2) c(2) by (simp add: store_ok_def)
  moreover have "tx_commit crc (es, tx) = (Inr (), ?es2, tx\<lparr>tx_status := Committed\<rparr>)"
    using s(1) p(1) c(1) by (simp add: tx_commit_def check_active_def bindS_def on_fst_def)
  moreover have "es_named ?es2 = named_value (es_schema es) (tx_vals es tx)"
    unfolding vals using p(4) by (simp add: named_value_def fun_eq_iff)
  ultimately show ?thesis using vals by (intro exI[of _ ?es2] exI[of _ "tx\<lparr>tx_status := Committed\<rparr>"]) simp
qed

definition sample_pending :: "item list" where
  "sample_pending = [(encode_entity_key 0 (str ''e'') 0, Some (encode (VInt 7))), (ikey 0 0 (VInt 7) (str ''e''), Some [])]"

definition sample_tx :: "item list \<Rightarrow> transaction" where
  "sample_tx ps = \<lparr>tx_id = 1, tx_pending = ps, tx_status = Active\<rparr>"

lemma sample_session: "session_ok (fresh_db default_options) sample_store (sample_tx sample_pending)"
proof -
  let ?e = "str ''e''"
  have len: "length ?e < 2 ^ 32" using sample_eid by (simp add: id_ok_def)
  have entry: "tx_entry (fresh_db default_options, sample_pending) k = map_of sample_pending k" for k
    by (simp add: tx_entry_def sample_entry split: option.split)
  have mp: "map_of sample_pending k = (if k = encode_entity_key 0 ?e 0 then Some (Some (encode (VInt 7)))
      else if k = ikey 0 0 (VInt 7) ?e then Some (Some []) else None)" for k
    by (simp add: sample_pending_def)
  have v: "vals (tx_entry (fresh_db default_options, sample_pending)) (encode_entity_key c e f) =
      (if c = 0 \<and> e = ?e \<and> f = 0 then Some (encode (VInt 7)) else None)" if "id_ok e" for c e f
    using that entity_key_inject[OF _ len, of e] by (auto simp: entry mp id_ok_def)
  have dec: "decode (encode (VInt 7)) = Inr (VInt 7)" using decode_encode_append[of "VInt 7" "[]"] by simp
  have "key_ok k" if "tx_entry (fresh_db default_options, sample_pending) k \<noteq> None" for k
    using that sample_eid key_ok.intros(1,2)[of ?e] by (auto simp: entry mp COMPOSITE_FIELD_MARKER_def split: if_splits)
  then have "keys_ok (tx_entry (fresh_db default_options, sample_pending))" by (simp add: keys_ok_def)
  moreover have "fields_ok sample_registry (vals (tx_entry (fresh_db default_options, sample_pending)))"
    using dec by (auto simp: fields_ok_def v field_name_def sample_registry_def split: if_splits)
  moreover have "complete (vals (tx_entry (fresh_db default_options, sample_pending))) 0 0"
    unfolding complete_def fval_def using dec
    by (auto simp: v split: if_splits) (simp add: entry mp)
  moreover have "ssorted (map fst sample_pending)" by (simp add: sample_pending_def ikey_def key_defs)
  moreover have "db_inv (fresh_db default_options)" using sample_direct by (simp add: direct_ok_def)
  ultimately show ?thesis
    using sample_registry_inv
    by (simp add: session_ok_def sample_tx_def sample_store_def tx_ok_def view_ok_def sample_indexed COMPOSITE_FIELD_MARKER_def)
qed

theorem commit_publishes_witness:
  "\<exists>es' tx'. tx_commit (\<lambda>_. 0) (sample_store, sample_tx sample_pending) = (Inr (), es', tx') \<and>
     es_vals es' (encode_entity_key 0 (str ''e'') 0) = Some (encode (VInt 7))"
proof -
  have r: "commit_room 1000 (tx_pending (sample_tx sample_pending)) (es_db sample_store)"
    by (simp add: sample_tx_def sample_pending_def sample_store_def put_room_def item_size_def entry_len_def ikey_def key_defs
      str_def fresh_db_def memtable_new_def mt_put_def table_size_def)
  have "tx_vals sample_store (sample_tx sample_pending) (encode_entity_key 0 (str ''e'') 0) = Some (encode (VInt 7))"
    by (simp add: tx_entry_def sample_tx_def sample_pending_def)
  then show ?thesis using commit_publishes[OF sample_store_ok sample_session r, of "\<lambda>_. 0"] by (metis (no_types, lifting))
qed

text \<open>
  C15: A transaction reads what it wrote, and only it does: the entity an update wrote is the one
  the next read of the transaction returns, while the engine is the one the transaction began on.
\<close>

theorem tx_reads_own_writes:
  assumes "session_ok db es tx" and "id_ok eid" and "lookup_collection_id name (es_schema es) = Some c"
    and "\<forall>(n, v) \<in> set (en_fields e). val_ok v" and "unat (sc_next_field_id (es_schema es)) + length (en_fields e) < 2 ^ 32"
    and "same_equalities (es_schema es) (tx_vals es tx) c eid (fst (assign_fields c (en_fields e) (es_schema es)))"
  shows "\<exists>es' tx' g st. tx_update name eid e (es, tx) = (Inr (), es', tx') \<and> same_but_cache db (es_db es') \<and>
     tx_get name eid (es', tx') = (Inr g, st) \<and> has_fields g (map_of (rev (en_fields e)))"
proof -
  obtain es' tx' where p: "tx_update name eid e (es, tx) = (Inr (), es', tx')" "session_ok db es' tx'"
      "lookup_collection_id name (es_schema es') = Some c"
      "named_value (es_schema es') (tx_vals es' tx') c eid = map_of (rev (en_fields e))"
    using session_put[OF assms] by blast
  obtain g st where "tx_get name eid (es', tx') = (Inr g, st)" "has_fields g (map_of (rev (en_fields e)))"
    using session_get[OF p(2) assms(2) p(3)] p(4) by auto
  moreover have "same_but_cache db (es_db es')" using p(2) by (simp add: session_ok_def tx_ok_def)
  ultimately show ?thesis using p(1) by blast
qed

theorem tx_reads_own_writes_witness:
  "\<exists>es' tx' g st. tx_update (str ''p'') (str ''e'') sample_entity (sample_store, sample_tx sample_pending) = (Inr (), es', tx') \<and>
     tx_get (str ''p'') (str ''e'') (es', tx') = (Inr g, st) \<and>
     has_fields g [str ''age'' \<mapsto> VInt 7, str ''name'' \<mapsto> VString (str ''x'')]"
proof -
  have c: "lookup_collection_id (str ''p'') (es_schema sample_store) = Some 0"
    by (simp add: sample_store_def sample_registry_def lookup_collection_id_def)
  have dec: "decode (encode (VInt 7)) = Inr (VInt 7)" using decode_encode_append[of "VInt 7" "[]"] by simp
  have "same_equalities (es_schema sample_store) (tx_vals sample_store (sample_tx sample_pending)) 0 (str ''e'')
      (fst (assign_fields 0 (en_fields sample_entity) (es_schema sample_store)))"
    using dec by (simp add: sample_store_def sample_assign same_equalities_def sample_indexed fval_def tx_entry_def sample_tx_def
      sample_pending_def same_equality_def)
  moreover have "\<forall>(n, v) \<in> set (en_fields sample_entity). val_ok v"
    by (simp add: sample_entity_def str_def utf8_valid_ascii)
  moreover have "unat (sc_next_field_id (es_schema sample_store)) + length (en_fields sample_entity) < 2 ^ 32"
    by (simp add: sample_store_def sample_registry_def sample_entity_def)
  moreover have "map_of (rev (en_fields sample_entity)) = [str ''age'' \<mapsto> VInt 7, str ''name'' \<mapsto> VString (str ''x'')]"
    by (auto simp: sample_entity_def str_def)
  ultimately show ?thesis using tx_reads_own_writes[OF sample_session sample_eid c] by metis
qed

end
