(* ===== verification/Composites.thy ===== *)
theory Composites
  imports Collections
begin

text \<open>
  The writes of a put as the engine performs them, and the two promises of the order they have: after any number
  of them no index of one field misses an entity, and after all of them no index of several fields does.
\<close>

section \<open>The keys of composite indexes\<close>

lemma ordered_append_inject:
  "encode_ordered v @ x = encode_ordered w @ y \<longleftrightarrow> encode_ordered v = encode_ordered w \<and> x = y"
  using ordered_len_delimits[of v x] ordered_len_delimits[of w y] by (auto simp: append_eq_append_conv)

lemma concat_ordered_inject:
  "length vs = length ws \<Longrightarrow> concat (map encode_ordered vs) @ x = concat (map encode_ordered ws) @ y \<longleftrightarrow>
     map encode_ordered vs = map encode_ordered ws \<and> x = y"
  by (induction vs ws rule: list_induct2) (auto simp: ordered_append_inject)

lemma composite_key_index:
  "encode_composite_index_key c i comps e = encode_composite_index_key c' i' comps' e' \<Longrightarrow> c = c' \<and> i = i'"
  by (simp add: key_defs)

lemma composite_key_inject:
  assumes "length vs = length ws"
  shows "encode_composite_index_key c i (map encode_ordered vs) e = encode_composite_index_key c' i' (map encode_ordered ws) e' \<longleftrightarrow>
     c = c' \<and> i = i' \<and> map encode_ordered vs = map encode_ordered ws \<and> e = e'"
  using concat_ordered_inject[OF assms, of "u32_le (as_u32 (length e)) @ e" "u32_le (as_u32 (length e')) @ e'"]
  by (auto simp: key_defs)

lemma components_Some:
  "components fids g = Some comps \<longleftrightarrow> (\<forall>f \<in> set fids. g f \<noteq> None) \<and> comps = map encode_ordered (map (\<lambda>f. the (g f)) fids)"
  by (induction fids arbitrary: comps) (auto split: option.splits)

text \<open>An index of several fields misses no entity that has all of them.\<close>

definition composite_complete :: "(bytes \<Rightarrow> bytes option) \<Rightarrow> 32 word \<Rightarrow> 32 word \<Rightarrow> 32 word list \<Rightarrow> bool" where
  "composite_complete V c i fids \<longleftrightarrow> (\<forall>e comps. id_ok e \<longrightarrow> components fids (fval V c e) = Some comps \<longrightarrow>
     V (encode_composite_index_key c i comps e) \<noteq> None)"

lemma own_composite:
  "own_key c eid (encode_composite_index_key c' i comps e) \<Longrightarrow> c' = c"
  unfolding own_key_def using composite_key_index by (auto dest: sym[of "encode_composite_index_key _ _ _ _"])

lemma composite_other_collection:
  assumes own: "\<forall>w \<in> set ws. own_key c eid (fst w)" and eid: "id_ok eid" and c: "c' \<noteq> c" and V: "composite_complete V c' i fids"
  shows "composite_complete (apply_writes ws V) c' i fids"
  unfolding composite_complete_def
proof (intro allI impI)
  fix e comps assume e: "id_ok e" "components fids (fval (apply_writes ws V) c' e) = Some comps"
  have "fval (apply_writes ws V) c' e = fval V c' e"
    using own_writes_other[OF own eid e(1), of c' V] c by (simp add: fval_def fun_eq_iff)
  then have "V (encode_composite_index_key c' i comps e) \<noteq> None" using V e unfolding composite_complete_def by simp
  moreover have "encode_composite_index_key c' i comps e \<notin> fst ` set ws"
    using own own_composite[of c eid c' i comps e] c by auto
  ultimately show "apply_writes ws V (encode_composite_index_key c' i comps e) \<noteq> None" by (simp add: apply_writes_other)
qed

section \<open>The composite indexes after a put\<close>

lemma first_written: "map_option snd (find (\<lambda>(f, _). f = g) wr) = map_of wr g"
  by (induction wr) auto

lemma tuples:
  assumes "old_read V c eid need old stale wr" and "set fids \<subseteq> set need"
  shows "composite_tuples wr old fids = (map (map_of wr) fids, map (fval V c eid) fids)"
  using assms by (auto simp: composite_tuples_def first_written old_read_def)

lemma tuple_key_components:
  "tuple_key c i eid (map g fids) = encode_composite_index_key c i (map encode_ordered (map (\<lambda>f. the (g f)) fids)) eid"
  by (simp add: tuple_key_def comp_def)

lemma present: "list_all (\<lambda>x. x \<noteq> None) (map g fids) \<longleftrightarrow> (\<forall>f \<in> set fids. g f \<noteq> None)"
  by (auto simp: list_all_iff)

text \<open>Tuples of values that agree on equality and encoding: equal tuples have equal entries.\<close>

lemma tuple_eq_encoded:
  assumes "\<forall>f \<in> set fids. \<forall>v w. g f = Some v \<longrightarrow> h f = Some w \<longrightarrow> same_equality v w"
    and "\<forall>f \<in> set fids. g f \<noteq> None"
  shows "tuple_eq (map g fids) (map h fids) \<longleftrightarrow> (\<forall>f \<in> set fids. h f \<noteq> None) \<and>
     map encode_ordered (map (\<lambda>f. the (g f)) fids) = map encode_ordered (map (\<lambda>f. the (h f)) fids)"
  using assms
proof (induction fids)
  case (Cons f fids)
  obtain v where "g f = Some v" using Cons.prems(2) by auto
  then show ?case using Cons by (cases "h f") (auto simp: tuple_eq_def same_equality_def)
qed (simp add: tuple_eq_def)

text \<open>The put of an entity with distinct fields.\<close>

lemma put_composite:
  assumes old: "old_read V c eid need old stale wr" and eid: "id_ok eid"
    and marker: "COMPOSITE_FIELD_MARKER \<notin> set idx" and dist: "distinct (map fst wr)" and vals: "\<forall>(f, v) \<in> set wr. val_ok v"
    and i: "(i, fids) \<in> set cs" "\<And>fids'. (i, fids') \<in> set cs \<Longrightarrow> fids' = fids" "set fids \<subseteq> set need"
    and same: "\<forall>f \<in> set fids. \<forall>v w. map_of wr f = Some v \<longrightarrow> fval V c eid f = Some w \<longrightarrow> same_equality v w"
    and V: "composite_complete V c i fids"
  shows "composite_complete (apply_writes (put_writes c eid idx cs old stale wr) V) c i fids"
  unfolding composite_complete_def
proof (intro allI impI)
  let ?ws = "put_writes c eid idx cs old stale wr"
  let ?V = "apply_writes ?ws V"
  let ?W1 = "index_writes c eid idx old wr @ composite_writes c eid cs old wr"
  let ?W3 = "index_removals c eid idx old wr @ composite_removals c eid cs old wr"
  fix e comps assume e: "id_ok e" "components fids (fval ?V c e) = Some comps"
  let ?k = "encode_composite_index_key c i comps e"
  have len: "length eid < 2 ^ 32" using eid by (simp add: id_ok_def)
  have own: "\<forall>w \<in> set ?ws. own_key c eid (fst w)" using put_writes_own[OF old marker] by blast
  have new: "fval ?V c eid = map_of wr"
    using fval_fields[of ?V c eid wr] fields_after[OF old len] vals map_of_rev_distinct[OF dist] by (simp add: fun_eq_iff)
  note tp = tuples[OF old i(3)]
  have here: "comps = map encode_ordered (map (\<lambda>f. the (map_of wr f)) fids) \<and> (\<forall>f \<in> set fids. map_of wr f \<noteq> None)" if "e = eid"
    using e(2) that by (simp add: new components_Some)
  have eq: "tuple_eq (map (map_of wr) fids) (map (fval V c eid) fids) \<longleftrightarrow> (\<forall>f \<in> set fids. fval V c eid f \<noteq> None) \<and>
      comps = map encode_ordered (map (\<lambda>f. the (fval V c eid f)) fids)" if "e = eid"
    using tuple_eq_encoded[OF same] here[OF that] by auto
  have kept: "?k \<notin> fst ` set ?W3"
  proof
    assume "?k \<in> fst ` set ?W3"
    moreover have "?k \<notin> fst ` set (index_removals c eid idx old wr)"
    proof
      assume "?k \<in> fst ` set (index_removals c eid idx old wr)"
      then obtain f v where f: "f \<in> set idx" "?k = ikey c f v eid" by (auto simp: index_removals_def)
      then have "f \<noteq> COMPOSITE_FIELD_MARKER" using marker by blast
      then show False using f(2) keys_differ(5) by blast
    qed
    ultimately have "?k \<in> fst ` set (composite_removals c eid cs old wr)" by (simp add: image_Un)
    then obtain i' fids' where r: "(i', fids') \<in> set cs" "?k = tuple_key c i' eid (snd (composite_tuples wr old fids'))"
        "\<not> tuple_eq (fst (composite_tuples wr old fids')) (snd (composite_tuples wr old fids'))"
        "list_all (\<lambda>x. x \<noteq> None) (snd (composite_tuples wr old fids'))"
      by (auto simp: composite_removals_def)
    have "i' = i" using r(2) composite_key_index unfolding tuple_key_def by blast
    then have f: "fids' = fids" using r(1) i(2) by simp
    have k: "?k = encode_composite_index_key c i (map encode_ordered (map (\<lambda>f. the (fval V c eid f)) fids)) eid"
      using r(2) tp f \<open>i' = i\<close> by (simp only: snd_conv tuple_key_components)
    have "comps = map encode_ordered (map (\<lambda>f. the (fval ?V c e f)) fids)" using e(2) unfolding components_Some by blast
    then have "e = eid" "comps = map encode_ordered (map (\<lambda>f. the (fval V c eid f)) fids)"
      using k composite_key_inject[of "map (\<lambda>f. the (fval ?V c e f)) fids" "map (\<lambda>f. the (fval V c eid f)) fids" c i e c i eid] by auto
    then show False using eq r(3)[unfolded f tp fst_conv snd_conv] r(4)[unfolded f tp snd_conv present] by blast
  qed
  have "?V ?k = apply_writes ?W1 V ?k"
  proof -
    have field: "?k \<notin> fst ` set (field_writes c eid stale wr)" using old by (auto simp: field_writes_def old_read_def)
    have "?V ?k = apply_writes ?W3 (apply_writes (field_writes c eid stale wr) (apply_writes ?W1 V)) ?k" by (simp add: put_writes_def)
    also have "\<dots> = apply_writes (field_writes c eid stale wr) (apply_writes ?W1 V) ?k" by (rule apply_writes_other[OF kept])
    also have "\<dots> = apply_writes ?W1 V ?k" by (rule apply_writes_other[OF field])
    finally show ?thesis .
  qed
  moreover have "V ?k \<noteq> None \<or> ?k \<in> fst ` set ?W1"
  proof (cases "e = eid")
    case False
    have "fval ?V c e = fval V c e"
      using own_writes_other[OF own eid e(1), of c V] False by (simp add: fval_def fun_eq_iff)
    then show ?thesis using V e unfolding composite_complete_def by simp
  next
    case True
    show ?thesis
    proof (cases "tuple_eq (map (map_of wr) fids) (map (fval V c eid) fids)")
      case True
      then have "components fids (fval V c eid) = Some comps" using eq[OF \<open>e = eid\<close>] unfolding components_Some by blast
      then show ?thesis using V e(1) \<open>e = eid\<close> unfolding composite_complete_def by blast
    next
      case False
      have "?k = tuple_key c i eid (map (map_of wr) fids)" using here[OF True] True by (simp only: tuple_key_components)
      moreover have "(i, fids) \<in> set (filter (\<lambda>(i, fids). \<not> tuple_eq (fst (composite_tuples wr old fids)) (snd (composite_tuples wr old fids)) \<and>
          list_all (\<lambda>x. x \<noteq> None) (fst (composite_tuples wr old fids))) cs)"
        using i(1) False here[OF True] by (simp add: tp list_all_iff)
      ultimately show ?thesis by (force simp: composite_writes_def tp)
    qed
  qed
  moreover have "\<forall>w \<in> set ?W1. snd w \<noteq> None" by (auto simp: writes_defs)
  ultimately show "?V ?k \<noteq> None" using apply_writes_some[of ?W1 V ?k] by simp
qed

section \<open>The writes of a put on the engine\<close>

text \<open>Reading does not change the engine but for its cache.\<close>

interpretation frame: kv_read "direct_mutator crc" "\<lambda>db. direct_ok B db \<and> same_but_cache db0 db" db_entry
  for crc B db0
proof
  fix s :: database and k start stop
  assume ok: "direct_ok B s \<and> same_but_cache db0 s"
  then have i: "db_inv s" by (simp add: direct_ok_def)
  show "\<exists>s'. mu_get (direct_mutator crc) k s = (Inr (flat (db_entry s k)), s') \<and> (direct_ok B s' \<and> same_but_cache db0 s') \<and>
      db_entry s' = db_entry s"
    using db_get_correct[OF i, of k] ok direct_ok_cache[of B s] same_but_cache_trans[of db0 s] same_but_cacheD(4)
    by (auto simp: direct_mutator_def db_value_def)
  obtain out s' where d: "mu_scan (direct_mutator crc) start stop s = (Inr (map Inr out), s')" "db_inv s'" "same_but_cache s s'"
      "ssorted (map fst out)" "map_of out = (\<lambda>k. if in_range start stop k then db_entry s k else None)"
    using direct_scan[OF i, of crc start stop] by blast
  show "\<exists>out s'. mu_scan (direct_mutator crc) start stop s = (Inr (map Inr out), s') \<and> (direct_ok B s' \<and> same_but_cache db0 s') \<and>
      db_entry s' = db_entry s \<and> ssorted (map fst out) \<and> map_of out = (\<lambda>k. if in_range start stop k then db_entry s k else None)"
    using d ok direct_ok_cache[of B s s'] same_but_cache_trans[of db0 s s'] same_but_cacheD(4)[OF d(3)]
    by (intro exI[of _ out] exI[of _ s']) simp
qed

lemma persist_dir:
  assumes "direct_ok B (es_db es)"
  shows "\<exists>es'. persist_schema es = (Inr (), es') \<and> es_db es' = (es_db es)\<lparr>db_dir := db_dir (es_db es')\<rparr> \<and>
     db_entry (es_db es') = db_entry (es_db es)"
proof (cases "is_changed (es_schema es)")
  case True
  let ?d = "fs_replace (with_extension SCHEMA_FILE (str ''schema.tmp'')) SCHEMA_FILE (schema_text (es_schema es)) (db_dir (es_db es))"
  have "db_entry ((es_db es)\<lparr>db_dir := ?d\<rparr>) = db_entry (es_db es)"
    using direct_ok_files[OF assms, of ?d] by simp
  then show ?thesis using True by (simp add: persist_schema_def save_schema_def schema_save_def)
qed (simp add: persist_schema_def)

lemma put_trace:
  assumes ok: "store_ok B es" and ready: "put_ready crc B c eid e es"
    and wr: "assign_fields c (en_fields e) (es_schema es) = (wr, schema)"
  defines "idx \<equiv> indexed_field_ids (es_schema es) c" and "cs \<equiv> composite_index_defs (es_schema es) c"
  shows "\<exists>old stale db1 db2 es'. same_but_cache (es_db es) db1 \<and> direct_ok B db1 \<and>
     old_read (es_vals es) c eid (idx @ concat (map snd cs)) old stale wr \<and> distinct (map fst old) \<and>
     (\<forall>w \<in> set (put_writes c eid idx cs old stale wr). direct_room B w) \<and>
     forS (put_writes c eid idx cs old stale wr) (mu_write (direct_mutator crc)) db1 = (Inr (), db2) \<and>
     es_put_entity crc c eid e es = (Inr (), es') \<and> es_db es' = db2\<lparr>db_dir := db_dir (es_db es')\<rparr> \<and>
     es_vals es' = apply_writes (put_writes c eid idx cs old stale wr) (es_vals es)"
proof -
  have o: "direct_ok B (es_db es)" "schema_inv (es_schema es)" "keys_ok (db_entry (es_db es))" "hints_ok (es_hint es) (es_vals es)"
    using ok by (simp_all add: store_ok_def view_ok_def)
  have r: "id_ok eid" "unat (sc_next_field_id (es_schema es)) + length (en_fields e) < 2 ^ 32"
      "put_fits (direct_room B) (direct_mutator crc) schema (es_hint es (c, eid)) c eid wr (es_db es)"
    using ready wr by (simp_all add: put_ready_def)
  have ix: "indexed_field_ids schema c = idx" "composite_index_defs schema c = cs"
    using assign_fields[OF o(2) r(2) wr] indexed_same composites_same unfolding idx_def cs_def by blast+
  have hint: "hint_ok (es_vals es) c eid (es_hint es (c, eid))" using o(4) r(1) by (simp add: hints_ok_def)
  obtain old stale db1 where old: "old_state (direct_mutator crc) (es_hint es (c, eid)) c eid (idx @ concat (map snd cs)) wr (es_db es) =
        (Inr (old, stale), db1)" "direct_ok B db1" "same_but_cache (es_db es) db1" "db_entry db1 = db_entry (es_db es)"
      "old_read (es_vals es) c eid (idx @ concat (map snd cs)) old stale wr" "distinct (map fst old)"
    using frame.old_state[where crc = crc and B = B and ?db0.0 = "es_db es" and need = "idx @ concat (map snd cs)" and wr = wr,
        OF _ o(3) r(1) hint] o(1) by auto
  let ?ws = "put_writes c eid idx cs old stale wr"
  have room: "\<forall>w \<in> set ?ws. direct_room B w" using r(3) old(1) by (simp add: put_fits_def Let_def list_all_iff ix)
  obtain db2 where w: "forS ?ws (mu_write (direct_mutator crc)) db1 = (Inr (), db2)" "direct_ok B db2"
      "vals (db_entry db2) = apply_writes ?ws (vals (db_entry db1))"
    using direct.writes[OF old(2) room] by blast
  have "put_body (direct_mutator crc) schema (es_hint es (c, eid)) c eid wr (es_db es) = (Inr (), db2)"
    unfolding put_body_writes Let_def ix using old(1) w(1) by (simp add: bindS_def)
  moreover have "utf8_valid eid" using r(1) by (simp add: id_ok_def)
  ultimately have p: "es_put_entity crc c eid e es =
      persist_schema \<lparr>es_db = db2, es_schema = schema, es_hint = (es_hint es)((c, eid) \<mapsto> map fst wr)\<rparr>"
    using wr by (simp add: es_put_entity_def on_core_def core_put_entity_def bindS_def unwrap_or_def)
  obtain es' where "es_put_entity crc c eid e es = (Inr (), es')" "es_db es' = db2\<lparr>db_dir := db_dir (es_db es')\<rparr>"
      "db_entry (es_db es') = db_entry db2"
    using persist_dir[of B "\<lparr>es_db = db2, es_schema = schema, es_hint = (es_hint es)((c, eid) \<mapsto> map fst wr)\<rparr>"] w(2) unfolding p by auto
  moreover have "es_vals es' = apply_writes ?ws (es_vals es)" using w(3) old(4) calculation(3) by simp
  ultimately show ?thesis using old room w(1) by blast
qed

text \<open>What the composite indexes need of a put: distinct fields, and values on which equality and encoding agree.\<close>

definition composites_complete :: "entity_store \<Rightarrow> bool" where
  "composites_complete es \<longleftrightarrow> (\<forall>c i fids. (i, fids) \<in> set (composite_index_defs (es_schema es) c) \<longrightarrow>
     composite_complete (es_vals es) c i fids)"

definition composites_ready :: "32 word \<Rightarrow> bytes \<Rightarrow> entity \<Rightarrow> entity_store \<Rightarrow> bool" where
  "composites_ready c eid e es \<longleftrightarrow> distinct (map fst (en_fields e)) \<and> composites_complete es \<and>
     (\<forall>(f, v) \<in> set (fst (assign_fields c (en_fields e) (es_schema es))).
        \<forall>(i, fids) \<in> set (composite_index_defs (es_schema es) c). f \<in> set fids \<longrightarrow>
          (case fval (es_vals es) c eid f of None \<Rightarrow> True | Some ov \<Rightarrow> same_equality v ov))"

lemma distinct_numbers:
  assumes "schema_inv s" and "list_all2 (\<lambda>(n, v) (f, w). v = w \<and> lookup_field_id c n s = Some f) fs wr" and "distinct (map fst fs)"
  shows "distinct (map fst wr)"
  using assms(2,3)
proof (induction fs wr rule: list_all2_induct)
  case (Cons nv fs fw wr)
  obtain n v where nv: "nv = (n, v)" by (cases nv)
  obtain f w where fw: "fw = (f, w)" by (cases fw)
  have n: "lookup_field_id c n s = Some f" "n \<notin> fst ` set fs" using Cons nv fw by auto
  have "f \<noteq> g" if g: "(g, u) \<in> set wr" for g u
  proof -
    obtain m x where "(m, x) \<in> set fs" "lookup_field_id c m s = Some g"
      using Cons.hyps(2) g by (induction fs wr rule: list_all2_induct) auto
    then show ?thesis using lookup_inject[OF assms(1), of c m g n] n by force
  qed
  then have "f \<notin> fst ` set wr" by force
  then show ?case using Cons fw nv by simp
qed simp

lemma composite_ids_unique:
  assumes "schema_inv s" and "(i, fids) \<in> set (composite_index_defs s c)" and "(i, fids') \<in> set (composite_index_defs s c)"
  shows "fids' = fids"
proof -
  have "distinct (map ix_id (sc_indexes s))" using assms(1) by (simp add: schema_inv_defs ssorted_distinct)
  then have "inj_on ix_id (set (sc_indexes s))" by (simp add: distinct_map)
  then show ?thesis using assms(2,3) by (auto simp: composite_index_defs_def inj_on_def)
qed

text \<open>
  C9: A put reads the old state of the entity, which changes nothing but the cache, and then makes a
  fixed sequence of writes to the engine, the last of which leaves the engine as the put leaves it, its log
  included, but for the file of the registry. After any number of these writes every index of one field that is
  ready still has an entry for every value of its field; at the end the store is in order, and every index of several
  fields that is ready has an entry for every entity with all of its fields, if it had before, the fields given are
  distinct, and old and new values are equal if and only if they are encoded alike, as all but zeros and NaNs are.
\<close>

theorem put_keeps_indexes:
  assumes "store_ok B es" and "put_ready crc B c eid e es"
  shows "\<exists>db1 ws db2 es'. same_but_cache (es_db es) db1 \<and>
     forS ws (mu_write (direct_mutator crc)) db1 = (Inr (), db2) \<and>
     es_put_entity crc c eid e es = (Inr (), es') \<and> es_db es' = db2\<lparr>db_dir := db_dir (es_db es')\<rparr> \<and>
     (\<forall>n. \<exists>db. forS (take n ws) (mu_write (direct_mutator crc)) db1 = (Inr (), db) \<and>
        (\<forall>c' f. f \<in> set (indexed_field_ids (es_schema es) c') \<longrightarrow> complete (vals (db_entry db)) c' f)) \<and>
     store_ok B es' \<and> (composites_ready c eid e es \<longrightarrow> composites_complete es')"
proof -
  let ?idx = "indexed_field_ids (es_schema es) c" and ?cs = "composite_index_defs (es_schema es) c"
  let ?need = "?idx @ concat (map snd ?cs)"
  obtain wr schema where wr: "assign_fields c (en_fields e) (es_schema es) = (wr, schema)"
    by (cases "assign_fields c (en_fields e) (es_schema es)")
  have o: "schema_inv (es_schema es)" "view_ok (es_schema es) (db_entry (es_db es))" using assms(1) by (simp_all add: store_ok_def)
  have r: "id_ok eid" "\<forall>(n, v) \<in> set (en_fields e). val_ok v" "same_equalities (es_schema es) (es_vals es) c eid wr"
      "unat (sc_next_field_id (es_schema es)) + length (en_fields e) < 2 ^ 32"
    using assms(2) wr by (simp_all add: put_ready_def)
  note a = assign_fields[OF o(1) r(4) wr]
  have vals: "\<forall>(f, v) \<in> set wr. val_ok v" using list_all2_vals a r(2) by blast
  obtain old stale db1 db2 es' where t: "same_but_cache (es_db es) db1" "direct_ok B db1"
      "old_read (es_vals es) c eid ?need old stale wr" "distinct (map fst old)"
      "\<forall>w \<in> set (put_writes c eid ?idx ?cs old stale wr). direct_room B w"
      "forS (put_writes c eid ?idx ?cs old stale wr) (mu_write (direct_mutator crc)) db1 = (Inr (), db2)"
      "es_put_entity crc c eid e es = (Inr (), es')" "es_db es' = db2\<lparr>db_dir := db_dir (es_db es')\<rparr>"
      "es_vals es' = apply_writes (put_writes c eid ?idx ?cs old stale wr) (es_vals es)"
    using put_trace[OF assms wr] by blast
  let ?ws = "put_writes c eid ?idx ?cs old stale wr"
  have marker: "COMPOSITE_FIELD_MARKER \<notin> set ?idx" using o(2) by (auto simp: view_ok_def)
  have own: "\<forall>w \<in> set ?ws. own_key c eid (fst w)" using put_writes_own[OF t(3) marker] by blast
  have v1: "vals (db_entry db1) = es_vals es" using same_but_cacheD(4)[OF t(1)] by simp
  have along: "indexes_along (es_schema es) ?ws (es_vals es)" by (rule put_indexes_along[OF o(2) r(1) vals r(3) t(3,4)])
  have "\<exists>db. forS (take n ?ws) (mu_write (direct_mutator crc)) db1 = (Inr (), db) \<and>
      (\<forall>c' f. f \<in> set (indexed_field_ids (es_schema es) c') \<longrightarrow> complete (vals (db_entry db)) c' f)" for n
  proof -
    obtain db where "forS (take n ?ws) (mu_write (direct_mutator crc)) db1 = (Inr (), db)"
        "vals (db_entry db) = apply_writes (take n ?ws) (vals (db_entry db1))"
      using direct.writes[OF t(2), of "take n ?ws" crc] t(5) by (auto dest: in_set_takeD)
    then show ?thesis using along unfolding all_along_take v1 by auto
  qed
  moreover obtain es2 where s: "es_put_entity crc c eid e es = (Inr (), es2)" "store_ok B es2"
      "registry_grows (es_schema es) (es_schema es2)"
    using store_put[OF assms] by blast
  then have es2: "es2 = es'" using t(7) by simp
  moreover have "composites_complete es'" if ready: "composites_ready c eid e es"
    unfolding composites_complete_def
  proof (intro allI impI)
    fix c' i fids assume "(i, fids) \<in> set (composite_index_defs (es_schema es') c')"
    then have i: "(i, fids) \<in> set (composite_index_defs (es_schema es) c')"
      using s(3) composites_same unfolding es2 registry_grows_def by metis
    then have V: "composite_complete (es_vals es) c' i fids"
      using ready by (auto simp: composites_ready_def composites_complete_def)
    show "composite_complete (es_vals es') c' i fids"
    proof (cases "c' = c")
      case False
      then show ?thesis unfolding t(9) using composite_other_collection[OF own r(1) False V] by simp
    next
      case True
      have dist: "distinct (map fst wr)"
        using distinct_numbers[of schema c "en_fields e" wr] a ready by (auto simp: composites_ready_def)
      have same: "\<forall>f \<in> set fids. \<forall>v w. map_of wr f = Some v \<longrightarrow> fval (es_vals es) c eid f = Some w \<longrightarrow> same_equality v w"
        using ready i True wr unfolding composites_ready_def by (fastforce dest!: map_of_SomeD)
      show ?thesis
        unfolding t(9) True
        by (rule put_composite[OF t(3) r(1) marker dist vals _ _ _ same])
          (use i True composite_ids_unique[OF o(1)] V in \<open>auto\<close>)
    qed
  qed
  ultimately show ?thesis using t(1,6-8) s(2) by (intro exI[of _ db1] exI[of _ ?ws] exI[of _ db2] exI[of _ es']) blast
qed

text \<open>A collection with an index of one field and one of two, and the put of its first entity.\<close>

definition pair_registry :: schema where
  "pair_registry = \<lparr>sc_next_collection_id = 1, sc_next_field_id = 2, sc_collection_name = [(0, str ''p'')],
     sc_collection_id_of = [(str ''p'', 0)], sc_field_name = [((0, 0), str ''age''), ((0, 1), str ''name'')],
     sc_field_id_of = [((0, str ''age''), 0), ((0, str ''name''), 1)], sc_changed = True, sc_next_index_id = 2,
     sc_indexes = [\<lparr>ix_id = 0, ix_collection_id = 0, ix_field_ids = [0], ix_status = Ready\<rparr>,
       \<lparr>ix_id = 1, ix_collection_id = 0, ix_field_ids = [0, 1], ix_status = Ready\<rparr>]\<rparr>"

definition pair_store :: entity_store where
  "pair_store = sample_store\<lparr>es_schema := pair_registry\<rparr>"

lemma pair_indexed:
  "indexed_field_ids pair_registry c = (if c = 0 then [0] else [])"
  "composite_index_defs pair_registry c = (if c = 0 then [(1, [0, 1])] else [])"
  by (simp_all add: pair_registry_def indexed_field_ids_def composite_index_defs_def)

lemma pair_assign:
  "assign_fields 0 (en_fields sample_entity) pair_registry = ([(0, VInt 7), (1, VString (str ''x''))], pair_registry)"
  by (simp add: sample_entity_def pair_registry_def field_id_def Let_def str_def)

lemma pair_none: "fval (vals (db_entry (fresh_db opts))) c e f = None"
  by (simp add: fval_def sample_entry)

lemma pair_writes:
  assumes "map_of old 0 = None" and "\<And>k. k \<in> set stale \<Longrightarrow> length k = 14"
    and "w \<in> set (put_writes 0 (str ''e'') [0] [(1, [0, 1])] old stale [(0, VInt 7), (1, VString (str ''x''))])"
  shows "direct_room 1000 w"
proof -
  have "(0, v) \<notin> set old" for v using assms(1) by (auto simp: map_of_eq_None_iff image_iff)
  then show ?thesis
    using assms
    by (fastforce simp: put_writes_def writes_defs composite_tuples_def tuple_key_def direct_room_def item_size_def entry_len_def
        ikey_def key_defs str_def split: if_splits)
qed

lemma pair_store_ok: "store_ok 1000 pair_store"
proof -
  have "schema_inv pair_registry"
    by (auto simp: pair_registry_def schema_inv_defs one_to_one_def below_def str_def less_prod_def)
  moreover have "view_ok pair_registry (db_entry (fresh_db default_options))"
    by (simp add: view_ok_def keys_ok_def fields_ok_def complete_def fval_def sample_entry pair_indexed COMPOSITE_FIELD_MARKER_def)
  ultimately show ?thesis
    using sample_direct by (simp add: store_ok_def pair_store_def sample_store_def hints_ok_def hint_ok_def)
qed

lemma pair_ready: "put_ready crc 1000 0 (str ''e'') sample_entity pair_store"
proof -
  let ?V = "vals (db_entry (fresh_db default_options))" and ?wr = "[(0, VInt 7), (1, VString (str ''x''))]"
  have key: "length (encode_entity_key 0 (str ''e'') f) = 14" for f
    by (simp add: key_defs str_def)
  have "put_fits (direct_room 1000) (direct_mutator crc) pair_registry None 0 (str ''e'') ?wr (fresh_db default_options)"
  proof (rule direct.put_fitsI[OF sample_direct _ sample_eid])
    show "keys_ok (db_entry (fresh_db default_options))" by (simp add: keys_ok_def sample_entry)
    fix old stale w
    assume "old_read ?V 0 (str ''e'') (indexed_field_ids pair_registry 0 @ concat (map snd (composite_index_defs pair_registry 0))) old stale ?wr"
      and w: "w \<in> set (put_writes 0 (str ''e'') (indexed_field_ids pair_registry 0) (composite_index_defs pair_registry 0) old stale ?wr)"
    then have "map_of old 0 = None" "\<And>k. k \<in> set stale \<Longrightarrow> length k = 14"
      by (auto simp: old_read_def pair_indexed pair_none key)
    with w show "direct_room 1000 w" using pair_writes[of old stale w] by (simp add: pair_indexed)
  qed (simp add: hint_ok_def)
  then show ?thesis
    using sample_eid
    by (simp add: put_ready_def pair_assign pair_store_def sample_store_def)
      (simp add: sample_entity_def pair_registry_def same_equalities_def pair_none str_def utf8_valid_ascii)
qed

lemma pair_composites: "composites_ready 0 (str ''e'') sample_entity pair_store"
proof -
  have "distinct (map fst (en_fields sample_entity))" by (simp add: sample_entity_def str_def)
  moreover have "composites_complete pair_store"
    by (auto simp: composites_complete_def composite_complete_def pair_store_def sample_store_def pair_indexed pair_none split: if_splits)
  ultimately show ?thesis by (simp add: composites_ready_def pair_store_def sample_store_def pair_assign pair_indexed pair_none)
qed

theorem put_keeps_indexes_witness:
  "\<exists>db1 ws es'. (\<forall>n. \<exists>db. forS (take n ws) (mu_write (direct_mutator (\<lambda>_. 0))) db1 = (Inr (), db) \<and> complete (vals (db_entry db)) 0 0) \<and>
     es_put_entity (\<lambda>_. 0) 0 (str ''e'') sample_entity pair_store = (Inr (), es') \<and> store_ok 1000 es' \<and> composites_complete es'"
proof -
  have "0 \<in> set (indexed_field_ids (es_schema pair_store) 0)" by (simp add: pair_store_def pair_indexed)
  then show ?thesis using put_keeps_indexes[OF pair_store_ok pair_ready, of "\<lambda>_. 0"] pair_composites by metis
qed

end
