(* ===== verification/Building.thy ===== *)
theory Building
  imports Collections
begin

text \<open>
  The building of indexes: the clearing of a range of keys, the rebuilding of an index from the fields of all entities,
  the registry while an index is built, and the creation of an index on a store.
\<close>

section \<open>Scans and deletions of the engine\<close>

lemma direct_rows:
  assumes "direct_ok B db"
  obtains out db' where "db_scan a b db = (Inr out, db')" "direct_ok B db'" "db_entry db' = db_entry db"
    "\<And>k x. (k, x) \<in> set out \<longleftrightarrow> in_range a b k \<and> x = vals (db_entry db) k \<and> x \<noteq> None"
proof -
  have "db_inv db" using assms by (simp add: direct_ok_def)
  from db_scan_correct[OF this, of a b] obtain out db' where
    o: "db_scan a b db = (Inr out, db')" "db_inv db'" "same_but_cache db db'" "ssorted (map fst out)"
      "\<And>k. map_of out k = (if in_range a b k then map_option Some (db_value db k) else None)" by blast
  have "(k, x) \<in> set out \<longleftrightarrow> map_of out k = Some x" for k x
    using o(4) by (simp add: ssorted_distinct)
  then have "(k, x) \<in> set out \<longleftrightarrow> in_range a b k \<and> x = vals (db_entry db) k \<and> x \<noteq> None" for k x
    by (auto simp: o(5) db_value_def split: if_splits)
  then show thesis using that o(1) direct_ok_cache[OF assms o(3,2)] same_but_cacheD(4)[OF o(3)] by blast
qed

text \<open>The deletion of every key with a prefix.\<close>

lemma clear_prefix:
  assumes ok: "direct_ok B db" and room: "\<And>k. prefix p k \<Longrightarrow> vals (db_entry db) k \<noteq> None \<Longrightarrow> direct_room B (k, None)"
  obtains db' where "bindS (db_scan (Some p) (successor p)) (\<lambda>rows. forS rows (\<lambda>(key, _). db_delete crc key)) db = (Inr (), db')"
    "direct_ok B db'" "vals (db_entry db') = (\<lambda>k. if prefix p k then None else vals (db_entry db) k)"
    "\<And>k. db_entry db k = None \<Longrightarrow> db_entry db' k = None"
proof -
  obtain out db1 where o: "db_scan (Some p) (successor p) db = (Inr out, db1)" "direct_ok B db1" "db_entry db1 = db_entry db"
      "\<And>k x. (k, x) \<in> set out \<longleftrightarrow> in_range (Some p) (successor p) k \<and> x = vals (db_entry db) k \<and> x \<noteq> None"
    using direct_rows[OF ok] by blast
  let ?ws = "map (\<lambda>(k, _). (k, None)) out :: (bytes \<times> bytes option) list"
  have k: "k \<in> fst ` set ?ws \<longleftrightarrow> prefix p k \<and> vals (db_entry db) k \<noteq> None" for k
  proof -
    have "fst ` set ?ws = fst ` set out" by (simp add: image_image case_prod_beta)
    then have "k \<in> fst ` set ?ws \<longleftrightarrow> (\<exists>x. (k, x) \<in> set out)" by force
    then show ?thesis unfolding o(4) prefix_range by auto
  qed
  have f: "forS out (\<lambda>(key, _). db_delete crc key) = forS ?ws (mu_write (direct_mutator crc))"
    using forS_writes[of out "\<lambda>(key, _). db_delete crc key" "\<lambda>_. True" "direct_mutator crc" "\<lambda>(k, _). (k, None)"]
    by (auto simp: mu_write_def direct_mutator_def)
  have "\<forall>w \<in> set ?ws. direct_room B w"
  proof
    fix w assume w: "w \<in> set ?ws"
    then have "fst w \<in> fst ` set ?ws" by (rule imageI)
    then show "direct_room B w" using k room[of "fst w"] w by (cases w) auto
  qed
  from direct.writes[OF o(2) this, of crc] obtain db' where
    d: "forS ?ws (mu_write (direct_mutator crc)) db1 = (Inr (), db')" "direct_ok B db'"
      "vals (db_entry db') = apply_writes ?ws (vals (db_entry db1))"
      "\<forall>k. k \<notin> fst ` set ?ws \<longrightarrow> db_entry db1 k = None \<longrightarrow> db_entry db' k = None" by blast
  have "vals (db_entry db') k = (if prefix p k then None else vals (db_entry db) k)" for k
  proof (cases "k \<in> fst ` set ?ws")
    case True
    have "apply_writes ?ws (vals (db_entry db1)) k = None" by (rule apply_writes_same[OF _ True]) auto
    then show ?thesis using True k fun_cong[OF d(3), of k] by simp
  next
    case False
    then show ?thesis using k[of k] fun_cong[OF d(3), of k] apply_writes_other[OF False, of "vals (db_entry db1)"] o(3) by auto
  qed
  moreover have "db_entry db' k = None" if "db_entry db k = None" for k
  proof -
    have "k \<notin> fst ` set ?ws" unfolding k using that by simp
    then show ?thesis using spec[OF d(4), of k] that o(3) by simp
  qed
  moreover have "bindS (db_scan (Some p) (successor p)) (\<lambda>rows. forS rows (\<lambda>(key, _). db_delete crc key)) db = (Inr (), db')"
    using o(1) d(1) by (simp add: bindS_def f)
  ultimately show thesis using that[of db'] d(2) by blast
qed

section \<open>The rebuilding of an index\<close>

lemma vals_some: "vals E k \<noteq> None \<Longrightarrow> E k \<noteq> None"
  by (cases "E k") simp_all

lemma keys_ok_mono: "keys_ok E \<Longrightarrow> (\<And>k. E k = None \<Longrightarrow> E' k = None) \<Longrightarrow> keys_ok E'"
  unfolding keys_ok_def by metis

lemma entity_not_field_prefix [simp]: "\<not> prefix (index_field_prefix c f) (encode_entity_key c' e g)"
  by (simp add: key_defs)

lemma field_prefix_key [simp]: "prefix (index_field_prefix c f) (ikey c' g v e) \<longleftrightarrow> c' = c \<and> g = f"
proof
  show "prefix (index_field_prefix c f) (ikey c' g v e) \<Longrightarrow> c' = c \<and> g = f"
    by (auto simp: prefix_def ikey_def key_defs)
  show "c' = c \<and> g = f \<Longrightarrow> prefix (index_field_prefix c f) (ikey c' g v e)"
    using field_prefix_range[of c f v e] by (simp add: prefix_range)
qed

text \<open>The rows of a collection are fields of its entities.\<close>

lemma collection_row:
  assumes keys: "keys_ok E" and flds: "fields_ok schema (vals E)"
    and row: "prefix (collection_prefix c) k" "vals E k = Some b"
  obtains e g v where "k = encode_entity_key c e g" "id_ok e" "decode b = Inr v" "fval (vals E) c e g = Some v"
proof -
  have "key_ok k" using keys row(2) vals_some[of E k] by (auto simp: keys_ok_def)
  then obtain e g where k: "id_ok e" "k = encode_entity_key c e g"
    using row(1) by cases (auto simp: prefix_def key_defs ikey_def)
  then obtain v where "decode b = Inr v" using flds row(2) unfolding fields_ok_def by blast
  then show thesis using that[of e g v] k row(2) by (simp add: fval_def)
qed

text \<open>The entries an index should have.\<close>

definition entry_of_index :: "(bytes \<Rightarrow> bytes option) \<Rightarrow> 32 word \<Rightarrow> 32 word \<Rightarrow> bytes \<Rightarrow> bool" where
  "entry_of_index V c f k \<longleftrightarrow> (\<exists>e v. id_ok e \<and> fval V c e f = Some v \<and> k = ikey c f v e)"

lemma index_entries_complete:
  "(\<And>k. entry_of_index V c f k \<Longrightarrow> V k \<noteq> None) \<Longrightarrow> complete V c f"
  unfolding complete_def entry_of_index_def by blast

text \<open>The write the rebuilding makes of a row.\<close>

definition entry_write :: "(bytes \<Rightarrow> bytes option) \<Rightarrow> 32 word \<Rightarrow> 32 word \<Rightarrow> item \<Rightarrow> bytes \<times> bytes option" where
  "entry_write V c f row = (case decode_entity_key (fst row) of
     Some (_, e, _) \<Rightarrow> (ikey c f (the (fval V c e f)) e, Some []) | None \<Rightarrow> ([], Some []))"

definition is_field :: "32 word \<Rightarrow> 32 word \<Rightarrow> item \<Rightarrow> bool" where
  "is_field c f row \<longleftrightarrow> (case decode_entity_key (fst row) of Some (ec, _, ef) \<Rightarrow> ec = c \<and> ef = f | None \<Rightarrow> False)"

lemma rebuild_rows:
  assumes keys: "keys_ok E" and flds: "fields_ok schema (vals E)"
    and rows: "\<And>k x. (k, x) \<in> set rows \<longleftrightarrow> prefix (collection_prefix c) k \<and> x = vals E k \<and> x \<noteq> None"
  shows "forS rows (\<lambda>(key, value). case decode_entity_key key of
       None \<Rightarrow> retS ()
     | Some (ec, ee, ef) \<Rightarrow>
         if ec \<noteq> c \<or> ef \<noteq> f then retS ()
         else (case value of
           None \<Rightarrow> retS ()
         | Some b \<Rightarrow> bindS (liftS (decode b)) (\<lambda>v. db_put crc (encode_index_key c f (encode_ordered v) ee) []))) =
     forS (map (entry_write (vals E) c f) (filter (is_field c f) rows)) (mu_write (direct_mutator crc))"
    and "fst ` set (map (entry_write (vals E) c f) (filter (is_field c f) rows)) = Collect (entry_of_index (vals E) c f)"
proof -
  have row: "\<exists>e g v b. k = encode_entity_key c e g \<and> id_ok e \<and> x = Some b \<and> decode b = Inr v \<and> fval (vals E) c e g = Some v \<and>
      decode_entity_key k = Some (c, e, g)" if r: "(k, x) \<in> set rows" for k x
  proof -
    obtain b where b: "x = Some b" "prefix (collection_prefix c) k" "vals E k = Some b" using r rows[of k x] by (cases x) auto
    obtain e g v where "k = encode_entity_key c e g" "id_ok e" "decode b = Inr v" "fval (vals E) c e g = Some v"
      using collection_row[OF keys flds b(2,3)] .
    then show ?thesis using b(1) entity_key_decode[of e c g] by (auto simp: id_ok_def)
  qed
  show "forS rows (\<lambda>(key, value). case decode_entity_key key of
       None \<Rightarrow> retS ()
     | Some (ec, ee, ef) \<Rightarrow>
         if ec \<noteq> c \<or> ef \<noteq> f then retS ()
         else (case value of
           None \<Rightarrow> retS ()
         | Some b \<Rightarrow> bindS (liftS (decode b)) (\<lambda>v. db_put crc (encode_index_key c f (encode_ordered v) ee) []))) =
     forS (map (entry_write (vals E) c f) (filter (is_field c f) rows)) (mu_write (direct_mutator crc))"
  proof (rule forS_writes)
    fix x assume x: "x \<in> set rows"
    obtain k y where kx: "x = (k, y)" by fastforce
    obtain e g v b where r: "id_ok e" "y = Some b" "decode b = Inr v" "fval (vals E) c e g = Some v"
        "decode_entity_key k = Some (c, e, g)"
      using row[of k y] x kx by blast
    show "(case x of (key, value) \<Rightarrow> case decode_entity_key key of
       None \<Rightarrow> retS ()
     | Some (ec, ee, ef) \<Rightarrow>
         if ec \<noteq> c \<or> ef \<noteq> f then retS ()
         else (case value of
           None \<Rightarrow> retS ()
         | Some b \<Rightarrow> bindS (liftS (decode b)) (\<lambda>v. db_put crc (encode_index_key c f (encode_ordered v) ee) []))) =
       (if is_field c f x then mu_write (direct_mutator crc) (entry_write (vals E) c f x) else retS ())"
      using r by (auto simp: kx is_field_def entry_write_def mu_write_def direct_mutator_def ikey_def bindS_def liftS_def fun_eq_iff)
  qed
  show "fst ` set (map (entry_write (vals E) c f) (filter (is_field c f) rows)) = Collect (entry_of_index (vals E) c f)"
  proof (intro set_eqI iffI)
    fix q assume "q \<in> fst ` set (map (entry_write (vals E) c f) (filter (is_field c f) rows))"
    then obtain k x where m: "(k, x) \<in> set rows" "is_field c f (k, x)" "q = fst (entry_write (vals E) c f (k, x))" by auto
    obtain e g v b where "id_ok e" "fval (vals E) c e g = Some v" "decode_entity_key k = Some (c, e, g)"
      using row[OF m(1)] by blast
    then show "q \<in> Collect (entry_of_index (vals E) c f)"
      using m(2,3) by (auto simp: is_field_def entry_write_def entry_of_index_def)
  next
    fix q assume "q \<in> Collect (entry_of_index (vals E) c f)"
    then obtain e v where e: "id_ok e" "fval (vals E) c e f = Some v" "q = ikey c f v e" by (auto simp: entry_of_index_def)
    let ?k = "encode_entity_key c e f"
    obtain b where b: "vals E ?k = Some b" using e(2) by (auto simp: fval_def split: option.splits)
    have "prefix (collection_prefix c) ?k" by (simp add: prefix_def key_defs)
    then have "(?k, Some b) \<in> set rows" using rows[of ?k "Some b"] b by simp
    moreover have d: "decode_entity_key ?k = Some (c, e, f)" using entity_key_decode e(1) by (simp add: id_ok_def)
    moreover have "q = fst (entry_write (vals E) c f (?k, Some b))" using e d by (simp add: entry_write_def)
    moreover have "is_field c f (?k, Some b)" using d by (simp add: is_field_def)
    ultimately show "q \<in> fst ` set (map (entry_write (vals E) c f) (filter (is_field c f) rows))" by force
  qed
qed

text \<open>Room to clear an index and to write the entries it should have.\<close>

definition build_room :: "nat \<Rightarrow> 32 word \<Rightarrow> 32 word \<Rightarrow> (bytes \<Rightarrow> bytes option) \<Rightarrow> bool" where
  "build_room B c f V \<longleftrightarrow>
     (\<forall>k. prefix (index_field_prefix c f) k \<longrightarrow> V k \<noteq> None \<longrightarrow> direct_room B (k, None)) \<and>
     (\<forall>k. entry_of_index V c f k \<longrightarrow> direct_room B (k, Some []))"

lemma entry_of_index_cong:
  "(\<And>e. V' (encode_entity_key c e f) = V (encode_entity_key c e f)) \<Longrightarrow> entry_of_index V' c f = entry_of_index V c f"
  by (simp add: entry_of_index_def fval_def fun_eq_iff)

lemma index_clear_scan:
  "index_clear crc c f = bindS (db_scan (Some (index_field_prefix c f)) (successor (index_field_prefix c f)))
     (\<lambda>rows. forS rows (\<lambda>(key, _). db_delete crc key))"
  by (simp add: index_clear_def index_range_def Let_def)

lemma rebuild_index:
  assumes ok: "direct_ok B db" and keys: "keys_ok (db_entry db)" and flds: "fields_ok schema (vals (db_entry db))"
    and room: "build_room B c f (vals (db_entry db))" and m: "f \<noteq> COMPOSITE_FIELD_MARKER"
  obtains db' where "index_rebuild crc c f db = (Inr (), db')" "direct_ok B db'" "keys_ok (db_entry db')"
    "\<And>k. \<not> prefix (index_field_prefix c f) k \<Longrightarrow> vals (db_entry db') k = vals (db_entry db) k"
    "\<And>k. prefix (index_field_prefix c f) k \<Longrightarrow> vals (db_entry db') k \<noteq> None \<longleftrightarrow> entry_of_index (vals (db_entry db)) c f k"
proof -
  let ?V = "vals (db_entry db)" and ?p = "index_field_prefix c f"
  obtain db1 where c1: "index_clear crc c f db = (Inr (), db1)" "direct_ok B db1"
      "vals (db_entry db1) = (\<lambda>k. if prefix ?p k then None else ?V k)"
      "\<And>k. db_entry db k = None \<Longrightarrow> db_entry db1 k = None"
  proof -
    have "direct_room B (k, None)" if "prefix ?p k" "?V k \<noteq> None" for k using room that by (simp add: build_room_def)
    from clear_prefix[OF ok this, where crc = crc] show thesis using that unfolding index_clear_scan by blast
  qed
  have k1: "keys_ok (db_entry db1)" by (rule keys_ok_mono[OF keys]) (rule c1(4))
  have ent: "vals (db_entry db1) (encode_entity_key c' e g) = ?V (encode_entity_key c' e g)" for c' e g
    using fun_cong[OF c1(3), of "encode_entity_key c' e g"] by simp
  then have f1: "fields_ok schema (vals (db_entry db1))" using flds by (simp add: fields_ok_def)
  have en: "entry_of_index (vals (db_entry db1)) c f = entry_of_index ?V c f" by (rule entry_of_index_cong) (rule ent)
  obtain rows db2 where r: "db_scan (Some (collection_prefix c)) (successor (collection_prefix c)) db1 = (Inr rows, db2)"
      "direct_ok B db2" "db_entry db2 = db_entry db1"
      "\<And>k x. (k, x) \<in> set rows \<longleftrightarrow> prefix (collection_prefix c) k \<and> x = vals (db_entry db1) k \<and> x \<noteq> None"
    by (rule direct_rows[OF c1(2), of "Some (collection_prefix c)" "successor (collection_prefix c)", unfolded prefix_range]) (rule that; assumption)
  note rr = rebuild_rows[OF k1 f1 r(4), where f = f, unfolded en]
  let ?ws = "map (entry_write (vals (db_entry db1)) c f) (filter (is_field c f) rows)"
  have some: "\<forall>w \<in> set ?ws. snd w = Some []"
    by (auto simp: entry_write_def split: option.split)
  have "\<forall>w \<in> set ?ws. direct_room B w"
  proof
    fix w assume w: "w \<in> set ?ws"
    then have "entry_of_index ?V c f (fst w)" using rr(2) by blast
    moreover have "w = (fst w, Some [])" using bspec[OF some w] by (simp add: prod_eq_iff)
    ultimately show "direct_room B w" using room unfolding build_room_def by metis
  qed
  from direct.writes[OF r(2) this, of crc] obtain db3 where
    d: "forS ?ws (mu_write (direct_mutator crc)) db2 = (Inr (), db3)" "direct_ok B db3"
      "vals (db_entry db3) = apply_writes ?ws (vals (db_entry db2))"
      "\<forall>k. k \<notin> fst ` set ?ws \<longrightarrow> db_entry db2 k = None \<longrightarrow> db_entry db3 k = None" by blast
  have wk: "k \<in> fst ` set ?ws \<longleftrightarrow> entry_of_index ?V c f k" for k using rr(2) by blast
  have "vals (db_entry db3) k = ?V k" if "\<not> prefix ?p k" for k
  proof -
    have "k \<notin> fst ` set ?ws" unfolding wk using that by (auto simp: entry_of_index_def)
    from apply_writes_other[OF this, of "vals (db_entry db2)"] show ?thesis
      using that fun_cong[OF d(3), of k] fun_cong[OF c1(3), of k] by (simp add: r(3))
  qed
  moreover have "vals (db_entry db3) k \<noteq> None \<longleftrightarrow> entry_of_index ?V c f k" if "prefix ?p k" for k
  proof -
    have "\<forall>w \<in> set ?ws. snd w \<noteq> None" using some by simp
    from apply_writes_some[OF this, of "vals (db_entry db2)" k] show ?thesis
      using that fun_cong[OF d(3), of k] fun_cong[OF c1(3), of k] wk[of k] by (simp add: r(3))
  qed
  moreover have "keys_ok (db_entry db3)"
    unfolding keys_ok_def
  proof (intro allI impI)
    fix k assume k: "db_entry db3 k \<noteq> None"
    show "key_ok k"
    proof (cases "k \<in> fst ` set ?ws")
      case True
      then show ?thesis unfolding wk entry_of_index_def using m key_ok.intros(2) by blast
    next
      case False
      then have "db_entry db1 k \<noteq> None" using spec[OF d(4), of k] k r(3) by auto
      then show ?thesis using k1 by (simp add: keys_ok_def)
    qed
  qed
  moreover have "index_rebuild crc c f db = (Inr (), db3)"
    using c1(1) r(1) d(1) by (simp add: index_rebuild_def bindS_def Let_def rr(1))
  ultimately show thesis using that[of db3] d(2) by blast
qed

section \<open>The registry while an index is built\<close>

lemma indexed_set:
  "set (indexed_field_ids s c) =
     {ix_field_ids d ! 0 | d. (d \<in> set (sc_indexes s) \<and> ix_status d = Ready) \<and> ix_collection_id d = c \<and> length (ix_field_ids d) = 1}"
  by (auto simp: indexed_field_ids_def)

lemma composite_set:
  "set (composite_index_defs s c) =
     {(ix_id d, ix_field_ids d) | d. (d \<in> set (sc_indexes s) \<and> ix_status d = Ready) \<and> ix_collection_id d = c \<and> 2 \<le> length (ix_field_ids d)}"
  by (auto simp: composite_index_defs_def)

lemma created_index:
  assumes inv: "schema_inv s" and room: "sc_next_index_id s + 1 \<noteq> 0" and c: "create_composite_index c fids s = (i, s1)"
  shows "schema_inv s1" and "sc_field_name s1 = sc_field_name s" and "sc_field_id_of s1 = sc_field_id_of s"
    and "\<exists>d \<in> set (sc_indexes s1). ix_id d = i \<and> ix_collection_id d = c \<and> ix_field_ids d = fids"
    and "indexed_field_ids s1 = indexed_field_ids s" and "composite_index_defs s1 = composite_index_defs s"
proof -
  show "schema_inv s1" using create_index_inv[OF inv room, of c fids] c by simp
  show "sc_field_name s1 = sc_field_name s" "sc_field_id_of s1 = sc_field_id_of s"
      "indexed_field_ids s1 = indexed_field_ids s" "composite_index_defs s1 = composite_index_defs s"
    using c by (auto simp: create_composite_index_def Let_def indexed_field_ids_def composite_index_defs_def fun_eq_iff split: option.splits)
  show "\<exists>d \<in> set (sc_indexes s1). ix_id d = i \<and> ix_collection_id d = c \<and> ix_field_ids d = fids"
    using c by (auto simp: create_composite_index_def Let_def find_Some_iff split: option.splits)
qed

lemma find_key: "distinct (map g xs) \<Longrightarrow> x \<in> set xs \<Longrightarrow> find (\<lambda>y. g y = g x) xs = Some x"
  by (induction xs) (auto simp: image_iff)

lemma update_first_set:
  "distinct (map g xs) \<Longrightarrow> x \<in> set xs \<Longrightarrow> set (update_first (\<lambda>y. g y = g x) h xs) = insert (h x) (set xs - {x})"
proof (induction xs)
  case (Cons y xs)
  show ?case
  proof (cases "g y = g x")
    case True
    then have "y = x" using Cons.prems by (auto simp: image_iff)
    moreover have "x \<notin> set xs" using Cons.prems \<open>y = x\<close> by auto
    ultimately show ?thesis by simp
  next
    case False
    then show ?thesis using Cons by auto
  qed
qed simp

lemma readied_index:
  assumes inv: "schema_inv s" and d: "d \<in> set (sc_indexes s)"
  shows "set (sc_indexes (set_index_ready (ix_id d) s)) = insert (d\<lparr>ix_status := Ready\<rparr>) (set (sc_indexes s) - {d})"
    and "sc_field_name (set_index_ready i s) = sc_field_name s" and "sc_field_id_of (set_index_ready i s) = sc_field_id_of s"
proof -
  have "ssorted (map ix_id (sc_indexes s))" using inv by (simp add: schema_inv_defs)
  then have dis: "distinct (map ix_id (sc_indexes s))" by (rule ssorted_distinct)
  have f: "find (\<lambda>d'. ix_id d' = ix_id d) (sc_indexes s) = Some d"
    using dis d by (rule find_key)
  show "set (sc_indexes (set_index_ready (ix_id d) s)) = insert (d\<lparr>ix_status := Ready\<rparr>) (set (sc_indexes s) - {d})"
  proof (cases "ix_status d = Ready")
    case True
    then have e: "d\<lparr>ix_status := Ready\<rparr> = d" by (cases d) simp
    show ?thesis unfolding e using f True d by (auto simp: set_index_ready_def)
  next
    case False
    then show ?thesis using f update_first_set[OF dis d] by (simp add: set_index_ready_def)
  qed
  show "sc_field_name (set_index_ready i s) = sc_field_name s" "sc_field_id_of (set_index_ready i s) = sc_field_id_of s"
    by (auto simp: set_index_ready_def split: option.split)
qed

lemma readied_sets:
  assumes inv: "schema_inv s" and d: "d \<in> set (sc_indexes s)"
  shows "set (indexed_field_ids (set_index_ready (ix_id d) s) c) =
      set (indexed_field_ids s c) \<union> (if c = ix_collection_id d \<and> length (ix_field_ids d) = 1 then {ix_field_ids d ! 0} else {})"
    and "set (composite_index_defs (set_index_ready (ix_id d) s) c) =
      set (composite_index_defs s c) \<union>
      (if c = ix_collection_id d \<and> 2 \<le> length (ix_field_ids d) then {(ix_id d, ix_field_ids d)} else {})"
proof -
  let ?s = "set_index_ready (ix_id d) s" and ?d = "d\<lparr>ix_status := Ready\<rparr>"
  have "ix_status d = Ready \<Longrightarrow> ?d = d" by (cases d) simp
  then have ready: "x \<in> set (sc_indexes ?s) \<and> ix_status x = Ready \<longleftrightarrow> x \<in> set (sc_indexes s) \<and> ix_status x = Ready \<or> x = ?d" for x
    unfolding readied_index(1)[OF assms] using d by auto
  have col: "{g x | x. (x \<in> set (sc_indexes ?s) \<and> ix_status x = Ready) \<and> P x} =
      {g x | x. (x \<in> set (sc_indexes s) \<and> ix_status x = Ready) \<and> P x} \<union> (if P ?d then {g ?d} else {})" for g and P
    unfolding ready by auto
  show "set (indexed_field_ids ?s c) =
      set (indexed_field_ids s c) \<union> (if c = ix_collection_id d \<and> length (ix_field_ids d) = 1 then {ix_field_ids d ! 0} else {})"
    unfolding indexed_set col by simp
  show "set (composite_index_defs ?s c) =
      set (composite_index_defs s c) \<union>
      (if c = ix_collection_id d \<and> 2 \<le> length (ix_field_ids d) then {(ix_id d, ix_field_ids d)} else {})"
    unfolding composite_set col by simp
qed

section \<open>The creation of an index\<close>

text \<open>Replacing the registry by one that names the fields alike and has no index the view is not complete for.\<close>

lemma store_ok_registry:
  assumes "store_ok B es" and "schema_inv s" and "sc_field_name s = sc_field_name (es_schema es)"
    and "\<And>c f. f \<in> set (indexed_field_ids s c) \<Longrightarrow>
       f \<in> set (indexed_field_ids (es_schema es) c) \<or> f \<noteq> COMPOSITE_FIELD_MARKER \<and> complete (es_vals es) c f"
  shows "store_ok B (es\<lparr>es_schema := s\<rparr>)"
proof -
  have "f \<noteq> COMPOSITE_FIELD_MARKER \<and> complete (es_vals es) c f" if "f \<in> set (indexed_field_ids s c)" for c f
    using assms(1) assms(4)[OF that] by (auto simp: store_ok_def view_ok_def)
  then show ?thesis using assms(1-3) by (simp add: store_ok_def view_ok_def fields_ok_def field_name_def)
qed

text \<open>
  Replacing the engine by one in which the fields are the same, the keys well-formed and the indexes complete.
\<close>

lemma store_ok_engine:
  assumes "store_ok B es" and "direct_ok B db" and "keys_ok (db_entry db)"
    and same: "\<And>c e f. vals (db_entry db) (encode_entity_key c e f) = es_vals es (encode_entity_key c e f)"
    and "\<And>c f. f \<in> set (indexed_field_ids (es_schema es) c) \<Longrightarrow> complete (vals (db_entry db)) c f"
  shows "store_ok B (es\<lparr>es_db := db\<rparr>)"
  using assms unfolding store_ok_def view_ok_def fields_ok_def hints_ok_def hint_ok_def by simp

lemma fval_cong: "(\<And>f. V' (encode_entity_key c e f) = V (encode_entity_key c e f)) \<Longrightarrow> fval V' c e f = fval V c e f"
  by (simp add: fval_def)

lemma create_index_built:
  assumes ok: "store_ok B es" and next_id: "sc_next_index_id (es_schema es) + 1 \<noteq> 0" and m: "f \<noteq> COMPOSITE_FIELD_MARKER"
    and room: "build_room B c f (es_vals es)"
  shows "\<exists>es'. es_create_index crc c f es = (Inr (), es') \<and> store_ok B es' \<and>
     (\<forall>c e n. es_named es' c e n = es_named es c e n) \<and>
     (\<forall>k. es_vals es' k \<noteq> None \<longleftrightarrow> (if prefix (index_field_prefix c f) k then entry_of_index (es_vals es) c f k else es_vals es k \<noteq> None)) \<and>
     (\<forall>c'. set (indexed_field_ids (es_schema es') c') =
        set (indexed_field_ids (es_schema es) c') \<union> (if c' = c then {f} else {}))"
proof -
  obtain i s1 where c1: "create_index c f (es_schema es) = (i, s1)" by fastforce
  have inv: "schema_inv (es_schema es)" using ok by (simp add: store_ok_def)
  note cr = created_index[OF inv next_id c1[unfolded create_index_def]]
  have "store_ok B (es\<lparr>es_schema := s1\<rparr>)" by (rule store_ok_registry[OF ok cr(1,2)]) (simp add: cr(5))
  from save_store[OF this] obtain es2 where s2: "save_schema (es\<lparr>es_schema := s1\<rparr>) = (Inr (), es2)" "store_ok B es2"
      "db_entry (es_db es2) = db_entry (es_db es)" "es_schema es2 = s1\<lparr>sc_changed := False\<rparr>" by auto
  have o2: "direct_ok B (es_db es2)" "keys_ok (db_entry (es_db es2))" "fields_ok (es_schema es2) (es_vals es2)"
    using s2(2) by (simp_all add: store_ok_def view_ok_def)
  have v2: "es_vals es2 = es_vals es" using s2(3) by simp
  have room2: "build_room B c f (es_vals es2)" using room v2 by simp
  obtain db3 where r: "index_rebuild crc c f (es_db es2) = (Inr (), db3)" "direct_ok B db3" "keys_ok (db_entry db3)"
      "\<And>k. \<not> prefix (index_field_prefix c f) k \<Longrightarrow> vals (db_entry db3) k = es_vals es2 k"
      "\<And>k. prefix (index_field_prefix c f) k \<Longrightarrow> vals (db_entry db3) k \<noteq> None \<longleftrightarrow> entry_of_index (es_vals es2) c f k"
    by (rule rebuild_index[OF o2 room2 m, where crc = crc]) (rule that; assumption)
  note r = r[unfolded s2(3)]
  let ?V = "vals (db_entry db3)"
  have ent: "?V (encode_entity_key c' e g) = es_vals es (encode_entity_key c' e g)" for c' e g by (simp add: r(4))
  then have fv: "fval ?V c' e g = fval (es_vals es) c' e g" for c' e g by (rule fval_cong)
  have old: "complete (es_vals es) c' g \<and> g \<noteq> COMPOSITE_FIELD_MARKER" if "g \<in> set (indexed_field_ids (es_schema es) c')" for c' g
    using ok that by (auto simp: store_ok_def view_ok_def)
  have new: "complete ?V c f"
    unfolding complete_def fv using r(5) by (auto simp: entry_of_index_def)
  have "complete ?V c' g" if "complete (es_vals es) c' g" "g \<noteq> COMPOSITE_FIELD_MARKER" for c' g
  proof (cases "c' = c \<and> g = f")
    case False
    then show ?thesis using that(1) unfolding complete_def fv by (simp add: r(4))
  qed (use new in simp)
  then have cp: "complete ?V c' g" if "g \<in> set (indexed_field_ids (es_schema es) c')" for c' g using old[OF that] by blast
  have i2: "indexed_field_ids (es_schema es2) = indexed_field_ids (es_schema es)"
    by (simp add: s2(4) indexed_field_ids_def fun_eq_iff flip: cr(5))
  have "store_ok B (es2\<lparr>es_db := db3\<rparr>)"
    by (rule store_ok_engine[OF s2(2) r(2,3)]) (simp_all add: s2(3) ent cp i2)
  note ok3 = this
  obtain d where d: "d \<in> set (sc_indexes (es_schema es2))" "ix_id d = i" "ix_collection_id d = c" "ix_field_ids d = [f]"
    using cr(4) s2(4) by auto
  have inv2: "schema_inv (es_schema es2)" using s2(2) by (simp add: store_ok_def)
  note rs = readied_sets(1)[OF inv2 d(1), unfolded d(2-4) i2]
  let ?s4 = "set_index_ready i (es_schema es2)"
  have "store_ok B (es2\<lparr>es_db := db3\<rparr>\<lparr>es_schema := ?s4\<rparr>)"
  proof (rule store_ok_registry[OF ok3])
    show "schema_inv ?s4" using inv2 by (rule set_index_ready_inv)
    show "sc_field_name ?s4 = sc_field_name (es_schema (es2\<lparr>es_db := db3\<rparr>))" using readied_index(2)[OF inv2 d(1)] by simp
  qed (use rs new m i2 in \<open>auto split: if_splits\<close>)
  from save_store[OF this] obtain es5 where s5: "save_schema (es2\<lparr>es_db := db3, es_schema := ?s4\<rparr>) = (Inr (), es5)" "store_ok B es5"
      "db_entry (es_db es5) = db_entry db3" "es_schema es5 = ?s4\<lparr>sc_changed := False\<rparr>" by auto
  have "es_create_index crc c f es = (Inr (), es5)"
    using c1 s2(1) r(1) s5(1) by (simp add: es_create_index_def on_db_def bindS_def modS_def)
  moreover have "es_named es5 c' e n = es_named es c' e n" for c' e n
  proof -
    have "lookup_field_id c' n (es_schema es5) = lookup_field_id c' n (es_schema es)"
      using readied_index(3)[OF inv2 d(1), of i] cr(3) s2(4) s5(4) by (simp add: lookup_field_id_def)
    then show ?thesis using s5(3) fv by (simp add: named_value_def split: option.split)
  qed
  moreover have "indexed_field_ids (es_schema es5) = indexed_field_ids ?s4" by (simp add: s5(4) indexed_field_ids_def fun_eq_iff)
  ultimately show ?thesis using s5(2,3) rs r(4,5) by (intro exI[of _ es5]) simp
qed

text \<open>
  C10: The creation of an index on a field succeeds, whether the index is new or was there
  before. The keys of the index are then exactly one entry for each entity and value of the field, the values of all
  entities and all other keys that are there stay, and the field counts as indexed, so that the lookups of the
  planner may use it; the store stays in order, every indexed field with its complete index.
\<close>

theorem create_index_complete:
  assumes "store_ok B es" and "sc_next_index_id (es_schema es) + 1 \<noteq> 0" and "f \<noteq> COMPOSITE_FIELD_MARKER"
    and "build_room B c f (es_vals es)"
  shows "\<exists>es'. es_create_index crc c f es = (Inr (), es') \<and> store_ok B es' \<and>
     (\<forall>c e n. es_named es' c e n = es_named es c e n) \<and>
     (\<forall>k. es_vals es' k \<noteq> None \<longleftrightarrow> (if prefix (index_field_prefix c f) k then entry_of_index (es_vals es) c f k else es_vals es k \<noteq> None)) \<and>
     (\<forall>c'. set (indexed_field_ids (es_schema es') c') =
        set (indexed_field_ids (es_schema es) c') \<union> (if c' = c then {f} else {}))"
  by (rule create_index_built[OF assms])

text \<open>An engine with one field, and a registry that knows the field but no index.\<close>

definition unindexed :: "database \<Rightarrow> entity_store" where
  "unindexed db = \<lparr>es_db = db, es_schema = sample_registry\<lparr>sc_indexes := []\<rparr>, es_hint = (\<lambda>_. None)\<rparr>"

lemma sample_encoded: "decode (encode (VInt 7)) = Inr (VInt 7)"
  using decode_encode_append[of "VInt 7" "[]"] by simp

lemma sample_key: "id_ok e \<Longrightarrow> encode_entity_key c e f = encode_entity_key 0 (str ''e'') 0 \<longleftrightarrow> c = 0 \<and> e = str ''e'' \<and> f = 0"
  by (simp add: entity_key_inject id_ok_def str_def)

lemma unindexed_ok:
  "\<exists>db. db_put crc (encode_entity_key 0 (str ''e'') 0) (encode (VInt 7)) (fresh_db default_options) = (Inr (), db) \<and>
     store_ok 1000 (unindexed db) \<and>
     vals (db_entry db) = (\<lambda>k. if k = encode_entity_key 0 (str ''e'') 0 then Some (encode (VInt 7)) else None)"
proof -
  let ?k = "encode_entity_key 0 (str ''e'') 0" and ?v = "encode (VInt 7)"
  have "\<forall>w \<in> set [(?k, Some ?v)]. direct_room 1000 w"
    by (simp add: direct_room_def item_size_def entry_len_def key_defs str_def)
  from direct.writes[OF sample_direct this, of crc] obtain db where
    d: "forS [(?k, Some ?v)] (mu_write (direct_mutator crc)) (fresh_db default_options) = (Inr (), db)" "direct_ok 1000 db"
      "vals (db_entry db) = apply_writes [(?k, Some ?v)] (vals (db_entry (fresh_db default_options)))"
      "\<forall>k. k \<noteq> ?k \<longrightarrow> db_entry db k = None" by (auto simp: sample_entry)
  have v: "vals (db_entry db) = (\<lambda>k. if k = ?k then Some ?v else None)"
    unfolding d(3) by (simp add: sample_entry fun_eq_iff)
  have "keys_ok (db_entry db)"
    using d(4) key_ok.intros(1)[OF sample_eid] unfolding keys_ok_def by metis
  moreover have "fields_ok (sample_registry\<lparr>sc_indexes := []\<rparr>) (vals (db_entry db))"
    by (auto simp: fields_ok_def v sample_key sample_encoded sample_registry_def field_name_def simp del: encode.simps split: if_splits)
  moreover have "schema_inv (sample_registry\<lparr>sc_indexes := []\<rparr>)"
    by (auto simp: sample_registry_def schema_inv_defs one_to_one_def below_def)
  ultimately have "store_ok 1000 (unindexed db)"
    using d(2) by (simp add: store_ok_def unindexed_def view_ok_def hints_ok_def hint_ok_def indexed_field_ids_def)
  moreover have "db_put crc ?k ?v (fresh_db default_options) = (Inr (), db)"
    using d(1) by (simp add: mu_write_def direct_mutator_def bindS_def split: prod.splits sum.splits)
  ultimately show ?thesis using v by blast
qed

theorem create_index_complete_witness:
  "\<exists>db es'. db_put (\<lambda>_. 0) (encode_entity_key 0 (str ''e'') 0) (encode (VInt 7)) (fresh_db default_options) = (Inr (), db) \<and>
     es_create_index (\<lambda>_. 0) 0 0 (unindexed db) = (Inr (), es') \<and>
     es_vals es' (ikey 0 0 (VInt 7) (str ''e'')) \<noteq> None \<and> es_vals es' (ikey 0 0 (VInt 8) (str ''e'')) = None \<and>
     set (indexed_field_ids (es_schema es') 0) = {0}"
proof -
  obtain db where d: "db_put (\<lambda>_. 0) (encode_entity_key 0 (str ''e'') 0) (encode (VInt 7)) (fresh_db default_options) = (Inr (), db)"
      "store_ok 1000 (unindexed db)"
      "vals (db_entry db) = (\<lambda>k. if k = encode_entity_key 0 (str ''e'') 0 then Some (encode (VInt 7)) else None)"
    using unindexed_ok by blast
  have fv: "fval (es_vals (unindexed db)) 0 e 0 = Some v \<longleftrightarrow> e = str ''e'' \<and> v = VInt 7" if "id_ok e" for e v
    using that sample_eid by (auto simp: fval_def d(3) unindexed_def sample_key sample_encoded simp del: encode.simps)
  then have en: "entry_of_index (es_vals (unindexed db)) 0 0 k \<longleftrightarrow> k = ikey 0 0 (VInt 7) (str ''e'')" for k
    using sample_eid by (auto simp: entry_of_index_def)
  have "build_room 1000 0 0 (es_vals (unindexed db))"
    by (auto simp: build_room_def en) (auto simp: unindexed_def fun_cong[OF d(3), simplified] direct_room_def item_size_def entry_len_def ikey_def key_defs str_def split: if_splits)
  then obtain es' where c: "es_create_index (\<lambda>_. 0) 0 0 (unindexed db) = (Inr (), es')"
      "\<forall>k. es_vals es' k \<noteq> None \<longleftrightarrow> (if prefix (index_field_prefix 0 0) k then entry_of_index (es_vals (unindexed db)) 0 0 k else es_vals (unindexed db) k \<noteq> None)"
      "\<forall>c'. set (indexed_field_ids (es_schema es') c') = set (indexed_field_ids (es_schema (unindexed db)) c') \<union> (if c' = 0 then {0} else {})"
    using create_index_complete[OF d(2), of 0 0 "\<lambda>_. 0"] by (auto simp: unindexed_def sample_registry_def COMPOSITE_FIELD_MARKER_def)
  have "prefix (index_field_prefix 0 0) (ikey 0 0 v e)" for v e by (simp add: prefix_def ikey_def key_defs)
  then have ent: "es_vals es' (ikey 0 0 v e) \<noteq> None \<longleftrightarrow> ikey 0 0 v e = ikey 0 0 (VInt 7) (str ''e'')" for v e
    using c(2) by (simp add: en)
  have "ikey 0 0 (VInt 8) (str ''e'') \<noteq> ikey 0 0 (VInt 7) (str ''e'')" by (simp add: ikey_def encode_index_key_def flip: encode_ordered_eq)
  moreover have "set (indexed_field_ids (es_schema (unindexed db)) 0) = {}" by (simp add: unindexed_def indexed_field_ids_def)
  ultimately show ?thesis using d(1) c(1,3) ent[of "VInt 7" "str ''e''"] ent[of "VInt 8" "str ''e''"] by (intro exI[of _ db] exI[of _ es']) simp
qed

end
