(* ===== verification/Predicates.thy ===== *)
theory Predicates
  imports Entity
begin

text \<open>
  Queries as they are written (\<^verbatim>\<open>src/query/ast.rs\<close>, \<^verbatim>\<open>expression.rs\<close> and \<^verbatim>\<open>logical.rs\<close>): predicates over one entity with
  their evaluation, the logical plan and the builder that makes one.
\<close>

section \<open>Predicates\<close>

datatype cmp_op = CmpEq | CmpNe | CmpLt | CmpLte | CmpGt | CmpGte

fun cmp_text :: "cmp_op \<Rightarrow> bytes" where
  "cmp_text CmpEq = str ''=''"
| "cmp_text CmpNe = str ''!=''"
| "cmp_text CmpLt = str ''<''"
| "cmp_text CmpLte = str ''<=''"
| "cmp_text CmpGt = str ''>''"
| "cmp_text CmpGte = str ''>=''"

datatype predicate =
    PAnd predicate predicate
  | POr predicate predicate
  | PNot predicate
  | PField bytes cmp_op val

definition pred_field :: "bytes \<Rightarrow> cmp_op \<Rightarrow> val \<Rightarrow> predicate" where
  "pred_field field c v = PField field c v"

definition pred_and :: "predicate \<Rightarrow> predicate \<Rightarrow> predicate" where
  "pred_and p q = PAnd p q"

definition pred_or :: "predicate \<Rightarrow> predicate \<Rightarrow> predicate" where
  "pred_or p q = POr p q"

definition pred_negate :: "predicate \<Rightarrow> predicate" where
  "pred_negate p = PNot p"

definition pred_eq :: "bytes \<Rightarrow> val \<Rightarrow> predicate" where
  "pred_eq field v = pred_field field CmpEq v"

definition pred_ne :: "bytes \<Rightarrow> val \<Rightarrow> predicate" where
  "pred_ne field v = pred_field field CmpNe v"

definition pred_lt :: "bytes \<Rightarrow> val \<Rightarrow> predicate" where
  "pred_lt field v = pred_field field CmpLt v"

definition pred_le :: "bytes \<Rightarrow> val \<Rightarrow> predicate" where
  "pred_le field v = pred_field field CmpLte v"

definition pred_gt :: "bytes \<Rightarrow> val \<Rightarrow> predicate" where
  "pred_gt field v = pred_field field CmpGt v"

definition pred_ge :: "bytes \<Rightarrow> val \<Rightarrow> predicate" where
  "pred_ge field v = pred_field field CmpGte v"

section \<open>Evaluation\<close>

text \<open>The truth of a comparison with a field the entity does not have.\<close>

definition missing_field :: "cmp_op \<Rightarrow> bool" where
  "missing_field c \<longleftrightarrow> c = CmpNe"

definition compare_val :: "val \<Rightarrow> cmp_op \<Rightarrow> val \<Rightarrow> bool" where
  "compare_val actual c lit =
     (let ord = value_cmp actual lit in
      case c of
        CmpEq \<Rightarrow> ord = CEqual
      | CmpNe \<Rightarrow> ord \<noteq> CEqual
      | CmpLt \<Rightarrow> ord = CLess
      | CmpLte \<Rightarrow> ord \<noteq> CGreater
      | CmpGt \<Rightarrow> ord = CGreater
      | CmpGte \<Rightarrow> ord \<noteq> CLess)"

fun eval_inner :: "entity \<Rightarrow> predicate \<Rightarrow> bool" where
  "eval_inner e (PAnd a b) = (eval_inner e a \<and> eval_inner e b)"
| "eval_inner e (POr a b) = (eval_inner e a \<or> eval_inner e b)"
| "eval_inner e (PNot p) = (\<not> eval_inner e p)"
| "eval_inner e (PField name c v) = (case entity_field name e of
     None \<Rightarrow> missing_field c
   | Some actual \<Rightarrow> compare_val actual c v)"

definition eval_pred :: "entity \<Rightarrow> predicate \<Rightarrow> bool result" where
  "eval_pred e p = Inr (eval_inner e p)"

section \<open>Logical plans\<close>

datatype sort_dir = Asc | Desc

datatype aggregate = AggCount | AggSum bytes | AggAvg bytes | AggMin bytes | AggMax bytes

datatype logical =
    LCollection bytes
  | LFilter logical predicate
  | LSort logical bytes sort_dir
  | LLimit logical nat

definition logical_predicate :: "logical \<Rightarrow> predicate option" where
  "logical_predicate l = (case l of LFilter _ p \<Rightarrow> Some p | _ \<Rightarrow> None)"

record query_builder =
  qb_collection :: bytes
  qb_plan :: logical
  qb_projection :: "bytes list option"
  qb_aggregation :: "aggregate option"

definition qb_new :: "bytes \<Rightarrow> query_builder" where
  "qb_new name = \<lparr>qb_collection = name, qb_plan = LCollection name, qb_projection = None, qb_aggregation = None\<rparr>"

definition qb_filter :: "predicate \<Rightarrow> query_builder \<Rightarrow> query_builder" where
  "qb_filter p q = q\<lparr>qb_plan := (case qb_plan q of
     LFilter input old \<Rightarrow> LFilter input (pred_and old p)
   | other \<Rightarrow> LFilter other p)\<rparr>"

definition qb_sort :: "bytes \<Rightarrow> sort_dir \<Rightarrow> query_builder \<Rightarrow> query_builder" where
  "qb_sort field dir q = q\<lparr>qb_plan := LSort (qb_plan q) field dir\<rparr>"

definition qb_limit :: "nat \<Rightarrow> query_builder \<Rightarrow> query_builder" where
  "qb_limit n q = q\<lparr>qb_plan := LLimit (qb_plan q) n\<rparr>"

definition qb_project :: "bytes list \<Rightarrow> query_builder \<Rightarrow> query_builder" where
  "qb_project names q = q\<lparr>qb_projection := Some names\<rparr>"

definition qb_aggregate :: "aggregate \<Rightarrow> query_builder \<Rightarrow> query_builder" where
  "qb_aggregate a q = q\<lparr>qb_aggregation := Some a\<rparr>"

definition qb_build :: "query_builder \<Rightarrow> logical" where
  "qb_build q = qb_plan q"

end
