(* ===== verification/Planner.thy ===== *)
theory Planner
  imports Predicates
begin

text \<open>
  The planner (\<^verbatim>\<open>src/query/physical.rs\<close> and \<^verbatim>\<open>planner.rs\<close>): the normal form of a predicate, the choice of an index
  for a clause with the range its literals leave, and the plan made of both.
\<close>

section \<open>Physical plans\<close>

datatype physical =
    IndexScan bytes bytes bound bound
  | CompositeIndexScan bytes "32 word" "bytes list" "(nat \<times> bound \<times> bound) list"
  | FullScan bytes
  | IndexOrderScan bytes bytes bound bound sort_dir
  | UnionIds "physical list"
  | Fetch physical bytes
  | Filter physical predicate
  | Sort physical bytes sort_dir
  | Limit physical nat

definition plan_input :: "physical \<Rightarrow> physical option" where
  "plan_input p = (case p of
     Fetch i _ \<Rightarrow> Some i | Filter i _ \<Rightarrow> Some i | Sort i _ _ \<Rightarrow> Some i | Limit i _ \<Rightarrow> Some i
   | _ \<Rightarrow> None)"

definition plan_kind :: "physical \<Rightarrow> bytes" where
  "plan_kind p = (case p of
     IndexScan _ _ _ _ \<Rightarrow> str ''IndexScan''
   | CompositeIndexScan _ _ _ _ \<Rightarrow> str ''CompositeIndexScan''
   | IndexOrderScan _ _ _ _ _ \<Rightarrow> str ''IndexOrderScan''
   | FullScan _ \<Rightarrow> str ''FullScan''
   | UnionIds _ \<Rightarrow> str ''UnionIds''
   | Fetch _ _ \<Rightarrow> str ''Fetch''
   | Filter _ _ \<Rightarrow> str ''Filter''
   | Sort _ _ _ \<Rightarrow> str ''Sort''
   | Limit _ _ \<Rightarrow> str ''Limit'')"

definition plan_collection :: "physical \<Rightarrow> bytes option" where
  "plan_collection p = (case p of
     IndexScan c _ _ _ \<Rightarrow> Some c
   | IndexOrderScan c _ _ _ _ \<Rightarrow> Some c
   | CompositeIndexScan c _ _ _ \<Rightarrow> Some c
   | FullScan c \<Rightarrow> Some c
   | Fetch _ c \<Rightarrow> Some c
   | _ \<Rightarrow> None)"

section \<open>Literals and clauses\<close>

record lit =
  li_field :: bytes
  li_cmp :: cmp_op
  li_value :: val
  li_negated :: bool

definition indexable :: "lit \<Rightarrow> bool" where
  "indexable l \<longleftrightarrow> \<not> li_negated l \<and> li_cmp l \<noteq> CmpNe"

definition lit_predicate :: "lit \<Rightarrow> predicate" where
  "lit_predicate l = (let p = PField (li_field l) (li_cmp l) (li_value l) in if li_negated l then pred_negate p else p)"

definition cross :: "'a list list \<Rightarrow> 'a list list \<Rightarrow> 'a list list" where
  "cross xs ys = concat (map (\<lambda>a. map (\<lambda>b. a @ b) ys) xs)"

fun dnf :: "predicate \<Rightarrow> lit list list" and dnf_not :: "predicate \<Rightarrow> lit list list" where
  "dnf (PField f c v) = [[\<lparr>li_field = f, li_cmp = c, li_value = v, li_negated = False\<rparr>]]"
| "dnf (PAnd a b) = cross (dnf a) (dnf b)"
| "dnf (POr a b) = dnf a @ dnf b"
| "dnf (PNot p) = dnf_not p"
| "dnf_not (PField f c v) = [[\<lparr>li_field = f, li_cmp = c, li_value = v, li_negated = True\<rparr>]]"
| "dnf_not (PNot p) = dnf p"
| "dnf_not (PAnd a b) = dnf_not a @ dnf_not b"
| "dnf_not (POr a b) = cross (dnf_not a) (dnf_not b)"

section \<open>Bounds\<close>

definition lower_cmp :: "val \<Rightarrow> val \<Rightarrow> cmp_result" where
  "lower_cmp a b = value_cmp a b"

fun lower_stronger :: "bound \<Rightarrow> bound \<Rightarrow> bool" where
  "lower_stronger Unbounded _ = False"
| "lower_stronger _ Unbounded = True"
| "lower_stronger (Inclusive x) (Inclusive y) = (lower_cmp x y = CGreater)"
| "lower_stronger (Exclusive x) (Exclusive y) = (lower_cmp x y = CGreater)"
| "lower_stronger (Inclusive x) (Exclusive y) = (lower_cmp x y \<noteq> CLess)"
| "lower_stronger (Exclusive x) (Inclusive y) = (lower_cmp x y = CGreater)"

fun upper_stronger :: "bound \<Rightarrow> bound \<Rightarrow> bool" where
  "upper_stronger Unbounded _ = False"
| "upper_stronger _ Unbounded = True"
| "upper_stronger (Inclusive x) (Inclusive y) = (lower_cmp x y = CLess)"
| "upper_stronger (Exclusive x) (Exclusive y) = (lower_cmp x y = CLess)"
| "upper_stronger (Inclusive x) (Exclusive y) = (lower_cmp x y = CLess)"
| "upper_stronger (Exclusive x) (Inclusive y) = (lower_cmp x y \<noteq> CGreater)"

definition tighten_lower :: "bound \<Rightarrow> bound \<Rightarrow> bound" where
  "tighten_lower cur nxt = (if lower_stronger nxt cur then nxt else cur)"

definition tighten_upper :: "bound \<Rightarrow> bound \<Rightarrow> bound" where
  "tighten_upper cur nxt = (if upper_stronger nxt cur then nxt else cur)"

fun merge_bounds_from :: "bytes \<Rightarrow> lit list \<Rightarrow> bound \<times> bound \<Rightarrow> bound \<times> bound" where
  "merge_bounds_from field [] b = b"
| "merge_bounds_from field (l # ls) (lower, upper) =
     merge_bounds_from field ls
       (if \<not> indexable l \<or> li_field l \<noteq> field then (lower, upper)
        else case li_cmp l of
          CmpEq \<Rightarrow> (tighten_lower lower (Inclusive (li_value l)), tighten_upper upper (Inclusive (li_value l)))
        | CmpGt \<Rightarrow> (tighten_lower lower (Exclusive (li_value l)), upper)
        | CmpGte \<Rightarrow> (tighten_lower lower (Inclusive (li_value l)), upper)
        | CmpLt \<Rightarrow> (lower, tighten_upper upper (Exclusive (li_value l)))
        | CmpLte \<Rightarrow> (lower, tighten_upper upper (Inclusive (li_value l)))
        | CmpNe \<Rightarrow> (lower, upper))"

definition merge_bounds :: "lit list \<Rightarrow> bytes \<Rightarrow> bound \<times> bound" where
  "merge_bounds lits field = merge_bounds_from field lits (Unbounded, Unbounded)"

definition tighter :: "bound \<Rightarrow> bound \<Rightarrow> bound \<Rightarrow> bound \<Rightarrow> bool" where
  "tighter la ua lb ub =
     (if lower_stronger la lb then True
      else if lower_stronger lb la then False
      else upper_stronger ua ub)"

section \<open>The choice of an index\<close>

datatype shape = ShapeEq | ShapeBetween | ShapeOneSided

text \<open>The selectivities 0.1, 0.25 and 0.5 in hundredths, with the base cardinality one.\<close>

definition BASE_CARDINALITY :: nat where "BASE_CARDINALITY = 1"

fun selectivity :: "shape \<Rightarrow> nat" where
  "selectivity ShapeEq = 10"
| "selectivity ShapeBetween = 25"
| "selectivity ShapeOneSided = 50"

definition field_shape :: "lit list \<Rightarrow> bytes \<Rightarrow> bound \<Rightarrow> bound \<Rightarrow> shape" where
  "field_shape lits field lower upper =
     (if list_ex (\<lambda>l. indexable l \<and> li_field l = field \<and> li_cmp l = CmpEq) lits then ShapeEq
      else if lower = Unbounded \<or> upper = Unbounded then ShapeOneSided
      else ShapeBetween)"

definition cheaper :: "bytes \<times> shape \<times> bound \<times> bound \<Rightarrow> bytes \<times> shape \<times> bound \<times> bound \<Rightarrow> bool" where
  "cheaper a b = (case (a, b) of ((fa, sa, la, ua), (fb, sb, lb, ub)) \<Rightarrow>
     (let cost_a = BASE_CARDINALITY * selectivity sa; cost_b = BASE_CARDINALITY * selectivity sb in
      if cost_a < cost_b then True
      else if cost_a > cost_b then False
      else if tighter la ua lb ub then True
      else if tighter lb ub la ua then False
      else fa < fb))"

definition ready_field :: "schema \<Rightarrow> 32 word \<Rightarrow> bytes \<Rightarrow> bool" where
  "ready_field schema c field = (case lookup_field_id c field schema of
     None \<Rightarrow> False
   | Some f \<Rightarrow> (case find_index c f schema of None \<Rightarrow> False | Some d \<Rightarrow> ix_status d = Ready))"

text \<open>The fields in order and once each, as \<^verbatim>\<open>sort_unstable\<close> and \<^verbatim>\<open>dedup\<close> leave them.\<close>

definition pick_index_field_cost :: "lit list \<Rightarrow> schema \<Rightarrow> 32 word \<Rightarrow> bytes option" where
  "pick_index_field_cost lits schema c =
     (let names = sorted_list_of_set (set (map li_field (filter (\<lambda>l. indexable l \<and> ready_field schema c (li_field l)) lits)));
          best = fold (\<lambda>field best.
            (case merge_bounds lits field of (lower, upper) \<Rightarrow>
             let cand = (field, field_shape lits field lower upper, lower, upper) in
             case best of
               None \<Rightarrow> Some cand
             | Some b \<Rightarrow> Some (if cheaper cand b then cand else b))) names None
      in map_option fst best)"

section \<open>Composite indexes\<close>

text \<open>The leading components a clause binds; \<^verbatim>\<open>None\<close> where a field of the index has no name.\<close>

fun bound_prefix :: "lit list \<Rightarrow> schema \<Rightarrow> 32 word \<Rightarrow> nat \<Rightarrow> 32 word list \<Rightarrow> (nat \<times> bound \<times> bound) list option" where
  "bound_prefix clause schema c j [] = Some []"
| "bound_prefix clause schema c j (f # fs) = (case field_name c f schema of
     None \<Rightarrow> None
   | Some name \<Rightarrow> (case find (\<lambda>l. li_field l = name \<and> indexable l) clause of
       None \<Rightarrow> Some []
     | Some l \<Rightarrow> (case merge_bounds clause name of (lo, hi) \<Rightarrow>
         if li_cmp l \<noteq> CmpEq then Some [(j, lo, hi)]
         else map_option (\<lambda>ls. (j, lo, hi) # ls) (bound_prefix clause schema c (j + 1) fs))))"

definition pick_composite_index :: "lit list \<Rightarrow> schema \<Rightarrow> 32 word \<Rightarrow>
    (32 word \<times> 32 word list \<times> (nat \<times> bound \<times> bound) list) option" where
  "pick_composite_index clause schema c =
     (let candidates = composite_index_defs schema c;
          best = fold (\<lambda>(i, fids) best.
            (case bound_prefix clause schema c 0 fids of
               None \<Rightarrow> best
             | Some leading \<Rightarrow>
                 if leading = [] then best
                 else (case best of
                   None \<Rightarrow> Some (length leading, fids, i, leading)
                 | Some (n, bfids, bi, bl) \<Rightarrow> Some
                     (if n < length leading \<or> length leading = n \<and> fids < bfids
                      then (length leading, fids, i, leading) else (n, bfids, bi, bl))))) candidates None
      in map_option (\<lambda>(_, fids, i, leading). (i, fids, leading)) best)"

section \<open>The plan of a clause\<close>

text \<open>The literals of a clause that has some: the first one and the others.\<close>

definition clause_residual :: "lit \<Rightarrow> lit list \<Rightarrow> predicate" where
  "clause_residual l ls = fold (\<lambda>l p. pred_and p (lit_predicate l)) ls (lit_predicate l)"

definition with_residual :: "lit list \<Rightarrow> physical \<Rightarrow> physical" where
  "with_residual residual rows = (case residual of [] \<Rightarrow> rows | l # ls \<Rightarrow> Filter rows (clause_residual l ls))"

text \<open>The names of the fields of an index; a field the registry does not name is a panic.\<close>

definition index_names :: "schema \<Rightarrow> 32 word \<Rightarrow> 32 word list \<Rightarrow> bytes list result" where
  "index_names schema c fids = mapE (\<lambda>f. ok_or (field_name c f schema) (Panic (str ''unwrap on None''))) fids"

definition plan_clause :: "schema \<Rightarrow> bytes \<Rightarrow> 32 word \<Rightarrow> lit list \<Rightarrow> (physical \<times> lit list) result" where
  "plan_clause schema collection c clause =
     (let single = pick_index_field_cost clause schema c;
          composite = pick_composite_index clause schema c;
          usable = (case composite of None \<Rightarrow> 0 | Some (_, _, l) \<Rightarrow> length l);
          use_composite = (if 2 \<le> usable then True else if usable = 1 then single = None else False) in
      case (if use_composite then composite else None) of
        Some (i, fids, leading) \<Rightarrow>
          bindE (index_names schema c fids) (\<lambda>names. Inr
            (Fetch (CompositeIndexScan collection i names leading) collection,
             filter (\<lambda>l. \<not> list_ex (\<lambda>(j, _, _). li_field l = names ! j \<and> indexable l) leading) clause))
      | None \<Rightarrow> (case single of
          Some field \<Rightarrow>
            (case merge_bounds clause field of (lower, upper) \<Rightarrow> Inr
              (Fetch (IndexScan collection field lower upper) collection,
               filter (\<lambda>l. \<not> (li_field l = field \<and> indexable l)) clause))
        | None \<Rightarrow> Inr (FullScan collection, clause)))"

section \<open>The plan\<close>

definition union_bounds :: "lit list list \<Rightarrow> bytes \<Rightarrow> bound \<times> bound" where
  "union_bounds clauses field =
     (case fold (\<lambda>clause (lower, upper).
        (case merge_bounds clause field of (l, u) \<Rightarrow>
          (Some (case lower of None \<Rightarrow> l | Some cur \<Rightarrow> if lower_stronger l cur then cur else l),
           Some (case upper of None \<Rightarrow> u | Some cur \<Rightarrow> if upper_stronger u cur then cur else u))))
        clauses (None, None) of
      (lower, upper) \<Rightarrow> (unwrap_or Unbounded lower, unwrap_or Unbounded upper))"

definition index_order_enabled :: "schema \<Rightarrow> 32 word option \<Rightarrow> bytes \<Rightarrow> lit list list \<Rightarrow> bool" where
  "index_order_enabled schema cid field clauses = (case cid of
     None \<Rightarrow> False
   | Some c \<Rightarrow> ready_field schema c field \<and>
       list_all (\<lambda>clause. list_ex (\<lambda>l. li_field l = field \<and> indexable l) clause) clauses)"

text \<open>The loop over the layers of a logical plan, from the outside in: the innermost sort and limit stay.\<close>

fun decompose :: "logical \<Rightarrow> predicate list \<Rightarrow> (bytes \<times> sort_dir) option \<Rightarrow> nat option \<Rightarrow>
    bytes \<times> predicate list \<times> (bytes \<times> sort_dir) option \<times> nat option" where
  "decompose (LCollection name) ps srt limit = (name, ps, srt, limit)"
| "decompose (LFilter input p) ps srt limit = decompose input (ps @ [p]) srt limit"
| "decompose (LSort input field dir) ps srt limit = decompose input ps (Some (field, dir)) limit"
| "decompose (LLimit input n) ps srt limit = decompose input ps srt (Some n)"

definition combine :: "predicate list \<Rightarrow> predicate option" where
  "combine ps = (case ps of [] \<Rightarrow> None | p # qs \<Rightarrow> Some (fold (\<lambda>q p. pred_and p q) qs p))"

definition plan_source :: "schema \<Rightarrow> bytes \<Rightarrow> 32 word option \<Rightarrow> lit list \<Rightarrow> (physical \<times> lit list) result" where
  "plan_source schema collection cid clause = (case cid of
     Some c \<Rightarrow> plan_clause schema collection c clause
   | None \<Rightarrow> Inr (FullScan collection, clause))"

definition plan_rows :: "schema \<Rightarrow> bytes \<Rightarrow> 32 word option \<Rightarrow> predicate option \<Rightarrow> lit list list \<Rightarrow> physical result" where
  "plan_rows schema collection cid combined clauses =
     (if length clauses = 1 then
        bindE (plan_source schema collection cid (clauses ! 0)) (\<lambda>(source, residual). Inr (with_residual residual source))
      else
        bindE (mapE (plan_source schema collection cid) clauses) (\<lambda>sources.
          let rows = UnionIds (map fst sources) in
          Inr (case combined of Some p \<Rightarrow> Filter rows p | None \<Rightarrow> rows)))"

definition plan_ordered :: "bytes \<Rightarrow> bytes \<Rightarrow> sort_dir \<Rightarrow> nat \<Rightarrow> predicate option \<Rightarrow> lit list list \<Rightarrow> physical" where
  "plan_ordered collection field dir n combined clauses =
     (case union_bounds clauses field of (lower, upper) \<Rightarrow>
      let inner = IndexOrderScan collection field lower upper dir in
      Limit (if length clauses = 1
             then with_residual (filter (\<lambda>l. \<not> (li_field l = field \<and> indexable l)) (clauses ! 0)) inner
             else (case combined of Some p \<Rightarrow> Filter inner p | None \<Rightarrow> inner)) n)"

definition plan_query :: "schema \<Rightarrow> logical \<Rightarrow> physical result" where
  "plan_query schema logical = (case decompose logical [] None None of (collection, ps, srt, limit) \<Rightarrow>
     let combined = combine ps;
         clauses = (case combined of Some p \<Rightarrow> dnf p | None \<Rightarrow> [[]]);
         cid = lookup_collection_id collection schema;
         limited = (\<lambda>rows. case limit of Some n \<Rightarrow> Limit rows n | None \<Rightarrow> rows) in
     bindE (plan_rows schema collection cid combined clauses) (\<lambda>rows. Inr
       (case (srt, limit) of
          (Some (field, dir), Some n) \<Rightarrow>
            if index_order_enabled schema cid field clauses then plan_ordered collection field dir n combined clauses
            else limited (Sort rows field dir)
        | (Some (field, dir), None) \<Rightarrow> limited (Sort rows field dir)
        | (None, _) \<Rightarrow> limited rows)))"

end
