(* ===== verification/Executor.thy ===== *)
theory Executor
  imports Planner
begin

text \<open>
  The executor (\<^verbatim>\<open>src/query/executor.rs\<close>): the iterator of a plan over any view, what it collects, sorting, projection
  and the scans behind the plan's sources.
\<close>

section \<open>Rows\<close>

type_synonym row = "bytes \<times> entity"

text \<open>
  The assembly of a collection's field rows to entities: \<open>cur\<close> is the entity being built. An error of a row does
  not end the iterator.
\<close>

fun assemble :: "schema \<Rightarrow> 32 word \<Rightarrow> row option \<Rightarrow> item result list \<Rightarrow> row result list" where
  "assemble schema c cur [] = (case cur of
     Some (i, e) \<Rightarrow> if en_fields e = [] then [] else [Inr (i, e)]
   | None \<Rightarrow> [])"
| "assemble schema c cur (Inl e # xs) = Inl e # assemble schema c cur xs"
| "assemble schema c cur (Inr (key, value) # xs) =
     (case decode_entity_key key of
        None \<Rightarrow> assemble schema c cur xs
      | Some (_, ee, ef) \<Rightarrow> (case value of
          None \<Rightarrow> assemble schema c cur xs
        | Some b \<Rightarrow> (case decode b of
            Inl _ \<Rightarrow> Inl (InvalidFormat (str ''bad field value'')) # assemble schema c cur xs
          | Inr v \<Rightarrow> (case field_name c ef schema of
              None \<Rightarrow> Inl (InvalidFormat (str ''unknown field id '' @ dec32 ef)) # assemble schema c cur xs
            | Some name \<Rightarrow> (case decode_entity_id ee of
                Inl e \<Rightarrow> Inl e # assemble schema c cur xs
              | Inr eid \<Rightarrow> (case cur of
                  Some (i, ent) \<Rightarrow>
                    if i = eid then assemble schema c (Some (i, entity_insert name v ent)) xs
                    else (if en_fields ent = [] then [] else [Inr (i, ent)]) @
                      assemble schema c (Some (eid, entity_insert name v entity_new)) xs
                | None \<Rightarrow> assemble schema c (Some (eid, entity_insert name v entity_new)) xs))))))"

text \<open>
  The iterators over rows. A step is finished, has passed over something, or yields a row or an error; the
  sources that look entities up do so one at a time, when they are asked.
\<close>

datatype row_iter =
    Listed "row result list"
  | Fetching "32 word option" "bytes list"
  | Ordered "32 word" "32 word" bound bound "bytes list"
  | Filtering predicate row_iter
  | Taking nat row_iter

datatype row_step = Done | Skip row_iter | Yield "row result" row_iter

definition fetch_one :: "'s mutator \<Rightarrow> schema \<Rightarrow> 32 word \<Rightarrow> bytes \<Rightarrow> row_iter \<Rightarrow> 's \<Rightarrow> row_step \<times> 's" where
  "fetch_one mu schema c i rest s = (case core_get_entity schema mu c i s of
     (Inr (Some e), s) \<Rightarrow> (Yield (Inr (i, e)) rest, s)
   | (Inr None, s) \<Rightarrow> (Skip rest, s)
   | (Inl err, s) \<Rightarrow> (Yield (Inl err) rest, s))"

fun row_next :: "'s mutator \<Rightarrow> schema \<Rightarrow> row_iter \<Rightarrow> 's \<Rightarrow> row_step \<times> 's" where
  "row_next mu schema (Listed []) s = (Done, s)"
| "row_next mu schema (Listed (r # rs)) s = (Yield r (Listed rs), s)"
| "row_next mu schema (Fetching None is) s = (Done, s)"
| "row_next mu schema (Fetching (Some c) []) s = (Done, s)"
| "row_next mu schema (Fetching (Some c) (i # is)) s = fetch_one mu schema c i (Fetching (Some c) is) s"
| "row_next mu schema (Ordered c f lower upper []) s = (Done, s)"
| "row_next mu schema (Ordered c f lower upper (i # is)) s =
     (let rest = Ordered c f lower upper is in
      case mu_get mu (encode_entity_key c i f) s of
        (Inl err, s) \<Rightarrow> (Yield (Inl err) rest, s)
      | (Inr None, s) \<Rightarrow> (Skip rest, s)
      | (Inr (Some b), s) \<Rightarrow> (case decode b of
          Inl err \<Rightarrow> (Yield (Inl err) rest, s)
        | Inr actual \<Rightarrow>
            if \<not> within actual lower upper then (Skip rest, s)
            else fetch_one mu schema c i rest s))"
| "row_next mu schema (Filtering p it) s = (case row_next mu schema it s of
     (Done, s) \<Rightarrow> (Done, s)
   | (Skip it, s) \<Rightarrow> (Skip (Filtering p it), s)
   | (Yield r it, s) \<Rightarrow>
       if (case r of Inr (_, e) \<Rightarrow> (case eval_pred e p of Inr b \<Rightarrow> b | Inl _ \<Rightarrow> False) | Inl _ \<Rightarrow> False)
       then (Yield r (Filtering p it), s) else (Skip (Filtering p it), s))"
| "row_next mu schema (Taking n it) s = (case n of
     0 \<Rightarrow> (Done, s)
   | Suc m \<Rightarrow> (case row_next mu schema it s of
       (Done, s) \<Rightarrow> (Done, s)
     | (Skip it, s) \<Rightarrow> (Skip (Taking n it), s)
     | (Yield r it, s) \<Rightarrow> (Yield r (Taking m it), s)))"

text \<open>What is left of an iterator.\<close>

fun rows_left :: "row_iter \<Rightarrow> nat" where
  "rows_left (Listed rs) = length rs"
| "rows_left (Fetching _ is) = length is"
| "rows_left (Ordered _ _ _ _ is) = length is"
| "rows_left (Filtering _ it) = rows_left it"
| "rows_left (Taking _ it) = rows_left it"

lemma row_next_left:
  "row_next mu schema it s = (Skip it', s') \<Longrightarrow> rows_left it' < rows_left it"
  "row_next mu schema it s = (Yield r it', s') \<Longrightarrow> rows_left it' < rows_left it"
proof (induction mu schema it s arbitrary: it' s' r and it' s' rule: row_next.induct)
  case (8 mu schema p it s)
  { case 1 then show ?case using 8 by (auto split: prod.splits row_step.splits if_splits) }
  { case 2 then show ?case using 8 by (auto split: prod.splits row_step.splits if_splits) }
next
  case (9 mu schema n it s)
  { case 1 then show ?case using 9 by (auto split: prod.splits row_step.splits nat.splits) }
  { case 2 then show ?case using 9 by (auto split: prod.splits row_step.splits nat.splits) }
qed (auto simp: fetch_one_def Let_def split: prod.splits sum.splits option.splits if_splits)

text \<open>\<^verbatim>\<open>collect\<close> into a \<^verbatim>\<open>Result\<close>: the first error ends it.\<close>

function row_collect :: "'s mutator \<Rightarrow> schema \<Rightarrow> row_iter \<Rightarrow> ('s, error, row list) op" where
  "row_collect mu schema it s =
     (case row_next mu schema it s of
        (Done, s) \<Rightarrow> (Inr [], s)
      | (Skip it, s) \<Rightarrow> row_collect mu schema it s
      | (Yield (Inl e) _, s) \<Rightarrow> (Inl e, s)
      | (Yield (Inr r) it, s) \<Rightarrow> bindS (row_collect mu schema it) (\<lambda>rs. retS (r # rs)) s)"
  by pat_completeness auto
termination
  by (relation "measure (\<lambda>(mu, schema, it, s). rows_left it)") (auto dest!: sym[of _ "row_next _ _ _ _"] row_next_left)

declare row_collect.simps [simp del]

section \<open>Sorting\<close>

text \<open>A stable sort by a comparison, as \<^verbatim>\<open>sort_by\<close> is one.\<close>

fun insert_by :: "('a \<Rightarrow> 'a \<Rightarrow> cmp_result) \<Rightarrow> 'a \<Rightarrow> 'a list \<Rightarrow> 'a list" where
  "insert_by f x [] = [x]"
| "insert_by f x (y # ys) = (if f x y = CGreater then y # insert_by f x ys else x # y # ys)"

definition sort_by :: "('a \<Rightarrow> 'a \<Rightarrow> cmp_result) \<Rightarrow> 'a list \<Rightarrow> 'a list" where
  "sort_by f xs = foldr (insert_by f) xs []"

fun cmp_reverse :: "cmp_result \<Rightarrow> cmp_result" where
  "cmp_reverse CLess = CGreater"
| "cmp_reverse CEqual = CEqual"
| "cmp_reverse CGreater = CLess"

definition row_cmp :: "bytes \<Rightarrow> sort_dir \<Rightarrow> row \<Rightarrow> row \<Rightarrow> cmp_result" where
  "row_cmp field dir a b =
     (let asc = (dir = Asc);
          ord = (case (entity_field field (snd a), entity_field field (snd b)) of
            (None, None) \<Rightarrow> CEqual
          | (None, Some _) \<Rightarrow> if asc then CLess else CGreater
          | (Some _, None) \<Rightarrow> if asc then CGreater else CLess
          | (Some x, Some y) \<Rightarrow> (let r = value_cmp x y in if asc then r else cmp_reverse r))
      in if ord \<noteq> CEqual then ord else cmp (fst a) (fst b))"

definition sort_rows :: "bytes \<Rightarrow> sort_dir \<Rightarrow> row list \<Rightarrow> row list" where
  "sort_rows field dir rows = sort_by (row_cmp field dir) rows"

section \<open>Sources\<close>

text \<open>The rows of a list whose ids were not seen yet.\<close>

fun unseen :: "('a \<Rightarrow> bytes) \<Rightarrow> 'a list \<Rightarrow> bytes set \<Rightarrow> 'a list \<Rightarrow> 'a list \<times> bytes set" where
  "unseen key [] seen out = (out, seen)"
| "unseen key (x # xs) seen out =
     (if key x \<in> seen then unseen key xs seen out else unseen key xs (insert (key x) seen) (out @ [x]))"

definition index_scan :: "'s mutator \<Rightarrow> schema \<Rightarrow> bytes \<Rightarrow> bytes \<Rightarrow> bound \<Rightarrow> bound \<Rightarrow> ('s, error, bytes list) op" where
  "index_scan mu schema collection field lower upper = (case lookup_collection_id collection schema of
     None \<Rightarrow> retS []
   | Some c \<Rightarrow> (case lookup_field_id c field schema of
       None \<Rightarrow> failS (InvalidArgument (str ''unknown field '' @ field))
     | Some f \<Rightarrow>
         if find_index c f schema = None then failS (InvalidArgument (str ''no index on field '' @ field))
         else find_m mu schema c f lower upper))"

definition index_composite_scan :: "'s mutator \<Rightarrow> schema \<Rightarrow> bytes \<Rightarrow> 32 word \<Rightarrow> bytes list \<Rightarrow>
    (nat \<times> bound \<times> bound) list \<Rightarrow> ('s, error, bytes list) op" where
  "index_composite_scan mu schema collection i names leading = (case lookup_collection_id collection schema of
     None \<Rightarrow> retS []
   | Some c \<Rightarrow> find_composite_m mu schema c i (length names) leading)"

text \<open>A plan that yields no ids is named by the position of its constructor, the text of \<^verbatim>\<open>std::mem::discriminant\<close>.\<close>

definition not_ids :: "nat \<Rightarrow> error" where
  "not_ids n = InvalidFormat (str ''plan is not id-producing: Discriminant('' @ dec n @ str '')'')"

fun candidate_ids :: "'s mutator \<Rightarrow> schema \<Rightarrow> physical \<Rightarrow> ('s, error, bytes list) op"
  and candidate_branches :: "'s mutator \<Rightarrow> schema \<Rightarrow> physical list \<Rightarrow> bytes set \<Rightarrow> bytes list \<Rightarrow> ('s, error, bytes list) op" where
  "candidate_ids mu schema (IndexScan collection field lower upper) = index_scan mu schema collection field lower upper"
| "candidate_ids mu schema (CompositeIndexScan collection i names leading) =
     index_composite_scan mu schema collection i names leading"
| "candidate_ids mu schema (UnionIds branches) = candidate_branches mu schema branches {} []"
| "candidate_ids mu schema (FullScan _) = failS (not_ids 2)"
| "candidate_ids mu schema (IndexOrderScan _ _ _ _ _) = failS (not_ids 3)"
| "candidate_ids mu schema (Fetch _ _) = failS (not_ids 5)"
| "candidate_ids mu schema (Filter _ _) = failS (not_ids 6)"
| "candidate_ids mu schema (Sort _ _ _) = failS (not_ids 7)"
| "candidate_ids mu schema (Limit _ _) = failS (not_ids 8)"
| "candidate_branches mu schema [] seen out = retS out"
| "candidate_branches mu schema (b # bs) seen out = bindS (candidate_ids mu schema b) (\<lambda>is.
     case unseen (\<lambda>i. i) is seen out of (out, seen) \<Rightarrow> candidate_branches mu schema bs seen out)"

definition scan_collection_stream :: "'s mutator \<Rightarrow> schema \<Rightarrow> bytes \<Rightarrow> ('s, error, row_iter) op" where
  "scan_collection_stream mu schema collection = (case lookup_collection_id collection schema of
     None \<Rightarrow> retS (Listed [])
   | Some c \<Rightarrow>
       (let pstart = collection_prefix c in
        bindS (mu_scan mu (Some pstart) (successor pstart)) (\<lambda>stream. retS (Listed (assemble schema c None stream)))))"

definition fetch_stream :: "schema \<Rightarrow> bytes list \<Rightarrow> bytes \<Rightarrow> row_iter" where
  "fetch_stream schema is collection = Fetching (lookup_collection_id collection schema) is"

text \<open>The candidates of an ordered scan, decoded as they come.\<close>

fun order_candidates :: "item result list \<Rightarrow> (val \<times> bytes) list result" where
  "order_candidates [] = Inr []"
| "order_candidates (Inl e # xs) = Inl e"
| "order_candidates (Inr (key, _) # xs) =
     bindE (decode_index_key_value key) (\<lambda>d. bindE (order_candidates xs) (\<lambda>cs. Inr (case d of Some x \<Rightarrow> x # cs | None \<Rightarrow> cs)))"

definition candidate_cmp :: "sort_dir \<Rightarrow> val \<times> bytes \<Rightarrow> val \<times> bytes \<Rightarrow> cmp_result" where
  "candidate_cmp dir a b =
     (let o1 = value_cmp (fst a) (fst b); o2 = (if dir = Asc then o1 else cmp_reverse o1) in
      if o2 = CEqual then cmp (snd a) (snd b) else o2)"

definition index_order_stream :: "'s mutator \<Rightarrow> schema \<Rightarrow> bytes \<Rightarrow> bytes \<Rightarrow> bound \<Rightarrow> bound \<Rightarrow> sort_dir \<Rightarrow>
    ('s, error, row_iter) op" where
  "index_order_stream mu schema collection field lower upper dir = (case lookup_collection_id collection schema of
     None \<Rightarrow> retS (Listed [])
   | Some c \<Rightarrow> (case lookup_field_id c field schema of
       None \<Rightarrow> failS (InvalidArgument (str ''unknown field '' @ field))
     | Some f \<Rightarrow>
         if find_index c f schema = None then failS (InvalidArgument (str ''no index on field '' @ field))
         else (case index_range c f lower upper of (start, stop) \<Rightarrow>
           bindS (mu_scan mu (Some start) stop) (\<lambda>stream.
           bindS (liftS (order_candidates stream)) (\<lambda>cands.
             retS (Ordered c f lower upper (map snd (sort_by (candidate_cmp dir) cands))))))))"

section \<open>Plans\<close>

fun exec_rows :: "'s mutator \<Rightarrow> schema \<Rightarrow> physical \<Rightarrow> ('s, error, row_iter) op"
  and exec_branches :: "'s mutator \<Rightarrow> schema \<Rightarrow> physical list \<Rightarrow> bytes set \<Rightarrow> row list \<Rightarrow> ('s, error, row list) op" where
  "exec_rows mu schema (FullScan collection) = scan_collection_stream mu schema collection"
| "exec_rows mu schema (IndexOrderScan collection field lower upper dir) =
     index_order_stream mu schema collection field lower upper dir"
| "exec_rows mu schema (IndexScan collection field lower upper) =
     bindS (candidate_ids mu schema (IndexScan collection field lower upper)) (\<lambda>is. retS (fetch_stream schema is collection))"
| "exec_rows mu schema (CompositeIndexScan collection i names leading) =
     bindS (candidate_ids mu schema (CompositeIndexScan collection i names leading)) (\<lambda>is. retS (fetch_stream schema is collection))"
| "exec_rows mu schema (Fetch input collection) =
     bindS (candidate_ids mu schema input) (\<lambda>is. retS (fetch_stream schema is collection))"
| "exec_rows mu schema (UnionIds branches) =
     bindS (exec_branches mu schema branches {} []) (\<lambda>out. retS (Listed (map Inr out)))"
| "exec_rows mu schema (Filter input p) = bindS (exec_rows mu schema input) (\<lambda>it. retS (Filtering p it))"
| "exec_rows mu schema (Sort input field dir) =
     bindS (exec_rows mu schema input) (\<lambda>it.
     bindS (row_collect mu schema it) (\<lambda>rows. retS (Listed (map Inr (sort_rows field dir rows)))))"
| "exec_rows mu schema (Limit input n) = bindS (exec_rows mu schema input) (\<lambda>it. retS (Taking n it))"
| "exec_branches mu schema [] seen out = retS out"
| "exec_branches mu schema (b # bs) seen out =
     bindS (exec_rows mu schema b) (\<lambda>it.
     bindS (row_collect mu schema it) (\<lambda>rows.
     case unseen fst rows seen out of (out, seen) \<Rightarrow> exec_branches mu schema bs seen out))"

definition run_m :: "'s mutator \<Rightarrow> schema \<Rightarrow> physical \<Rightarrow> ('s, error, row list) op" where
  "run_m mu schema p = bindS (exec_rows mu schema p) (row_collect mu schema)"

definition run_query :: "(bytes \<Rightarrow> 32 word) \<Rightarrow> schema \<Rightarrow> physical \<Rightarrow> (database, error, row list) op" where
  "run_query crc = run_m (direct_mutator crc)"

section \<open>Projection\<close>

definition project_entity :: "bytes list \<Rightarrow> entity \<Rightarrow> entity" where
  "project_entity names e = fold (\<lambda>n pe. case entity_field n e of Some v \<Rightarrow> entity_insert n v pe | None \<Rightarrow> pe) names entity_new"

definition project_rows :: "row list \<Rightarrow> bytes list \<Rightarrow> row list" where
  "project_rows rows names = map (\<lambda>(i, e). (i, project_entity names e)) rows"

end
