(* ===== verification/Queries.thy ===== *)
theory Queries
  imports Executor Transactions
begin

text \<open>
  Queries as a whole: aggregation (\<^verbatim>\<open>aggregate_rows\<close> of \<^verbatim>\<open>src/query/executor.rs\<close>), the text of a plan
  (\<^verbatim>\<open>src/query/explain.rs\<close>), and the query operations of a store and of a transaction (\<^verbatim>\<open>src/entity.rs\<close>).
\<close>

section \<open>Float arithmetic\<close>

text \<open>The pattern of a quotient of two naturals in units of the smallest subnormal, rounded to the nearest, ties to even.\<close>

definition f64_round_quot :: "nat \<Rightarrow> nat \<Rightarrow> nat" where
  "f64_round_quot n d =
     (let k = f64_shift (n div d); D = d * 2 ^ k; q = n div D; r = n mod D;
          q = (if D < 2 * r \<or> 2 * r = D \<and> odd q then q + 1 else q)
      in min (k * 2 ^ 52 + q) 0x7FF0000000000000)"

definition f64_with_sign :: "bool \<Rightarrow> nat \<Rightarrow> 64 word" where
  "f64_with_sign neg p = (if neg then word_of_nat p OR push_bit 63 1 else word_of_nat p)"

definition f64_of_int :: "int \<Rightarrow> 64 word" where
  "f64_of_int i = f64_with_sign (i < 0) (f64_round (nat \<bar>i\<bar> * 2 ^ 1074))"

definition f64_div :: "64 word \<Rightarrow> 64 word \<Rightarrow> 64 word" where
  "f64_div a b =
     (if f64_is_nan a \<or> f64_is_nan b \<or> f64_inf a \<and> f64_inf b \<or> f64_units a = 0 \<and> f64_units b = 0 then f64_NAN
      else f64_with_sign (f64_sign a \<noteq> f64_sign b)
        (if f64_inf a then 0x7FF0000000000000
         else if f64_inf b then 0
         else if f64_units b = 0 then 0x7FF0000000000000
         else f64_round_quot (nat \<bar>f64_units a\<bar> * 2 ^ 1074) (nat \<bar>f64_units b\<bar>)))"

text \<open>Minimum and maximum of finite floats; which zero they give for zeros of both signs is not specified.\<close>

definition f64_min :: "64 word \<Rightarrow> 64 word \<Rightarrow> 64 word" where
  "f64_min a b = (if f64_units b < f64_units a then b else a)"

definition f64_max :: "64 word \<Rightarrow> 64 word \<Rightarrow> 64 word" where
  "f64_max a b = (if f64_units a < f64_units b then b else a)"

definition f64_is_finite :: "64 word \<Rightarrow> bool" where
  "f64_is_finite f \<longleftrightarrow> f64_magnitude f < 0x7FF0000000000000"

section \<open>Aggregation\<close>

record agg_state =
  ag_has_float :: bool
  ag_i_sum :: int
  ag_f_sum :: "64 word"
  ag_count :: nat
  ag_i_extreme :: "64 word option"
  ag_f_extreme :: "64 word option"

definition agg_start :: agg_state where
  "agg_start = \<lparr>ag_has_float = False, ag_i_sum = 0, ag_f_sum = 0, ag_count = 0, ag_i_extreme = None, ag_f_extreme = None\<rparr>"

definition i128_saturating_add :: "int \<Rightarrow> int \<Rightarrow> int" where
  "i128_saturating_add a b = max (- (2 ^ 127)) (min (2 ^ 127 - 1) (a + b))"

definition i64_pick :: "bool \<Rightarrow> 64 word \<Rightarrow> 64 word \<Rightarrow> 64 word" where
  "i64_pick is_min c i = (if (if is_min then sint i < sint c else sint c < sint i) then i else c)"

definition f64_pick :: "bool \<Rightarrow> 64 word \<Rightarrow> 64 word \<Rightarrow> 64 word" where
  "f64_pick is_min c f = (if is_min then f64_min c f else f64_max c f)"

definition extreme :: "('a \<Rightarrow> 'a \<Rightarrow> 'a) \<Rightarrow> 'a option \<Rightarrow> 'a \<Rightarrow> 'a option" where
  "extreme pick c x = Some (case c of None \<Rightarrow> x | Some c \<Rightarrow> pick c x)"

definition agg_value :: "bool \<Rightarrow> val \<Rightarrow> agg_state \<Rightarrow> agg_state" where
  "agg_value is_min v a = (case v of
     VInt i \<Rightarrow> a\<lparr>ag_i_sum := i128_saturating_add (ag_i_sum a) (sint i),
       ag_f_sum := f64_add (ag_f_sum a) (f64_of_int (sint i)), ag_count := ag_count a + 1,
       ag_i_extreme := extreme (i64_pick is_min) (ag_i_extreme a) i,
       ag_f_extreme := extreme (f64_pick is_min) (ag_f_extreme a) (f64_of_int (sint i))\<rparr>
   | VFloat x \<Rightarrow>
       if \<not> f64_is_finite x then a
       else a\<lparr>ag_has_float := True, ag_f_sum := f64_add (ag_f_sum a) x, ag_count := ag_count a + 1,
         ag_f_extreme := extreme (f64_pick is_min) (ag_f_extreme a) x\<rparr>
   | _ \<Rightarrow> a)"

definition agg_rows :: "bool \<Rightarrow> bytes \<Rightarrow> row list \<Rightarrow> agg_state" where
  "agg_rows is_min field rows = fold (\<lambda>(_, e) a. case entity_field field e of None \<Rightarrow> a | Some v \<Rightarrow> agg_value is_min v a) rows agg_start"

definition saturate_i64 :: "int \<Rightarrow> 64 word" where
  "saturate_i64 s = (if s > 2 ^ 63 - 1 then word_of_int (2 ^ 63 - 1)
     else if s < - (2 ^ 63) then word_of_int (- (2 ^ 63)) else word_of_int s)"

definition aggregate_rows :: "row list \<Rightarrow> aggregate \<Rightarrow> val option result" where
  "aggregate_rows rows agg = (case agg of
     AggCount \<Rightarrow> Inr (Some (VInt (word_of_nat (length rows))))
   | AggSum field \<Rightarrow> (let a = agg_rows False field rows in
       if ag_count a = 0 then Inr None
       else if ag_has_float a then Inr (Some (VFloat (ag_f_sum a)))
       else Inr (Some (VInt (saturate_i64 (ag_i_sum a)))))
   | AggAvg field \<Rightarrow> (let a = agg_rows False field rows in
       if ag_count a = 0 then Inr None
       else Inr (Some (VFloat (f64_div (ag_f_sum a) (f64_of_int (int (ag_count a)))))))
   | AggMin field \<Rightarrow> (let a = agg_rows True field rows in
       if ag_count a = 0 then Inr None
       else if ag_has_float a then Inr (map_option VFloat (ag_f_extreme a)) else Inr (map_option VInt (ag_i_extreme a)))
   | AggMax field \<Rightarrow> (let a = agg_rows False field rows in
       if ag_count a = 0 then Inr None
       else if ag_has_float a then Inr (map_option VFloat (ag_f_extreme a)) else Inr (map_option VInt (ag_i_extreme a))))"

section \<open>The text of a plan\<close>

text \<open>\<open>shown\<close> is the text \<^verbatim>\<open>{}\<close> of a float, \<open>quoted\<close> the text \<^verbatim>\<open>{:?}\<close> of a string.\<close>

definition hex_digit :: "nat \<Rightarrow> byte" where
  "hex_digit n = word_of_nat (if n < 10 then 48 + n else 87 + n)"

definition hex2 :: "byte \<Rightarrow> bytes" where
  "hex2 b = [hex_digit (unat b div 16), hex_digit (unat b mod 16)]"

fun separated :: "bytes \<Rightarrow> bytes list \<Rightarrow> bytes" where
  "separated sep [] = []"
| "separated sep [x] = x"
| "separated sep (x # xs) = x @ sep @ separated sep xs"

definition dec_i64 :: "64 word \<Rightarrow> bytes" where
  "dec_i64 i = (if sint i < 0 then 45 # dec (nat (- sint i)) else dec (nat (sint i)))"

definition format_value :: "(64 word \<Rightarrow> bytes) \<Rightarrow> (bytes \<Rightarrow> bytes) \<Rightarrow> val \<Rightarrow> bytes" where
  "format_value shown quoted v = (case v of
     VNull \<Rightarrow> str ''null''
   | VBool b \<Rightarrow> if b then str ''true'' else str ''false''
   | VInt i \<Rightarrow> dec_i64 i
   | VFloat f \<Rightarrow> shown f
   | VString s \<Rightarrow> quoted s
   | VBytes b \<Rightarrow> str ''['' @ separated (str '', '') (map hex2 b) @ str '']'')"

definition format_bound :: "(64 word \<Rightarrow> bytes) \<Rightarrow> (bytes \<Rightarrow> bytes) \<Rightarrow> bound \<Rightarrow> bytes" where
  "format_bound shown quoted b = (case b of
     Unbounded \<Rightarrow> [0xE2, 0x88, 0x85]
   | Inclusive v \<Rightarrow> str ''['' @ format_value shown quoted v @ str '',]''
   | Exclusive v \<Rightarrow> str ''('' @ format_value shown quoted v @ str '',)'')"

definition format_range :: "(64 word \<Rightarrow> bytes) \<Rightarrow> (bytes \<Rightarrow> bytes) \<Rightarrow> bound \<Rightarrow> bound \<Rightarrow> bytes" where
  "format_range shown quoted lower upper = format_bound shown quoted lower @ str ''..'' @ format_bound shown quoted upper"

fun format_pred :: "(64 word \<Rightarrow> bytes) \<Rightarrow> (bytes \<Rightarrow> bytes) \<Rightarrow> predicate \<Rightarrow> bytes" where
  "format_pred shown quoted (PAnd a b) = str ''('' @ format_pred shown quoted a @ str '' AND '' @ format_pred shown quoted b @ str '')''"
| "format_pred shown quoted (POr a b) = str ''('' @ format_pred shown quoted a @ str '' OR '' @ format_pred shown quoted b @ str '')''"
| "format_pred shown quoted (PNot a) = str ''NOT('' @ format_pred shown quoted a @ str '')''"
| "format_pred shown quoted (PField f c v) = f @ str '' '' @ cmp_text c @ str '' '' @ format_value shown quoted v"

definition dir_text :: "sort_dir \<Rightarrow> bytes" where
  "dir_text d = (case d of Asc \<Rightarrow> str ''Asc'' | Desc \<Rightarrow> str ''Desc'')"

definition pad_text :: "nat \<Rightarrow> bytes" where
  "pad_text depth = concat (replicate depth (str ''  ''))"

fun write_node :: "(64 word \<Rightarrow> bytes) \<Rightarrow> (bytes \<Rightarrow> bytes) \<Rightarrow> nat \<Rightarrow> physical \<Rightarrow> bytes"
  and write_nodes :: "(64 word \<Rightarrow> bytes) \<Rightarrow> (bytes \<Rightarrow> bytes) \<Rightarrow> nat \<Rightarrow> physical list \<Rightarrow> bytes" where
  "write_node shown quoted depth (IndexScan collection field lower upper) = pad_text depth @
     str ''IndexScan { collection: '' @ collection @ str '', field: '' @ field @ str '', range: '' @
     format_range shown quoted lower upper @ str '' }''"
| "write_node shown quoted depth (CompositeIndexScan collection i names leading) = pad_text depth @
     str ''CompositeIndexScan { collection: '' @ collection @ str '', fields: ['' @ separated (str '', '') names @
     str ''], leading: ['' @ separated (str '' '') (map (\<lambda>(j, lo, hi). str ''c'' @ dec j @ str '':'' @
       format_range shown quoted lo hi) leading) @ str ''] }''"
| "write_node shown quoted depth (IndexOrderScan collection field lower upper dir) = pad_text depth @
     str ''IndexOrderScan { collection: '' @ collection @ str '', field: '' @ field @ str '', range: '' @
     format_range shown quoted lower upper @ str '', dir: '' @ dir_text dir @ str '' }''"
| "write_node shown quoted depth (FullScan collection) = pad_text depth @
     str ''FullScan { collection: '' @ collection @ str '' }''"
| "write_node shown quoted depth (UnionIds branches) = pad_text depth @
     str ''UnionIds { branches: '' @ dec (length branches) @ str '' }'' @ write_nodes shown quoted (depth + 1) branches"
| "write_node shown quoted depth (Fetch input collection) = pad_text depth @
     str ''Fetch { collection: '' @ collection @ str '' }'' @ [10] @ write_node shown quoted (depth + 1) input"
| "write_node shown quoted depth (Filter input p) = pad_text depth @
     str ''Filter { predicate: '' @ format_pred shown quoted p @ str '' }'' @ [10] @ write_node shown quoted (depth + 1) input"
| "write_node shown quoted depth (Sort input field dir) = pad_text depth @
     str ''Sort { field: '' @ field @ str '', dir: '' @ dir_text dir @ str '' }'' @ [10] @ write_node shown quoted (depth + 1) input"
| "write_node shown quoted depth (Limit input n) = pad_text depth @
     str ''Limit { n: '' @ dec n @ str '' }'' @ [10] @ write_node shown quoted (depth + 1) input"
| "write_nodes shown quoted depth [] = []"
| "write_nodes shown quoted depth (b # bs) = [10] @ write_node shown quoted depth b @ write_nodes shown quoted depth bs"

definition explain_plan :: "(64 word \<Rightarrow> bytes) \<Rightarrow> (bytes \<Rightarrow> bytes) \<Rightarrow> physical \<Rightarrow> bytes" where
  "explain_plan shown quoted p = write_node shown quoted 0 p"

section \<open>Queries on a store and in a transaction\<close>

definition es_query :: "bytes \<Rightarrow> (entity_store, error, query_builder) op" where
  "es_query name = retS (qb_new name)"

definition checked_projection :: "query_builder \<Rightarrow> bytes list option result" where
  "checked_projection q =
     (if qb_aggregation q \<noteq> None then Inl (InvalidArgument (str ''query has an aggregation; use execute_aggregate''))
      else if qb_projection q = Some [] then Inl (InvalidArgument (str ''empty projection''))
      else Inr (qb_projection q))"

definition checked_aggregation :: "query_builder \<Rightarrow> aggregate result" where
  "checked_aggregation q =
     (if qb_projection q \<noteq> None then Inl (InvalidArgument (str ''query has a projection; aggregation is mutually exclusive''))
      else ok_or (qb_aggregation q) (InvalidArgument (str ''no aggregation specified'')))"

definition es_execute_query :: "(bytes \<Rightarrow> 32 word) \<Rightarrow> query_builder \<Rightarrow> (entity_store, error, row list) op" where
  "es_execute_query crc q = bindS (liftS (checked_projection q)) (\<lambda>projection es.
     bindS (liftS (plan_query (es_schema es) (qb_build q))) (\<lambda>p.
     bindS (on_db (run_query crc (es_schema es) p)) (\<lambda>rows.
     retS (case projection of Some names \<Rightarrow> project_rows rows names | None \<Rightarrow> rows))) es)"

definition es_execute_aggregate :: "(bytes \<Rightarrow> 32 word) \<Rightarrow> query_builder \<Rightarrow> (entity_store, error, val option) op" where
  "es_execute_aggregate crc q = bindS (liftS (checked_aggregation q)) (\<lambda>agg es.
     bindS (liftS (plan_query (es_schema es) (qb_build q))) (\<lambda>p.
     bindS (on_db (run_query crc (es_schema es) p)) (\<lambda>rows. liftS (aggregate_rows rows agg))) es)"

definition es_explain_query :: "(64 word \<Rightarrow> bytes) \<Rightarrow> (bytes \<Rightarrow> bytes) \<Rightarrow> query_builder \<Rightarrow> (entity_store, error, bytes) op" where
  "es_explain_query shown quoted q es =
     bindS (liftS (plan_query (es_schema es) (qb_build q))) (\<lambda>p. retS (explain_plan shown quoted p)) es"

definition tx_query :: "bytes \<Rightarrow> query_builder tx_op" where
  "tx_query name = retS (qb_new name)"

definition tx_execute_query :: "query_builder \<Rightarrow> row list tx_op" where
  "tx_execute_query q = bindS check_active (\<lambda>_. bindS (liftS (checked_projection q)) (\<lambda>projection st.
     bindS (liftS (plan_query (es_schema (fst st)) (qb_build q))) (\<lambda>p.
     bindS (on_view (run_m tx_mutator (es_schema (fst st)) p)) (\<lambda>rows.
     retS (case projection of Some names \<Rightarrow> project_rows rows names | None \<Rightarrow> rows))) st))"

definition tx_execute_aggregate :: "query_builder \<Rightarrow> val option tx_op" where
  "tx_execute_aggregate q = bindS check_active (\<lambda>_. bindS (liftS (checked_aggregation q)) (\<lambda>agg st.
     bindS (liftS (plan_query (es_schema (fst st)) (qb_build q))) (\<lambda>p.
     bindS (on_view (run_m tx_mutator (es_schema (fst st)) p)) (\<lambda>rows. liftS (aggregate_rows rows agg))) st))"

end
