(* ===== verification/Answers.thy ===== *)
theory Answers
  imports Queries Collections
begin

text \<open>
  What a query answers: the normal form of a predicate means the same, the range of an index holds what the literals
  ask, each source of a plan yields the entities it should, and a planned query returns the entities a read of
  every entity and the evaluation of the predicate would give.
\<close>

section \<open>The normal form\<close>

definition lit_holds :: "entity \<Rightarrow> lit \<Rightarrow> bool" where
  "lit_holds e l \<longleftrightarrow> eval_inner e (lit_predicate l)"

definition clauses_hold :: "entity \<Rightarrow> lit list list \<Rightarrow> bool" where
  "clauses_hold e clauses \<longleftrightarrow> list_ex (list_all (lit_holds e)) clauses"

lemma clauses_hold_simps [simp]:
  "clauses_hold e (xs @ ys) \<longleftrightarrow> clauses_hold e xs \<or> clauses_hold e ys"
  "clauses_hold e (cross xs ys) \<longleftrightarrow> clauses_hold e xs \<and> clauses_hold e ys"
  by (auto simp: clauses_hold_def list_ex_iff cross_def list_all_iff)

lemma dnf_holds: "clauses_hold e (dnf p) = eval_inner e p" "clauses_hold e (dnf_not p) = (\<not> eval_inner e p)"
  by (induction p) (auto simp: clauses_hold_def[where clauses = "[[_]]"] lit_holds_def lit_predicate_def pred_negate_def)

lemma dnf_clauses: "\<forall>cl \<in> set (dnf p). cl \<noteq> []" "\<forall>cl \<in> set (dnf_not p). cl \<noteq> []"
  by (induction p) (auto simp: cross_def)

text \<open>
  C26: The normal form of a predicate holds of an entity exactly when the predicate does, missing
  fields included: a negation stays at its literal and is never turned into the opposite comparison.
\<close>

theorem dnf_equivalent: "list_ex (\<lambda>clause. list_all (\<lambda>l. eval_inner e (lit_predicate l)) clause) (dnf p) = eval_inner e p"
  using dnf_holds(1)[of e p] by (simp add: clauses_hold_def lit_holds_def[abs_def])

lemma clause_residual_holds: "eval_inner e (clause_residual l ls) \<longleftrightarrow> list_all (lit_holds e) (l # ls)"
proof -
  have "eval_inner e (fold (\<lambda>l p. pred_and p (lit_predicate l)) ls p) \<longleftrightarrow> eval_inner e p \<and> list_all (lit_holds e) ls" for p
    by (induction ls arbitrary: p) (auto simp: pred_and_def lit_holds_def)
  then show ?thesis by (simp add: clause_residual_def lit_holds_def)
qed

section \<open>The range of an index\<close>

definition lower_ok :: "val \<Rightarrow> bound \<Rightarrow> bool" where
  "lower_ok v b = (case b of Unbounded \<Rightarrow> True | Inclusive w \<Rightarrow> value_cmp v w \<noteq> CLess | Exclusive w \<Rightarrow> value_cmp v w = CGreater)"

definition upper_ok :: "val \<Rightarrow> bound \<Rightarrow> bool" where
  "upper_ok v b = (case b of Unbounded \<Rightarrow> True | Inclusive w \<Rightarrow> value_cmp v w \<noteq> CGreater | Exclusive w \<Rightarrow> value_cmp v w = CLess)"

lemma within_bounds_ok: "within v lower upper \<longleftrightarrow> lower_ok v lower \<and> upper_ok v upper"
  by (simp add: within_def lower_ok_def upper_ok_def)

text \<open>The one case in which the narrower of two lower bounds is not chosen: equal values, one of them excluded.\<close>

fun lower_clash :: "bound \<Rightarrow> bound \<Rightarrow> bool" where
  "lower_clash (Inclusive x) (Exclusive y) = (value_cmp x y = CEqual)"
| "lower_clash (Exclusive x) (Inclusive y) = (value_cmp x y = CEqual)"
| "lower_clash _ _ = False"

lemma lower_tighten: "\<not> lower_clash cur nxt \<Longrightarrow> lower_ok v (tighten_lower cur nxt) \<longleftrightarrow> lower_ok v cur \<and> lower_ok v nxt"
  by (cases cur; cases nxt) (auto simp: tighten_lower_def lower_ok_def lower_cmp_def value_cmp_encoded)

lemma upper_tighten: "upper_ok v (tighten_upper cur nxt) \<longleftrightarrow> upper_ok v cur \<and> upper_ok v nxt"
  by (cases cur; cases nxt) (auto simp: tighten_upper_def upper_ok_def lower_cmp_def value_cmp_encoded)

text \<open>The bounds one literal asks for.\<close>

definition lower_of :: "lit \<Rightarrow> bound" where
  "lower_of l = (case li_cmp l of CmpEq \<Rightarrow> Inclusive (li_value l) | CmpGt \<Rightarrow> Exclusive (li_value l)
     | CmpGte \<Rightarrow> Inclusive (li_value l) | _ \<Rightarrow> Unbounded)"

definition upper_of :: "lit \<Rightarrow> bound" where
  "upper_of l = (case li_cmp l of CmpEq \<Rightarrow> Inclusive (li_value l) | CmpLt \<Rightarrow> Exclusive (li_value l)
     | CmpLte \<Rightarrow> Inclusive (li_value l) | _ \<Rightarrow> Unbounded)"

definition lits_on :: "bytes \<Rightarrow> lit list \<Rightarrow> lit set" where
  "lits_on field lits = {l \<in> set lits. indexable l \<and> li_field l = field}"

definition clash_free :: "lit list \<Rightarrow> bytes \<Rightarrow> bool" where
  "clash_free lits field \<longleftrightarrow> (\<forall>l \<in> lits_on field lits. \<forall>l' \<in> lits_on field lits. \<not> lower_clash (lower_of l) (lower_of l'))"

lemma compare_bounds: "indexable l \<Longrightarrow> compare_val v (li_cmp l) (li_value l) \<longleftrightarrow> lower_ok v (lower_of l) \<and> upper_ok v (upper_of l)"
  by (cases "li_cmp l"; cases "value_cmp v (li_value l)")
    (auto simp: indexable_def compare_val_def Let_def lower_ok_def upper_ok_def lower_of_def upper_of_def)

lemma tighten_Unbounded [simp]: "tighten_lower lo Unbounded = lo" "tighten_upper hi Unbounded = hi"
  by (auto simp: tighten_lower_def tighten_upper_def)

lemma merge_step:
  "merge_bounds_from field (l # ls) (lower, upper) = merge_bounds_from field ls
     (if indexable l \<and> li_field l = field then (tighten_lower lower (lower_of l), tighten_upper upper (upper_of l))
      else (lower, upper))"
  by (auto simp: lower_of_def upper_of_def indexable_def split: cmp_op.split)

lemma merge_from_within:
  assumes "\<forall>b \<in> insert lower (lower_of ` lits_on field lits). \<forall>b' \<in> lower_of ` lits_on field lits. \<not> lower_clash b b'"
  shows "case merge_bounds_from field lits (lower, upper) of (lo, hi) \<Rightarrow>
     within v lo hi \<longleftrightarrow> within v lower upper \<and> (\<forall>l \<in> lits_on field lits. compare_val v (li_cmp l) (li_value l))"
  using assms
proof (induction lits arbitrary: lower upper)
  case Nil
  then show ?case by (simp add: lits_on_def)
next
  case (Cons l ls)
  show ?case
  proof (cases "indexable l \<and> li_field l = field")
    case True
    then have on: "lits_on field (l # ls) = insert l (lits_on field ls)" by (auto simp: lits_on_def)
    let ?lo = "tighten_lower lower (lower_of l)" and ?hi = "tighten_upper upper (upper_of l)"
    have "?lo = lower \<or> ?lo = lower_of l" by (simp add: tighten_lower_def)
    then have "\<forall>b \<in> insert ?lo (lower_of ` lits_on field ls). \<forall>b' \<in> lower_of ` lits_on field ls. \<not> lower_clash b b'"
      using Cons.prems unfolding on by auto
    from Cons.IH[OF this, of ?hi]
    have "case merge_bounds_from field ls (?lo, ?hi) of (lo, hi) \<Rightarrow>
        within v lo hi \<longleftrightarrow> within v ?lo ?hi \<and> (\<forall>l \<in> lits_on field ls. compare_val v (li_cmp l) (li_value l))" .
    moreover have "within v ?lo ?hi \<longleftrightarrow> within v lower upper \<and> compare_val v (li_cmp l) (li_value l)"
      using lower_tighten[of lower "lower_of l" v] Cons.prems True
      unfolding on by (auto simp: within_bounds_ok upper_tighten compare_bounds)
    ultimately show ?thesis
      using True unfolding on merge_step by (auto split: prod.splits)
  next
    case False
    then have "lits_on field (l # ls) = lits_on field ls" by (auto simp: lits_on_def)
    then show ?thesis using Cons False unfolding merge_step by auto
  qed
qed

lemma merge_within:
  assumes "clash_free lits field" and "merge_bounds lits field = (lo, hi)"
  shows "within v lo hi \<longleftrightarrow> (\<forall>l \<in> lits_on field lits. compare_val v (li_cmp l) (li_value l))"
proof -
  have "\<forall>b \<in> insert Unbounded (lower_of ` lits_on field lits). \<forall>b' \<in> lower_of ` lits_on field lits. \<not> lower_clash b b'"
    using assms(1) by (auto simp: clash_free_def)
  from merge_from_within[OF this, where v = v and upper = Unbounded] show ?thesis
    using assms(2) by (simp add: merge_bounds_def within_bounds_ok lower_ok_def upper_ok_def)
qed

text \<open>With a clash the range only gets wider.\<close>

lemma merge_from_wide:
  assumes "within v lower upper" and "\<forall>l \<in> lits_on field lits. compare_val v (li_cmp l) (li_value l)"
  shows "case merge_bounds_from field lits (lower, upper) of (lo, hi) \<Rightarrow> within v lo hi"
  using assms
proof (induction lits arbitrary: lower upper)
  case (Cons l ls)
  show ?case
  proof (cases "indexable l \<and> li_field l = field")
    case True
    then have on: "lits_on field (l # ls) = insert l (lits_on field ls)" by (auto simp: lits_on_def)
    then have "within v (tighten_lower lower (lower_of l)) (tighten_upper upper (upper_of l))"
      using Cons.prems True by (auto simp: within_bounds_ok compare_bounds tighten_lower_def tighten_upper_def)
    then show ?thesis using Cons.IH Cons.prems(2) True unfolding on merge_step by simp
  next
    case False
    then have "lits_on field (l # ls) = lits_on field ls" by (auto simp: lits_on_def)
    then show ?thesis using Cons False unfolding merge_step by (auto split: if_splits)
  qed
qed simp

lemma merge_wide:
  assumes "merge_bounds lits field = (lo, hi)" and "\<forall>l \<in> lits_on field lits. compare_val v (li_cmp l) (li_value l)"
  shows "within v lo hi"
  using merge_from_wide[of v Unbounded Unbounded, OF _ assms(2)] assms(1)
  by (simp add: merge_bounds_def within_bounds_ok lower_ok_def upper_ok_def)

section \<open>Iterators\<close>

text \<open>A getter: what a read of an entity of a collection returns, at every state with the same entries.\<close>

definition gets :: "'s mutator \<Rightarrow> ('s \<Rightarrow> bool) \<Rightarrow> ('s \<Rightarrow> bytes \<Rightarrow> entry option) \<Rightarrow> schema \<Rightarrow> 32 word \<Rightarrow> (bytes \<Rightarrow> entry option) \<Rightarrow>
    (bytes \<Rightarrow> entity option) \<Rightarrow> bool" where
  "gets mu ok ent schema c E G \<longleftrightarrow> (\<forall>s i. ok s \<longrightarrow> ent s = E \<longrightarrow> id_ok i \<longrightarrow>
     (\<exists>s'. core_get_entity schema mu c i s = (Inr (G i), s') \<and> ok s' \<and> ent s' = E))"

definition result_rows :: "'a result list \<Rightarrow> 'a list" where
  "result_rows xs = concat (map (\<lambda>r. case r of Inr x \<Rightarrow> [x] | Inl _ \<Rightarrow> []) xs)"

definition fetched :: "(bytes \<Rightarrow> entity option) \<Rightarrow> bytes list \<Rightarrow> row list" where
  "fetched G is = concat (map (\<lambda>i. case G i of Some e \<Rightarrow> [(i, e)] | None \<Rightarrow> []) is)"

text \<open>The rows of an iterator, for the iterators of a plan without an ordered scan.\<close>

fun iter_rows :: "(bytes \<Rightarrow> entity option) \<Rightarrow> row_iter \<Rightarrow> row list" where
  "iter_rows G (Listed rs) = result_rows rs"
| "iter_rows G (Fetching c is) = (if c = None then [] else fetched G is)"
| "iter_rows G (Ordered c f lower upper is) = []"
| "iter_rows G (Filtering p it) = filter (\<lambda>(_, e). eval_inner e p) (iter_rows G it)"
| "iter_rows G (Taking n it) = take n (iter_rows G it)"

fun iter_ok :: "32 word \<Rightarrow> row_iter \<Rightarrow> bool" where
  "iter_ok c (Listed rs) = (\<forall>r \<in> set rs. \<exists>x. r = Inr x)"
| "iter_ok c (Fetching c' is) = (\<forall>d. c' = Some d \<longrightarrow> d = c \<and> (\<forall>i \<in> set is. id_ok i))"
| "iter_ok c (Ordered _ _ _ _ _) = False"
| "iter_ok c (Filtering p it) = iter_ok c it"
| "iter_ok c (Taking n it) = iter_ok c it"

lemma result_rows_simps [simp]:
  "result_rows [] = []" "result_rows (Inr x # xs) = x # result_rows xs" "result_rows (map Inr ys) = ys"
  by (induction ys) (simp_all add: result_rows_def)

context kv_read
begin

lemma row_next_rows:
  assumes "gets mu ok ent schema c E G" and "ok s" and "ent s = E" and "iter_ok c it" and "row_next mu schema it s = (st, s')"
  shows "ok s' \<and> ent s' = E \<and> (case st of
       Done \<Rightarrow> iter_rows G it = []
     | Skip it' \<Rightarrow> iter_ok c it' \<and> iter_rows G it' = iter_rows G it
     | Yield r it' \<Rightarrow> iter_ok c it' \<and> (\<exists>x. r = Inr x \<and> iter_rows G it = x # iter_rows G it'))"
  using assms(2-)
proof (induction it arbitrary: st s')
  case (Listed rs)
  then show ?case by (cases rs) (auto simp: result_rows_def)
next
  case (Fetching c' ids)
  show ?case
  proof (cases ids)
    case Nil
    then show ?thesis using Fetching by (cases c') (auto simp: fetched_def)
  next
    case (Cons i ids')
    show ?thesis
    proof (cases c')
      case None
      then show ?thesis using Fetching by auto
    next
      case (Some d)
      then have d: "d = c" "id_ok i" using Fetching.prems(3) Cons by auto
      then obtain s1 where "core_get_entity schema mu c i s = (Inr (G i), s1)" "ok s1" "ent s1 = E"
        using assms(1) Fetching.prems(1,2) unfolding gets_def by blast
      then show ?thesis
        using Fetching.prems(3,4) Cons Some d by (cases "G i") (auto simp: fetch_one_def fetched_def)
    qed
  qed
next
  case (Ordered d f lower upper ids)
  then show ?case by simp
next
  case (Filtering p it)
  obtain st1 s1 where n: "row_next mu schema it s = (st1, s1)" by (cases "row_next mu schema it s")
  have "iter_ok c it" using Filtering.prems(3) by simp
  from Filtering.IH[OF Filtering.prems(1,2) this n] show ?case
    using Filtering.prems(4) n by (cases st1) (auto simp: eval_pred_def split: if_splits)
next
  case (Taking n it)
  obtain st1 s1 where nx: "row_next mu schema it s = (st1, s1)" by (cases "row_next mu schema it s")
  have "iter_ok c it" using Taking.prems(3) by simp
  from Taking.IH[OF Taking.prems(1,2) this nx] show ?case
    using Taking.prems nx by (cases n; cases st1) auto
qed

lemma row_collect_rows:
  assumes "gets mu ok ent schema c E G" and "ok s" and "ent s = E" and "iter_ok c it"
  shows "\<exists>s'. row_collect mu schema it s = (Inr (iter_rows G it), s') \<and> ok s' \<and> ent s' = E"
  using assms(2-)
proof (induction "rows_left it" arbitrary: it s rule: less_induct)
  case less
  obtain st s1 where n: "row_next mu schema it s = (st, s1)" by (cases "row_next mu schema it s")
  note r = row_next_rows[OF assms(1) less.prems n]
  show ?case
  proof (cases st)
    case Done
    then show ?thesis using n r by (subst row_collect.simps) simp
  next
    case (Skip it')
    then have "rows_left it' < rows_left it" using n row_next_left(1) by metis
    then show ?thesis using less.hyps[of it' s1] n r Skip by (subst row_collect.simps) simp
  next
    case (Yield x it')
    then have "rows_left it' < rows_left it" using n row_next_left(2) by metis
    then show ?thesis using less.hyps[of it' s1] n r Yield by (subst row_collect.simps) (auto simp: bindS_def)
  qed
qed

end

end
