(* ===== verification/Assembly.thy ===== *)
theory Assembly
  imports Answers
begin

text \<open>
  The scan of a collection: the rows of each entity lie together, so the assembly in one pass yields each entity
  that has a field, once, with the fields a read of it returns.
\<close>

section \<open>The order of the rows\<close>

lemma entity_prefix_inject:
  "length e < 2 ^ 32 \<Longrightarrow> length e' < 2 ^ 32 \<Longrightarrow> entity_prefix c e = entity_prefix c e' \<longleftrightarrow> e = e'"
  using entity_prefix_key[of e e' c c 0] by (auto simp: entity_key_prefix(1))

lemma entity_key_order:
  assumes "id_ok e" and "id_ok e'" and "encode_entity_key c e f < encode_entity_key c e' f'"
  shows "entity_prefix c e \<le> entity_prefix c e'"
proof (cases "e = e'")
  case False
  have len: "length e < 2 ^ 32" "length e' < 2 ^ 32" using assms(1,2) by (simp_all add: id_ok_def)
  obtain u where u: "encode_entity_key c e' f' = entity_prefix c e' @ u" by (simp add: key_defs)
  have "\<not> prefix (entity_prefix c e') (encode_entity_key c e f)" using entity_prefix_key[OF len(2,1)] False by simp
  then have "encode_entity_key c e f < entity_prefix c e'" using lex_not_prefix(2) assms(3) u by metis
  moreover have "entity_prefix c e \<le> encode_entity_key c e f" by (rule lex_prefix_le) (simp add: entity_key_prefix(1))
  ultimately show ?thesis by simp
qed simp

section \<open>Live rows\<close>

text \<open>The live rows of a collection: the entity, the name and the value.\<close>

definition live_rows :: "schema \<Rightarrow> 32 word \<Rightarrow> item list \<Rightarrow> (bytes \<times> bytes \<times> val) list" where
  "live_rows schema c rows = List.map_filter (\<lambda>row. case decode_entity_key (fst row) of
     None \<Rightarrow> None | Some (_, e, _) \<Rightarrow> map_option (Pair e) (live_field schema c row)) rows"

lemma live_rows_simps [simp]:
  "live_rows schema c [] = []"
  "live_rows schema c (row # rows) = (case decode_entity_key (fst row) of None \<Rightarrow> []
     | Some (_, e, _) \<Rightarrow> (case live_field schema c row of None \<Rightarrow> [] | Some x \<Rightarrow> [(e, x)])) @ live_rows schema c rows"
  by (auto simp: live_rows_def map_filter_Cons split: option.split)

definition fields_for :: "bytes \<Rightarrow> (bytes \<times> bytes \<times> val) list \<Rightarrow> (bytes \<times> val) list" where
  "fields_for i xs = map snd (filter (\<lambda>x. fst x = i) xs)"

lemma fields_for_simps [simp]:
  "fields_for i [] = []" "fields_for i (x # xs) = (if fst x = i then [snd x] else []) @ fields_for i xs"
  by (simp_all add: fields_for_def)

lemma fields_for_empty: "fields_for i xs = [] \<longleftrightarrow> i \<notin> fst ` set xs"
  by (auto simp: fields_for_def filter_empty_conv)

lemma row_ok_key: "row_ok schema c row \<Longrightarrow> \<exists>e f. id_ok e \<and> decode_entity_key (fst row) = Some (c, e, f) \<and> fst row = encode_entity_key c e f"
  by (auto simp: row_ok_def id_ok_def entity_key_decode)

lemma own_row_decode:
  assumes "row_ok schema c row" and "id_ok i" and "decode_entity_key (fst row) = Some (c, e, f)"
  shows "own_row c i row \<longleftrightarrow> e = i"
proof -
  obtain e' f' where k: "id_ok e'" "decode_entity_key (fst row) = Some (c, e', f')" "fst row = encode_entity_key c e' f'"
    using row_ok_key[OF assms(1)] by blast
  then have "e' = e" using assms(3) by simp
  then show ?thesis using k(1,3) assms(2) entity_key_inject[of e i] by (auto simp: own_row_def id_ok_def)
qed

lemma live_rows_fields:
  assumes "\<forall>row \<in> set rows. row_ok schema c row" and "id_ok i"
  shows "fields_for i (live_rows schema c rows) = live_fields schema c (filter (own_row c i) rows)"
  using assms(1)
proof (induction rows)
  case (Cons row rows)
  have r: "row_ok schema c row" using Cons.prems by simp
  obtain e f where k: "decode_entity_key (fst row) = Some (c, e, f)" using row_ok_key[OF r] by blast
  have own: "own_row c i row \<longleftrightarrow> e = i" by (rule own_row_decode[OF r assms(2) k])
  have IH: "fields_for i (live_rows schema c rows) = live_fields schema c (filter (own_row c i) rows)"
    using Cons.IH Cons.prems by simp
  show ?case by (cases "live_field schema c row"; cases "e = i") (simp_all add: k own IH)
qed simp

section \<open>Grouping\<close>

fun group_rows :: "row option \<Rightarrow> (bytes \<times> bytes \<times> val) list \<Rightarrow> row list" where
  "group_rows cur [] = (case cur of None \<Rightarrow> [] | Some r \<Rightarrow> [r])"
| "group_rows cur ((i, n, v) # xs) = (case cur of
     None \<Rightarrow> group_rows (Some (i, entity_insert n v entity_new)) xs
   | Some (j, e) \<Rightarrow>
       if j = i then group_rows (Some (i, entity_insert n v e)) xs
       else (j, e) # group_rows (Some (i, entity_insert n v entity_new)) xs)"

lemma entity_insert_fields [simp]: "en_fields (entity_insert n v e) = en_fields e @ [(n, v)]"
  by (simp add: entity_insert_def)

lemma assemble_group:
  assumes "\<forall>row \<in> set rows. row_ok schema c row" and "\<forall>i e. cur = Some (i, e) \<longrightarrow> en_fields e \<noteq> []"
  shows "assemble schema c cur (map Inr rows) = map Inr (group_rows cur (live_rows schema c rows))"
  using assms
proof (induction rows arbitrary: cur)
  case Nil
  then show ?case by (auto split: option.split)
next
  case (Cons row rows)
  obtain k x where row: "row = (k, x)" by (cases row)
  obtain e f where k: "id_ok e" "decode_entity_key k = Some (c, e, f)" "k = encode_entity_key c e f"
    using row_ok_key[of schema c row] Cons.prems(1) row by auto
  have id: "decode_entity_id e = Inr e" using k(1) by (simp add: decode_entity_id_def id_ok_def)
  show ?case
  proof (cases x)
    case None
    then show ?thesis using Cons k row by (simp add: live_field_def read_val_def)
  next
    case (Some b)
    have "row_ok schema c row" using Cons.prems(1) by simp
    then obtain e' f' where "id_ok e'" "k = encode_entity_key c e' f'" "\<exists>v. decode b = Inr v" "field_name c f' schema \<noteq> None"
      using row Some by (auto simp: row_ok_def)
    then obtain v n where v: "decode b = Inr v" "field_name c f schema = Some n"
      using k entity_key_inject[of e e'] by (auto simp: id_ok_def)
    have l: "live_field schema c row = Some (n, v)" using k(2) v row Some by (simp add: live_field_def read_val_def)
    show ?thesis
    proof (cases cur)
      case None
      then show ?thesis using Cons k v row Some l id by simp
    next
      case (Some y)
      obtain j ent where y: "y = (j, ent)" by (cases y)
      then show ?thesis using Cons k v row \<open>x = Some b\<close> Some l id by simp
    qed
  qed
qed

text \<open>Grouping rows whose entities lie together.\<close>

lemma image_fields:
  "(\<lambda>k. (k, \<lparr>en_fields = fields_for k ((i, n, v) # xs)\<rparr>)) ` insert i I =
     insert (i, \<lparr>en_fields = (n, v) # fields_for i xs\<rparr>) ((\<lambda>k. (k, \<lparr>en_fields = fields_for k xs\<rparr>)) ` (I - {i}))"
  by auto

lemma group_sorted:
  assumes "sorted (map K (j # map fst xs))" and "inj_on K (insert j (fst ` set xs))"
  shows "set (group_rows (Some (j, e)) xs) =
       insert (j, \<lparr>en_fields = en_fields e @ fields_for j xs\<rparr>) ((\<lambda>i. (i, \<lparr>en_fields = fields_for i xs\<rparr>)) ` (fst ` set xs - {j})) \<and>
     distinct (map fst (group_rows (Some (j, e)) xs))"
  using assms
proof (induction xs arbitrary: j e)
  case (Cons x xs)
  obtain i n v where x: "x = (i, n, v)" by (cases x)
  have srt: "sorted (map K (i # map fst xs))" using Cons.prems(1) x by simp
  have inj: "inj_on K (insert i (fst ` set xs))" using Cons.prems(2) x by (auto intro: inj_on_subset)
  show ?case
  proof (cases "j = i")
    case True
    then show ?thesis using Cons.IH[OF srt inj, of "entity_insert n v e"] x by (auto simp: image_iff)
  next
    case False
    have "j \<notin> fst ` set xs"
    proof
      assume j: "j \<in> fst ` set xs"
      then have "K i \<le> K j" using srt by auto
      moreover have "K j \<le> K i" using Cons.prems(1) x by simp
      ultimately show False using Cons.prems(2) x j False by (auto simp: inj_on_def)
    qed
    moreover from this have "fields_for j xs = []" by (simp add: fields_for_empty)
    define I where "I = fst ` set xs"
    let ?g = "group_rows (Some (i, entity_insert n v entity_new)) xs"
    have IH: "set ?g = insert (i, \<lparr>en_fields = (n, v) # fields_for i xs\<rparr>) ((\<lambda>k. (k, \<lparr>en_fields = fields_for k xs\<rparr>)) ` (I - {i}))"
        "distinct (map fst ?g)"
      using Cons.IH[OF srt inj, of "entity_insert n v entity_new"] by (simp_all add: I_def entity_new_def)
    have j: "j \<notin> I" "fields_for j xs = []" using calculation \<open>fields_for j xs = []\<close> by (simp_all add: I_def)
    have "fst ` set (x # xs) - {j} = insert i I" using x False j(1) by (auto simp: I_def)
    moreover have "(j, \<lparr>en_fields = en_fields e @ fields_for j (x # xs)\<rparr>) = (j, e)" using x False j(2) by (cases e) simp
    moreover have "group_rows (Some (j, e)) (x # xs) = (j, e) # ?g" using x False by simp
    moreover have "j \<notin> fst ` set ?g" using j(1) False unfolding IH(1) by auto
    ultimately show ?thesis using IH by (simp only: x image_fields list.set list.map distinct.simps fst_conv set_map) simp
  qed
qed (cases e, simp)

lemma group_all:
  assumes "sorted (map K (map fst xs))" and "inj_on K (fst ` set xs)"
  shows "set (group_rows None xs) = (\<lambda>i. (i, \<lparr>en_fields = fields_for i xs\<rparr>)) ` fst ` set xs \<and>
     distinct (map fst (group_rows None xs))"
proof (cases xs)
  case (Cons x ys)
  obtain i n v where x: "x = (i, n, v)" by (cases x)
  have "sorted (map K (i # map fst ys))" "inj_on K (insert i (fst ` set ys))" using assms Cons x by simp_all
  note g = group_sorted[OF this, of "entity_insert n v entity_new"]
  have fs: "fst ` set ((i, n, v) # ys) = insert i (fst ` set ys)" by simp
  show ?thesis unfolding Cons x fs image_fields using g by (simp add: entity_new_def)
qed simp

section \<open>The scan\<close>

lemma rows_of_collection:
  assumes "rows_of E (Some (collection_prefix c)) (successor (collection_prefix c)) rows" and "keys_ok E" and "fields_ok schema (vals E)"
  shows "\<forall>row \<in> set rows. row_ok schema c row"
    and "id_ok i \<Longrightarrow> entity_scan E c i (filter (own_row c i) rows)"
proof -
  have E: "in_range (Some (collection_prefix c)) (successor (collection_prefix c)) (fst row) \<and> E (fst row) = Some (snd row)"
    if "row \<in> set rows" for row
  proof -
    have "distinct (map fst rows)" using assms(1) by (simp add: rows_of_def ssorted_distinct)
    then have "map_of rows (fst row) = Some (snd row)" using that by simp
    moreover have "map_of rows (fst row) = (if in_range (Some (collection_prefix c)) (successor (collection_prefix c)) (fst row)
        then E (fst row) else None)"
      using assms(1) by (simp add: rows_of_def)
    ultimately show ?thesis by (simp split: if_splits)
  qed
  show ro: "\<forall>row \<in> set rows. row_ok schema c row"
  proof
    fix row assume r: "row \<in> set rows"
    have "key_ok (fst row)" using E[OF r] assms(2) by (auto simp: keys_ok_def)
    moreover have "prefix (collection_prefix c) (fst row)" using E[OF r] by (simp add: prefix_range)
    ultimately obtain e f where k: "id_ok e" "fst row = encode_entity_key c e f"
      by cases (auto simp: prefix_def key_defs ikey_def)
    have "(\<exists>v. decode b = Inr v) \<and> field_name c f schema \<noteq> None" if "snd row = Some b" for b
    proof -
      have "vals E (encode_entity_key c e f) = Some b" using E[OF r] k(2) that by simp
      then show ?thesis using assms(3) k(1) unfolding fields_ok_def by blast
    qed
    then show "row_ok schema c row" using k unfolding row_ok_def by blast
  qed
  assume i: "id_ok i"
  have srt: "ssorted (map fst (filter (own_row c i) rows))" using assms(1) by (simp add: rows_of_def ssorted_map_filter)
  have "map_of (filter (own_row c i) rows) k =
      (if in_range (Some (entity_prefix c i)) (successor (entity_prefix c i)) k then E k else None)" for k
  proof (cases "E k")
    case None
    have "k \<notin> fst ` set (filter (own_row c i) rows)"
    proof
      assume "k \<in> fst ` set (filter (own_row c i) rows)"
      then obtain row where "row \<in> set rows" "k = fst row" by auto
      then show False using E[of row] None by simp
    qed
    then have "map_of (filter (own_row c i) rows) k = None" by (simp add: map_of_eq_None_iff)
    then show ?thesis using None by simp
  next
    case (Some x)
    then have ok: "key_ok k" using assms(2) by (simp add: keys_ok_def)
    note pk = key_ok_entity_prefix[OF ok i, of c]
    show ?thesis
    proof (cases "prefix (entity_prefix c i) k")
      case True
      then obtain f where f: "k = encode_entity_key c i f" using pk by blast
      then have "map_of rows k = Some x"
        using assms(1) Some collection_range_exact[of c c i f] by (simp add: rows_of_def)
      then have "(k, x) \<in> set (filter (own_row c i) rows)" using f by (auto simp: own_row_def dest: map_of_SomeD)
      then show ?thesis using srt True Some by (simp add: ssorted_distinct prefix_range)
    next
      case False
      then have "\<forall>f. k \<noteq> encode_entity_key c i f" using pk by blast
      then have "k \<notin> fst ` set (filter (own_row c i) rows)" by (auto simp: own_row_def)
      then have "map_of (filter (own_row c i) rows) k = None" by (simp add: map_of_eq_None_iff)
      then show ?thesis using False by (simp add: prefix_range)
    qed
  qed
  then show "entity_scan E c i (filter (own_row c i) rows)" using srt by (auto simp: rows_of_def)
qed

lemma live_rows_sorted:
  assumes "\<forall>row \<in> set rows. row_ok schema c row" and "ssorted (map fst rows)"
  shows "sorted (map (entity_prefix c) (map fst (live_rows schema c rows)))"
    and "\<forall>i \<in> fst ` set (live_rows schema c rows). id_ok i"
proof -
  have mem: "\<exists>row \<in> set rows. \<exists>f. id_ok i \<and> fst row = encode_entity_key c i f" if "i \<in> fst ` set (live_rows schema c rows)"
    "\<forall>row \<in> set rows. row_ok schema c row" for i rows
    using that
  proof (induction rows)
    case (Cons row rows)
    have "row_ok schema c row" using Cons.prems(2) by simp
    then obtain e f where "id_ok e" "decode_entity_key (fst row) = Some (c, e, f)" "fst row = encode_entity_key c e f"
      using row_ok_key by blast
    then have "i = e \<or> i \<in> fst ` set (live_rows schema c rows)"
      using Cons.prems(1) by (cases "live_field schema c row") auto
    then show ?case using Cons.IH Cons.prems(2) \<open>id_ok e\<close> \<open>fst row = encode_entity_key c e f\<close> by auto
  qed simp
  show "\<forall>i \<in> fst ` set (live_rows schema c rows). id_ok i" using mem assms(1) by blast
  show "sorted (map (entity_prefix c) (map fst (live_rows schema c rows)))"
    using assms
  proof (induction rows)
    case (Cons row rows)
    have "row_ok schema c row" using Cons.prems(1) by simp
    then obtain e f where k: "id_ok e" "decode_entity_key (fst row) = Some (c, e, f)" "fst row = encode_entity_key c e f"
      using row_ok_key by blast
    have "entity_prefix c e \<le> entity_prefix c i" if h: "i \<in> fst ` set (live_rows schema c rows)" for i
    proof -
      obtain r g where "r \<in> set rows" "id_ok i" "fst r = encode_entity_key c i g"
        using mem[OF h] Cons.prems(1) by auto
      moreover have "fst row < fst r" if "r \<in> set rows" for r using Cons.prems(2) that by simp
      ultimately show ?thesis using entity_key_order[OF k(1)] k(3) by metis
    qed
    moreover have "sorted (map (entity_prefix c) (map fst (live_rows schema c rows)))" using Cons by simp
    ultimately show ?case using k(2) by (cases "live_field schema c row") auto
  qed simp
qed

text \<open>What the assembly of a collection yields.\<close>

lemma assemble_collection:
  assumes rows: "rows_of E (Some (collection_prefix c)) (successor (collection_prefix c)) rows"
    and keys: "keys_ok E" and flds: "fields_ok schema (vals E)"
    and G: "\<And>i rs. id_ok i \<Longrightarrow> entity_scan E c i rs \<Longrightarrow>
      G i = (if live_fields schema c rs = [] then None else Some \<lparr>en_fields = live_fields schema c rs\<rparr>)"
  shows "\<exists>out. assemble schema c None (map Inr rows) = map Inr out \<and> distinct (map fst out) \<and>
     set out = {(i, e). id_ok i \<and> G i = Some e}"
proof -
  let ?xs = "live_rows schema c rows"
  note ro = rows_of_collection(1)[OF assms(1-3)]
  have srt: "ssorted (map fst rows)" using rows by (simp add: rows_of_def)
  note ls = live_rows_sorted[OF ro srt]
  have inj: "inj_on (entity_prefix c) (fst ` set ?xs)"
    using ls(2) entity_prefix_inject by (auto simp: inj_on_def id_ok_def)
  note g = group_all[OF ls(1) inj]
  have Gi: "G i = (if fields_for i ?xs = [] then None else Some \<lparr>en_fields = fields_for i ?xs\<rparr>)" if "id_ok i" for i
    using G[OF that rows_of_collection(2)[OF assms(1-3) that]] live_rows_fields[OF ro that] by simp
  have "set (group_rows None ?xs) = {(i, e). id_ok i \<and> G i = Some e}"
  proof -
    have "(i, e) \<in> (\<lambda>i. (i, \<lparr>en_fields = fields_for i ?xs\<rparr>)) ` I \<longleftrightarrow> i \<in> I \<and> e = \<lparr>en_fields = fields_for i ?xs\<rparr>" for i e I
      by auto
    moreover have "i \<in> fst ` set ?xs \<longleftrightarrow> id_ok i \<and> fields_for i ?xs \<noteq> []" for i
      using ls(2) by (auto simp only: fields_for_empty)
    ultimately have "(i, e) \<in> set (group_rows None ?xs) \<longleftrightarrow> id_ok i \<and> G i = Some e" for i e
      unfolding conjunct1[OF g] using Gi[of i] by (cases "fields_for i ?xs = []") auto
    then show ?thesis by auto
  qed
  moreover have "assemble schema c None (map Inr rows) = map Inr (group_rows None ?xs)"
    using assemble_group[OF ro, of None] by simp
  ultimately show ?thesis using g by blast
qed

end
