(* ===== verification/Exactness.thy ===== *)
theory Exactness
  imports Assembly
begin

text \<open>
  The rows a plan delivers: each source, filter and union yields, once each, the entities that satisfy its condition,
  and the plan of a query those that satisfy the query.
\<close>

section \<open>The entities of a collection\<close>

text \<open>The entity a read returns, as a function of the entries.\<close>

definition reads :: "schema \<Rightarrow> 32 word \<Rightarrow> (bytes \<Rightarrow> entry option) \<Rightarrow> (bytes \<Rightarrow> entity option) \<Rightarrow> bool" where
  "reads schema c E G \<longleftrightarrow> (\<forall>i rs. id_ok i \<longrightarrow> entity_scan E c i rs \<longrightarrow>
     G i = (if live_fields schema c rs = [] then None else Some \<lparr>en_fields = live_fields schema c rs\<rparr>)) \<and>
     (\<forall>i. id_ok i \<longrightarrow> has_fields (G i) (named_value schema (vals E) c i))"

lemma reads_field: "reads schema c E G \<Longrightarrow> id_ok i \<Longrightarrow> G i = Some e \<Longrightarrow> entity_field n e = named_value schema (vals E) c i n"
  by (auto simp: reads_def has_fields_def)

lemma reads_some: "reads schema c E G \<Longrightarrow> id_ok i \<Longrightarrow> named_value schema (vals E) c i n = Some v \<Longrightarrow> \<exists>e. G i = Some e"
  unfolding reads_def has_fields_def by (cases "G i") force+

text \<open>What a plan delivers, started at any state with the entries \<open>E\<close>.\<close>

definition entities :: "(bytes \<Rightarrow> entity option) \<Rightarrow> (entity \<Rightarrow> bool) \<Rightarrow> row set" where
  "entities G P = {(i, e). id_ok i \<and> G i = Some e \<and> P e}"

definition delivers :: "'s mutator \<Rightarrow> ('s \<Rightarrow> bool) \<Rightarrow> ('s \<Rightarrow> bytes \<Rightarrow> entry option) \<Rightarrow> schema \<Rightarrow> 32 word \<Rightarrow> (bytes \<Rightarrow> entry option) \<Rightarrow>
    (bytes \<Rightarrow> entity option) \<Rightarrow> physical \<Rightarrow> (entity \<Rightarrow> bool) \<Rightarrow> bool" where
  "delivers mu ok ent schema c E G p P \<longleftrightarrow> (\<forall>s. ok s \<longrightarrow> ent s = E \<longrightarrow>
     (\<exists>it s'. exec_rows mu schema p s = (Inr it, s') \<and> ok s' \<and> ent s' = E \<and> iter_ok c it \<and>
        distinct (map fst (iter_rows G it)) \<and> set (iter_rows G it) = entities G P))"

lemma fetched_rows:
  "set (fetched G is) = {(i, e). i \<in> set is \<and> G i = Some e}" "distinct is \<Longrightarrow> distinct (map fst (fetched G is))"
proof -
  have f: "fetched G (i # is) = (case G i of Some e \<Rightarrow> [(i, e)] | None \<Rightarrow> []) @ fetched G is" "fetched G [] = []" for i "is"
    by (simp_all add: fetched_def)
  show s: "set (fetched G is) = {(i, e). i \<in> set is \<and> G i = Some e}" for "is"
    by (induction "is") (auto simp: f split: option.splits)
  show "distinct is \<Longrightarrow> distinct (map fst (fetched G is))"
    by (induction "is") (auto simp: f s split: option.splits)
qed

lemma distinct_fst_filter: "distinct (map fst xs) \<Longrightarrow> distinct (map fst (filter P xs))"
  by (induction xs) auto

text \<open>Rows of distinct lists that agree on the entity of an id, joined without repetition.\<close>

lemma unseen_rows:
  assumes "distinct (map fst out)" and "set out \<subseteq> {(i, e). G i = Some e}" and "set rows \<subseteq> {(i, e). G i = Some e}"
    and "seen = fst ` set out" and "unseen fst rows seen out = (out', seen')"
  shows "distinct (map fst out') \<and> set out' = set out \<union> set rows \<and> seen' = fst ` set out'"
  using assms
proof (induction rows arbitrary: seen out)
  case (Cons x rows)
  show ?case
  proof (cases "fst x \<in> seen")
    case True
    then have "x \<in> set out" using Cons.prems(2-4) by auto
    then show ?thesis using Cons.IH[OF Cons.prems(1,2) _ Cons.prems(4)] Cons.prems(3,5) True by auto
  next
    case False
    have "distinct (map fst (out @ [x]))" "set (out @ [x]) \<subseteq> {(i, e). G i = Some e}" "insert (fst x) seen = fst ` set (out @ [x])"
      using Cons.prems False by auto
    then show ?thesis using Cons.IH[of "out @ [x]" "insert (fst x) seen"] Cons.prems(3,5) False by auto
  qed
qed simp

context kv_read
begin

lemma reader:
  assumes "ok s" and "ent s = E" and "schema_inv schema" and "keys_ok E" and "fields_ok schema (vals E)"
  shows "\<exists>G. gets mu ok ent schema c E G \<and> reads schema c E G"
proof -
  have "\<exists>rs. entity_scan E c i rs" if "id_ok i" for i
    using get_entity[OF assms(1,3) _ _ that, of c] assms(2,4,5) by auto
  then obtain R where R: "\<And>i. id_ok i \<Longrightarrow> entity_scan E c i (R i)" by metis
  let ?G = "\<lambda>i. if live_fields schema c (R i) = [] then None else Some \<lparr>en_fields = live_fields schema c (R i)\<rparr>"
  have g: "\<exists>s'. core_get_entity schema mu c i s = (Inr (?G i), s') \<and> ok s' \<and> ent s' = E \<and> has_fields (?G i) (named_value schema (vals E) c i)"
    if h: "ok s" "ent s = E" "id_ok i" for s i
  proof -
    have v: "keys_ok (ent s)" "fields_ok schema (vals (ent s))" using h(2) assms(4,5) by simp_all
    obtain rs s' where r: "entity_scan (ent s) c i rs" "ok s'" "ent s' = ent s"
       "core_get_entity schema mu c i s = (Inr (if live_fields schema c rs = [] then None else Some \<lparr>en_fields = live_fields schema c rs\<rparr>), s')"
       "\<forall>n. map_of (live_fields schema c rs) n = (case lookup_field_id c n schema of None \<Rightarrow> None | Some f \<Rightarrow> fval (vals (ent s)) c i f)"
      using get_entity[OF h(1) assms(3) v h(3), of c] by blast
    have "rs = R i" using rows_of_unique[OF r(1)] R[OF h(3)] h(2) by simp
    moreover have "has_fields (?G i) (named_value schema (vals E) c i)"
      using r(5) h(2) \<open>rs = R i\<close> by (auto simp: has_fields_def named_value_def entity_field_map_of)
    ultimately show ?thesis using r(2-4) h(2) by auto
  qed
  have "gets mu ok ent schema c E ?G" unfolding gets_def using g by blast
  moreover have "?G i = (if live_fields schema c rs = [] then None else Some \<lparr>en_fields = live_fields schema c rs\<rparr>)"
    if "id_ok i" "entity_scan E c i rs" for i rs
    using rows_of_unique[OF R[OF that(1)] that(2)] by simp
  moreover have "has_fields (?G i) (named_value schema (vals E) c i)" if "id_ok i" for i
    using g[OF assms(1,2) that] by blast
  ultimately show ?thesis unfolding reads_def by blast
qed

lemma deliver_scan:
  assumes "reads schema c E G" and "keys_ok E" and "fields_ok schema (vals E)" and "lookup_collection_id name schema = Some c"
  shows "delivers mu ok ent schema c E G (FullScan name) (\<lambda>_. True)"
  unfolding delivers_def
proof (intro allI impI)
  fix s assume s: "ok s" "ent s = E"
  obtain out s' where sc: "mu_scan mu (Some (collection_prefix c)) (successor (collection_prefix c)) s = (Inr (map Inr out), s')"
      "ok s'" "ent s' = ent s" "ssorted (map fst out)"
      "map_of out = (\<lambda>k. if in_range (Some (collection_prefix c)) (successor (collection_prefix c)) k then ent s k else None)"
    using scan[OF s(1)] by blast
  have rows: "rows_of E (Some (collection_prefix c)) (successor (collection_prefix c)) out"
    using sc(4) sc(5)[unfolded s(2)] by (simp add: rows_of_def)
  obtain rs where a: "assemble schema c None (map Inr out) = map Inr rs" "distinct (map fst rs)"
      "set rs = {(i, e). id_ok i \<and> G i = Some e}"
    using assemble_collection[OF rows assms(2,3), of G] assms(1) unfolding reads_def by blast
  then show "\<exists>it s'. exec_rows mu schema (FullScan name) s = (Inr it, s') \<and> ok s' \<and> ent s' = E \<and> iter_ok c it \<and>
      distinct (map fst (iter_rows G it)) \<and> set (iter_rows G it) = entities G (\<lambda>_. True)"
    using sc(1-3) s(2) assms(4)
    by (intro exI[of _ "Listed (map Inr rs)"] exI[of _ s']) (auto simp: scan_collection_stream_def Let_def bindS_def entities_def)
qed

lemma deliver_index:
  assumes "reads schema c E G" and "view_ok schema E" and "lookup_collection_id name schema = Some c"
    and "ready_field schema c field"
  shows "delivers mu ok ent schema c E G (Fetch (IndexScan name field lower upper) name)
     (\<lambda>e. \<exists>v. entity_field field e = Some v \<and> within v lower upper)"
  unfolding delivers_def
proof (intro allI impI)
  fix s assume s: "ok s" "ent s = E"
  obtain f d where f: "lookup_field_id c field schema = Some f" "find_index c f schema = Some d" "ix_status d = Ready"
    using assms(4) by (auto simp: ready_field_def split: option.splits)
  have "d \<in> set (sc_indexes schema) \<and> ix_collection_id d = c \<and> length (ix_field_ids d) = 1 \<and> ix_field_ids d ! 0 = f"
    using f(2) by (auto simp: find_index_def find_Some_iff)
  then have "f \<in> set (indexed_field_ids schema c)" using f(3) by (force simp: indexed_field_ids_def)
  then have v: "keys_ok (ent s)" "fields_ok schema (vals (ent s))" "complete (vals (ent s)) c f" "f \<noteq> COMPOSITE_FIELD_MARKER"
    using assms(2) s(2) by (auto simp: view_ok_def)
  obtain ids s' where i: "find_m mu schema c f lower upper s = (Inr ids, s')" "ok s'" "ent s' = E" "distinct ids"
      "set ids = {e. matches (vals E) c f lower upper e}"
    using find_exact[OF s(1) v(1-3) _ v(4), of lower upper] f(2) s(2) by auto
  have m: "matches (vals E) c f lower upper i \<longleftrightarrow> id_ok i \<and> (\<exists>v. named_value schema (vals E) c i field = Some v \<and> within v lower upper)" for i
    using f(1) by (simp add: matches_def named_value_def)
  have "set (fetched G ids) = entities G (\<lambda>e. \<exists>v. entity_field field e = Some v \<and> within v lower upper)"
    unfolding fetched_rows(1) i(5) entities_def m using reads_field[OF assms(1)] by auto
  moreover have "exec_rows mu schema (Fetch (IndexScan name field lower upper) name) s = (Inr (Fetching (Some c) ids), s')"
    using i(1) f assms(3) by (simp add: index_scan_def bindS_def fetch_stream_def)
  moreover have "iter_ok c (Fetching (Some c) ids)" using i(5) by (simp add: matches_def)
  ultimately show "\<exists>it s'. exec_rows mu schema (Fetch (IndexScan name field lower upper) name) s = (Inr it, s') \<and> ok s' \<and> ent s' = E \<and>
      iter_ok c it \<and> distinct (map fst (iter_rows G it)) \<and>
      set (iter_rows G it) = entities G (\<lambda>e. \<exists>v. entity_field field e = Some v \<and> within v lower upper)"
    using i(2,3) fetched_rows(2)[OF i(4)] by (intro exI[of _ "Fetching (Some c) ids"] exI[of _ s']) simp
qed

lemma deliver_filter:
  assumes "delivers mu ok ent schema c E G p P"
  shows "delivers mu ok ent schema c E G (Filter p q) (\<lambda>e. P e \<and> eval_inner e q)"
  unfolding delivers_def
proof (intro allI impI)
  fix s assume "ok s" "ent s = E"
  then obtain it s' where "exec_rows mu schema p s = (Inr it, s')" "ok s'" "ent s' = E" "iter_ok c it"
      "distinct (map fst (iter_rows G it))" "set (iter_rows G it) = entities G P"
    using assms unfolding delivers_def by blast
  then show "\<exists>it s'. exec_rows mu schema (Filter p q) s = (Inr it, s') \<and> ok s' \<and> ent s' = E \<and> iter_ok c it \<and>
      distinct (map fst (iter_rows G it)) \<and> set (iter_rows G it) = entities G (\<lambda>e. P e \<and> eval_inner e q)"
    by (intro exI[of _ "Filtering q it"] exI[of _ s']) (auto simp: bindS_def entities_def distinct_fst_filter)
qed

lemma deliver_branches:
  assumes gets: "gets mu ok ent schema c E G" and "list_all2 (delivers mu ok ent schema c E G) bs Ps"
    and "ok s" and "ent s = E" and "distinct (map fst out)" and "set out \<subseteq> {(i, e). G i = Some e}" and "seen = fst ` set out"
  shows "\<exists>out' s'. exec_branches mu schema bs seen out s = (Inr out', s') \<and> ok s' \<and> ent s' = E \<and> distinct (map fst out') \<and>
     set out' = set out \<union> entities G (\<lambda>e. \<exists>P \<in> set Ps. P e)"
  using assms(2-)
proof (induction bs Ps arbitrary: s out seen rule: list_all2_induct)
  case Nil
  then show ?case by (auto simp: entities_def)
next
  case (Cons b bs P Ps)
  obtain it s1 where b: "exec_rows mu schema b s = (Inr it, s1)" "ok s1" "ent s1 = E" "iter_ok c it"
      "set (iter_rows G it) = entities G P"
    using Cons.hyps(1) Cons.prems(1,2) unfolding delivers_def by blast
  obtain s2 where r: "row_collect mu schema it s1 = (Inr (iter_rows G it), s2)" "ok s2" "ent s2 = E"
    using row_collect_rows[OF gets b(2-4)] by blast
  obtain out1 seen1 where u: "unseen fst (iter_rows G it) seen out = (out1, seen1)" by (cases "unseen fst (iter_rows G it) seen out")
  have sub: "set (iter_rows G it) \<subseteq> {(i, e). G i = Some e}" using b(5) by (auto simp: entities_def)
  note un = unseen_rows[OF Cons.prems(3,4) sub Cons.prems(5) u]
  have "set out1 \<subseteq> {(i, e). G i = Some e}" using un sub Cons.prems(4) by blast
  then obtain out' s' where "exec_branches mu schema bs seen1 out1 s2 = (Inr out', s')" "ok s'" "ent s' = E" "distinct (map fst out')"
      "set out' = set out1 \<union> entities G (\<lambda>e. \<exists>P \<in> set Ps. P e)"
    using Cons.IH[OF r(2,3), of out1 seen1] un by blast
  then show ?case using b r(1) u un by (intro exI[of _ out'] exI[of _ s']) (auto simp: bindS_def entities_def)
qed

lemma deliver_union:
  assumes "gets mu ok ent schema c E G" and "list_all2 (delivers mu ok ent schema c E G) bs Ps"
  shows "delivers mu ok ent schema c E G (UnionIds bs) (\<lambda>e. \<exists>P \<in> set Ps. P e)"
  unfolding delivers_def
proof (intro allI impI)
  fix s assume "ok s" "ent s = E"
  then obtain out s' where "exec_branches mu schema bs {} [] s = (Inr out, s')" "ok s'" "ent s' = E" "distinct (map fst out)"
      "set out = entities G (\<lambda>e. \<exists>P \<in> set Ps. P e)"
    using deliver_branches[OF assms, of s "[]" "{}"] by auto
  then show "\<exists>it s'. exec_rows mu schema (UnionIds bs) s = (Inr it, s') \<and> ok s' \<and> ent s' = E \<and> iter_ok c it \<and>
      distinct (map fst (iter_rows G it)) \<and> set (iter_rows G it) = entities G (\<lambda>e. \<exists>P \<in> set Ps. P e)"
    by (intro exI[of _ "Listed (map Inr out)"] exI[of _ s']) (auto simp: bindS_def)
qed

end

section \<open>The plan of a clause\<close>

lemma pick_known:
  assumes "pick_index_field_cost clause schema c = Some field"
  shows "ready_field schema c field" and "lits_on field clause \<noteq> {}"
proof -
  let ?N = "set (map li_field (filter (\<lambda>l. indexable l \<and> ready_field schema c (li_field l)) clause))"
  have fold: "map_option fst (fold (\<lambda>field best.
            (case merge_bounds clause field of (lower, upper) \<Rightarrow>
             let cand = (field, field_shape clause field lower upper, lower, upper) in
             case best of None \<Rightarrow> Some cand | Some b \<Rightarrow> Some (if cheaper cand b then cand else b))) names best) = Some field \<Longrightarrow>
      field \<in> set names \<or> map_option fst best = Some field" for names best
  proof (induction names arbitrary: best)
    case (Cons n names)
    then show ?case
      by (auto dest!: Cons.IH simp: Let_def split: prod.splits option.splits if_splits)
  qed simp
  have "field \<in> ?N"
    using fold[of "sorted_list_of_set ?N" None] assms by (simp add: pick_index_field_cost_def Let_def)
  then show "ready_field schema c field" "lits_on field clause \<noteq> {}" by (auto simp: lits_on_def)
qed

text \<open>
  Whether the plan of a clause takes a composite index: one that it binds in two fields, or in one where no index on
  a single field serves.
\<close>

definition composite_planned :: "schema \<Rightarrow> 32 word \<Rightarrow> lit list \<Rightarrow> bool" where
  "composite_planned schema c clause = (case pick_composite_index clause schema c of
     None \<Rightarrow> False
   | Some (_, _, leading) \<Rightarrow>
       2 \<le> length leading \<or> length leading = 1 \<and> pick_index_field_cost clause schema c = None)"

lemma no_composite_planned: "composite_index_defs schema c = [] \<Longrightarrow> \<not> composite_planned schema c clause"
  by (simp add: composite_planned_def pick_composite_index_def)

lemma single_plan:
  assumes "\<not> composite_planned schema c clause"
  shows "plan_clause schema name c clause = (case pick_index_field_cost clause schema c of
     Some field \<Rightarrow> (case merge_bounds clause field of (lower, upper) \<Rightarrow> Inr
       (Fetch (IndexScan name field lower upper) name, filter (\<lambda>l. \<not> (li_field l = field \<and> indexable l)) clause))
   | None \<Rightarrow> Inr (FullScan name, clause))"
  using assms by (auto simp: plan_clause_def composite_planned_def Let_def split: option.splits prod.splits)

lemma lit_holds_indexable:
  "indexable l \<Longrightarrow> lit_holds e l \<longleftrightarrow> (\<exists>v. entity_field (li_field l) e = Some v \<and> compare_val v (li_cmp l) (li_value l))"
  by (auto simp: lit_holds_def lit_predicate_def indexable_def missing_field_def split: option.split)

text \<open>The condition a source stands for, and when it leaves nothing of the clause out.\<close>

definition source_ok :: "'s mutator \<Rightarrow> ('s \<Rightarrow> bool) \<Rightarrow> ('s \<Rightarrow> bytes \<Rightarrow> entry option) \<Rightarrow> schema \<Rightarrow> 32 word \<Rightarrow> (bytes \<Rightarrow> entry option) \<Rightarrow>
    (bytes \<Rightarrow> entity option) \<Rightarrow> lit list \<Rightarrow> physical \<Rightarrow> lit list \<Rightarrow> bool" where
  "source_ok mu ok ent schema c E G clause p residual \<longleftrightarrow> (\<exists>P. delivers mu ok ent schema c E G p P \<and>
     (\<forall>e. list_all (lit_holds e) clause \<longrightarrow> P e) \<and>
     ((\<forall>field. clash_free clause field) \<longrightarrow> (\<forall>e. P e \<and> list_all (lit_holds e) residual \<longleftrightarrow> list_all (lit_holds e) clause)))"

context kv_read
begin

lemma plan_source_ok:
  assumes "reads schema c E G" and "view_ok schema E" and "lookup_collection_id name schema = Some c"
    and "\<not> composite_planned schema c clause"
  shows "\<exists>p residual. plan_source schema name (Some c) clause = Inr (p, residual) \<and>
     source_ok mu ok ent schema c E G clause p residual"
proof (cases "pick_index_field_cost clause schema c")
  case None
  have "delivers mu ok ent schema c E G (FullScan name) (\<lambda>_. True)"
    using deliver_scan[OF assms(1) _ _ assms(3)] assms(2) by (simp add: view_ok_def)
  then have "source_ok mu ok ent schema c E G clause (FullScan name) clause" unfolding source_ok_def by blast
  then show ?thesis
    using None by (simp add: plan_source_def single_plan[OF assms(4)])
next
  case (Some field)
  obtain lower upper where b: "merge_bounds clause field = (lower, upper)" by (cases "merge_bounds clause field")
  let ?P = "\<lambda>e. \<exists>v. entity_field field e = Some v \<and> within v lower upper"
  let ?res = "filter (\<lambda>l. \<not> (li_field l = field \<and> indexable l)) clause"
  note k = pick_known[OF Some]
  have split: "list_all (lit_holds e) clause \<longleftrightarrow> (\<forall>l \<in> lits_on field clause. lit_holds e l) \<and> list_all (lit_holds e) ?res" for e
    by (auto simp: list_all_iff lits_on_def)
  have on: "lit_holds e l \<longleftrightarrow> (\<exists>v. entity_field field e = Some v \<and> compare_val v (li_cmp l) (li_value l))"
    if "l \<in> lits_on field clause" for l e
    using that lit_holds_indexable[of l e] by (simp add: lits_on_def)
  have all: "(\<forall>l \<in> lits_on field clause. lit_holds e l) \<longleftrightarrow>
      (\<exists>v. entity_field field e = Some v \<and> (\<forall>l \<in> lits_on field clause. compare_val v (li_cmp l) (li_value l)))" for e
    using on[of _ e] k(2) by (cases "entity_field field e") auto
  have "?P e" if "list_all (lit_holds e) clause" for e
    using that merge_wide[OF b] unfolding split all by blast
  moreover have "?P e \<and> list_all (lit_holds e) ?res \<longleftrightarrow> list_all (lit_holds e) clause" if "clash_free clause field" for e
    unfolding split all merge_within[OF that b] by blast
  ultimately have "source_ok mu ok ent schema c E G clause (Fetch (IndexScan name field lower upper) name) ?res"
    using deliver_index[OF assms(1-3) k(1), of lower upper] unfolding source_ok_def by blast
  then show ?thesis
    using Some b by (simp add: plan_source_def single_plan[OF assms(4)])
qed

lemma plan_rows_deliver:
  assumes gets: "gets mu ok ent schema c E G" and base: "reads schema c E G" "view_ok schema E" "lookup_collection_id name schema = Some c"
    and single: "\<forall>cl \<in> set clauses. \<not> composite_planned schema c cl"
    and clauses: "clauses = (case combined of Some p \<Rightarrow> dnf p | None \<Rightarrow> [[]])"
    and clash: "length clauses = 1 \<longrightarrow> (\<forall>field. clash_free (clauses ! 0) field)"
  shows "\<exists>p. plan_rows schema name (Some c) combined clauses = Inr p \<and>
     delivers mu ok ent schema c E G p (\<lambda>e. case combined of Some q \<Rightarrow> eval_inner e q | None \<Rightarrow> True)"
proof -
  let ?Q = "\<lambda>e. case combined of Some q \<Rightarrow> eval_inner e q | None \<Rightarrow> True"
  have Q: "?Q e \<longleftrightarrow> clauses_hold e clauses" for e
    unfolding clauses using dnf_holds(1) by (simp add: clauses_hold_def split: option.split)
  show ?thesis
  proof (cases "length clauses = 1")
    case True
    then obtain cl where cl: "clauses = [cl]" by (cases clauses) auto
    obtain p residual P where s: "plan_source schema name (Some c) cl = Inr (p, residual)" "delivers mu ok ent schema c E G p P"
        "\<forall>e. P e \<and> list_all (lit_holds e) residual \<longleftrightarrow> list_all (lit_holds e) cl"
      using plan_source_ok[OF base, of cl] single clash True cl unfolding source_ok_def by auto
    have "delivers mu ok ent schema c E G (with_residual residual p) (\<lambda>e. P e \<and> list_all (lit_holds e) residual)"
    proof (cases residual)
      case Nil
      then show ?thesis using s(2) by (simp add: with_residual_def)
    next
      case (Cons l ls)
      then show ?thesis using deliver_filter[OF s(2), of "clause_residual l ls"] by (simp add: with_residual_def clause_residual_holds)
    qed
    moreover have "?Q = (\<lambda>e. P e \<and> list_all (lit_holds e) residual)"
      using s(3) Q cl by (auto simp: clauses_hold_def fun_eq_iff)
    ultimately show ?thesis using s(1) cl by (simp add: plan_rows_def)
  next
    case False
    then obtain q where q: "combined = Some q" using clauses by (cases combined) auto
    have "\<exists>ps Ps. mapE (plan_source schema name (Some c)) cls = Inr ps \<and> list_all2 (delivers mu ok ent schema c E G) (map fst ps) Ps \<and>
        list_all2 (\<lambda>cl P. \<forall>e. list_all (lit_holds e) cl \<longrightarrow> P e) cls Ps" if "set cls \<subseteq> set clauses" for cls
      using that
    proof (induction cls)
      case (Cons cl cls)
      have sp: "\<not> composite_planned schema c cl" using single Cons.prems by auto
      obtain p residual P where "plan_source schema name (Some c) cl = Inr (p, residual)" "delivers mu ok ent schema c E G p P"
          "\<forall>e. list_all (lit_holds e) cl \<longrightarrow> P e"
        using plan_source_ok[OF base sp] unfolding source_ok_def by auto
      moreover obtain ps Ps where "mapE (plan_source schema name (Some c)) cls = Inr ps"
          "list_all2 (delivers mu ok ent schema c E G) (map fst ps) Ps"
          "list_all2 (\<lambda>cl P. \<forall>e. list_all (lit_holds e) cl \<longrightarrow> P e) cls Ps"
        using Cons.IH Cons.prems by auto
      ultimately show ?case by (intro exI[of _ "(p, residual) # ps"] exI[of _ "P # Ps"]) simp
    qed simp
    then obtain ps Ps where m: "mapE (plan_source schema name (Some c)) clauses = Inr ps"
        "list_all2 (delivers mu ok ent schema c E G) (map fst ps) Ps"
        "list_all2 (\<lambda>cl P. \<forall>e. list_all (lit_holds e) cl \<longrightarrow> P e) clauses Ps"
      by blast
    have "\<exists>P \<in> set Ps. P e" if h: "clauses_hold e clauses" for e
    proof -
      obtain j where "j < length clauses" "list_all (lit_holds e) (clauses ! j)"
        using h unfolding clauses_hold_def list_ex_iff by (metis in_set_conv_nth)
      then show ?thesis using m(3) by (auto simp: list_all2_conv_all_nth intro!: bexI[of _ "Ps ! j"])
    qed
    then have "(\<lambda>e. (\<exists>P \<in> set Ps. P e) \<and> eval_inner e q) = ?Q" using Q q by (auto simp: fun_eq_iff)
    then have "delivers mu ok ent schema c E G (Filter (UnionIds (map fst ps)) q) ?Q"
      using deliver_filter[OF deliver_union[OF gets m(2)], of q] by simp
    then show ?thesis using False q m(1) by (simp add: plan_rows_def)
  qed
qed

end

section \<open>The plan of a query\<close>

definition all_hold :: "predicate list \<Rightarrow> entity \<Rightarrow> bool" where
  "all_hold ps e \<longleftrightarrow> (\<forall>p \<in> set ps. eval_inner e p)"

lemma combine_holds: "(case combine ps of Some q \<Rightarrow> eval_inner e q | None \<Rightarrow> True) \<longleftrightarrow> all_hold ps e"
proof (cases ps)
  case (Cons p qs)
  have "eval_inner e (fold (\<lambda>q p. pred_and p q) qs p) \<longleftrightarrow> eval_inner e p \<and> (\<forall>q \<in> set qs. eval_inner e q)" for p
    by (induction qs arbitrary: p) (auto simp: pred_and_def)
  then show ?thesis using Cons by (simp add: combine_def all_hold_def)
qed (simp add: combine_def all_hold_def)

text \<open>
  A query on a known collection whose plan takes single-field indexes and scans only: no clause takes a composite
  index, no sort under a limit is left to the order of an index, and a query of one clause bounds no field by the
  same value with and without it.
\<close>

definition plain_query :: "schema \<Rightarrow> 32 word \<Rightarrow> logical \<Rightarrow> bool" where
  "plain_query schema c logical = (case decompose logical [] None None of (collection, ps, srt, limit) \<Rightarrow>
     let clauses = (case combine ps of Some p \<Rightarrow> dnf p | None \<Rightarrow> [[]]) in
     lookup_collection_id collection schema = Some c \<and> (\<forall>cl \<in> set clauses. \<not> composite_planned schema c cl) \<and>
     (length clauses = 1 \<longrightarrow> (\<forall>field. clash_free (clauses ! 0) field)) \<and>
     (\<forall>field dir n. srt = Some (field, dir) \<longrightarrow> limit = Some n \<longrightarrow> \<not> index_order_enabled schema (Some c) field clauses))"

text \<open>What the layers above the filters make of the rows.\<close>

definition arranged :: "(bytes \<times> sort_dir) option \<Rightarrow> nat option \<Rightarrow> row list \<Rightarrow> row list" where
  "arranged srt limit rows =
     (let sorted = (case srt of None \<Rightarrow> rows | Some (field, dir) \<Rightarrow> sort_rows field dir rows) in
      case limit of None \<Rightarrow> sorted | Some n \<Rightarrow> take n sorted)"

context kv_read
begin

lemma run_delivered:
  assumes gets: "gets mu ok ent schema c E G" and d: "delivers mu ok ent schema c E G p P" and s: "ok s" "ent s = E"
  shows "\<exists>rows s'. distinct (map fst rows) \<and> set rows = entities G P \<and> ok s' \<and> ent s' = E \<and>
     run_m mu schema (case limit of Some n \<Rightarrow> Limit (case srt of Some (f, dir) \<Rightarrow> Sort p f dir | None \<Rightarrow> p) n
       | None \<Rightarrow> (case srt of Some (f, dir) \<Rightarrow> Sort p f dir | None \<Rightarrow> p)) s = (Inr (arranged srt limit rows), s')"
proof -
  obtain it s1 where b: "exec_rows mu schema p s = (Inr it, s1)" "ok s1" "ent s1 = E" "iter_ok c it"
      "distinct (map fst (iter_rows G it))" "set (iter_rows G it) = entities G P"
    using d s unfolding delivers_def by blast
  let ?rows = "iter_rows G it"
  obtain s2 where r: "row_collect mu schema it s1 = (Inr ?rows, s2)" "ok s2" "ent s2 = E"
    using row_collect_rows[OF gets b(2-4)] by blast
  let ?p = "case srt of Some (f, dir) \<Rightarrow> Sort p f dir | None \<Rightarrow> p"
  let ?sorted = "case srt of None \<Rightarrow> ?rows | Some (field, dir) \<Rightarrow> sort_rows field dir ?rows"
  have "\<exists>it' s'. exec_rows mu schema ?p s = (Inr it', s') \<and> ok s' \<and> ent s' = E \<and> iter_ok c it' \<and> iter_rows G it' = ?sorted"
  proof (cases srt)
    case None
    then show ?thesis using b by auto
  next
    case (Some fd)
    obtain f dir where "fd = (f, dir)" by (cases fd)
    then show ?thesis
      using b r Some by (intro exI[of _ "Listed (map Inr (sort_rows f dir ?rows))"] exI[of _ s2]) (auto simp: bindS_def)
  qed
  then obtain it' s3 where q: "exec_rows mu schema ?p s = (Inr it', s3)" "ok s3" "ent s3 = E" "iter_ok c it'" "iter_rows G it' = ?sorted"
    by blast
  show ?thesis
  proof (cases limit)
    case None
    obtain s' where "row_collect mu schema it' s3 = (Inr ?sorted, s')" "ok s'" "ent s' = E"
      using row_collect_rows[OF gets q(2-4)] q(5) by auto
    then show ?thesis
      using None q(1) b(5,6) by (intro exI[of _ ?rows] exI[of _ s']) (simp add: run_m_def bindS_def arranged_def)
  next
    case (Some n)
    have "iter_ok c (Taking n it')" using q(4) by simp
    then obtain s' where "row_collect mu schema (Taking n it') s3 = (Inr (take n ?sorted), s')" "ok s'" "ent s' = E"
      using row_collect_rows[OF gets q(2,3), of "Taking n it'"] q(5) by auto
    then show ?thesis
      using Some q(1) b(5,6) by (intro exI[of _ ?rows] exI[of _ s']) (simp add: run_m_def bindS_def arranged_def)
  qed
qed

lemma query_rows:
  assumes s: "ok s" and inv: "schema_inv schema" and view: "view_ok schema (ent s)" and plain: "plain_query schema c logical"
    and dec: "decompose logical [] None None = (collection, ps, srt, limit)"
  shows "\<exists>p G rows s'. plan_query schema logical = Inr p \<and> gets mu ok ent schema c (ent s) G \<and>
     reads schema c (ent s) G \<and> distinct (map fst rows) \<and> set rows = entities G (all_hold ps) \<and>
     run_m mu schema p s = (Inr (arranged srt limit rows), s') \<and> ok s' \<and> ent s' = ent s"
proof -
  let ?clauses = "case combine ps of Some p \<Rightarrow> dnf p | None \<Rightarrow> [[]]"
  have pl: "lookup_collection_id collection schema = Some c" "\<forall>cl \<in> set ?clauses. \<not> composite_planned schema c cl"
      "length ?clauses = 1 \<longrightarrow> (\<forall>field. clash_free (?clauses ! 0) field)"
      "\<forall>field dir n. srt = Some (field, dir) \<longrightarrow> limit = Some n \<longrightarrow> \<not> index_order_enabled schema (Some c) field ?clauses"
    using plain dec by (simp_all add: plain_query_def Let_def)
  have v: "keys_ok (ent s)" "fields_ok schema (vals (ent s))" using view by (simp_all add: view_ok_def)
  obtain G where G: "gets mu ok ent schema c (ent s) G" "reads schema c (ent s) G"
    using reader[OF s refl inv v] by blast
  obtain p where p: "plan_rows schema collection (Some c) (combine ps) ?clauses = Inr p"
      "delivers mu ok ent schema c (ent s) G p (all_hold ps)"
    using plan_rows_deliver[OF G view pl(1,2) refl pl(3)] unfolding combine_holds by blast
  let ?srt = "case srt of Some (f, dir) \<Rightarrow> Sort p f dir | None \<Rightarrow> p"
  have "plan_query schema logical = Inr (case limit of Some n \<Rightarrow> Limit ?srt n | None \<Rightarrow> ?srt)"
    using dec p(1) pl(1,4) by (auto simp: plan_query_def Let_def split: option.split)
  then show ?thesis using G run_delivered[OF G(1) p(2) s refl, where limit = limit and srt = srt] by blast
qed

end

end
