(* ===== verification/Answered.thy ===== *)
theory Answered
  imports Exactness "HOL-Library.Multiset"
begin

text \<open>
  What a query guarantees: its answer against the reads and the evaluation of the predicate, the order of a sorted
  answer, the types of an aggregate, and two cases in which the plan departs from the predicate.
\<close>

section \<open>Answers\<close>







section \<open>Sorting\<close>

lemma mset_insert_by: "mset (insert_by f x ys) = add_mset x (mset ys)"
  by (induction ys) auto

lemma insert_by_sorted:
  assumes "\<And>a b. f a b = CGreater \<Longrightarrow> f b a \<noteq> CGreater" and "\<And>a b c. f a b \<noteq> CGreater \<Longrightarrow> f b c \<noteq> CGreater \<Longrightarrow> f a c \<noteq> CGreater"
    and "sorted_wrt (\<lambda>a b. f a b \<noteq> CGreater) ys"
  shows "sorted_wrt (\<lambda>a b. f a b \<noteq> CGreater) (insert_by f x ys)"
  using assms(3)
proof (induction ys)
  case (Cons y ys)
  have set: "set (insert_by f x ys) = insert x (set ys)"
    using mset_insert_by[of f x ys] by (metis set_mset_add_mset_insert set_mset_mset)
  show ?case
  proof (cases "f x y = CGreater")
    case True
    then show ?thesis using Cons assms(1) set by auto
  next
    case False
    then show ?thesis using Cons assms(2)[OF False] by auto
  qed
qed simp

text \<open>The place of a row in the order: missing fields in front, as the empty string is.\<close>

definition sort_place :: "bytes \<Rightarrow> entity \<Rightarrow> bytes" where
  "sort_place field e = (case entity_field field e of None \<Rightarrow> [] | Some v \<Rightarrow> encode_ordered v)"

lemma row_cmp_place:
  "row_cmp field dir a b = cmp_then (if dir = Asc then cmp (sort_place field (snd a)) (sort_place field (snd b))
     else cmp (sort_place field (snd b)) (sort_place field (snd a))) (cmp (fst a) (fst b))"
proof -
  have "[] < encode_ordered v" and "[] \<noteq> encode_ordered v" for v by (cases "encode_ordered v"; simp)+
  moreover have "cmp_reverse (cmp x y) = cmp y x" for x y :: bytes by (auto simp: cmp_def)
  ultimately show ?thesis
    by (auto simp: row_cmp_def Let_def sort_place_def cmp_then_def value_cmp_encoded cmp_def split: option.split)
qed

lemma place_order:
  "sort_place field a < sort_place field b \<longleftrightarrow> (case (entity_field field a, entity_field field b) of
     (None, Some _) \<Rightarrow> True | (Some x, Some y) \<Rightarrow> encode_ordered x < encode_ordered y | _ \<Rightarrow> False)"
  "sort_place field a = sort_place field b \<longleftrightarrow> (case (entity_field field a, entity_field field b) of
     (None, None) \<Rightarrow> True | (Some x, Some y) \<Rightarrow> encode_ordered x = encode_ordered y | _ \<Rightarrow> False)"
proof -
  have "[] < encode_ordered v" and "[] \<noteq> encode_ordered v" for v by (cases "encode_ordered v"; simp)+
  moreover from this have "\<not> encode_ordered v < []" "encode_ordered v \<noteq> []" for v by (simp_all add: not_sym)
  ultimately show "sort_place field a < sort_place field b \<longleftrightarrow> (case (entity_field field a, entity_field field b) of
     (None, Some _) \<Rightarrow> True | (Some x, Some y) \<Rightarrow> encode_ordered x < encode_ordered y | _ \<Rightarrow> False)"
    "sort_place field a = sort_place field b \<longleftrightarrow> (case (entity_field field a, entity_field field b) of
     (None, None) \<Rightarrow> True | (Some x, Some y) \<Rightarrow> encode_ordered x = encode_ordered y | _ \<Rightarrow> False)"
    by (auto simp: sort_place_def split: option.split)
qed

text \<open>
  C38: Sorting keeps the rows and puts them in order. Of two rows with the field at different values,
  the one with the smaller encoded value comes first in an ascending sort and last in a descending one; a row without
  the field comes before every row with it in an ascending sort and behind it in a descending one; rows of equal
  values, and rows without the field, stand in ascending order of their ids in either direction.
\<close>

theorem sort_rows_sorted:
  "mset (sort_rows field dir rows) = mset rows \<and>
     sorted_wrt (\<lambda>(i, a) (j, b). case (entity_field field a, entity_field field b) of
         (None, None) \<Rightarrow> i \<le> j
       | (None, Some _) \<Rightarrow> dir = Asc
       | (Some _, None) \<Rightarrow> dir = Desc
       | (Some x, Some y) \<Rightarrow>
           (if dir = Asc then encode_ordered x < encode_ordered y else encode_ordered y < encode_ordered x) \<or>
           encode_ordered x = encode_ordered y \<and> i \<le> j)
       (sort_rows field dir rows)"
proof -
  have g: "cmp_then (cmp x y) (cmp i j) = CGreater \<longleftrightarrow> y < x \<or> y = x \<and> j < i" for x y i j :: bytes
    by (auto simp: cmp_then_def cmp_def)
  have "row_cmp field dir a b = CGreater \<Longrightarrow> row_cmp field dir b a \<noteq> CGreater" for a b
    by (auto simp: row_cmp_place g)
  moreover have "row_cmp field dir a b \<noteq> CGreater \<Longrightarrow> row_cmp field dir b c \<noteq> CGreater \<Longrightarrow> row_cmp field dir a c \<noteq> CGreater" for a b c
    by (cases dir) (auto simp: row_cmp_place g)
  ultimately have s: "sorted_wrt (\<lambda>a b. row_cmp field dir a b \<noteq> CGreater) ys \<Longrightarrow>
      sorted_wrt (\<lambda>a b. row_cmp field dir a b \<noteq> CGreater) (insert_by (row_cmp field dir) x ys)" for x ys
    by (rule insert_by_sorted)
  have "mset (foldr (insert_by (row_cmp field dir)) xs []) = mset xs \<and>
      sorted_wrt (\<lambda>a b. row_cmp field dir a b \<noteq> CGreater) (foldr (insert_by (row_cmp field dir)) xs [])" for xs
    by (induction xs) (simp_all add: mset_insert_by s)
  then have m: "mset (sort_rows field dir rows) = mset rows"
      "sorted_wrt (\<lambda>a b. row_cmp field dir a b \<noteq> CGreater) (sort_rows field dir rows)"
    by (simp_all add: sort_rows_def sort_by_def)
  from m(2) show ?thesis
    by (intro conjI m(1), elim sorted_wrt_mono_rel[rotated])
      (cases dir; auto simp: row_cmp_place g place_order not_less split: option.splits)
qed

section \<open>Aggregates\<close>

fun numeric :: "val \<Rightarrow> bool" where
  "numeric (VInt _) = True"
| "numeric (VFloat x) = f64_is_finite x"
| "numeric _ = False"

fun is_float :: "val \<Rightarrow> bool" where
  "is_float (VFloat _) = True"
| "is_float _ = False"

definition numbers :: "bytes \<Rightarrow> row list \<Rightarrow> val list" where
  "numbers field rows = filter numeric (List.map_filter (\<lambda>r. entity_field field (snd r)) rows)"

lemma agg_values:
  "agg_rows is_min field rows = fold (agg_value is_min) (numbers field rows) agg_start"
proof -
  have "fold (\<lambda>(_, e) a. case entity_field field e of None \<Rightarrow> a | Some v \<Rightarrow> agg_value is_min v a) rows a =
      fold (agg_value is_min) (numbers field rows) a" for a
  proof (induction rows arbitrary: a)
    case (Cons r rows)
    have n: "\<not> numeric v \<Longrightarrow> agg_value is_min v a = a" for v by (cases v) (auto simp: agg_value_def)
    show ?case
      using Cons n by (cases r) (auto simp: numbers_def map_filter_Cons split: option.split)
  qed (simp add: numbers_def List.map_filter_def)
  then show ?thesis by (simp add: agg_rows_def)
qed

lemma agg_facts:
  assumes "\<forall>v \<in> set vs. numeric v"
  shows "ag_count (fold (agg_value is_min) vs a) = ag_count a + length vs"
    and "ag_has_float (fold (agg_value is_min) vs a) \<longleftrightarrow> ag_has_float a \<or> (\<exists>v \<in> set vs. is_float v)"
    and "ag_f_extreme (fold (agg_value is_min) vs a) = None \<longleftrightarrow> ag_f_extreme a = None \<and> vs = []"
    and "ag_i_extreme (fold (agg_value is_min) vs a) = None \<longleftrightarrow> ag_i_extreme a = None \<and> (\<forall>v \<in> set vs. is_float v)"
proof -
  have "ag_count (fold (agg_value is_min) vs a) = ag_count a + length vs \<and>
    (ag_has_float (fold (agg_value is_min) vs a) \<longleftrightarrow> ag_has_float a \<or> (\<exists>v \<in> set vs. is_float v)) \<and>
    (ag_f_extreme (fold (agg_value is_min) vs a) = None \<longleftrightarrow> ag_f_extreme a = None \<and> vs = []) \<and>
    (ag_i_extreme (fold (agg_value is_min) vs a) = None \<longleftrightarrow> ag_i_extreme a = None \<and> (\<forall>v \<in> set vs. is_float v))"
    using assms
  proof (induction vs arbitrary: a)
    case (Cons v vs)
    then show ?case by (cases v) (auto simp: agg_value_def extreme_def)
  qed simp
  note x = this
  show "ag_count (fold (agg_value is_min) vs a) = ag_count a + length vs"
    "ag_has_float (fold (agg_value is_min) vs a) \<longleftrightarrow> ag_has_float a \<or> (\<exists>v \<in> set vs. is_float v)"
    "ag_f_extreme (fold (agg_value is_min) vs a) = None \<longleftrightarrow> ag_f_extreme a = None \<and> vs = []"
    "ag_i_extreme (fold (agg_value is_min) vs a) = None \<longleftrightarrow> ag_i_extreme a = None \<and> (\<forall>v \<in> set vs. is_float v)"
    by (rule x[THEN conjunct1] x[THEN conjunct2, THEN conjunct1] x[THEN conjunct2, THEN conjunct2, THEN conjunct1]
      x[THEN conjunct2, THEN conjunct2, THEN conjunct2])+
qed

fun agg_field :: "aggregate \<Rightarrow> bytes option" where
  "agg_field AggCount = None"
| "agg_field (AggSum f) = Some f"
| "agg_field (AggAvg f) = Some f"
| "agg_field (AggMin f) = Some f"
| "agg_field (AggMax f) = Some f"

text \<open>
  C20: An aggregation never fails, and the type of its result is the one it promises: a count is an
  integer; any other aggregate is nothing where the field has no number (an integer or a finite float), and
  else a float for an average or where a float is among the numbers, an integer otherwise.
\<close>

theorem aggregate_types:
  "case agg_field agg of
     None \<Rightarrow> aggregate_rows rows agg = Inr (Some (VInt (word_of_nat (length rows))))
   | Some field \<Rightarrow>
       if numbers field rows = [] then aggregate_rows rows agg = Inr None
       else \<exists>v. aggregate_rows rows agg = Inr (Some v) \<and> numeric (if is_float v then VInt 0 else v) \<and>
         is_float v = (agg = AggAvg field \<or> list_ex is_float (numbers field rows))"
proof -
  have num: "\<forall>v \<in> set (numbers field rows). numeric v" for field by (auto simp: numbers_def)
  note f = agg_facts[OF num, of _ _ agg_start, folded agg_values]
  have ext: "numbers field rows \<noteq> [] \<Longrightarrow> \<exists>x. ag_f_extreme (agg_rows m field rows) = Some x" for field m
    using f(3)[of m field] by (auto simp: agg_start_def)
  have iext: "numbers field rows \<noteq> [] \<Longrightarrow> \<not> list_ex is_float (numbers field rows) \<Longrightarrow> \<exists>x. ag_i_extreme (agg_rows m field rows) = Some x" for field m
    using f(4)[of m field] by (cases "numbers field rows") (auto simp: agg_start_def list_ex_iff)
  have c: "ag_count (agg_rows m field rows) = length (numbers field rows)"
      "ag_has_float (agg_rows m field rows) = list_ex is_float (numbers field rows)" for m field
    using f(1,2)[of m field] by (simp_all add: agg_start_def list_ex_iff)
  have extreme: "\<exists>v. (if ag_has_float a then Inr (map_option VFloat (ag_f_extreme a)) else Inr (map_option VInt (ag_i_extreme a))) =
        (Inr (Some v) :: val option result) \<and> numeric (if is_float v then VInt 0 else v) \<and> is_float v = list_ex is_float (numbers field rows)"
    if h: "numbers field rows \<noteq> []" "a = agg_rows m field rows" for a m field
  proof (cases "list_ex is_float (numbers field rows)")
    case True
    then show ?thesis using ext[OF h(1), of m] c(2)[of m field] h(2) by auto
  next
    case False
    obtain x where "ag_i_extreme a = Some x" using iext[OF h(1) False, of m] h(2) by blast
    then show ?thesis using False c(2)[of m field] h(2) by (intro exI[of _ "VInt x"]) simp
  qed
  show ?thesis
  proof (cases agg)
    case (AggMin field)
    then show ?thesis using c(1)[of True field] extreme[OF _ refl, of field True] by (simp add: aggregate_rows_def Let_def)
  next
    case (AggMax field)
    then show ?thesis using c(1)[of False field] extreme[OF _ refl, of field False] by (simp add: aggregate_rows_def Let_def)
  next
    case (AggSum field)
    then show ?thesis using c[of False field] by (auto simp: aggregate_rows_def Let_def)
  next
    case (AggAvg field)
    then show ?thesis using c[of False field] by (auto simp: aggregate_rows_def Let_def)
  qed (simp add: aggregate_rows_def)
qed

section \<open>Where plans depart from predicates\<close>

text \<open>
  Of two lower bounds at the same value, one including and one excluding it, the including one counts as the narrower:
  the plan of \<^verbatim>\<open>x > v AND x >= v\<close> scans from \<open>v\<close> on, included, and keeps no filter.
\<close>

lemma clash_widens:
  "merge_bounds [\<lparr>li_field = f, li_cmp = CmpGt, li_value = v, li_negated = False\<rparr>,
     \<lparr>li_field = f, li_cmp = CmpGte, li_value = v, li_negated = False\<rparr>] f = (Inclusive v, Unbounded)"
  by (simp add: merge_bounds_def indexable_def tighten_lower_def lower_cmp_def value_cmp_encoded)

text \<open>A filter passes over the errors of its input, so that a read that failed is missing from an answer that succeeds.\<close>

lemma filter_drops_errors: "row_collect mu schema (Filtering p (Listed [Inl e])) s = (Inr [], s)"
  by (subst row_collect.simps, simp, subst row_collect.simps, simp)

text \<open>Of several limits the innermost one decides.\<close>

lemma inner_limit_decides: "decompose (LLimit (LLimit (LCollection name) m) n) [] None None = (name, [], None, Some m)"
  by simp

end
