(* ===== verification/Lexer.thy ===== *)
theory Lexer
  imports Queries
begin

text \<open>
  The lexer of the query language (\<^verbatim>\<open>src/lsmql/lexer.rs\<close>) with the errors of \<^verbatim>\<open>src/lsmql/error.rs\<close>. The state of
  the lexer is what is left of the text and the position of its first byte.
\<close>

section \<open>Errors\<close>

datatype semantic_error =
    UnknownCollection bytes
  | UnknownField bytes bytes
  | TypeMismatch bytes bytes bytes
  | UnboundParameter bytes
  | NonNumericAggregate bytes bytes

text \<open>\<open>LPanic\<close> stands for a panic, as \<open>Panic\<close> does among the errors of the engine.\<close>

datatype lsmql_error =
    LParse bytes nat nat
  | LSemantic semantic_error
  | LUnsupported bytes bytes
  | LExecution bytes
  | LPanic bytes

type_synonym 'a lsmql_result = "lsmql_error + 'a"

fun semantic_display :: "semantic_error \<Rightarrow> bytes" where
  "semantic_display (UnknownCollection c) = str ''unknown collection: '' @ c"
| "semantic_display (UnknownField c f) = str ''unknown field '' @ [39] @ f @ [39] @ str '' on collection '' @ [39] @ c @ [39]"
| "semantic_display (TypeMismatch f expected got) =
     str ''type mismatch on '' @ [39] @ f @ [39] @ str '': expected '' @ expected @ str '', got '' @ got"
| "semantic_display (UnboundParameter n) = str ''unbound parameter: $'' @ n"
| "semantic_display (NonNumericAggregate fn f) = fn @ str '' requires a numeric field, '' @ [39] @ f @ [39] @ str '' is not''"

fun lsmql_display :: "lsmql_error \<Rightarrow> bytes" where
  "lsmql_display (LParse m l c) = str ''parse error at '' @ dec l @ str '':'' @ dec c @ str '': '' @ m"
| "lsmql_display (LSemantic e) = semantic_display e"
| "lsmql_display (LUnsupported f r) = str ''unsupported in v1: '' @ f @ str '' ('' @ r @ str '')''"
| "lsmql_display (LExecution m) = str ''execution error: '' @ m"
| "lsmql_display (LPanic m) = m"

section \<open>Tokens\<close>

datatype tok =
    KwSelect | KwFrom | KwWhere | KwOrder | KwBy | KwAsc | KwDesc | KwLimit | KwOffset | KwGroup | KwExplain
  | KwAnd | KwOr | KwNot | KwIs | KwNull | KwAbsent | KwIn | KwCount | KwSum | KwAvg | KwMin | KwMax
  | TStar | TComma | TLParen | TRParen | TEq | TNe | TLt | TLe | TGt | TGe
  | TIdent bytes | TParam bytes | TStr bytes | TNum "64 word" | TBool bool | TEof

record src_pos =
  pos_line :: nat
  pos_col :: nat

record src_token =
  tk_tok :: tok
  tk_pos :: src_pos

type_synonym lexer = "bytes \<times> src_pos"

text \<open>The text of the byte read as a character: a byte from 128 on takes two bytes in UTF-8.\<close>

definition char_utf8 :: "byte \<Rightarrow> bytes" where
  "char_utf8 b = (if b < 128 then [b] else [0xC0 OR drop_bit 6 b, 0x80 OR (b AND 0x3F)])"

definition is_alpha :: "byte \<Rightarrow> bool" where
  "is_alpha b \<longleftrightarrow> 65 \<le> b \<and> b \<le> 90 \<or> 97 \<le> b \<and> b \<le> 122"

definition is_word :: "byte \<Rightarrow> bool" where
  "is_word b \<longleftrightarrow> is_alpha b \<or> is_digit b \<or> b = 95"

definition to_upper :: "byte \<Rightarrow> byte" where
  "to_upper b = (if 97 \<le> b \<and> b \<le> 122 then b - 32 else b)"

section \<open>Reading\<close>

definition step_pos :: "byte \<Rightarrow> src_pos \<Rightarrow> src_pos" where
  "step_pos b p = (if b = 10 then \<lparr>pos_line = pos_line p + 1, pos_col = 1\<rparr> else p\<lparr>pos_col := pos_col p + 1\<rparr>)"

fun lx_peek_at :: "nat \<Rightarrow> lexer \<Rightarrow> byte" where
  "lx_peek_at n (cs, p) = (if n < length cs then cs ! n else 0)"

definition lx_peek :: "lexer \<Rightarrow> byte" where
  "lx_peek lx = lx_peek_at 0 lx"

text \<open>One byte on; the lexer does so only where there is one.\<close>

fun lx_bump :: "lexer \<Rightarrow> lexer" where
  "lx_bump (b # cs, p) = (cs, step_pos b p)"
| "lx_bump ([], p) = ([], p)"

fun skip_ws :: "lexer \<Rightarrow> lexer" where
  "skip_ws ([], p) = ([], p)"
| "skip_ws (b # cs, p) = (if b = 32 \<or> b = 9 \<or> b = 13 \<or> b = 10 then skip_ws (cs, step_pos b p) else (b # cs, p))"

fun lx_take_while :: "(byte \<Rightarrow> bool) \<Rightarrow> lexer \<Rightarrow> bytes \<times> lexer" where
  "lx_take_while f ([], p) = ([], [], p)"
| "lx_take_while f (b # cs, p) =
     (if f b then (case lx_take_while f (cs, step_pos b p) of (s, lx) \<Rightarrow> (char_utf8 b @ s, lx)) else ([], b # cs, p))"

text \<open>\<^verbatim>\<open>parse::<f64>\<close> of a text of a sign, digits and a point: the nearest float.\<close>

definition f64_from_str :: "bytes \<Rightarrow> 64 word option" where
  "f64_from_str s =
     (let neg = (s \<noteq> [] \<and> hd s = 45); r = (if neg then tl s else s);
          whole = takeWhile is_digit r; rest = dropWhile is_digit r;
          frac = (if rest \<noteq> [] \<and> hd rest = 46 then tl rest else rest) in
      if whole = [] \<and> frac = [] then None
      else map_option (\<lambda>n. f64_with_sign neg (f64_round_quot (n * 2 ^ 1074) (10 ^ length frac)))
        (parse_digits 0 (whole @ frac)))"

definition kw_or_ident :: "bytes \<Rightarrow> tok" where
  "kw_or_ident word =
     (let u = map to_upper word in
      if u = str ''SELECT'' then KwSelect else if u = str ''FROM'' then KwFrom
      else if u = str ''WHERE'' then KwWhere else if u = str ''ORDER'' then KwOrder
      else if u = str ''BY'' then KwBy else if u = str ''ASC'' then KwAsc
      else if u = str ''DESC'' then KwDesc else if u = str ''LIMIT'' then KwLimit
      else if u = str ''OFFSET'' then KwOffset else if u = str ''GROUP'' then KwGroup
      else if u = str ''EXPLAIN'' then KwExplain else if u = str ''AND'' then KwAnd
      else if u = str ''OR'' then KwOr else if u = str ''NOT'' then KwNot
      else if u = str ''IS'' then KwIs else if u = str ''NULL'' then KwNull
      else if u = str ''ABSENT'' then KwAbsent else if u = str ''IN'' then KwIn
      else if u = str ''COUNT'' then KwCount else if u = str ''SUM'' then KwSum
      else if u = str ''AVG'' then KwAvg else if u = str ''MIN'' then KwMin
      else if u = str ''MAX'' then KwMax else if u = str ''TRUE'' then TBool True
      else if u = str ''FALSE'' then TBool False else TIdent word)"

section \<open>Tokens of a text\<close>

definition lex_error :: "bytes \<Rightarrow> src_pos \<Rightarrow> lsmql_error" where
  "lex_error m p = LParse m (pos_line p) (pos_col p)"

definition lex_number :: "lexer \<Rightarrow> (tok \<times> lexer) lsmql_result" where
  "lex_number lx =
     (let start = snd lx;
          neg = (lx_peek lx = 45); lx1 = (if neg then lx_bump lx else lx) in
      case lx_take_while is_digit lx1 of (whole, lx2) \<Rightarrow>
      let num = (if neg then [45] else []) @ whole in
      case (if lx_peek lx2 = 46
            then (case lx_take_while is_digit (lx_bump lx2) of (frac, lx3) \<Rightarrow> (num @ [46] @ frac, lx3))
            else (num, lx2)) of (num, lx4) \<Rightarrow>
      (case f64_from_str num of
         Some n \<Rightarrow> Inr (TNum n, lx4)
       | None \<Rightarrow> Inl (lex_error (str ''invalid number: '' @ num) start)))"

definition lex_string :: "lexer \<Rightarrow> (tok \<times> lexer) lsmql_result" where
  "lex_string lx =
     (let start = snd lx; quote = lx_peek lx in
      case lx_take_while (\<lambda>b. b \<noteq> quote) (lx_bump lx) of (s, lx1) \<Rightarrow>
      if fst lx1 = [] then Inl (lex_error (str ''unterminated string literal'') start)
      else Inr (TStr s, lx_bump lx1))"

definition lex_param :: "lexer \<Rightarrow> (tok \<times> lexer) lsmql_result" where
  "lex_param lx =
     (let start = snd lx in
      case lx_take_while is_word (lx_bump lx) of (name, lx1) \<Rightarrow>
      if name = [] then Inl (lex_error (str ''expected parameter name after '' @ [39] @ str ''$'' @ [39]) start)
      else Inr (TParam name, lx1))"

text \<open>One token, where the text is not at its end.\<close>

definition lex_token :: "lexer \<Rightarrow> (tok \<times> lexer) lsmql_result" where
  "lex_token lx =
     (let start = snd lx; c = lx_peek lx; lx1 = lx_bump lx in
      if c = 42 then Inr (TStar, lx1)
      else if c = 44 then Inr (TComma, lx1)
      else if c = 40 then Inr (TLParen, lx1)
      else if c = 41 then Inr (TRParen, lx1)
      else if c = 61 then Inr (TEq, lx1)
      else if c = 60 then Inr (if lx_peek lx1 = 61 then (TLe, lx_bump lx1) else (TLt, lx1))
      else if c = 62 then Inr (if lx_peek lx1 = 61 then (TGe, lx_bump lx1) else (TGt, lx1))
      else if c = 33 then
        (if lx_peek lx1 = 61 then Inr (TNe, lx_bump lx1)
         else Inl (lex_error (str ''unexpected '' @ [39, 33, 39] @ str '' (expected '' @ [39, 33, 61, 39] @ str '')'') start))
      else if c = 34 \<or> c = 39 then lex_string lx
      else if c = 36 then lex_param lx
      else if is_digit c \<or> c = 45 \<and> is_digit (lx_peek_at 1 lx) then lex_number lx
      else if is_alpha c \<or> c = 95 then
        (case lx_take_while is_word lx of (word, lx2) \<Rightarrow> Inr (kw_or_ident word, lx2))
      else Inl (lex_error (str ''unexpected character '' @ [39] @ char_utf8 c @ [39]) start))"

section \<open>Every token takes some of the text\<close>

lemma lx_bump_length: "length (fst (lx_bump lx)) = length (fst lx) - 1"
  by (cases lx rule: lx_bump.cases) auto

lemma lx_peek_Cons [simp]: "lx_peek (b # cs, p) = b"
  by (simp add: lx_peek_def)

lemma lx_peek_Nil [simp]: "lx_peek ([], p) = 0"
  by (simp add: lx_peek_def)

lemma skip_ws_length: "length (fst (skip_ws lx)) \<le> length (fst lx)"
  by (induction lx rule: skip_ws.induct) auto

lemma take_while_length: "lx_take_while f lx = (s, lx') \<Longrightarrow> length (fst lx') \<le> length (fst lx)"
  by (induction f lx arbitrary: s lx' rule: lx_take_while.induct) (fastforce split: if_splits prod.splits)+

lemma take_while_first:
  assumes "lx_take_while f (b # cs, p) = (s, lx')" and "f b"
  shows "length (fst lx') \<le> length cs"
  using assms take_while_length[of f "(cs, step_pos b p)"] by (auto split: prod.splits)

lemma lex_number_length:
  assumes "lex_number (b # cs, p) = Inr (t, lx')" and "is_digit b \<or> b = 45"
  shows "length (fst lx') \<le> length cs"
proof -
  let ?lx1 = "if b = 45 then lx_bump (b # cs, p) else (b # cs, p)"
  obtain whole lx2 where w: "lx_take_while is_digit ?lx1 = (whole, lx2)" by (rule prod.exhaust)
  have l2: "length (fst lx2) \<le> length cs"
    using w take_while_length[OF w] take_while_first[of is_digit b cs p whole lx2] assms(2) by (cases "b = 45") auto
  obtain frac lx3 where r: "lx_take_while is_digit (lx_bump lx2) = (frac, lx3)" by (rule prod.exhaust)
  have "length (fst lx3) \<le> length cs" using take_while_length[OF r] l2 by (simp add: lx_bump_length)
  then show ?thesis using assms(1) w r l2 by (auto simp: lex_number_def Let_def split: if_splits option.splits)
qed

lemma lex_token_length:
  assumes "lex_token (b # cs, p) = Inr (t, lx')"
  shows "length (fst lx') \<le> length cs"
proof -
  have bump: "lx_bump (b # cs, p) = (cs, step_pos b p)" by simp
  have bb: "length (fst (lx_bump (cs, q))) \<le> length cs" for q by (simp add: lx_bump_length)
  have s: "lex_string (b # cs, p) = Inr (t, lx') \<Longrightarrow> length (fst lx') \<le> length cs"
    using take_while_length[of "\<lambda>c. c \<noteq> b" "(cs, step_pos b p)"]
    by (auto simp: lex_string_def Let_def lx_bump_length split: prod.splits if_splits)
  have q: "lex_param (b # cs, p) = Inr (t, lx') \<Longrightarrow> length (fst lx') \<le> length cs"
    using take_while_length[of is_word "(cs, step_pos b p)"] by (auto simp: lex_param_def Let_def split: prod.splits if_splits)
  have w: "is_alpha b \<or> b = 95 \<Longrightarrow> lx_take_while is_word (b # cs, p) = (x, lx') \<Longrightarrow> length (fst lx') \<le> length cs" for x
    using take_while_first[of is_word b cs p x lx'] by (auto simp: is_word_def)
  show ?thesis
    using assms s q w lex_number_length[of b cs p t lx'] bb unfolding lex_token_def Let_def lx_peek_Cons bump
    by (auto split: if_splits prod.splits)
qed

function tokenize_from :: "lexer \<Rightarrow> src_token list lsmql_result" where
  "tokenize_from lx =
     (let lx = skip_ws lx in
      if fst lx = [] then Inr [\<lparr>tk_tok = TEof, tk_pos = snd lx\<rparr>]
      else case lex_token lx of
        Inl e \<Rightarrow> Inl e
      | Inr (t, lx') \<Rightarrow> bindE (tokenize_from lx') (\<lambda>ts. Inr (\<lparr>tk_tok = t, tk_pos = snd lx\<rparr> # ts)))"
  by pat_completeness auto
termination
proof (relation "measure (length \<circ> fst)")
  fix lx lx1 r t lx'
  assume h: "lx1 = skip_ws lx" "fst lx1 \<noteq> []" "lex_token lx1 = Inr r" "(t, lx') = r"
  obtain b cs p where c: "lx1 = (b # cs, p)" using h(2) by (cases lx1; cases "fst lx1") auto
  have "lex_token lx1 = Inr (t, lx')" using h(3,4) by simp
  then have "length (fst lx') < length (fst lx1)" using lex_token_length c by (simp add: less_Suc_eq_le)
  then show "(lx', lx) \<in> measure (length \<circ> fst)" using skip_ws_length[of lx] h(1) by simp
qed simp

declare tokenize_from.simps [simp del]

definition tokenize :: "bytes \<Rightarrow> src_token list lsmql_result" where
  "tokenize src = tokenize_from (src, \<lparr>pos_line = 1, pos_col = 1\<rparr>)"

end
