(* ===== verification/Parser.thy ===== *)
theory Parser
  imports Lexer
begin

text \<open>
  The syntax tree of the query language and its parser by recursive descent (\<^verbatim>\<open>src/lsmql/ast.rs\<close> and
  \<^verbatim>\<open>parser.rs\<close>). The state of the parser is the list of the tokens from the current one on. The functions of
  expressions call each other and take the depth the stack may have; without enough of it they do not return.
\<close>

section \<open>Syntax trees\<close>

datatype agg_kind = KCount | KSum | KAvg | KMin | KMax

datatype proj_item = ItemField bytes | ItemAgg agg_kind "bytes option"

datatype projection = AllFields | Items "proj_item list"

datatype q_dir = QAsc | QDesc

fun as_query_dir :: "q_dir \<Rightarrow> sort_dir" where
  "as_query_dir QAsc = Asc"
| "as_query_dir QDesc = Desc"

datatype q_value = QString bytes | QNumber "64 word" | QBool bool | QNull | QParam bytes

datatype atom =
    AEq bytes q_value
  | ANe bytes q_value
  | ALt bytes q_value
  | ALe bytes q_value
  | AGt bytes q_value
  | AGe bytes q_value
  | AIn bytes "q_value list"
  | AIsNull bytes
  | AIsAbsent bytes

datatype q_expr = EAnd "q_expr list" | EOr "q_expr list" | ENot q_expr | EPred atom

record order_item =
  oi_field :: bytes
  oi_dir :: q_dir

record lsmql_query =
  lq_explain :: bool
  lq_projection :: projection
  lq_source :: bytes
  lq_predicate :: "q_expr option"
  lq_group_by :: "bytes list"
  lq_order_by :: "order_item list"
  lq_limit :: "nat option"
  lq_offset :: nat

section \<open>The text of a token\<close>

text \<open>\<open>shown\<close> is the text \<^verbatim>\<open>{:?}\<close> of a float, \<open>quoted\<close> that of a string.\<close>

fun tok_debug :: "(64 word \<Rightarrow> bytes) \<Rightarrow> (bytes \<Rightarrow> bytes) \<Rightarrow> tok \<Rightarrow> bytes" where
  "tok_debug shown quoted (TIdent s) = str ''Ident('' @ quoted s @ str '')''"
| "tok_debug shown quoted (TParam s) = str ''Param('' @ quoted s @ str '')''"
| "tok_debug shown quoted (TStr s) = str ''Str('' @ quoted s @ str '')''"
| "tok_debug shown quoted (TNum n) = str ''Num('' @ shown n @ str '')''"
| "tok_debug shown quoted (TBool b) = str ''Bool('' @ (if b then str ''true'' else str ''false'') @ str '')''"
| "tok_debug shown quoted KwSelect = str ''KwSelect''" | "tok_debug shown quoted KwFrom = str ''KwFrom''"
| "tok_debug shown quoted KwWhere = str ''KwWhere''" | "tok_debug shown quoted KwOrder = str ''KwOrder''"
| "tok_debug shown quoted KwBy = str ''KwBy''" | "tok_debug shown quoted KwAsc = str ''KwAsc''"
| "tok_debug shown quoted KwDesc = str ''KwDesc''" | "tok_debug shown quoted KwLimit = str ''KwLimit''"
| "tok_debug shown quoted KwOffset = str ''KwOffset''" | "tok_debug shown quoted KwGroup = str ''KwGroup''"
| "tok_debug shown quoted KwExplain = str ''KwExplain''" | "tok_debug shown quoted KwAnd = str ''KwAnd''"
| "tok_debug shown quoted KwOr = str ''KwOr''" | "tok_debug shown quoted KwNot = str ''KwNot''"
| "tok_debug shown quoted KwIs = str ''KwIs''" | "tok_debug shown quoted KwNull = str ''KwNull''"
| "tok_debug shown quoted KwAbsent = str ''KwAbsent''" | "tok_debug shown quoted KwIn = str ''KwIn''"
| "tok_debug shown quoted KwCount = str ''KwCount''" | "tok_debug shown quoted KwSum = str ''KwSum''"
| "tok_debug shown quoted KwAvg = str ''KwAvg''" | "tok_debug shown quoted KwMin = str ''KwMin''"
| "tok_debug shown quoted KwMax = str ''KwMax''" | "tok_debug shown quoted TStar = str ''Star''"
| "tok_debug shown quoted TComma = str ''Comma''" | "tok_debug shown quoted TLParen = str ''LParen''"
| "tok_debug shown quoted TRParen = str ''RParen''" | "tok_debug shown quoted TEq = str ''Eq''"
| "tok_debug shown quoted TNe = str ''Ne''" | "tok_debug shown quoted TLt = str ''Lt''"
| "tok_debug shown quoted TLe = str ''Le''" | "tok_debug shown quoted TGt = str ''Gt''"
| "tok_debug shown quoted TGe = str ''Ge''" | "tok_debug shown quoted TEof = str ''Eof''"

section \<open>Steps of the parser\<close>

type_synonym 'a parse = "(src_token list, lsmql_error, 'a) op"

text \<open>\<open>dbg\<close> is the text of a token in the messages.\<close>

definition p_peek :: "src_token list \<Rightarrow> tok" where
  "p_peek ts = (case ts of [] \<Rightarrow> TEof | t # _ \<Rightarrow> tk_tok t)"

definition p_pos :: "src_token list \<Rightarrow> src_pos" where
  "p_pos ts = (case ts of [] \<Rightarrow> \<lparr>pos_line = 0, pos_col = 0\<rparr> | t # _ \<Rightarrow> tk_pos t)"

definition p_skip :: "src_token list \<Rightarrow> src_token list" where
  "p_skip ts = (if p_peek ts = TEof then ts else tl ts)"

definition p_bump :: "tok parse" where
  "p_bump ts = (Inr (p_peek ts), p_skip ts)"

definition p_fail :: "bytes \<Rightarrow> 'a parse" where
  "p_fail m ts = (Inl (LParse m (pos_line (p_pos ts)) (pos_col (p_pos ts))), ts)"

definition p_expect :: "(tok \<Rightarrow> bytes) \<Rightarrow> tok \<Rightarrow> unit parse" where
  "p_expect dbg want ts =
     (if p_peek ts = want then bindS p_bump (\<lambda>_. retS ()) ts
      else p_fail (str ''expected '' @ dbg want @ str '', found '' @ dbg (p_peek ts)) ts)"

definition expect_ident :: "(tok \<Rightarrow> bytes) \<Rightarrow> bytes parse" where
  "expect_ident dbg = bindS p_bump (\<lambda>t. case t of
     TIdent s \<Rightarrow> retS s
   | other \<Rightarrow> p_fail (str ''expected identifier, found '' @ dbg other))"

text \<open>\<^verbatim>\<open>n.fract() == 0.0 && n >= 0.0\<close> and then \<^verbatim>\<open>n as usize\<close>, which saturates.\<close>

definition f64_is_integer :: "64 word \<Rightarrow> bool" where
  "f64_is_integer x \<longleftrightarrow> f64_is_finite x \<and> f64_units x mod 2 ^ 1074 = 0"

definition f64_usize :: "64 word \<Rightarrow> nat option" where
  "f64_usize x = (if f64_is_integer x \<and> 0 \<le> f64_units x then Some (min (nat (f64_units x div 2 ^ 1074)) (2 ^ 64 - 1)) else None)"

definition parse_usize :: "(tok \<Rightarrow> bytes) \<Rightarrow> nat parse" where
  "parse_usize dbg = bindS p_bump (\<lambda>t.
     let bad = p_fail (str ''expected non-negative integer, found '' @ dbg t) in
     case t of TNum x \<Rightarrow> (case f64_usize x of Some n \<Rightarrow> retS n | None \<Rightarrow> bad) | _ \<Rightarrow> bad)"

definition parse_agg_kind :: "(tok \<Rightarrow> bytes) \<Rightarrow> agg_kind parse" where
  "parse_agg_kind dbg = bindS p_bump (\<lambda>t. case t of
     KwCount \<Rightarrow> retS KCount | KwSum \<Rightarrow> retS KSum | KwAvg \<Rightarrow> retS KAvg | KwMin \<Rightarrow> retS KMin | KwMax \<Rightarrow> retS KMax
   | other \<Rightarrow> p_fail (str ''expected aggregate function, found '' @ dbg other))"

definition parse_proj_item :: "(tok \<Rightarrow> bytes) \<Rightarrow> proj_item parse" where
  "parse_proj_item dbg ts =
     (if p_peek ts \<in> {KwCount, KwSum, KwAvg, KwMin, KwMax} then
        bindS (parse_agg_kind dbg) (\<lambda>kind.
        bindS (p_expect dbg TLParen) (\<lambda>_.
        bindS (\<lambda>ts. if p_peek ts = TStar then bindS p_bump (\<lambda>_. retS None) ts
                    else bindS (expect_ident dbg) (\<lambda>f. retS (Some f)) ts) (\<lambda>field.
        bindS (p_expect dbg TRParen) (\<lambda>_. retS (ItemAgg kind field))))) ts
      else bindS (expect_ident dbg) (\<lambda>f. retS (ItemField f)) ts)"

definition parse_order_item :: "(tok \<Rightarrow> bytes) \<Rightarrow> order_item parse" where
  "parse_order_item dbg = bindS (expect_ident dbg) (\<lambda>f ts.
     case p_peek ts of
       KwAsc \<Rightarrow> bindS p_bump (\<lambda>_. retS \<lparr>oi_field = f, oi_dir = QAsc\<rparr>) ts
     | KwDesc \<Rightarrow> bindS p_bump (\<lambda>_. retS \<lparr>oi_field = f, oi_dir = QDesc\<rparr>) ts
     | _ \<Rightarrow> retS \<lparr>oi_field = f, oi_dir = QAsc\<rparr> ts)"

definition parse_value :: "(tok \<Rightarrow> bytes) \<Rightarrow> q_value parse" where
  "parse_value dbg = bindS p_bump (\<lambda>t. case t of
     TStr s \<Rightarrow> retS (QString s) | TNum n \<Rightarrow> retS (QNumber n) | TBool b \<Rightarrow> retS (QBool b)
   | TParam p \<Rightarrow> retS (QParam p) | KwNull \<Rightarrow> retS QNull
   | other \<Rightarrow> p_fail (str ''expected value, found '' @ dbg other))"

section \<open>Every item takes a token\<close>

definition shortens :: "'a parse \<Rightarrow> bool" where
  "shortens p \<longleftrightarrow> (\<forall>ts x ts'. p ts = (Inr x, ts') \<longrightarrow> length ts' < length ts)"

definition keeps_short :: "'a parse \<Rightarrow> bool" where
  "keeps_short p \<longleftrightarrow> (\<forall>ts x ts'. p ts = (Inr x, ts') \<longrightarrow> length ts' \<le> length ts)"

lemma p_skip_length: "length (p_skip ts) \<le> length ts"
  by (simp add: p_skip_def)

lemma p_skip_less: "p_peek ts \<noteq> TEof \<Longrightarrow> length (p_skip ts) < length ts"
  by (cases ts) (auto simp: p_skip_def p_peek_def)

lemma keeps_short_basic:
  "keeps_short (retS x)" "keeps_short (p_fail m)" "keeps_short p_bump" "keeps_short (p_expect dbg t)"
  using p_skip_length by (auto simp: keeps_short_def p_fail_def p_bump_def p_expect_def bindS_def split: if_splits)

lemma keeps_short_bind: "keeps_short p \<Longrightarrow> (\<And>x. keeps_short (f x)) \<Longrightarrow> keeps_short (bindS p f)"
  unfolding keeps_short_def bindS_eq_Inr using le_trans by blast

lemma shortens_bind: "shortens p \<Longrightarrow> (\<And>x. keeps_short (f x)) \<Longrightarrow> shortens (bindS p f)"
  unfolding keeps_short_def shortens_def bindS_eq_Inr using le_less_trans by blast

lemma shortens_keeps: "shortens p \<Longrightarrow> keeps_short p"
  unfolding keeps_short_def shortens_def using less_imp_le by blast

text \<open>A step that looks at a token and fails at the end of the tokens.\<close>

lemma shortens_token:
  assumes "\<And>t. keeps_short (f t)" and "\<And>ts. \<exists>e. fst (f TEof ts) = Inl e"
  shows "shortens (bindS p_bump f)"
  unfolding shortens_def
proof (intro allI impI)
  fix ts x ts'
  assume h: "bindS p_bump f ts = (Inr x, ts')"
  have e: "f (p_peek ts) (p_skip ts) = (Inr x, ts')" using h by (simp add: bindS_def p_bump_def)
  then have "p_peek ts \<noteq> TEof" using assms(2)[of "p_skip ts"] by auto
  then show "length ts' < length ts" using e assms(1) p_skip_less unfolding keeps_short_def by (meson le_less_trans)
qed

lemma shortens_expect_ident: "shortens (expect_ident dbg)"
  unfolding expect_ident_def
  by (rule shortens_token) (auto intro: keeps_short_basic simp: p_fail_def split: tok.split)

lemma shortens_value: "shortens (parse_value dbg)"
  unfolding parse_value_def
  by (rule shortens_token) (auto intro: keeps_short_basic simp: p_fail_def split: tok.split)

lemma shortens_agg_kind: "shortens (parse_agg_kind dbg)"
  unfolding parse_agg_kind_def
  by (rule shortens_token) (auto intro: keeps_short_basic simp: p_fail_def split: tok.split)

lemma keeps_short_if: "keeps_short p \<Longrightarrow> keeps_short q \<Longrightarrow> keeps_short (\<lambda>ts. if b ts then p ts else q ts)"
  by (auto simp: keeps_short_def)

lemma shortens_if: "shortens p \<Longrightarrow> shortens q \<Longrightarrow> shortens (\<lambda>ts. if b ts then p ts else q ts)"
  by (auto simp: shortens_def)

lemmas short_rules = keeps_short_basic keeps_short_bind keeps_short_if shortens_expect_ident shortens_value shortens_agg_kind
  shortens_keeps

lemma shortens_proj_item: "shortens (parse_proj_item dbg)"
  unfolding parse_proj_item_def by (intro shortens_if shortens_bind short_rules)

lemma shortens_order_item: "shortens (parse_order_item dbg)"
  unfolding parse_order_item_def
proof (rule shortens_bind[OF shortens_expect_ident])
  have k: "keeps_short (bindS p_bump (\<lambda>_. retS y))" for y :: order_item by (intro short_rules)
  show "keeps_short (\<lambda>ts. case p_peek ts of
       KwAsc \<Rightarrow> bindS p_bump (\<lambda>_. retS \<lparr>oi_field = f, oi_dir = QAsc\<rparr>) ts
     | KwDesc \<Rightarrow> bindS p_bump (\<lambda>_. retS \<lparr>oi_field = f, oi_dir = QDesc\<rparr>) ts
     | _ \<Rightarrow> retS \<lparr>oi_field = f, oi_dir = QAsc\<rparr> ts)" for f
    using k unfolding keeps_short_def by (auto split: tok.splits)
qed

section \<open>Lists\<close>

text \<open>The rest of a list after one of its items: more after a comma.\<close>

lemma list_step:
  assumes "shortens p" and "p ts = (Inr x, ts')"
  shows "length (p_skip ts') < length ts"
  using assms p_skip_length[of ts'] unfolding shortens_def by (meson le_less_trans)

function parse_proj_items :: "(tok \<Rightarrow> bytes) \<Rightarrow> src_token list \<Rightarrow> (lsmql_error + proj_item list) \<times> src_token list" where
  "parse_proj_items dbg ts = (case parse_proj_item dbg ts of
     (Inl e, ts) \<Rightarrow> (Inl e, ts)
   | (Inr x, ts) \<Rightarrow>
       if p_peek ts = TComma then (case parse_proj_items dbg (p_skip ts) of
         (Inl e, ts) \<Rightarrow> (Inl e, ts) | (Inr xs, ts) \<Rightarrow> (Inr (x # xs), ts))
       else (Inr [x], ts))"
  by pat_completeness auto
termination
  by (relation "measure (length \<circ> snd)") (simp, simp, metis list_step shortens_proj_item)

function parse_order_items :: "(tok \<Rightarrow> bytes) \<Rightarrow> src_token list \<Rightarrow> (lsmql_error + order_item list) \<times> src_token list" where
  "parse_order_items dbg ts = (case parse_order_item dbg ts of
     (Inl e, ts) \<Rightarrow> (Inl e, ts)
   | (Inr x, ts) \<Rightarrow>
       if p_peek ts = TComma then (case parse_order_items dbg (p_skip ts) of
         (Inl e, ts) \<Rightarrow> (Inl e, ts) | (Inr xs, ts) \<Rightarrow> (Inr (x # xs), ts))
       else (Inr [x], ts))"
  by pat_completeness auto
termination
  by (relation "measure (length \<circ> snd)") (simp, simp, metis list_step shortens_order_item)

function parse_idents :: "(tok \<Rightarrow> bytes) \<Rightarrow> src_token list \<Rightarrow> (lsmql_error + bytes list) \<times> src_token list" where
  "parse_idents dbg ts = (case expect_ident dbg ts of
     (Inl e, ts) \<Rightarrow> (Inl e, ts)
   | (Inr x, ts) \<Rightarrow>
       if p_peek ts = TComma then (case parse_idents dbg (p_skip ts) of
         (Inl e, ts) \<Rightarrow> (Inl e, ts) | (Inr xs, ts) \<Rightarrow> (Inr (x # xs), ts))
       else (Inr [x], ts))"
  by pat_completeness auto
termination
  by (relation "measure (length \<circ> snd)") (simp, simp, metis list_step shortens_expect_ident)

function parse_values :: "(tok \<Rightarrow> bytes) \<Rightarrow> src_token list \<Rightarrow> (lsmql_error + q_value list) \<times> src_token list" where
  "parse_values dbg ts = (case parse_value dbg ts of
     (Inl e, ts) \<Rightarrow> (Inl e, ts)
   | (Inr x, ts) \<Rightarrow>
       if p_peek ts = TComma then (case parse_values dbg (p_skip ts) of
         (Inl e, ts) \<Rightarrow> (Inl e, ts) | (Inr xs, ts) \<Rightarrow> (Inr (x # xs), ts))
       else (Inr [x], ts))"
  by pat_completeness auto
termination
  by (relation "measure (length \<circ> snd)") (simp, simp, metis list_step shortens_value)

declare parse_proj_items.simps [simp del] parse_order_items.simps [simp del] parse_idents.simps [simp del] parse_values.simps [simp del]

definition parse_projection :: "(tok \<Rightarrow> bytes) \<Rightarrow> projection parse" where
  "parse_projection dbg ts =
     (if p_peek ts = TStar then bindS p_bump (\<lambda>_. retS AllFields) ts
      else bindS (parse_proj_items dbg) (\<lambda>items. retS (Items items)) ts)"

section \<open>Expressions\<close>

text \<open>The predicate that begins with a field.\<close>

definition parse_atom :: "(tok \<Rightarrow> bytes) \<Rightarrow> q_expr parse" where
  "parse_atom dbg = bindS (expect_ident dbg) (\<lambda>field ts.
     if p_peek ts = KwIs then bindS p_bump (\<lambda>_ ts.
       if p_peek ts = KwNot then bindS p_bump (\<lambda>_. bindS (p_expect dbg KwNull) (\<lambda>_. retS (EPred (ANe field QNull)))) ts
       else bindS p_bump (\<lambda>t. case t of
           KwNull \<Rightarrow> retS (EPred (AIsNull field))
         | KwAbsent \<Rightarrow> retS (EPred (AIsAbsent field))
         | other \<Rightarrow> p_fail (str ''expected NULL/ABSENT after IS, found '' @ dbg other)) ts) ts
     else if p_peek ts = KwIn then
       bindS p_bump (\<lambda>_. bindS (p_expect dbg TLParen) (\<lambda>_. bindS (parse_values dbg) (\<lambda>vs.
       bindS (p_expect dbg TRParen) (\<lambda>_. retS (EPred (AIn field vs)))))) ts
     else bindS p_bump (\<lambda>t. case t of
         TEq \<Rightarrow> bindS (parse_value dbg) (\<lambda>v. retS (EPred (AEq field v)))
       | TNe \<Rightarrow> bindS (parse_value dbg) (\<lambda>v. retS (EPred (ANe field v)))
       | TLt \<Rightarrow> bindS (parse_value dbg) (\<lambda>v. retS (EPred (ALt field v)))
       | TLe \<Rightarrow> bindS (parse_value dbg) (\<lambda>v. retS (EPred (ALe field v)))
       | TGt \<Rightarrow> bindS (parse_value dbg) (\<lambda>v. retS (EPred (AGt field v)))
       | TGe \<Rightarrow> bindS (parse_value dbg) (\<lambda>v. retS (EPred (AGe field v)))
       | other \<Rightarrow> p_fail (str ''expected comparison operator, found '' @ dbg other)) ts)"

text \<open>A function that may not return: \<^verbatim>\<open>None\<close> is a stack that was not deep enough.\<close>

type_synonym 'a deep = "src_token list \<Rightarrow> ((lsmql_error + 'a) \<times> src_token list) option"

definition bindF :: "'a deep \<Rightarrow> ('a \<Rightarrow> 'b deep) \<Rightarrow> 'b deep" where
  "bindF m f ts = (case m ts of
     None \<Rightarrow> None
   | Some (Inl e, ts) \<Rightarrow> Some (Inl e, ts)
   | Some (Inr x, ts) \<Rightarrow> f x ts)"

definition liftF :: "'a parse \<Rightarrow> 'a deep" where
  "liftF p ts = Some (p ts)"

definition push_or :: "q_expr \<Rightarrow> q_expr \<Rightarrow> q_expr" where
  "push_or l r = (case l of EOr v \<Rightarrow> EOr (v @ [r]) | other \<Rightarrow> EOr [other, r])"

definition push_and :: "q_expr \<Rightarrow> q_expr \<Rightarrow> q_expr" where
  "push_and l r = (case l of EAnd v \<Rightarrow> EAnd (v @ [r]) | other \<Rightarrow> EAnd [other, r])"

fun parse_or :: "(tok \<Rightarrow> bytes) \<Rightarrow> nat \<Rightarrow> q_expr deep"
  and or_loop :: "(tok \<Rightarrow> bytes) \<Rightarrow> nat \<Rightarrow> q_expr \<Rightarrow> q_expr deep"
  and parse_and :: "(tok \<Rightarrow> bytes) \<Rightarrow> nat \<Rightarrow> q_expr deep"
  and and_loop :: "(tok \<Rightarrow> bytes) \<Rightarrow> nat \<Rightarrow> q_expr \<Rightarrow> q_expr deep"
  and parse_not :: "(tok \<Rightarrow> bytes) \<Rightarrow> nat \<Rightarrow> q_expr deep"
  and parse_pred_expr :: "(tok \<Rightarrow> bytes) \<Rightarrow> nat \<Rightarrow> q_expr deep" where
  "parse_or dbg 0 = (\<lambda>_. None)"
| "parse_or dbg (Suc n) = bindF (parse_and dbg n) (or_loop dbg n)"
| "or_loop dbg 0 l = (\<lambda>_. None)"
| "or_loop dbg (Suc n) l = (\<lambda>ts.
     if p_peek ts = KwOr then bindF (parse_and dbg n) (\<lambda>r. or_loop dbg n (push_or l r)) (p_skip ts)
     else Some (Inr l, ts))"
| "parse_and dbg 0 = (\<lambda>_. None)"
| "parse_and dbg (Suc n) = bindF (parse_not dbg n) (and_loop dbg n)"
| "and_loop dbg 0 l = (\<lambda>_. None)"
| "and_loop dbg (Suc n) l = (\<lambda>ts.
     if p_peek ts = KwAnd then bindF (parse_not dbg n) (\<lambda>r. and_loop dbg n (push_and l r)) (p_skip ts)
     else Some (Inr l, ts))"
| "parse_not dbg 0 = (\<lambda>_. None)"
| "parse_not dbg (Suc n) = (\<lambda>ts.
     if p_peek ts = KwNot then bindF (parse_not dbg n) (\<lambda>e. liftF (retS (ENot e))) (p_skip ts)
     else parse_pred_expr dbg n ts)"
| "parse_pred_expr dbg 0 = (\<lambda>_. None)"
| "parse_pred_expr dbg (Suc n) = (\<lambda>ts.
     if p_peek ts = TLParen then
       bindF (parse_or dbg n) (\<lambda>e. liftF (bindS (p_expect dbg TRParen) (\<lambda>_. retS e))) (p_skip ts)
     else Some (parse_atom dbg ts))"

text \<open>Four calls for each token and four more are as deep as the stack gets.\<close>

definition parse_expr :: "(tok \<Rightarrow> bytes) \<Rightarrow> q_expr deep" where
  "parse_expr dbg ts = parse_or dbg (4 * length ts + 4) ts"

section \<open>Queries\<close>

definition parse_where :: "(tok \<Rightarrow> bytes) \<Rightarrow> q_expr option deep" where
  "parse_where dbg ts =
     (if p_peek ts = KwWhere then bindF (parse_expr dbg) (\<lambda>e. liftF (retS (Some e))) (p_skip ts) else Some (Inr None, ts))"

definition parse_order_by :: "(tok \<Rightarrow> bytes) \<Rightarrow> order_item list parse" where
  "parse_order_by dbg ts =
     (if p_peek ts = KwOrder then bindS p_bump (\<lambda>_. bindS (p_expect dbg KwBy) (\<lambda>_. parse_order_items dbg)) ts else (Inr [], ts))"

definition parse_group_by :: "(tok \<Rightarrow> bytes) \<Rightarrow> bytes list parse" where
  "parse_group_by dbg ts =
     (if p_peek ts = KwGroup then bindS p_bump (\<lambda>_. bindS (p_expect dbg KwBy) (\<lambda>_. parse_idents dbg)) ts else (Inr [], ts))"

definition parse_limit :: "(tok \<Rightarrow> bytes) \<Rightarrow> nat option parse" where
  "parse_limit dbg ts =
     (if p_peek ts = KwLimit then bindS p_bump (\<lambda>_. bindS (parse_usize dbg) (\<lambda>n. retS (Some n))) ts else (Inr None, ts))"

definition parse_offset :: "(tok \<Rightarrow> bytes) \<Rightarrow> nat parse" where
  "parse_offset dbg ts = (if p_peek ts = KwOffset then bindS p_bump (\<lambda>_. parse_usize dbg) ts else (Inr 0, ts))"

definition parse_explain :: "bool parse" where
  "parse_explain ts = (if p_peek ts = KwExplain then bindS p_bump (\<lambda>_. retS True) ts else (Inr False, ts))"

definition parse_query :: "(tok \<Rightarrow> bytes) \<Rightarrow> lsmql_query deep" where
  "parse_query dbg =
     bindF (liftF parse_explain) (\<lambda>explain.
     bindF (liftF (p_expect dbg KwSelect)) (\<lambda>_.
     bindF (liftF (parse_projection dbg)) (\<lambda>projection.
     bindF (liftF (p_expect dbg KwFrom)) (\<lambda>_.
     bindF (liftF (expect_ident dbg)) (\<lambda>source.
     bindF (parse_where dbg) (\<lambda>predicate.
     bindF (liftF (parse_order_by dbg)) (\<lambda>order_by.
     bindF (liftF (parse_group_by dbg)) (\<lambda>group_by.
     bindF (liftF (parse_limit dbg)) (\<lambda>limit.
     bindF (liftF (parse_offset dbg)) (\<lambda>offset.
     liftF (retS \<lparr>lq_explain = explain, lq_projection = projection, lq_source = source, lq_predicate = predicate,
       lq_group_by = group_by, lq_order_by = order_by, lq_limit = limit, lq_offset = offset\<rparr>)))))))))))"

definition parse_tokens :: "(tok \<Rightarrow> bytes) \<Rightarrow> src_token list \<Rightarrow> lsmql_query lsmql_result option" where
  "parse_tokens dbg ts = map_option fst (parse_query dbg ts)"

end
