(* ===== verification/Grammar.thy ===== *)
theory Grammar
  imports Parser
begin

text \<open>
  What the parser guarantees: it returns on every list of tokens, the trees it makes are in a canonical form, and
  it reads back the tokens of every tree in that form.
\<close>

section \<open>The steps of the parser\<close>

lemma bindF_Inr: "bindF m f ts = Some (Inr y, r) \<longleftrightarrow> (\<exists>x ts'. m ts = Some (Inr x, ts') \<and> f x ts' = Some (Inr y, r))"
  by (auto simp: bindF_def split: option.splits prod.splits sum.splits)

lemma bindF_returns:
  assumes "m ts \<noteq> None" and "\<And>x ts'. m ts = Some (Inr x, ts') \<Longrightarrow> f x ts' \<noteq> None"
  shows "bindF m f ts \<noteq> None"
  using assms by (auto simp: bindF_def split: sum.splits)

lemma bindF_mono:
  assumes "bindF m f ts = Some r" and "\<And>r. m ts = Some r \<Longrightarrow> m' ts = Some r" and "\<And>x ts' r. f x ts' = Some r \<Longrightarrow> f' x ts' = Some r"
  shows "bindF m' f' ts = Some r"
proof (cases "m ts")
  case None
  then show ?thesis using assms(1) by (simp add: bindF_def)
next
  case (Some q)
  obtain x ts' where q: "q = (x, ts')" by (rule prod.exhaust)
  have "m' ts = Some q" using assms(2) Some by simp
  then show ?thesis using assms(1,3) Some q by (cases x) (simp_all add: bindF_def)
qed

lemma liftF_simps [simp]: "liftF p ts = Some (p ts)"
  by (simp add: liftF_def)

lemma bindF_liftF [simp]: "bindF (liftF p) f ts = (case p ts of (Inl e, r) \<Rightarrow> Some (Inl e, r) | (Inr x, r) \<Rightarrow> f x r)"
  by (simp add: bindF_def split: prod.split)

definition shortF :: "'a deep \<Rightarrow> bool" where
  "shortF p \<longleftrightarrow> (\<forall>ts x r. p ts = Some (Inr x, r) \<longrightarrow> length r < length ts)"

definition keepF :: "'a deep \<Rightarrow> bool" where
  "keepF p \<longleftrightarrow> (\<forall>ts x r. p ts = Some (Inr x, r) \<longrightarrow> length r \<le> length ts)"

lemma shortF_bind: "shortF m \<Longrightarrow> (\<And>x. keepF (f x)) \<Longrightarrow> shortF (bindF m f)"
  unfolding shortF_def keepF_def bindF_Inr using le_less_trans by blast

lemma keepF_bind: "keepF m \<Longrightarrow> (\<And>x. keepF (f x)) \<Longrightarrow> keepF (bindF m f)"
  unfolding keepF_def bindF_Inr using le_trans by blast

lemma shortF_keepF: "shortF m \<Longrightarrow> keepF m"
  unfolding shortF_def keepF_def using less_imp_le by blast

lemma keepF_lift: "keeps_short p \<Longrightarrow> keepF (liftF p)"
  by (auto simp: keepF_def keeps_short_def)

lemma shortF_skip: "t \<noteq> TEof \<Longrightarrow> shortF m \<Longrightarrow> (\<And>ts. p_peek ts \<noteq> t \<Longrightarrow> \<forall>x r. g ts = Some (Inr x, r) \<longrightarrow> length r < length ts) \<Longrightarrow>
    shortF (\<lambda>ts. if p_peek ts = t then m (p_skip ts) else g ts)"
  unfolding shortF_def using p_skip_less by (metis (mono_tags, lifting) less_trans)

lemma values_keep: "keeps_short (parse_values dbg)"
proof -
  have "parse_values dbg ts = (Inr xs, r) \<Longrightarrow> length r \<le> length ts" for ts xs r
  proof (induction dbg ts arbitrary: xs r rule: parse_values.induct)
    case (1 dbg ts)
    obtain x ts' where x: "parse_value dbg ts = (Inr x, ts')" using "1.prems" by (subst (asm) parse_values.simps) (auto split: prod.splits sum.splits)
    have "length ts' \<le> length ts" using x shortens_value[of dbg] by (auto simp: shortens_def intro: less_imp_le)
    then show ?case
      using "1.prems" "1.IH"[OF x[symmetric] refl] x p_skip_length[of ts'] unfolding parse_values.simps[of dbg ts]
      by (auto split: if_splits prod.splits sum.splits)
  qed
  then show ?thesis by (auto simp: keeps_short_def)
qed

lemma atom_shortens: "shortens (parse_atom dbg)"
proof -
  have v: "keeps_short (bindS (parse_value dbg) (\<lambda>v. retS (g v)))" for g :: "q_value \<Rightarrow> q_expr"
    by (intro short_rules)
  have is_case: "keeps_short (case t of KwNull \<Rightarrow> retS (EPred (AIsNull field)) | KwAbsent \<Rightarrow> retS (EPred (AIsAbsent field))
     | other \<Rightarrow> p_fail (str ''expected NULL/ABSENT after IS, found '' @ dbg other))" for t field
    by (cases t) (simp_all add: keeps_short_basic)
  have cmp_case: "keeps_short (case t of
         TEq \<Rightarrow> bindS (parse_value dbg) (\<lambda>v. retS (EPred (AEq field v)))
       | TNe \<Rightarrow> bindS (parse_value dbg) (\<lambda>v. retS (EPred (ANe field v)))
       | TLt \<Rightarrow> bindS (parse_value dbg) (\<lambda>v. retS (EPred (ALt field v)))
       | TLe \<Rightarrow> bindS (parse_value dbg) (\<lambda>v. retS (EPred (ALe field v)))
       | TGt \<Rightarrow> bindS (parse_value dbg) (\<lambda>v. retS (EPred (AGt field v)))
       | TGe \<Rightarrow> bindS (parse_value dbg) (\<lambda>v. retS (EPred (AGe field v)))
       | other \<Rightarrow> p_fail (str ''expected comparison operator, found '' @ dbg other))" for t field
    by (cases t) (simp_all add: keeps_short_basic v)
  show ?thesis
    unfolding parse_atom_def
    apply (rule shortens_bind[OF shortens_expect_ident])
    apply (rule keeps_short_if)
     apply (rule keeps_short_bind[OF keeps_short_basic(3)])
     apply (rule keeps_short_if)
      apply (intro keeps_short_bind keeps_short_basic)
     apply (rule keeps_short_bind[OF keeps_short_basic(3) is_case])
    apply (rule keeps_short_if)
     apply (intro keeps_short_bind keeps_short_basic values_keep)
    apply (rule keeps_short_bind[OF keeps_short_basic(3) cmp_case])
    done
qed

lemma parse_shortens:
  "shortF (parse_or dbg n) \<and> (\<forall>l. keepF (or_loop dbg n l)) \<and> shortF (parse_and dbg n) \<and> (\<forall>l. keepF (and_loop dbg n l)) \<and>
   shortF (parse_not dbg n) \<and> shortF (parse_pred_expr dbg n)"
proof (induction n)
  case 0
  show ?case by (simp add: shortF_def keepF_def)
next
  case (Suc n)
  note ih = Suc
  have loop: "keepF (\<lambda>ts. if p_peek ts = t then m (p_skip ts) else Some (Inr l, ts))" if "keepF m" for t l and m :: "q_expr deep"
    using that p_skip_length unfolding keepF_def by (metis (no_types, lifting) le_trans option.inject order_refl prod.inject)
  have "keepF (or_loop dbg (Suc n) l)" for l
    using ih by (simp add: loop keepF_bind shortF_keepF)
  moreover have "keepF (and_loop dbg (Suc n) l)" for l
    using ih by (simp add: loop keepF_bind shortF_keepF)
  moreover have "shortF (parse_or dbg (Suc n))" "shortF (parse_and dbg (Suc n))"
    using ih by (simp_all add: shortF_bind)
  moreover have "shortF (parse_not dbg (Suc n))"
  proof -
    have m: "shortF (bindF (parse_not dbg n) (\<lambda>e. liftF (retS (ENot e))))"
      using ih by (intro shortF_bind keepF_lift short_rules) simp
    show ?thesis unfolding parse_not.simps by (rule shortF_skip[OF _ m]) (use ih in \<open>auto simp: shortF_def\<close>)
  qed
  moreover have "shortF (parse_pred_expr dbg (Suc n))"
  proof -
    have m: "shortF (bindF (parse_or dbg n) (\<lambda>e. liftF (bindS (p_expect dbg TRParen) (\<lambda>_. retS e))))"
      using ih by (intro shortF_bind keepF_lift short_rules) simp
    show ?thesis unfolding parse_pred_expr.simps
      by (rule shortF_skip[OF _ m]) (use atom_shortens[of dbg] in \<open>auto simp: shortens_def\<close>)
  qed
  ultimately show ?case by blast
qed

section \<open>The parser returns\<close>

lemma parse_deep_enough:
  "(4 * length ts + 4 \<le> n \<longrightarrow> parse_or dbg n ts \<noteq> None) \<and> (4 * length ts + 1 \<le> n \<longrightarrow> or_loop dbg n l ts \<noteq> None) \<and>
   (4 * length ts + 3 \<le> n \<longrightarrow> parse_and dbg n ts \<noteq> None) \<and> (4 * length ts + 1 \<le> n \<longrightarrow> and_loop dbg n l ts \<noteq> None) \<and>
   (4 * length ts + 2 \<le> n \<longrightarrow> parse_not dbg n ts \<noteq> None) \<and> (4 * length ts + 1 \<le> n \<longrightarrow> parse_pred_expr dbg n ts \<noteq> None)"
proof (induction n arbitrary: ts l)
  case (Suc n)
  note ih = Suc
  have short: "parse_and dbg n us = Some (Inr x, r) \<Longrightarrow> length r < length us"
      "parse_not dbg n us = Some (Inr x, r) \<Longrightarrow> length r < length us" for us x r
    using parse_shortens[of dbg n] unfolding shortF_def by blast+
  have sk: "length (p_skip ts) < length ts" if "p_peek ts = t" "t \<noteq> TEof" for t using that p_skip_less by auto
  have "parse_or dbg (Suc n) ts \<noteq> None" if h: "4 * length ts + 4 \<le> Suc n"
    unfolding parse_or.simps
  proof (rule bindF_returns)
    show "parse_and dbg n ts \<noteq> None" using ih h by simp
    show "or_loop dbg n x r \<noteq> None" if "parse_and dbg n ts = Some (Inr x, r)" for x r
      using ih[of r x] short(1)[OF that] h by simp
  qed
  moreover have "parse_and dbg (Suc n) ts \<noteq> None" if h: "4 * length ts + 3 \<le> Suc n"
    unfolding parse_and.simps
  proof (rule bindF_returns)
    show "parse_not dbg n ts \<noteq> None" using ih h by simp
    show "and_loop dbg n x r \<noteq> None" if "parse_not dbg n ts = Some (Inr x, r)" for x r
      using ih[of r x] short(2)[OF that] h by simp
  qed
  moreover have "or_loop dbg (Suc n) l ts \<noteq> None" if h: "4 * length ts + 1 \<le> Suc n"
  proof (cases "p_peek ts = KwOr")
    case True
    have s: "length (p_skip ts) < length ts" using sk[OF True] by simp
    have "bindF (parse_and dbg n) (\<lambda>r. or_loop dbg n (push_or l r)) (p_skip ts) \<noteq> None"
    proof (rule bindF_returns)
      show "parse_and dbg n (p_skip ts) \<noteq> None" using ih h s by simp
      show "or_loop dbg n (push_or l x) r \<noteq> None" if "parse_and dbg n (p_skip ts) = Some (Inr x, r)" for x r
        using ih[of r] short(1)[OF that] h s by simp
    qed
    then show ?thesis using True by simp
  qed simp
  moreover have "and_loop dbg (Suc n) l ts \<noteq> None" if h: "4 * length ts + 1 \<le> Suc n"
  proof (cases "p_peek ts = KwAnd")
    case True
    have s: "length (p_skip ts) < length ts" using sk[OF True] by simp
    have "bindF (parse_not dbg n) (\<lambda>r. and_loop dbg n (push_and l r)) (p_skip ts) \<noteq> None"
    proof (rule bindF_returns)
      show "parse_not dbg n (p_skip ts) \<noteq> None" using ih h s by simp
      show "and_loop dbg n (push_and l x) r \<noteq> None" if "parse_not dbg n (p_skip ts) = Some (Inr x, r)" for x r
        using ih[of r] short(2)[OF that] h s by simp
    qed
    then show ?thesis using True by simp
  qed simp
  moreover have "parse_not dbg (Suc n) ts \<noteq> None" if h: "4 * length ts + 2 \<le> Suc n"
  proof (cases "p_peek ts = KwNot")
    case True
    have "parse_not dbg n (p_skip ts) \<noteq> None" using ih[of "p_skip ts"] sk[OF True] h by simp
    then have "bindF (parse_not dbg n) (\<lambda>e. liftF (retS (ENot e))) (p_skip ts) \<noteq> None" by (rule bindF_returns) simp
    then show ?thesis using True by simp
  qed (use ih[of ts] h in \<open>simp del: not_None_eq\<close>)
  moreover have "parse_pred_expr dbg (Suc n) ts \<noteq> None" if h: "4 * length ts + 1 \<le> Suc n"
  proof (cases "p_peek ts = TLParen")
    case True
    have "parse_or dbg n (p_skip ts) \<noteq> None" using ih[of "p_skip ts"] sk[OF True] h by simp
    then have "bindF (parse_or dbg n) (\<lambda>e. liftF (bindS (p_expect dbg TRParen) (\<lambda>_. retS e))) (p_skip ts) \<noteq> None"
      by (rule bindF_returns) simp
    then show ?thesis using True by simp
  qed simp
  ultimately show ?case by blast
qed simp

lemma parse_query_returns: "parse_query dbg ts \<noteq> None"
proof -
  have "parse_expr dbg ts \<noteq> None" for ts using parse_deep_enough[of ts] by (simp add: parse_expr_def)
  then have w: "parse_where dbg ts \<noteq> None" for ts
    unfolding parse_where_def by (cases "p_peek ts = KwWhere") (simp_all del: not_None_eq add: bindF_returns)
  show ?thesis
    unfolding parse_query_def by (intro bindF_returns w) (simp_all add: liftF_def)
qed

text \<open>
  C19: The parser returns a query or an error for every list of tokens: the recursion of its expressions
  takes tokens away, and is never deeper than four calls for each of them.
\<close>

theorem parse_returns: "\<exists>r. parse_tokens dbg ts = Some r"
  using parse_query_returns by (auto simp: parse_tokens_def)

text \<open>More depth changes nothing.\<close>

lemma parse_deeper_step:
  "(\<forall>r. parse_or dbg n ts = Some r \<longrightarrow> parse_or dbg (Suc n) ts = Some r) \<and>
   (\<forall>l r. or_loop dbg n l ts = Some r \<longrightarrow> or_loop dbg (Suc n) l ts = Some r) \<and>
   (\<forall>r. parse_and dbg n ts = Some r \<longrightarrow> parse_and dbg (Suc n) ts = Some r) \<and>
   (\<forall>l r. and_loop dbg n l ts = Some r \<longrightarrow> and_loop dbg (Suc n) l ts = Some r) \<and>
   (\<forall>r. parse_not dbg n ts = Some r \<longrightarrow> parse_not dbg (Suc n) ts = Some r) \<and>
   (\<forall>r. parse_pred_expr dbg n ts = Some r \<longrightarrow> parse_pred_expr dbg (Suc n) ts = Some r)"
proof (induction n arbitrary: ts)
  case (Suc n)
  define m where "m = Suc n"
  note ih = Suc[folded m_def]
  have o: "bindF (parse_and dbg n) (\<lambda>r. or_loop dbg n (push_or l r)) us = Some r \<Longrightarrow>
      bindF (parse_and dbg m) (\<lambda>r. or_loop dbg m (push_or l r)) us = Some r" for l r us
    by (erule bindF_mono) (use ih in blast)+
  have a: "bindF (parse_not dbg n) (\<lambda>r. and_loop dbg n (push_and l r)) us = Some r \<Longrightarrow>
      bindF (parse_not dbg m) (\<lambda>r. and_loop dbg m (push_and l r)) us = Some r" for l r us
    by (erule bindF_mono) (use ih in blast)+
  have t: "bindF (parse_not dbg n) f us = Some r \<Longrightarrow> bindF (parse_not dbg m) f us = Some r" for f :: "q_expr \<Rightarrow> q_expr deep" and r us
    by (erule bindF_mono) (use ih in blast)+
  have p: "bindF (parse_or dbg n) f us = Some r \<Longrightarrow> bindF (parse_or dbg m) f us = Some r" for f :: "q_expr \<Rightarrow> q_expr deep" and r us
    by (erule bindF_mono) (use ih in blast)+
  have "parse_or dbg (Suc n) ts = Some r \<Longrightarrow> parse_or dbg (Suc m) ts = Some r" for r
    unfolding parse_or.simps by (erule bindF_mono) (use ih in blast)+
  moreover have "parse_and dbg (Suc n) ts = Some r \<Longrightarrow> parse_and dbg (Suc m) ts = Some r" for r
    unfolding parse_and.simps by (erule bindF_mono) (use ih in blast)+
  moreover have "or_loop dbg (Suc n) l ts = Some r \<Longrightarrow> or_loop dbg (Suc m) l ts = Some r" for l r
    using o by (auto split: if_splits)
  moreover have "and_loop dbg (Suc n) l ts = Some r \<Longrightarrow> and_loop dbg (Suc m) l ts = Some r" for l r
    using a by (auto split: if_splits)
  moreover have "parse_not dbg (Suc n) ts = Some r \<Longrightarrow> parse_not dbg (Suc m) ts = Some r" for r
    using t ih by (auto split: if_splits simp del: split_paired_All)
  moreover have "parse_pred_expr dbg (Suc n) ts = Some r \<Longrightarrow> parse_pred_expr dbg (Suc m) ts = Some r" for r
    using p by (auto split: if_splits)
  ultimately show ?case unfolding m_def by blast
qed simp

lemma parse_deeper:
  assumes "n \<le> m"
  shows "parse_or dbg n ts = Some r \<Longrightarrow> parse_or dbg m ts = Some r" "or_loop dbg n l ts = Some r \<Longrightarrow> or_loop dbg m l ts = Some r"
    "parse_and dbg n ts = Some r \<Longrightarrow> parse_and dbg m ts = Some r" "and_loop dbg n l ts = Some r \<Longrightarrow> and_loop dbg m l ts = Some r"
    "parse_not dbg n ts = Some r \<Longrightarrow> parse_not dbg m ts = Some r"
    "parse_pred_expr dbg n ts = Some r \<Longrightarrow> parse_pred_expr dbg m ts = Some r"
  using assms parse_deeper_step[of dbg _ ts] by (induction m rule: nat_induct_at_least; blast)+

lemma parse_expr_deep: "parse_or dbg n ts = Some r \<Longrightarrow> parse_expr dbg ts = Some r"
proof -
  assume h: "parse_or dbg n ts = Some r"
  have "parse_expr dbg ts \<noteq> None" using parse_deep_enough[of ts] by (simp add: parse_expr_def)
  then obtain r' where r: "parse_expr dbg ts = Some r'" by blast
  show ?thesis
    using parse_deeper(1)[of n "max n (4 * length ts + 4)", OF _ h] r
      parse_deeper(1)[of "4 * length ts + 4" "max n (4 * length ts + 4)" dbg ts r'] by (simp add: parse_expr_def)
qed

section \<open>Canonical trees\<close>

text \<open>
  The trees the parser makes: a conjunction or disjunction has at least two parts and does not begin with one of its
  own kind, whose parts it would have taken over; a list of values is not empty.
\<close>

fun canonical_expr :: "q_expr \<Rightarrow> bool" where
  "canonical_expr (EAnd es) \<longleftrightarrow> 2 \<le> length es \<and> (\<forall>vs. hd es \<noteq> EAnd vs) \<and> list_all canonical_expr es"
| "canonical_expr (EOr es) \<longleftrightarrow> 2 \<le> length es \<and> (\<forall>vs. hd es \<noteq> EOr vs) \<and> list_all canonical_expr es"
| "canonical_expr (ENot e) \<longleftrightarrow> canonical_expr e"
| "canonical_expr (EPred a) \<longleftrightarrow> (case a of AIn _ vs \<Rightarrow> vs \<noteq> [] | _ \<Rightarrow> True)"

lemma canonical_push:
  assumes "canonical_expr l" and "canonical_expr r"
  shows "canonical_expr (push_or l r)" "canonical_expr (push_and l r)"
  using assms by (auto simp: push_or_def push_and_def hd_append split: q_expr.split)

lemma values_nonempty: "parse_values dbg ts = (Inr vs, r) \<Longrightarrow> vs \<noteq> []"
  by (subst (asm) parse_values.simps) (auto split: prod.splits sum.splits if_splits)

definition yields :: "('a \<Rightarrow> bool) \<Rightarrow> 'a parse \<Rightarrow> bool" where
  "yields P p \<longleftrightarrow> (\<forall>ts x r. p ts = (Inr x, r) \<longrightarrow> P x)"

definition yieldsF :: "('a \<Rightarrow> bool) \<Rightarrow> 'a deep \<Rightarrow> bool" where
  "yieldsF P m \<longleftrightarrow> (\<forall>ts x r. m ts = Some (Inr x, r) \<longrightarrow> P x)"

lemma yields_rules:
  "P x \<Longrightarrow> yields P (retS x)" "yields P (p_fail m)"
  "yields P p \<Longrightarrow> yields P q \<Longrightarrow> yields P (\<lambda>ts. if b ts then p ts else q ts)"
  by (simp_all add: yields_def p_fail_def)

lemma yields_bind: "(\<And>x. yields P (f x)) \<Longrightarrow> yields P (bindS p f)"
  unfolding yields_def bindS_eq_Inr by blast

lemma yields_bind_known: "yields Q p \<Longrightarrow> (\<And>x. Q x \<Longrightarrow> yields P (f x)) \<Longrightarrow> yields P (bindS p f)"
  unfolding yields_def bindS_eq_Inr by blast

lemma yieldsF_bind: "yieldsF Q m \<Longrightarrow> (\<And>x. Q x \<Longrightarrow> yieldsF P (f x)) \<Longrightarrow> yieldsF P (bindF m f)"
  unfolding yieldsF_def bindF_Inr by blast

lemma yieldsF_lift: "yields P p \<Longrightarrow> yieldsF P (liftF p)"
  by (auto simp: yields_def yieldsF_def)

lemma yieldsF_token: "yieldsF P m \<Longrightarrow> yieldsF P g \<Longrightarrow> yieldsF P (\<lambda>ts. if p_peek ts = t then m (p_skip ts) else g ts)"
  by (simp add: yieldsF_def)

lemma atom_canonical: "yields canonical_expr (parse_atom dbg)"
proof -
  have vs: "yields (\<lambda>vs. vs \<noteq> []) (parse_values dbg)" using values_nonempty by (auto simp: yields_def)
  have v: "yields canonical_expr (bindS (parse_value dbg) (\<lambda>v. retS (EPred (g v))))" if h: "\<And>v. canonical_expr (EPred (g v))" for g
    by (intro yields_bind yields_rules(1) h)
  have is_case: "yields canonical_expr (case t of KwNull \<Rightarrow> retS (EPred (AIsNull field)) | KwAbsent \<Rightarrow> retS (EPred (AIsAbsent field))
     | other \<Rightarrow> p_fail (str ''expected NULL/ABSENT after IS, found '' @ dbg other))" for t field
    by (cases t) (simp_all add: yields_rules)
  have cmp_case: "yields canonical_expr (case t of
         TEq \<Rightarrow> bindS (parse_value dbg) (\<lambda>v. retS (EPred (AEq field v)))
       | TNe \<Rightarrow> bindS (parse_value dbg) (\<lambda>v. retS (EPred (ANe field v)))
       | TLt \<Rightarrow> bindS (parse_value dbg) (\<lambda>v. retS (EPred (ALt field v)))
       | TLe \<Rightarrow> bindS (parse_value dbg) (\<lambda>v. retS (EPred (ALe field v)))
       | TGt \<Rightarrow> bindS (parse_value dbg) (\<lambda>v. retS (EPred (AGt field v)))
       | TGe \<Rightarrow> bindS (parse_value dbg) (\<lambda>v. retS (EPred (AGe field v)))
       | other \<Rightarrow> p_fail (str ''expected comparison operator, found '' @ dbg other))" for t field
    by (cases t) (simp_all add: yields_rules v)
  have ne: "yields canonical_expr (bindS p_bump (\<lambda>_. bindS (p_expect dbg KwNull) (\<lambda>_. retS (EPred (ANe field QNull)))))" for field
    by (intro yields_bind yields_rules) simp
  have "in": "yields canonical_expr (bindS p_bump (\<lambda>_. bindS (p_expect dbg TLParen) (\<lambda>_. bindS (parse_values dbg) (\<lambda>vs.
       bindS (p_expect dbg TRParen) (\<lambda>_. retS (EPred (AIn field vs)))))))" for field
    by (rule yields_bind, rule yields_bind, rule yields_bind_known[OF vs], intro yields_bind yields_rules(1)) simp
  show ?thesis
    unfolding parse_atom_def
    by (rule yields_bind, rule yields_rules(3), rule yields_bind, rule yields_rules(3), rule ne, rule yields_bind, rule is_case,
      rule yields_rules(3), rule "in", rule yields_bind, rule cmp_case)
qed

lemma parse_canonical:
  "yieldsF canonical_expr (parse_or dbg n) \<and> (\<forall>l. canonical_expr l \<longrightarrow> yieldsF canonical_expr (or_loop dbg n l)) \<and>
   yieldsF canonical_expr (parse_and dbg n) \<and> (\<forall>l. canonical_expr l \<longrightarrow> yieldsF canonical_expr (and_loop dbg n l)) \<and>
   yieldsF canonical_expr (parse_not dbg n) \<and> yieldsF canonical_expr (parse_pred_expr dbg n)"
proof (induction n)
  case 0
  show ?case by (simp add: yieldsF_def)
next
  case (Suc n)
  note ih = Suc
  have stop: "canonical_expr l \<Longrightarrow> yieldsF canonical_expr (\<lambda>ts. Some (Inr l, ts))" for l by (simp add: yieldsF_def)
  have "yieldsF canonical_expr (parse_or dbg (Suc n))" "yieldsF canonical_expr (parse_and dbg (Suc n))"
    unfolding parse_or.simps parse_and.simps by (rule yieldsF_bind[of canonical_expr]; use ih in blast)+
  moreover have "yieldsF canonical_expr (or_loop dbg (Suc n) l)" if h: "canonical_expr l" for l
    unfolding or_loop.simps
    by (rule yieldsF_token[OF yieldsF_bind[of canonical_expr] stop[OF h]]) (use ih canonical_push[OF h] in blast)+
  moreover have "yieldsF canonical_expr (and_loop dbg (Suc n) l)" if h: "canonical_expr l" for l
    unfolding and_loop.simps
    by (rule yieldsF_token[OF yieldsF_bind[of canonical_expr] stop[OF h]]) (use ih canonical_push[OF h] in blast)+
  moreover have "yieldsF canonical_expr (parse_not dbg (Suc n))"
    unfolding parse_not.simps
  proof (rule yieldsF_token)
    show "yieldsF canonical_expr (bindF (parse_not dbg n) (\<lambda>e. liftF (retS (ENot e))))"
    proof (rule yieldsF_bind[of canonical_expr])
      show "yieldsF canonical_expr (liftF (retS (ENot x)))" if "canonical_expr x" for x
        by (intro yieldsF_lift yields_rules(1)) (simp add: that)
    qed (use ih in blast)
  qed (use ih in blast)
  moreover have "yieldsF canonical_expr (parse_pred_expr dbg (Suc n))"
    unfolding parse_pred_expr.simps
  proof (rule yieldsF_token)
    show "yieldsF canonical_expr (bindF (parse_or dbg n) (\<lambda>e. liftF (bindS (p_expect dbg TRParen) (\<lambda>_. retS e))))"
    proof (rule yieldsF_bind[of canonical_expr])
      show "yieldsF canonical_expr (liftF (bindS (p_expect dbg TRParen) (\<lambda>_. retS x)))" if "canonical_expr x" for x
        by (intro yieldsF_lift yields_bind yields_rules(1) that)
    qed (use ih in blast)
    show "yieldsF canonical_expr (\<lambda>ts. Some (parse_atom dbg ts))"
      using atom_canonical[of dbg] by (auto simp: yieldsF_def yields_def)
  qed
  ultimately show ?case by blast
qed

section \<open>Writing and reading\<close>

text \<open>The tokens of a tree, with parentheses where the grammar needs them.\<close>

fun value_tok :: "q_value \<Rightarrow> tok" where
  "value_tok (QString s) = TStr s"
| "value_tok (QNumber n) = TNum n"
| "value_tok (QBool b) = TBool b"
| "value_tok QNull = KwNull"
| "value_tok (QParam p) = TParam p"

definition join_toks :: "tok \<Rightarrow> tok list list \<Rightarrow> tok list" where
  "join_toks sep xs = (case xs of [] \<Rightarrow> [] | x # ys \<Rightarrow> x @ concat (map (\<lambda>y. sep # y) ys))"

fun atom_toks :: "atom \<Rightarrow> tok list" where
  "atom_toks (AEq f v) = [TIdent f, TEq, value_tok v]"
| "atom_toks (ANe f v) = [TIdent f, TNe, value_tok v]"
| "atom_toks (ALt f v) = [TIdent f, TLt, value_tok v]"
| "atom_toks (ALe f v) = [TIdent f, TLe, value_tok v]"
| "atom_toks (AGt f v) = [TIdent f, TGt, value_tok v]"
| "atom_toks (AGe f v) = [TIdent f, TGe, value_tok v]"
| "atom_toks (AIn f vs) = [TIdent f, KwIn, TLParen] @ join_toks TComma (map (\<lambda>v. [value_tok v]) vs) @ [TRParen]"
| "atom_toks (AIsNull f) = [TIdent f, KwIs, KwNull]"
| "atom_toks (AIsAbsent f) = [TIdent f, KwIs, KwAbsent]"

definition parens :: "bool \<Rightarrow> tok list \<Rightarrow> tok list" where
  "parens b xs = (if b then TLParen # xs @ [TRParen] else xs)"

fun is_or :: "q_expr \<Rightarrow> bool" where
  "is_or (EOr _) = True"
| "is_or _ = False"

fun is_joined :: "q_expr \<Rightarrow> bool" where
  "is_joined (EOr _) = True"
| "is_joined (EAnd _) = True"
| "is_joined _ = False"

fun expr_toks :: "q_expr \<Rightarrow> tok list" where
  "expr_toks (EPred a) = atom_toks a"
| "expr_toks (ENot e) = KwNot # parens (is_joined e) (expr_toks e)"
| "expr_toks (EAnd es) = join_toks KwAnd (map (\<lambda>e. parens (is_joined e) (expr_toks e)) es)"
| "expr_toks (EOr es) = join_toks KwOr (map (\<lambda>e. parens (is_or e) (expr_toks e)) es)"

definition placed :: "src_pos \<Rightarrow> tok list \<Rightarrow> src_token list" where
  "placed p ts = map (\<lambda>t. \<lparr>tk_tok = t, tk_pos = p\<rparr>) ts"

lemma placed_simps [simp]:
  "placed p [] = []" "placed p (t # ts) = \<lparr>tk_tok = t, tk_pos = p\<rparr> # placed p ts" "placed p (xs @ ys) = placed p xs @ placed p ys"
  by (simp_all add: placed_def)

lemma step_simps [simp]:
  "p_peek (\<lparr>tk_tok = t, tk_pos = p\<rparr> # ts) = t"
  "t \<noteq> TEof \<Longrightarrow> p_skip (\<lparr>tk_tok = t, tk_pos = p\<rparr> # ts) = ts"
  "t \<noteq> TEof \<Longrightarrow> p_bump (\<lparr>tk_tok = t, tk_pos = p\<rparr> # ts) = (Inr t, ts)"
  "t \<noteq> TEof \<Longrightarrow> p_expect dbg t (\<lparr>tk_tok = t, tk_pos = p\<rparr> # ts) = (Inr (), ts)"
  by (simp_all add: p_peek_def p_skip_def p_bump_def p_expect_def bindS_def)

lemma value_reads: "parse_value dbg (\<lparr>tk_tok = value_tok v, tk_pos = p\<rparr> # rest) = (Inr v, rest)"
  by (cases v) (simp_all add: parse_value_def bindS_def)

lemma values_read:
  "p_peek rest \<noteq> TComma \<Longrightarrow> parse_values dbg (\<lparr>tk_tok = value_tok v, tk_pos = p\<rparr> #
     placed p (concat (map (\<lambda>y. TComma # y) (map (\<lambda>v. [value_tok v]) vs))) @ rest) = (Inr (v # vs), rest)"
proof (induction vs arbitrary: v)
  case Nil
  then show ?case by (subst parse_values.simps) (simp add: value_reads)
next
  case (Cons w vs)
  then show ?case by (subst parse_values.simps) (simp add: value_reads)
qed

lemma atom_reads: "canonical_expr (EPred a) \<Longrightarrow> parse_atom dbg (placed p (atom_toks a) @ rest) = (Inr (EPred a), rest)"
proof (cases a)
  case (AIn f vs)
  assume "canonical_expr (EPred a)"
  then obtain v ws where "vs = v # ws" using AIn by (cases vs) auto
  then show ?thesis using AIn values_read[of "\<lparr>tk_tok = TRParen, tk_pos = p\<rparr> # rest" dbg v p ws]
    by (simp add: parse_atom_def expect_ident_def bindS_def join_toks_def)
qed (simp_all add: parse_atom_def expect_ident_def bindS_def value_reads)

text \<open>Reading an expression at each of the three levels.\<close>

definition reads_not :: "(tok \<Rightarrow> bytes) \<Rightarrow> src_pos \<Rightarrow> q_expr \<Rightarrow> bool" where
  "reads_not dbg p e \<longleftrightarrow> (\<forall>rest. \<exists>n. parse_not dbg n (placed p (parens (is_joined e) (expr_toks e)) @ rest) = Some (Inr e, rest))"

definition reads_and :: "(tok \<Rightarrow> bytes) \<Rightarrow> src_pos \<Rightarrow> q_expr \<Rightarrow> bool" where
  "reads_and dbg p e \<longleftrightarrow> (\<forall>rest. p_peek rest \<noteq> KwAnd \<longrightarrow>
     (\<exists>n. parse_and dbg n (placed p (parens (is_or e) (expr_toks e)) @ rest) = Some (Inr e, rest)))"

definition reads_or :: "(tok \<Rightarrow> bytes) \<Rightarrow> src_pos \<Rightarrow> q_expr \<Rightarrow> bool" where
  "reads_or dbg p e \<longleftrightarrow> (\<forall>rest. p_peek rest \<noteq> KwAnd \<longrightarrow> p_peek rest \<noteq> KwOr \<longrightarrow>
     (\<exists>n. parse_or dbg n (placed p (expr_toks e) @ rest) = Some (Inr e, rest)))"

text \<open>Two steps one after the other, at the greater of their depths.\<close>

lemma and_then:
  assumes "parse_not dbg n ts = Some (Inr x, ts')" and "and_loop dbg m x ts' = Some r"
  shows "\<exists>k. parse_and dbg k ts = Some r"
  using parse_deeper(5)[OF max.cobounded1 assms(1), of m] parse_deeper(4)[OF max.cobounded2 assms(2), of n]
  by (intro exI[of _ "Suc (max n m)"]) (simp add: bindF_def)

lemma or_then:
  assumes "parse_and dbg n ts = Some (Inr x, ts')" and "or_loop dbg m x ts' = Some r"
  shows "\<exists>k. parse_or dbg k ts = Some r"
  using parse_deeper(3)[OF max.cobounded1 assms(1), of m] parse_deeper(2)[OF max.cobounded2 assms(2), of n]
  by (intro exI[of _ "Suc (max n m)"]) (simp add: bindF_def)

lemma and_loop_then:
  assumes "parse_not dbg n ts = Some (Inr x, ts')" and "and_loop dbg m (push_and l x) ts' = Some r"
  shows "\<exists>k. and_loop dbg k l (\<lparr>tk_tok = KwAnd, tk_pos = p\<rparr> # ts) = Some r"
  using parse_deeper(5)[OF max.cobounded1 assms(1), of m] parse_deeper(4)[OF max.cobounded2 assms(2), of n]
  by (intro exI[of _ "Suc (max n m)"]) (simp add: bindF_def)

lemma or_loop_then:
  assumes "parse_and dbg n ts = Some (Inr x, ts')" and "or_loop dbg m (push_or l x) ts' = Some r"
  shows "\<exists>k. or_loop dbg k l (\<lparr>tk_tok = KwOr, tk_pos = p\<rparr> # ts) = Some r"
  using parse_deeper(3)[OF max.cobounded1 assms(1), of m] parse_deeper(2)[OF max.cobounded2 assms(2), of n]
  by (intro exI[of _ "Suc (max n m)"]) (simp add: bindF_def)

lemma loops_stop:
  "p_peek rest \<noteq> KwAnd \<Longrightarrow> and_loop dbg 1 l rest = Some (Inr l, rest)"
  "p_peek rest \<noteq> KwOr \<Longrightarrow> or_loop dbg 1 l rest = Some (Inr l, rest)"
  by (simp_all add: numeral_eq_Suc One_nat_def)

lemma and_level:
  assumes "reads_not dbg p e" and "is_or e = is_joined e"
  shows "reads_and dbg p e"
  unfolding reads_and_def
proof (intro allI impI)
  fix rest
  assume r: "p_peek rest \<noteq> KwAnd"
  obtain n where "parse_not dbg n (placed p (parens (is_or e) (expr_toks e)) @ rest) = Some (Inr e, rest)"
    using assms(1) unfolding reads_not_def assms(2)[symmetric] by blast
  then show "\<exists>n. parse_and dbg n (placed p (parens (is_or e) (expr_toks e)) @ rest) = Some (Inr e, rest)"
    by (rule and_then[OF _ loops_stop(1)[OF r]])
qed

lemma or_level:
  assumes "reads_and dbg p e" and "\<not> is_or e"
  shows "reads_or dbg p e"
  unfolding reads_or_def
proof (intro allI impI)
  fix rest
  assume r: "p_peek rest \<noteq> KwAnd" "p_peek rest \<noteq> KwOr"
  obtain n where "parse_and dbg n (placed p (expr_toks e) @ rest) = Some (Inr e, rest)"
    using assms r(1) unfolding reads_and_def by (auto simp: parens_def)
  then show "\<exists>n. parse_or dbg n (placed p (expr_toks e) @ rest) = Some (Inr e, rest)"
    by (rule or_then[OF _ loops_stop(2)[OF r(2)]])
qed

lemma not_level:
  assumes "reads_or dbg p e" and "is_joined e"
  shows "reads_not dbg p e"
  unfolding reads_not_def
proof
  fix rest
  obtain n where "parse_or dbg n (placed p (expr_toks e) @ \<lparr>tk_tok = TRParen, tk_pos = p\<rparr> # rest) =
      Some (Inr e, \<lparr>tk_tok = TRParen, tk_pos = p\<rparr> # rest)"
    using assms(1) unfolding reads_or_def by fastforce
  then show "\<exists>n. parse_not dbg n (placed p (parens (is_joined e) (expr_toks e)) @ rest) = Some (Inr e, rest)"
    using assms(2) by (intro exI[of _ "Suc (Suc n)"]) (simp add: parens_def bindF_def bindS_def)
qed

lemma and_loop_reads:
  assumes "\<forall>e \<in> set es. reads_not dbg p e" and "p_peek rest \<noteq> KwAnd"
  shows "\<exists>n. and_loop dbg n (EAnd v)
     (placed p (concat (map (\<lambda>y. KwAnd # y) (map (\<lambda>e. parens (is_joined e) (expr_toks e)) es))) @ rest) = Some (Inr (EAnd (v @ es)), rest)"
  using assms(1)
proof (induction es arbitrary: v)
  case Nil
  then show ?case using loops_stop(1)[OF assms(2)] by (intro exI[of _ 1]) (simp del: and_loop.simps One_nat_def)
next
  case (Cons e es)
  obtain m where m: "and_loop dbg m (push_and (EAnd v) e)
     (placed p (concat (map (\<lambda>y. KwAnd # y) (map (\<lambda>e. parens (is_joined e) (expr_toks e)) es))) @ rest) =
     Some (Inr (EAnd (v @ e # es)), rest)"
    using Cons.IH[of "v @ [e]"] Cons.prems by (auto simp: push_and_def)
  obtain n where "parse_not dbg n (placed p (parens (is_joined e) (expr_toks e)) @
     placed p (concat (map (\<lambda>y. KwAnd # y) (map (\<lambda>e. parens (is_joined e) (expr_toks e)) es))) @ rest) =
     Some (Inr e, placed p (concat (map (\<lambda>y. KwAnd # y) (map (\<lambda>e. parens (is_joined e) (expr_toks e)) es))) @ rest)"
    using Cons.prems unfolding reads_not_def by fastforce
  from and_loop_then[OF this m, of p] show ?case by simp
qed

lemma or_loop_reads:
  assumes "\<forall>e \<in> set es. reads_and dbg p e" and "p_peek rest \<noteq> KwOr" and "p_peek rest \<noteq> KwAnd"
  shows "\<exists>n. or_loop dbg n (EOr v)
     (placed p (concat (map (\<lambda>y. KwOr # y) (map (\<lambda>e. parens (is_or e) (expr_toks e)) es))) @ rest) = Some (Inr (EOr (v @ es)), rest)"
  using assms(1)
proof (induction es arbitrary: v)
  case Nil
  then show ?case using loops_stop(2)[OF assms(2)] by (intro exI[of _ 1]) (simp del: or_loop.simps One_nat_def)
next
  case (Cons e es)
  let ?r = "placed p (concat (map (\<lambda>y. KwOr # y) (map (\<lambda>e. parens (is_or e) (expr_toks e)) es))) @ rest"
  obtain m where m: "or_loop dbg m (push_or (EOr v) e) ?r = Some (Inr (EOr (v @ e # es)), rest)"
    using Cons.IH[of "v @ [e]"] Cons.prems by (auto simp: push_or_def)
  have "p_peek ?r \<noteq> KwAnd" using assms(3) by (cases es) auto
  then obtain n where "parse_and dbg n (placed p (parens (is_or e) (expr_toks e)) @ ?r) = Some (Inr e, ?r)"
    using Cons.prems unfolding reads_and_def by fastforce
  from or_loop_then[OF this m, of p] show ?case by simp
qed

lemma reads_all: "canonical_expr e \<Longrightarrow> reads_not dbg p e \<and> reads_and dbg p e \<and> reads_or dbg p e"
proof (induction e)
  case (EPred a)
  have "reads_not dbg p (EPred a)"
    unfolding reads_not_def
  proof
    fix rest
    have "p_peek (placed p (atom_toks a) @ rest) \<notin> {KwNot, TLParen}" by (cases a) auto
    then show "\<exists>n. parse_not dbg n (placed p (parens (is_joined (EPred a)) (expr_toks (EPred a))) @ rest) = Some (Inr (EPred a), rest)"
      using atom_reads[OF EPred] by (intro exI[of _ "Suc (Suc 0)"]) (simp add: parens_def)
  qed
  then show ?case using and_level or_level by simp
next
  case (ENot e)
  have "reads_not dbg p (ENot e)"
    unfolding reads_not_def
  proof
    fix rest
    obtain n where "parse_not dbg n (placed p (parens (is_joined e) (expr_toks e)) @ rest) = Some (Inr e, rest)"
      using ENot unfolding reads_not_def by auto
    then show "\<exists>n. parse_not dbg n (placed p (parens (is_joined (ENot e)) (expr_toks (ENot e))) @ rest) = Some (Inr (ENot e), rest)"
      by (intro exI[of _ "Suc n"]) (simp add: parens_def bindF_def)
  qed
  then show ?case using and_level or_level by simp
next
  case (EAnd es)
  obtain x y zs where es: "es = x # y # zs" "\<forall>vs. x \<noteq> EAnd vs"
    using EAnd.prems by (cases es; cases "tl es") auto
  have all: "\<forall>e \<in> set es. reads_not dbg p e" using EAnd by (auto simp: list_all_iff)
  have "reads_and dbg p (EAnd es)"
    unfolding reads_and_def
  proof (intro allI impI)
    fix rest
    assume r: "p_peek rest \<noteq> KwAnd"
    let ?toks = "\<lambda>es. placed p (concat (map (\<lambda>y. KwAnd # y) (map (\<lambda>e. parens (is_joined e) (expr_toks e)) es))) @ rest"
    obtain k where k: "and_loop dbg k (EAnd [x, y]) (?toks zs) = Some (Inr (EAnd es), rest)"
      using and_loop_reads[of zs dbg p rest "[x, y]"] all r es(1) by auto
    have xy: "reads_not dbg p x" "reads_not dbg p y" using all es(1) by simp_all
    obtain n where "parse_not dbg n (placed p (parens (is_joined y) (expr_toks y)) @ ?toks zs) = Some (Inr y, ?toks zs)"
      using xy(2) unfolding reads_not_def by blast
    moreover have "push_and x y = EAnd [x, y]" using es(2) by (cases x) (auto simp: push_and_def)
    ultimately obtain m where m: "and_loop dbg m x (?toks (y # zs)) = Some (Inr (EAnd es), rest)"
      using and_loop_then[of dbg n _ y _ k x _ p] k by fastforce
    obtain j where "parse_not dbg j (placed p (parens (is_joined x) (expr_toks x)) @ ?toks (y # zs)) = Some (Inr x, ?toks (y # zs))"
      using xy(1) unfolding reads_not_def by blast
    from and_then[OF this m]
    show "\<exists>n. parse_and dbg n (placed p (parens (is_or (EAnd es)) (expr_toks (EAnd es))) @ rest) = Some (Inr (EAnd es), rest)"
      by (simp add: es(1) parens_def join_toks_def)
  qed
  then show ?case using not_level or_level by simp
next
  case (EOr es)
  obtain x y zs where es: "es = x # y # zs" "\<forall>vs. x \<noteq> EOr vs"
    using EOr.prems by (cases es; cases "tl es") auto
  have all: "\<forall>e \<in> set es. reads_and dbg p e" using EOr by (auto simp: list_all_iff)
  have "reads_or dbg p (EOr es)"
    unfolding reads_or_def
  proof (intro allI impI)
    fix rest
    assume r: "p_peek rest \<noteq> KwAnd" "p_peek rest \<noteq> KwOr"
    let ?toks = "\<lambda>es. placed p (concat (map (\<lambda>y. KwOr # y) (map (\<lambda>e. parens (is_or e) (expr_toks e)) es))) @ rest"
    have no: "p_peek (?toks es) \<noteq> KwAnd" for es using r(1) by (cases es) auto
    obtain k where k: "or_loop dbg k (EOr [x, y]) (?toks zs) = Some (Inr (EOr es), rest)"
      using or_loop_reads[of zs dbg p rest "[x, y]"] all r es(1) by auto
    have xy: "reads_and dbg p x" "reads_and dbg p y" using all es(1) by simp_all
    obtain n where "parse_and dbg n (placed p (parens (is_or y) (expr_toks y)) @ ?toks zs) = Some (Inr y, ?toks zs)"
      using xy(2) no[of zs] unfolding reads_and_def by blast
    moreover have "push_or x y = EOr [x, y]" using es(2) by (cases x) (auto simp: push_or_def)
    ultimately obtain m where m: "or_loop dbg m x (?toks (y # zs)) = Some (Inr (EOr es), rest)"
      using or_loop_then[of dbg n _ y _ k x _ p] k by fastforce
    obtain j where "parse_and dbg j (placed p (parens (is_or x) (expr_toks x)) @ ?toks (y # zs)) = Some (Inr x, ?toks (y # zs))"
      using xy(1) no[of "y # zs"] unfolding reads_and_def by blast
    from or_then[OF this m]
    show "\<exists>n. parse_or dbg n (placed p (expr_toks (EOr es)) @ rest) = Some (Inr (EOr es), rest)"
      by (simp add: es(1) join_toks_def)
  qed
  then show ?case using not_level and_level by simp
qed

text \<open>
  C16: The parser reads the tokens of every canonical tree back as that tree and stops after them, and
  makes no other trees: parentheses, precedence and the chains of AND and OR lose nothing.
\<close>

theorem parse_reads:
  "(canonical_expr e \<longrightarrow> p_peek rest \<noteq> KwAnd \<longrightarrow> p_peek rest \<noteq> KwOr \<longrightarrow>
      parse_expr dbg (placed p (expr_toks e) @ rest) = Some (Inr e, rest)) \<and>
   (parse_expr dbg ts = Some (Inr e', r) \<longrightarrow> canonical_expr e')"
proof (intro conjI impI)
  assume "canonical_expr e" "p_peek rest \<noteq> KwAnd" "p_peek rest \<noteq> KwOr"
  then obtain n where "parse_or dbg n (placed p (expr_toks e) @ rest) = Some (Inr e, rest)"
    using reads_all unfolding reads_or_def by blast
  then show "parse_expr dbg (placed p (expr_toks e) @ rest) = Some (Inr e, rest)" by (rule parse_expr_deep)
next
  assume "parse_expr dbg ts = Some (Inr e', r)"
  moreover have "yieldsF canonical_expr (parse_or dbg (4 * length ts + 4))" using parse_canonical by blast
  ultimately show "canonical_expr e'" unfolding parse_expr_def yieldsF_def by blast
qed

theorem parse_reads_witness:
  "\<exists>e ts. parse_expr (\<lambda>_. []) (placed \<lparr>pos_line = 1, pos_col = 1\<rparr>
       [TLParen, TIdent (str ''a''), TEq, TNum 0, KwOr, KwNot, TIdent (str ''b''), KwIs, KwNull, TRParen, KwAnd,
        TIdent (str ''c''), KwIn, TLParen, TBool True, TComma, TStr [], TRParen]) = Some (Inr e, ts) \<and> ts = [] \<and>
     e = EAnd [EOr [EPred (AEq (str ''a'') (QNumber 0)), ENot (EPred (AIsNull (str ''b'')))],
       EPred (AIn (str ''c'') [QBool True, QString []])] \<and> canonical_expr e"
proof -
  let ?e = "EAnd [EOr [EPred (AEq (str ''a'') (QNumber 0)), ENot (EPred (AIsNull (str ''b'')))],
    EPred (AIn (str ''c'') [QBool True, QString []])]"
  have "parse_expr (\<lambda>_. []) (placed \<lparr>pos_line = 1, pos_col = 1\<rparr> (expr_toks ?e) @ []) = Some (Inr ?e, [])"
    using parse_reads[of ?e "[]" "\<lambda>_. []" "\<lparr>pos_line = 1, pos_col = 1\<rparr>"] by (simp add: p_peek_def)
  then show ?thesis by (simp add: join_toks_def parens_def)
qed

end
