(* ===== verification/Translate.thy ===== *)
theory Translate
  imports Grammar
begin

text \<open>
  From the syntax tree of a query to its execution: parameters, validation and translation to a query builder
  (\<^verbatim>\<open>src/lsmql/validate.rs\<close>, \<^verbatim>\<open>translate.rs\<close>), and the two entry points \<^verbatim>\<open>run\<close> and \<^verbatim>\<open>explain\<close> (\<^verbatim>\<open>engine.rs\<close>).
\<close>

section \<open>Parameters\<close>

definition db_value_to_lsmql :: "val \<Rightarrow> q_value" where
  "db_value_to_lsmql v = (case v of
     VString s \<Rightarrow> QString s
   | VInt i \<Rightarrow> QNumber (f64_of_int (sint i))
   | VFloat f \<Rightarrow> QNumber f
   | VBool b \<Rightarrow> QBool b
   | VNull \<Rightarrow> QNull
   | VBytes _ \<Rightarrow> QNull)"

definition unbound :: "bytes \<Rightarrow> lsmql_error" where
  "unbound name = LSemantic (UnboundParameter name)"

type_synonym q_params = "bytes \<rightharpoonup> val"

definition subst_value :: "q_params \<Rightarrow> q_value \<Rightarrow> q_value lsmql_result" where
  "subst_value params v = (case v of
     QParam name \<Rightarrow> (case params name of None \<Rightarrow> Inl (unbound name) | Some d \<Rightarrow> Inr (db_value_to_lsmql d))
   | _ \<Rightarrow> Inr v)"

fun subst_pred :: "q_params \<Rightarrow> atom \<Rightarrow> atom lsmql_result" where
  "subst_pred params (AEq f v) = bindE (subst_value params v) (\<lambda>v. Inr (AEq f v))"
| "subst_pred params (ANe f v) = bindE (subst_value params v) (\<lambda>v. Inr (ANe f v))"
| "subst_pred params (ALt f v) = bindE (subst_value params v) (\<lambda>v. Inr (ALt f v))"
| "subst_pred params (ALe f v) = bindE (subst_value params v) (\<lambda>v. Inr (ALe f v))"
| "subst_pred params (AGt f v) = bindE (subst_value params v) (\<lambda>v. Inr (AGt f v))"
| "subst_pred params (AGe f v) = bindE (subst_value params v) (\<lambda>v. Inr (AGe f v))"
| "subst_pred params (AIn f vs) = bindE (mapE (subst_value params) vs) (\<lambda>vs. Inr (AIn f vs))"
| "subst_pred params (AIsNull f) = Inr (AIsNull f)"
| "subst_pred params (AIsAbsent f) = Inr (AIsAbsent f)"

fun subst_expr :: "q_params \<Rightarrow> q_expr \<Rightarrow> q_expr lsmql_result"
  and subst_exprs :: "q_params \<Rightarrow> q_expr list \<Rightarrow> q_expr list lsmql_result" where
  "subst_expr params (EAnd es) = bindE (subst_exprs params es) (\<lambda>es. Inr (EAnd es))"
| "subst_expr params (EOr es) = bindE (subst_exprs params es) (\<lambda>es. Inr (EOr es))"
| "subst_expr params (ENot e) = bindE (subst_expr params e) (\<lambda>e. Inr (ENot e))"
| "subst_expr params (EPred a) = bindE (subst_pred params a) (\<lambda>a. Inr (EPred a))"
| "subst_exprs params [] = Inr []"
| "subst_exprs params (e # es) = bindE (subst_expr params e) (\<lambda>e. bindE (subst_exprs params es) (\<lambda>es. Inr (e # es)))"

definition substitute_params :: "q_params \<Rightarrow> lsmql_query \<Rightarrow> lsmql_query lsmql_result" where
  "substitute_params params q = (case lq_predicate q of
     None \<Rightarrow> Inr q
   | Some e \<Rightarrow> bindE (subst_expr params e) (\<lambda>e. Inr (q\<lparr>lq_predicate := Some e\<rparr>)))"

section \<open>Validation\<close>

definition check_field :: "schema \<Rightarrow> 32 word \<Rightarrow> bytes \<Rightarrow> bytes \<Rightarrow> unit lsmql_result" where
  "check_field schema c coll field =
     (if field = str ''id'' then Inr ()
      else if lookup_field_id c field schema = None then Inl (LSemantic (UnknownField coll field))
      else Inr ())"

definition value_type_name :: "q_value \<Rightarrow> bytes" where
  "value_type_name v = (case v of
     QString _ \<Rightarrow> str ''string'' | QNumber _ \<Rightarrow> str ''number'' | QBool _ \<Rightarrow> str ''bool'' | QNull \<Rightarrow> str ''null''
   | QParam _ \<Rightarrow> str ''param'')"

definition check_value_type :: "q_value \<Rightarrow> unit lsmql_result" where
  "check_value_type v = (case v of QParam name \<Rightarrow> Inl (unbound name) | _ \<Rightarrow> Inr ())"

fun check_values :: "bytes \<Rightarrow> bytes option \<Rightarrow> q_value list \<Rightarrow> unit lsmql_result" where
  "check_values f seen [] = Inr ()"
| "check_values f seen (v # vs) = bindE (check_value_type v) (\<lambda>_. let t = value_type_name v in
     case seen of
       Some s \<Rightarrow> if s \<noteq> t then Inl (LSemantic (TypeMismatch f s t)) else check_values f seen vs
     | None \<Rightarrow> check_values f (Some t) vs)"

definition check_comparison :: "schema \<Rightarrow> 32 word \<Rightarrow> bytes \<Rightarrow> bytes \<Rightarrow> q_value \<Rightarrow> unit lsmql_result" where
  "check_comparison schema c coll f v = bindE (check_field schema c coll f) (\<lambda>_. check_value_type v)"

fun validate_pred :: "schema \<Rightarrow> 32 word \<Rightarrow> bytes \<Rightarrow> atom \<Rightarrow> unit lsmql_result" where
  "validate_pred schema c coll (AEq f v) = check_comparison schema c coll f v"
| "validate_pred schema c coll (ANe f v) = check_comparison schema c coll f v"
| "validate_pred schema c coll (ALt f v) = check_comparison schema c coll f v"
| "validate_pred schema c coll (ALe f v) = check_comparison schema c coll f v"
| "validate_pred schema c coll (AGt f v) = check_comparison schema c coll f v"
| "validate_pred schema c coll (AGe f v) = check_comparison schema c coll f v"
| "validate_pred schema c coll (AIn f vs) = bindE (check_field schema c coll f) (\<lambda>_. check_values f None vs)"
| "validate_pred schema c coll (AIsNull f) = check_field schema c coll f"
| "validate_pred schema c coll (AIsAbsent f) = Inr ()"

fun validate_expr :: "schema \<Rightarrow> 32 word \<Rightarrow> bytes \<Rightarrow> q_expr \<Rightarrow> unit lsmql_result"
  and validate_exprs :: "schema \<Rightarrow> 32 word \<Rightarrow> bytes \<Rightarrow> q_expr list \<Rightarrow> unit lsmql_result" where
  "validate_expr schema c coll (EAnd es) = validate_exprs schema c coll es"
| "validate_expr schema c coll (EOr es) = validate_exprs schema c coll es"
| "validate_expr schema c coll (ENot e) = validate_expr schema c coll e"
| "validate_expr schema c coll (EPred a) = validate_pred schema c coll a"
| "validate_exprs schema c coll [] = Inr ()"
| "validate_exprs schema c coll (e # es) = bindE (validate_expr schema c coll e) (\<lambda>_. validate_exprs schema c coll es)"

text \<open>An item of the projection; whether the name of an aggregated field is known as numeric decides nothing.\<close>

fun validate_item :: "schema \<Rightarrow> 32 word \<Rightarrow> bytes \<Rightarrow> proj_item \<Rightarrow> unit lsmql_result" where
  "validate_item schema c coll (ItemField f) = check_field schema c coll f"
| "validate_item schema c coll (ItemAgg kind None) = Inr ()"
| "validate_item schema c coll (ItemAgg kind (Some f)) = check_field schema c coll f"

definition validate_query :: "lsmql_query \<Rightarrow> schema \<Rightarrow> unit lsmql_result" where
  "validate_query q schema =
     (if lq_group_by q \<noteq> [] then Inl (LUnsupported (str ''GROUP BY'') (str ''not implemented in v1''))
      else case lookup_collection_id (lq_source q) schema of
        None \<Rightarrow> Inl (LSemantic (UnknownCollection (lq_source q)))
      | Some c \<Rightarrow>
          bindE (case lq_projection q of AllFields \<Rightarrow> Inr [] | Items items \<Rightarrow> mapE (validate_item schema c (lq_source q)) items) (\<lambda>_.
          bindE (mapE (\<lambda>o'. check_field schema c (lq_source q) (oi_field o')) (lq_order_by q)) (\<lambda>_.
          case lq_predicate q of None \<Rightarrow> Inr () | Some e \<Rightarrow> validate_expr schema c (lq_source q) e)))"

section \<open>Translation\<close>

definition to_db_value :: "q_value \<Rightarrow> val lsmql_result" where
  "to_db_value v = (case v of
     QString s \<Rightarrow> Inr (VString s)
   | QNumber n \<Rightarrow> Inr (if f64_is_integer n \<and> \<bar>f64_units n\<bar> < 2 ^ 63 * 2 ^ 1074
                     then VInt (word_of_int (f64_units n div 2 ^ 1074)) else VFloat n)
   | QBool b \<Rightarrow> Inr (VBool b)
   | QNull \<Rightarrow> Inr VNull
   | QParam name \<Rightarrow> Inl (unbound name))"

definition to_comparison :: "bytes \<Rightarrow> cmp_op \<Rightarrow> q_value \<Rightarrow> predicate lsmql_result" where
  "to_comparison f c v = bindE (to_db_value v) (\<lambda>d. Inr (pred_field f c d))"

text \<open>The first value of a list may fail, a later one that does is a panic.\<close>

fun to_in :: "bytes \<Rightarrow> predicate \<Rightarrow> q_value list \<Rightarrow> predicate lsmql_result" where
  "to_in f acc [] = Inr acc"
| "to_in f acc (v # vs) = (case to_db_value v of
     Inl _ \<Rightarrow> Inl (LPanic (str ''unwrap on Err''))
   | Inr d \<Rightarrow> to_in f (pred_or acc (pred_field f CmpEq d)) vs)"

fun to_atom :: "atom \<Rightarrow> predicate lsmql_result" where
  "to_atom (AEq f v) = to_comparison f CmpEq v"
| "to_atom (ANe f v) = to_comparison f CmpNe v"
| "to_atom (ALt f v) = to_comparison f CmpLt v"
| "to_atom (ALe f v) = to_comparison f CmpLte v"
| "to_atom (AGt f v) = to_comparison f CmpGt v"
| "to_atom (AGe f v) = to_comparison f CmpGte v"
| "to_atom (AIn f vs) = (case vs of
     [] \<Rightarrow> Inl (LPanic (str ''unwrap on None''))
   | v # ws \<Rightarrow> bindE (to_comparison f CmpEq v) (\<lambda>p. to_in f p ws))"
| "to_atom (AIsNull f) = Inr (pred_field f CmpEq VNull)"
| "to_atom (AIsAbsent f) = Inl (LUnsupported (str ''IS ABSENT'')
     (str ''v1.3 Predicate has no '' @ [39] @ str ''absent'' @ [39] @ str '' operator; reserved for future''))"

fun to_pred :: "q_expr \<Rightarrow> predicate lsmql_result"
  and and_preds :: "predicate \<Rightarrow> q_expr list \<Rightarrow> predicate lsmql_result"
  and or_preds :: "predicate \<Rightarrow> q_expr list \<Rightarrow> predicate lsmql_result" where
  "to_pred (EAnd []) = Inl (LUnsupported (str ''empty AND'') (str ''parser should not produce this''))"
| "to_pred (EAnd (e # es)) = bindE (to_pred e) (\<lambda>p. and_preds p es)"
| "to_pred (EOr []) = Inl (LUnsupported (str ''empty OR'') (str ''parser should not produce this''))"
| "to_pred (EOr (e # es)) = bindE (to_pred e) (\<lambda>p. or_preds p es)"
| "to_pred (ENot e) = bindE (to_pred e) (\<lambda>p. Inr (pred_negate p))"
| "to_pred (EPred a) = to_atom a"
| "and_preds acc [] = Inr acc"
| "and_preds acc (e # es) = bindE (to_pred e) (\<lambda>p. and_preds (pred_and acc p) es)"
| "or_preds acc [] = Inr acc"
| "or_preds acc (e # es) = bindE (to_pred e) (\<lambda>p. or_preds (pred_or acc p) es)"

fun to_aggregate :: "agg_kind \<Rightarrow> bytes option \<Rightarrow> aggregate" where
  "to_aggregate KCount f = AggCount"
| "to_aggregate KSum f = AggSum (unwrap_or [] f)"
| "to_aggregate KAvg f = AggAvg (unwrap_or [] f)"
| "to_aggregate KMin f = AggMin (unwrap_or [] f)"
| "to_aggregate KMax f = AggMax (unwrap_or [] f)"

fun field_names :: "proj_item list \<Rightarrow> bytes list" where
  "field_names [] = []"
| "field_names (ItemField f # is) = f # field_names is"
| "field_names (ItemAgg _ _ # is) = field_names is"

fun aggregates :: "proj_item list \<Rightarrow> aggregate list" where
  "aggregates [] = []"
| "aggregates (ItemField _ # is) = aggregates is"
| "aggregates (ItemAgg k f # is) = to_aggregate k f # aggregates is"

text \<open>The sum of limit and offset is one of 64 bits, which wraps as in a release build.\<close>

definition to_builder :: "lsmql_query \<Rightarrow> query_builder lsmql_result" where
  "to_builder q =
     bindE (case lq_predicate q of
         None \<Rightarrow> Inr (qb_new (lq_source q))
       | Some e \<Rightarrow> bindE (to_pred e) (\<lambda>p. Inr (qb_filter p (qb_new (lq_source q))))) (\<lambda>b.
     let b = fold (\<lambda>o' b. qb_sort (oi_field o') (as_query_dir (oi_dir o')) b) (lq_order_by q) b;
         b = (case lq_limit q of Some n \<Rightarrow> qb_limit ((n + lq_offset q) mod 2 ^ 64) b | None \<Rightarrow> b) in
     case lq_projection q of
       AllFields \<Rightarrow> Inr b
     | Items items \<Rightarrow>
         if aggregates items \<noteq> [] then
           if field_names items \<noteq> [] then
             Inl (LUnsupported (str ''mixed projection + aggregation'') (str ''use either SELECT fields OR SELECT agg (not both)''))
           else Inr (qb_aggregate (hd (aggregates items)) b)
         else if field_names items \<noteq> [] then Inr (qb_project (field_names items) b)
         else Inr b)"

section \<open>Running a query\<close>

datatype query_result = QRows "(bytes \<times> (bytes \<rightharpoonup> val)) list" | QScalar "val option"

definition entity_to_map :: "entity \<Rightarrow> (bytes \<rightharpoonup> val)" where
  "entity_to_map e = fold (\<lambda>(k, v) m. m(k \<mapsto> v)) (en_fields e) Map.empty"

text \<open>From the text to the query and its builder; \<^verbatim>\<open>None\<close> would be a parser that does not return.\<close>

definition lsmql_prepare :: "(tok \<Rightarrow> bytes) \<Rightarrow> schema \<Rightarrow> q_params \<Rightarrow> bytes \<Rightarrow> (lsmql_query \<times> query_builder) lsmql_result option" where
  "lsmql_prepare dbg schema params text = (case tokenize text of
     Inl e \<Rightarrow> Some (Inl e)
   | Inr ts \<Rightarrow> map_option (\<lambda>r.
       bindE r (\<lambda>q.
       bindE (substitute_params params q) (\<lambda>q.
       bindE (validate_query q schema) (\<lambda>_.
       bindE (to_builder q) (\<lambda>b. Inr (q, b)))))) (parse_tokens dbg ts))"

text \<open>An error of the engine becomes an error of execution with its text; a panic stays one.\<close>

definition execution_error :: "(io_error \<Rightarrow> bytes) \<Rightarrow> error \<Rightarrow> lsmql_error" where
  "execution_error io_text e = (case e of Panic m \<Rightarrow> LPanic m | _ \<Rightarrow> LExecution (error_display io_text e))"

definition executed :: "(io_error \<Rightarrow> bytes) \<Rightarrow> (entity_store, error, 'a) op \<Rightarrow> (entity_store, lsmql_error, 'a) op" where
  "executed io_text m es = (case m es of (Inl e, es) \<Rightarrow> (Inl (execution_error io_text e), es) | (Inr x, es) \<Rightarrow> (Inr x, es))"

definition lsmql_execute :: "(io_error \<Rightarrow> bytes) \<Rightarrow> (bytes \<Rightarrow> 32 word) \<Rightarrow> lsmql_query \<Rightarrow> query_builder \<Rightarrow>
    (entity_store, lsmql_error, query_result) op" where
  "lsmql_execute io_text crc q b =
     (if lq_explain q then failS (LUnsupported (str ''EXPLAIN in run()'') (str ''use lsmql::explain() instead''))
      else if qb_aggregation b \<noteq> None then
        bindS (executed io_text (es_execute_aggregate crc b)) (\<lambda>r. retS (QScalar r))
      else
        bindS (executed io_text (es_execute_query crc b)) (\<lambda>raw.
          retS (QRows (map (\<lambda>(i, e). (i, entity_to_map e)) (if 0 < lq_offset q then drop (lq_offset q) raw else raw)))))"

definition lsmql_run :: "(io_error \<Rightarrow> bytes) \<Rightarrow> (tok \<Rightarrow> bytes) \<Rightarrow> (bytes \<Rightarrow> 32 word) \<Rightarrow> bytes \<Rightarrow> q_params \<Rightarrow> entity_store \<Rightarrow>
    (query_result lsmql_result \<times> entity_store) option" where
  "lsmql_run io_text dbg crc text params es =
     map_option (\<lambda>r. bindS (liftS r) (\<lambda>(q, b). lsmql_execute io_text crc q b) es) (lsmql_prepare dbg (es_schema es) params text)"

definition lsmql_explain :: "(io_error \<Rightarrow> bytes) \<Rightarrow> (64 word \<Rightarrow> bytes) \<Rightarrow> (bytes \<Rightarrow> bytes) \<Rightarrow> (tok \<Rightarrow> bytes) \<Rightarrow> bytes \<Rightarrow> q_params \<Rightarrow>
    entity_store \<Rightarrow> (bytes lsmql_result \<times> entity_store) option" where
  "lsmql_explain io_text shown quoted dbg text params es =
     map_option (\<lambda>r. bindS (liftS r) (\<lambda>(q, b). executed io_text (es_explain_query shown quoted b)) es)
       (lsmql_prepare dbg (es_schema es) params text)"

end
