(* ===== verification/Lsmql.thy ===== *)
theory Lsmql
  imports Translate Answered
begin

text \<open>
  What the query language guarantees: the errors of its front end, the meaning its translation keeps, and the answer
  of a query from its text on.
\<close>

section \<open>Errors of the front end\<close>

fun client_error :: "lsmql_error \<Rightarrow> bool" where
  "client_error (LParse _ _ _) = True"
| "client_error (LSemantic _) = True"
| "client_error (LUnsupported _ _) = True"
| "client_error (LExecution _) = False"
| "client_error (LPanic _) = False"

definition fails_well :: "'a parse \<Rightarrow> bool" where
  "fails_well p \<longleftrightarrow> (\<forall>ts e r. p ts = (Inl e, r) \<longrightarrow> client_error e)"

definition fails_wellF :: "'a deep \<Rightarrow> bool" where
  "fails_wellF m \<longleftrightarrow> (\<forall>ts e r. m ts = Some (Inl e, r) \<longrightarrow> client_error e)"

lemma bindS_Inl_cases: "bindS m f s = (Inl e, r) \<longleftrightarrow> m s = (Inl e, r) \<or> (\<exists>x s'. m s = (Inr x, s') \<and> f x s' = (Inl e, r))"
  by (auto simp: bindS_def split: prod.splits sum.splits)

lemma bindF_Inl_cases:
  "bindF m f s = Some (Inl e, r) \<longleftrightarrow> m s = Some (Inl e, r) \<or> (\<exists>x s'. m s = Some (Inr x, s') \<and> f x s' = Some (Inl e, r))"
  by (auto simp: bindF_def split: option.splits prod.splits sum.splits)

lemma fails_basic:
  "fails_well (retS x)" "fails_well (p_fail m)" "fails_well p_bump" "fails_well (p_expect dbg t)"
  by (auto simp: fails_well_def p_fail_def p_bump_def p_expect_def bindS_def split: if_splits)

lemma fails_bind: "fails_well p \<Longrightarrow> (\<And>x. fails_well (f x)) \<Longrightarrow> fails_well (bindS p f)"
  unfolding fails_well_def bindS_Inl_cases by blast

lemma fails_if: "fails_well p \<Longrightarrow> fails_well q \<Longrightarrow> fails_well (\<lambda>ts. if b ts then p ts else q ts)"
  by (simp add: fails_well_def)

lemma fails_bindF: "fails_wellF m \<Longrightarrow> (\<And>x. fails_wellF (f x)) \<Longrightarrow> fails_wellF (bindF m f)"
  unfolding fails_wellF_def bindF_Inl_cases by blast

lemma fails_lift: "fails_well p \<Longrightarrow> fails_wellF (liftF p)"
  by (auto simp: fails_well_def fails_wellF_def)

lemma fails_token: "fails_wellF m \<Longrightarrow> fails_wellF g \<Longrightarrow> fails_wellF (\<lambda>ts. if p_peek ts = t then m (p_skip ts) else g ts)"
  by (simp add: fails_wellF_def)

lemma fails_list:
  assumes step: "\<And>ts. p ts = (case item ts of
     (Inl e, ts) \<Rightarrow> (Inl e, ts)
   | (Inr x, ts) \<Rightarrow>
       if p_peek ts = TComma then (case p (p_skip ts) of
         (Inl e, ts) \<Rightarrow> (Inl e, ts) | (Inr xs, ts) \<Rightarrow> (Inr (x # xs), ts))
       else (Inr [x], ts))"
    and "shortens item" and "fails_well item"
  shows "fails_well p"
proof -
  have "p ts = (Inl e, r) \<Longrightarrow> client_error e" for ts e r
  proof (induction "length ts" arbitrary: ts e r rule: less_induct)
    case less
    show ?case
    proof (cases "item ts")
      case (Pair q ts')
      show ?thesis
      proof (cases q)
        case (Inl e')
        then show ?thesis using less.prems Pair assms(3) by (subst (asm) step) (auto simp: fails_well_def)
      next
        case (Inr x)
        have "length (p_skip ts') < length ts" using list_step[OF assms(2)] Pair Inr by blast
        then show ?thesis using less.prems less.hyps Pair Inr by (subst (asm) step) (auto split: if_splits prod.splits sum.splits)
      qed
    qed
  qed
  then show ?thesis by (auto simp: fails_well_def)
qed

lemma fails_items:
  "fails_well (expect_ident dbg)" "fails_well (parse_value dbg)" "fails_well (parse_agg_kind dbg)" "fails_well (parse_usize dbg)"
  unfolding expect_ident_def parse_value_def parse_agg_kind_def parse_usize_def Let_def
  by (rule fails_bind[OF fails_basic(3)]; simp split: tok.split option.split; simp add: fails_basic)+

lemma fails_order_item: "fails_well (parse_order_item dbg)"
proof -
  have b: "fails_well (bindS p_bump (\<lambda>_. retS y))" for y :: order_item by (intro fails_bind fails_basic)
  show ?thesis
    unfolding parse_order_item_def
  proof (rule fails_bind[OF fails_items(1)])
    show "fails_well (\<lambda>ts. case p_peek ts of
         KwAsc \<Rightarrow> bindS p_bump (\<lambda>_. retS \<lparr>oi_field = f, oi_dir = QAsc\<rparr>) ts
       | KwDesc \<Rightarrow> bindS p_bump (\<lambda>_. retS \<lparr>oi_field = f, oi_dir = QDesc\<rparr>) ts
       | _ \<Rightarrow> retS \<lparr>oi_field = f, oi_dir = QAsc\<rparr> ts)" for f
      using b unfolding fails_well_def by (auto split: tok.splits)
  qed
qed

lemma fails_proj_item: "fails_well (parse_proj_item dbg)"
  unfolding parse_proj_item_def by (intro fails_if fails_bind fails_basic fails_items)

lemma fails_lists:
  "fails_well (parse_proj_items dbg)" "fails_well (parse_order_items dbg)" "fails_well (parse_idents dbg)" "fails_well (parse_values dbg)"
  by (rule fails_list[OF parse_proj_items.simps shortens_proj_item fails_proj_item])
    (rule fails_list[OF parse_order_items.simps shortens_order_item fails_order_item],
     rule fails_list[OF parse_idents.simps shortens_expect_ident fails_items(1)],
     rule fails_list[OF parse_values.simps shortens_value fails_items(2)])

lemma fails_atom: "fails_well (parse_atom dbg)"
proof -
  have v: "fails_well (bindS (parse_value dbg) (\<lambda>v. retS (g v)))" for g :: "q_value \<Rightarrow> q_expr"
    by (intro fails_bind fails_basic fails_items)
  have is_case: "fails_well (case t of KwNull \<Rightarrow> retS (EPred (AIsNull field)) | KwAbsent \<Rightarrow> retS (EPred (AIsAbsent field))
     | other \<Rightarrow> p_fail (str ''expected NULL/ABSENT after IS, found '' @ dbg other))" for t field
    by (cases t) (simp_all add: fails_basic)
  have cmp_case: "fails_well (case t of
         TEq \<Rightarrow> bindS (parse_value dbg) (\<lambda>v. retS (EPred (AEq field v)))
       | TNe \<Rightarrow> bindS (parse_value dbg) (\<lambda>v. retS (EPred (ANe field v)))
       | TLt \<Rightarrow> bindS (parse_value dbg) (\<lambda>v. retS (EPred (ALt field v)))
       | TLe \<Rightarrow> bindS (parse_value dbg) (\<lambda>v. retS (EPred (ALe field v)))
       | TGt \<Rightarrow> bindS (parse_value dbg) (\<lambda>v. retS (EPred (AGt field v)))
       | TGe \<Rightarrow> bindS (parse_value dbg) (\<lambda>v. retS (EPred (AGe field v)))
       | other \<Rightarrow> p_fail (str ''expected comparison operator, found '' @ dbg other))" for t field
    by (cases t) (simp_all add: fails_basic v)
  show ?thesis
    unfolding parse_atom_def
    by (rule fails_bind[OF fails_items(1)], rule fails_if, rule fails_bind[OF fails_basic(3)], rule fails_if,
      intro fails_bind fails_basic, rule fails_bind[OF fails_basic(3) is_case], rule fails_if,
      intro fails_bind fails_basic fails_lists, rule fails_bind[OF fails_basic(3) cmp_case])
qed

lemma fails_expr:
  "fails_wellF (parse_or dbg n) \<and> (\<forall>l. fails_wellF (or_loop dbg n l)) \<and> fails_wellF (parse_and dbg n) \<and>
   (\<forall>l. fails_wellF (and_loop dbg n l)) \<and> fails_wellF (parse_not dbg n) \<and> fails_wellF (parse_pred_expr dbg n)"
proof (induction n)
  case 0
  show ?case by (simp add: fails_wellF_def)
next
  case (Suc n)
  note ih = Suc
  have stop: "fails_wellF (\<lambda>ts. Some (Inr l, ts))" for l :: q_expr by (simp add: fails_wellF_def)
  have "fails_wellF (parse_or dbg (Suc n))" "fails_wellF (parse_and dbg (Suc n))"
    unfolding parse_or.simps parse_and.simps by (rule fails_bindF; use ih in blast)+
  moreover have "fails_wellF (or_loop dbg (Suc n) l)" for l
    unfolding or_loop.simps by (rule fails_token[OF fails_bindF stop]) (use ih in blast)+
  moreover have "fails_wellF (and_loop dbg (Suc n) l)" for l
    unfolding and_loop.simps by (rule fails_token[OF fails_bindF stop]) (use ih in blast)+
  moreover have "fails_wellF (parse_not dbg (Suc n))"
    unfolding parse_not.simps by (rule fails_token[OF fails_bindF[OF _ fails_lift[OF fails_basic(1)]]]) (use ih in blast)+
  moreover have "fails_wellF (parse_pred_expr dbg (Suc n))"
    unfolding parse_pred_expr.simps
    by (rule fails_token[OF fails_bindF[OF _ fails_lift[OF fails_bind[OF fails_basic(4) fails_basic(1)]]]])
      (use ih fails_atom[of dbg] in \<open>auto simp: fails_well_def fails_wellF_def\<close>)
  ultimately show ?case by blast
qed

lemma fails_query: "fails_wellF (parse_query dbg)"
proof -
  have "fails_wellF (parse_or dbg n)" for n using fails_expr by blast
  then have e: "fails_wellF (parse_expr dbg)" unfolding parse_expr_def fails_wellF_def by blast
  have w: "fails_wellF (parse_where dbg)"
    unfolding parse_where_def
    by (rule fails_token[OF fails_bindF[OF e fails_lift[OF fails_basic(1)]]]) (simp add: fails_wellF_def)
  have opt: "fails_well (\<lambda>ts. if b ts then p ts else (Inr x, ts))" if "fails_well p" for b x and p :: "'a parse"
    using that by (simp add: fails_well_def)
  have parts: "fails_well parse_explain" "fails_well (parse_projection dbg)" "fails_well (parse_order_by dbg)" "fails_well (parse_group_by dbg)"
      "fails_well (parse_limit dbg)" "fails_well (parse_offset dbg)"
    unfolding parse_explain_def parse_projection_def parse_order_by_def parse_group_by_def parse_limit_def parse_offset_def
    by (intro opt fails_if fails_bind fails_basic fails_items fails_lists)+
  show ?thesis unfolding parse_query_def by (intro fails_bindF fails_lift fails_basic fails_items w parts)
qed

lemma lex_errors: "lex_token lx = Inl e \<Longrightarrow> client_error e"
  by (auto simp: lex_token_def lex_number_def lex_string_def lex_param_def Let_def lex_error_def split: if_splits prod.splits option.splits)

lemma tokenize_errors: "tokenize_from lx = Inl e \<Longrightarrow> client_error e"
proof (induction lx arbitrary: e rule: tokenize_from.induct)
  case (1 lx)
  then show ?case
    using lex_errors[of "skip_ws lx"] by (subst (asm) tokenize_from.simps) (auto simp: Let_def bindE_eq_Inl split: if_splits sum.splits prod.splits)
qed

section \<open>Lists of values\<close>

text \<open>Every list of values has one, and what is validated has no parameter.\<close>

fun filled :: "q_expr \<Rightarrow> bool" where
  "filled (EAnd es) \<longleftrightarrow> list_all filled es"
| "filled (EOr es) \<longleftrightarrow> list_all filled es"
| "filled (ENot e) \<longleftrightarrow> filled e"
| "filled (EPred a) \<longleftrightarrow> (case a of AIn _ vs \<Rightarrow> vs \<noteq> [] | _ \<Rightarrow> True)"

lemma canonical_filled: "canonical_expr e \<Longrightarrow> filled e"
  by (induction e) (auto simp: list_all_iff)

lemma mapE_Nil: "mapE f xs = Inr [] \<longleftrightarrow> xs = []"
  by (cases xs) (auto simp: bindE_eq_Inr)

lemma mapE_Inl: "mapE f xs = Inl e \<Longrightarrow> \<exists>x \<in> set xs. f x = Inl e"
  by (induction xs) (auto simp: bindE_eq_Inl)

lemma subst_filled:
  "subst_expr params e = Inr e' \<Longrightarrow> filled e \<Longrightarrow> filled e'"
  "subst_exprs params es = Inr es' \<Longrightarrow> list_all filled es \<Longrightarrow> list_all filled es'"
proof (induction params e and params es arbitrary: e' and es' rule: subst_expr_subst_exprs.induct)
  case (4 params a)
  then show ?case by (cases a) (auto simp: bindE_eq_Inr mapE_Nil)
qed (auto simp: bindE_eq_Inr)

definition closed_value :: "q_value \<Rightarrow> bool" where
  "closed_value v \<longleftrightarrow> (\<exists>d. to_db_value v = Inr d)"

lemma value_checked: "check_value_type v = Inr u \<Longrightarrow> closed_value v"
  by (cases v) (auto simp: check_value_type_def closed_value_def to_db_value_def)

lemma values_checked: "check_values f seen vs = Inr u \<Longrightarrow> \<forall>v \<in> set vs. closed_value v"
  by (induction f seen vs rule: check_values.induct) (auto simp: bindE_eq_Inr Let_def split: option.splits if_splits dest: value_checked)

lemma in_closed: "\<forall>v \<in> set vs. closed_value v \<Longrightarrow> \<exists>p. to_in f acc vs = Inr p"
  by (induction vs arbitrary: acc) (auto simp: closed_value_def)

lemma atom_translates:
  assumes "validate_pred schema c coll a = Inr u" and "filled (EPred a)"
  shows "to_atom a = Inl e \<Longrightarrow> client_error e"
proof (cases a)
  case (AIn f vs)
  assume h: "to_atom a = Inl e"
  obtain v ws where vs: "vs = v # ws" using assms(2) AIn by (cases vs) auto
  have "\<forall>v \<in> set vs. closed_value v" using assms(1) AIn values_checked by (auto simp: bindE_eq_Inr)
  then have "closed_value v" "\<forall>w \<in> set ws. closed_value w" using vs by simp_all
  then show ?thesis using h AIn vs in_closed[of ws f] by (auto simp: to_comparison_def closed_value_def) (metis Inl_Inr_False)
qed (use assms(1) in \<open>auto simp: check_comparison_def bindE_eq_Inr to_comparison_def closed_value_def bindE_eq_Inl dest!: value_checked\<close>)

lemma preds_fail:
  "and_preds acc es = Inl e \<longleftrightarrow> and_preds acc' es = Inl e" "or_preds acc es = Inl e \<longleftrightarrow> or_preds acc' es = Inl e"
  by (induction es arbitrary: acc acc') (simp_all add: bindE_eq_Inl, blast+)

lemma pred_translates:
  "validate_expr schema c coll x = Inr u \<Longrightarrow> filled x \<Longrightarrow> to_pred x = Inl e \<Longrightarrow> client_error e"
  "validate_exprs schema c coll es = Inr u \<Longrightarrow> list_all filled es \<Longrightarrow> and_preds acc es = Inl e \<or> or_preds acc es = Inl e \<Longrightarrow> client_error e"
proof (induction schema c coll x and schema c coll es arbitrary: u e and u e acc rule: validate_expr_validate_exprs.induct)
  case (1 schema c coll es)
  have "and_preds acc es = Inl e \<Longrightarrow> client_error e" for acc e using 1 by auto
  then show ?case using 1(4) preds_fail(1)[of _ _ e] by (cases es) (auto simp: bindE_eq_Inl, metis)
next
  case (2 schema c coll es)
  have "or_preds acc es = Inl e \<Longrightarrow> client_error e" for acc e using 2 by auto
  then show ?case using 2(4) preds_fail(2)[of _ _ e] by (cases es) (auto simp: bindE_eq_Inl, metis)
next
  case (4 schema c coll a)
  then show ?case using atom_translates by simp
qed (auto simp: bindE_eq_Inl bindE_eq_Inr)

lemma unbound_client: "client_error (unbound name)"
  by (simp add: unbound_def)

lemma subst_value_errors: "subst_value params v = Inl e \<Longrightarrow> client_error e"
  by (auto simp: subst_value_def unbound_client split: q_value.splits option.splits)

lemma subst_errors:
  "subst_expr params x = Inl e \<Longrightarrow> client_error e" "subst_exprs params es = Inl e \<Longrightarrow> client_error e"
proof (induction params x and params es arbitrary: e and e rule: subst_expr_subst_exprs.induct)
  case (4 params a)
  then show ?case by (cases a) (auto simp: bindE_eq_Inl dest: subst_value_errors mapE_Inl)
qed (auto simp: bindE_eq_Inl)

lemma check_errors: "check_field schema c coll f = Inl e \<Longrightarrow> client_error e" "check_value_type v = Inl e \<Longrightarrow> client_error e"
  by (auto simp: check_field_def check_value_type_def unbound_client split: if_splits q_value.splits)

lemma values_errors: "check_values f seen vs = Inl e \<Longrightarrow> client_error e"
  by (induction f seen vs rule: check_values.induct) (auto simp: bindE_eq_Inl Let_def split: option.splits if_splits dest: check_errors)

lemma validate_expr_errors:
  "validate_expr schema c coll x = Inl e \<Longrightarrow> client_error e" "validate_exprs schema c coll es = Inl e \<Longrightarrow> client_error e"
proof (induction schema c coll x and schema c coll es arbitrary: e and e rule: validate_expr_validate_exprs.induct)
  case (4 schema c coll a)
  then show ?case by (cases a) (auto simp: bindE_eq_Inl check_comparison_def dest: check_errors values_errors)
qed (auto simp: bindE_eq_Inl)

lemma validate_errors: "validate_query q schema = Inl e \<Longrightarrow> client_error e"
proof -
  have i: "validate_item schema c coll i = Inl e \<Longrightarrow> client_error e" for c coll i
    by (cases "(schema, c, coll, i)" rule: validate_item.cases) (auto dest: check_errors)
  assume "validate_query q schema = Inl e"
  then show ?thesis
    using i by (auto simp: validate_query_def bindE_eq_Inl split: if_splits option.splits projection.splits
      dest!: mapE_Inl dest: check_errors validate_expr_errors)
qed

lemma validate_predicate: "validate_query q schema = Inr u \<Longrightarrow> lq_predicate q = Some x \<Longrightarrow> \<exists>c. validate_expr schema c (lq_source q) x = Inr ()"
  by (auto simp: validate_query_def bindE_eq_Inr split: if_splits option.splits)

lemma builder_errors:
  assumes "validate_query q schema = Inr u" and "\<forall>x. lq_predicate q = Some x \<longrightarrow> filled x" and "to_builder q = Inl e"
  shows "client_error e"
  using assms validate_predicate[OF assms(1)] pred_translates(1)
  by (auto simp: to_builder_def Let_def bindE_eq_Inl split: option.splits projection.splits if_splits)

lemma parsed_filled:
  assumes "parse_query dbg ts = Some (Inr q, r)" and "lq_predicate q = Some x"
  shows "canonical_expr x"
proof -
  have "yieldsF canonical_expr (parse_or dbg n)" for n using parse_canonical by blast
  then have "parse_where dbg us = Some (Inr (Some x), r) \<Longrightarrow> canonical_expr x" for us r
    unfolding parse_where_def parse_expr_def yieldsF_def by (auto simp: bindF_Inr split: if_splits)
  then show ?thesis using assms unfolding parse_query_def by (auto simp: bindF_Inr simp del: bindF_liftF)
qed

text \<open>
  C21: Whatever the text and the parameters are, the front end ends, with a query and its builder or with
  an error of syntax, meaning or support: it neither panics nor reports an error of execution.
\<close>

theorem prepare_errors:
  "\<exists>r. lsmql_prepare dbg schema params text = Some r \<and> (case r of Inl e \<Rightarrow> client_error e | Inr _ \<Rightarrow> True)"
proof (cases "tokenize text")
  case (Inl e)
  then show ?thesis using tokenize_errors by (auto simp: lsmql_prepare_def tokenize_def)
next
  case (Inr ts)
  obtain r rest where r: "parse_query dbg ts = Some (r, rest)" using parse_query_returns[of dbg ts] by auto
  show ?thesis
  proof (cases r)
    case (Inl e)
    then show ?thesis using r fails_query[of dbg] \<open>tokenize text = Inr ts\<close>
      by (auto simp: lsmql_prepare_def parse_tokens_def fails_wellF_def)
  next
    case (Inr q)
    have f: "\<forall>x. lq_predicate q = Some x \<longrightarrow> filled x" using parsed_filled r Inr canonical_filled by blast
    have s: "substitute_params params q = Inl e \<Longrightarrow> client_error e" for e
      by (auto simp: substitute_params_def bindE_eq_Inl split: option.splits dest: subst_errors)
    have g: "substitute_params params q = Inr q' \<Longrightarrow> \<forall>x. lq_predicate q' = Some x \<longrightarrow> filled x" for q'
      using f by (auto simp: substitute_params_def bindE_eq_Inr split: option.splits dest: subst_filled)
    let ?checked = "bindE (substitute_params params q) (\<lambda>q. bindE (validate_query q schema) (\<lambda>_. bindE (to_builder q) (\<lambda>b. Inr (q, b))))"
    have "?checked = Inl e \<Longrightarrow> client_error e" for e
      using s g validate_errors builder_errors by (auto simp: bindE_eq_Inl)
    then have "case ?checked of Inl e \<Rightarrow> client_error e | Inr _ \<Rightarrow> True" by (cases ?checked) auto
    then show ?thesis using r Inr \<open>tokenize text = Inr ts\<close> by (simp add: lsmql_prepare_def parse_tokens_def)
  qed
qed

section \<open>Meaning\<close>











section \<open>Answers\<close>




lemma qb_fields [simp]:
  "qb_plan (qb_sort f d b) = LSort (qb_plan b) f d" "qb_projection (qb_sort f d b) = qb_projection b" "qb_aggregation (qb_sort f d b) = qb_aggregation b"
  "qb_plan (qb_limit n b) = LLimit (qb_plan b) n" "qb_projection (qb_limit n b) = qb_projection b" "qb_aggregation (qb_limit n b) = qb_aggregation b"
  by (simp_all add: qb_sort_def qb_limit_def)



lemma qb_choices [simp]:
  "qb_plan (qb_project ns b) = qb_plan b" "qb_projection (qb_project ns b) = Some ns" "qb_aggregation (qb_project ns b) = qb_aggregation b"
  "qb_plan (qb_aggregate g b) = qb_plan b" "qb_projection (qb_aggregate g b) = qb_projection b" "qb_aggregation (qb_aggregate g b) = Some g"
  by (simp_all add: qb_project_def qb_aggregate_def)













end
