(* ===== verification/Admin.thy ===== *)
theory Admin
  imports Maintenance
begin

text \<open>
  The administration tool (\<^verbatim>\<open>src/bin/lsm-admin.rs\<close>): its arguments, its commands with the lines they print,
  its exit codes, and what it does to the directories. The state is the console and a map from paths to the
  files of the directories; different paths are different directories.
\<close>

section \<open>Console and directories\<close>

record console =
  out_lines :: "bytes list"
  err_lines :: "bytes list"
  dirs :: "bytes \<Rightarrow> dir option"

text \<open>The error of a command is its exit code.\<close>

type_synonym 'a command = "(console, nat, 'a) op"

definition println :: "bytes \<Rightarrow> unit command" where
  "println s = modS (\<lambda>c. c\<lparr>out_lines := out_lines c @ [s]\<rparr>)"

definition eprintln :: "bytes \<Rightarrow> unit command" where
  "eprintln s = modS (\<lambda>c. c\<lparr>err_lines := err_lines c @ [s]\<rparr>)"

definition set_dir :: "bytes \<Rightarrow> dir option \<Rightarrow> unit command" where
  "set_dir p d = modS (\<lambda>c. c\<lparr>dirs := (dirs c)(p := d)\<rparr>)"

text \<open>\<^verbatim>\<open>map_err(|e| { eprintln!(...); 1 })\<close>. A panic ends the process with code 101.\<close>

definition failed :: "(io_error \<Rightarrow> bytes) \<Rightarrow> error \<Rightarrow> 'a command" where
  "failed io_text e =
     (case e of
        Panic s \<Rightarrow> bindS (eprintln s) (\<lambda>_. failS 101)
      | _ \<Rightarrow> bindS (eprintln (str ''error: '' @ error_display io_text e)) (\<lambda>_. failS 1))"

definition usage_error :: "bytes \<Rightarrow> 'a command" where
  "usage_error s = bindS (eprintln s) (\<lambda>_. failS 2)"

section \<open>Formatting\<close>

definition hex_digits :: bytes where
  "hex_digits = str ''0123456789abcdef''"

definition hex :: "bytes \<Rightarrow> bytes" where
  "hex bs = concat (map (\<lambda>b. [hex_digits ! unat (drop_bit 4 b), hex_digits ! unat (and b 0x0f)]) bs)"

text \<open>The \<^verbatim>\<open>Debug\<close> form of a \<^verbatim>\<open>Vec<u64>\<close>.\<close>

fun comma_separated :: "nat list \<Rightarrow> bytes" where
  "comma_separated [] = []"
| "comma_separated [i] = dec i"
| "comma_separated (i # ids) = dec i @ str '', '' @ comma_separated ids"

definition debug_ids :: "nat list \<Rightarrow> bytes" where
  "debug_ids ids = str ''['' @ comma_separated ids @ str '']''"

text \<open>\<^verbatim>\<open>Path::join\<close> with a plain file name.\<close>

definition path_join :: "bytes \<Rightarrow> bytes \<Rightarrow> bytes" where
  "path_join p name = (if p = [] \<or> last p = 47 then p @ name else p @ str ''/'' @ name)"

section \<open>Opening and closing\<close>

text \<open>
  While a database is open the map holds the files as they are on disk. An open that fails leaves the files
  it may have created.
\<close>

definition open_ro :: "(io_error \<Rightarrow> bytes) \<Rightarrow> (bytes \<Rightarrow> 32 word) \<Rightarrow> bytes \<Rightarrow> database command" where
  "open_ro io_text crc p =
     bindS (getS (\<lambda>c. case dirs c p of None \<Rightarrow> [] | Some d \<Rightarrow> d)) (\<lambda>d.
       case open_default crc d of
         (Inl e, d) \<Rightarrow> bindS (set_dir p (Some d)) (\<lambda>_. failed io_text e)
       | (Inr db, d) \<Rightarrow> bindS (set_dir p (Some d)) (\<lambda>_. retS db))"

text \<open>
  An operation of an open database: an error is printed and ends the command, which drops the database.
\<close>

definition with_db :: "(io_error \<Rightarrow> bytes) \<Rightarrow> bytes \<Rightarrow> (database, error, 'a) op \<Rightarrow> database \<Rightarrow> ('a \<times> database) command" where
  "with_db io_text p f db =
     (case f db of
        (Inl e, db) \<Rightarrow> bindS (set_dir p (Some (db_drop db))) (\<lambda>_. failed io_text e)
      | (Inr x, db) \<Rightarrow> bindS (set_dir p (Some (disk db))) (\<lambda>_. retS (x, db)))"

section \<open>The commands\<close>

text \<open>The lines of the levels; level 1 is shown as segments instead.\<close>

fun level_view :: "nat \<Rightarrow> nat list list \<Rightarrow> bytes list" where
  "level_view lvl [] = []"
| "level_view lvl (ids # levels) =
     (if lvl = 1 then level_view (lvl + 1) levels
      else (str ''    L'' @ dec lvl @ str '': '' @ debug_ids ids) # level_view (lvl + 1) levels)"

definition segment_view_line :: "segment_meta \<Rightarrow> bytes" where
  "segment_view_line s = str ''    file '' @ dec (sm_file_id s) @ str '': records='' @ dec (sm_records s) @
     str '' min='' @ hex (sm_min_key s) @ str '' max='' @ hex (sm_max_key s)"

definition table_line :: "bytes \<Rightarrow> table_view \<Rightarrow> bytes" where
  "table_line p t = str ''  [L'' @ dec (tv_level t) @ str ''] id='' @ dec (tv_id t) @ str '' path='' @ path_join p (tv_path t) @
     str '' records='' @ dec (tv_num_records t) @ str '' keys='' @ tv_key_bounds_hex t @ str '' size='' @ dec (tv_size_bytes t)"

definition inspect_lines :: "database \<Rightarrow> bytes list" where
  "inspect_lines db =
     (let summary = manifest_summary db in
      [str ''format-version: '' @ dec (unat (format_version db)),
       str ''manifest:'',
       str ''  next-table-id: '' @ dec (ms_next_table_id summary),
       str ''  level-count: '' @ dec (ms_level_count summary),
       str ''  levels:''] @
      level_view 0 (ms_levels summary) @
      [str ''  segments: '' @ dec (length (ms_segments summary))] @
      map segment_view_line (ms_segments summary) @
      [str ''tables:''])"

definition cmd_inspect :: "(io_error \<Rightarrow> bytes) \<Rightarrow> (bytes \<Rightarrow> 32 word) \<Rightarrow> bytes \<Rightarrow> unit command" where
  "cmd_inspect io_text crc p =
     bindS (open_ro io_text crc p) (\<lambda>db.
     bindS (forS (inspect_lines db) println) (\<lambda>_.
     bindS (with_db io_text p (\<lambda>db. (table_infos db, db)) db) (\<lambda>(tables, db).
     bindS (forS (map (table_line p) tables) println) (\<lambda>_.
       set_dir p (Some (close_without_flush db))))))"

definition stats_lines :: "table_view list \<Rightarrow> database \<Rightarrow> bytes list" where
  "stats_lines tables db =
     (let summary = manifest_summary db;
          l0 = (case ms_levels summary of [] \<Rightarrow> 0 | l # _ \<Rightarrow> length l);
          l1 = length (filter (\<lambda>t. tv_level t = 1) tables);
          l0_bytes = sum_list (map tv_size_bytes (filter (\<lambda>t. tv_level t = 0) tables));
          l1_bytes = sum_list (map tv_size_bytes (filter (\<lambda>t. tv_level t = 1) tables));
          o' = options_view db in
      [str ''db-size: '' @ dec (db_size db) @ str '' bytes'',
       str ''sstable-count: '' @ dec (length tables),
       str ''L0: tables='' @ dec l0 @ str '' bytes='' @ dec l0_bytes,
       str ''L1: tables='' @ dec l1 @ str '' bytes='' @ dec l1_bytes,
       str ''wal-size: '' @ dec (wal_size db) @ str '' bytes'',
       str ''options: l0-compact-threshold='' @ dec (l0_compact_threshold o') @
         str '' segment-max-records='' @ dec (segment_max_records o')])"

definition cmd_stats :: "(io_error \<Rightarrow> bytes) \<Rightarrow> (bytes \<Rightarrow> 32 word) \<Rightarrow> bytes \<Rightarrow> unit command" where
  "cmd_stats io_text crc p =
     bindS (open_ro io_text crc p) (\<lambda>db.
     bindS (with_db io_text p (\<lambda>db. (table_infos db, db)) db) (\<lambda>(tables, db).
     bindS (forS (stats_lines tables db) println) (\<lambda>_.
       set_dir p (Some (close_without_flush db)))))"

definition cmd_compact :: "(io_error \<Rightarrow> bytes) \<Rightarrow> (bytes \<Rightarrow> 32 word) \<Rightarrow> bytes \<Rightarrow> unit command" where
  "cmd_compact io_text crc p =
     bindS (open_ro io_text crc p) (\<lambda>db.
     let before = table_count db in
     bindS (with_db io_text p compact_full db) (\<lambda>(seg_count, db).
     bindS (with_db io_text p db_close db) (\<lambda>(_, db).
     bindS (println (str ''compacted: '' @ dec seg_count @ str '' segments (was '' @ dec before @ str '' sstables)'')) (\<lambda>_.
       set_dir p (Some (db_drop db))))))"

definition cmd_gc :: "(io_error \<Rightarrow> bytes) \<Rightarrow> (bytes \<Rightarrow> 32 word) \<Rightarrow> bytes \<Rightarrow> unit command" where
  "cmd_gc io_text crc p =
     bindS (open_ro io_text crc p) (\<lambda>db.
     bindS (with_db io_text p gc db) (\<lambda>(removed, db).
     bindS (with_db io_text p db_close db) (\<lambda>(_, db).
     bindS (println (str ''gc: removed '' @ dec removed @ str '' orphan sst files'')) (\<lambda>_.
       set_dir p (Some (db_drop db))))))"

text \<open>\<^verbatim>\<open>backup\<close> on the map of directories: the target may be the directory of the database itself.\<close>

definition backup_to :: "(io_error \<Rightarrow> bytes) \<Rightarrow> bytes \<Rightarrow> bytes \<Rightarrow> database \<Rightarrow> (nat \<times> database) command" where
  "backup_to io_text p dest db =
     bindS (getS (\<lambda>c. dirs c dest)) (\<lambda>target.
       case backup target db of
         (r, db, target) \<Rightarrow>
           bindS (set_dir dest target) (\<lambda>_. with_db io_text p (\<lambda>db. (r, db)) db))"

definition cmd_backup :: "(io_error \<Rightarrow> bytes) \<Rightarrow> (bytes \<Rightarrow> 32 word) \<Rightarrow> bytes \<Rightarrow> bytes \<Rightarrow> unit command" where
  "cmd_backup io_text crc p dest =
     bindS (open_ro io_text crc p) (\<lambda>db.
     bindS (backup_to io_text p dest db) (\<lambda>(n, db).
     bindS (with_db io_text p db_close db) (\<lambda>(_, db).
     bindS (println (str ''backup: wrote '' @ dec n @ str '' files to '' @ dest)) (\<lambda>_.
       set_dir p (Some (db_drop db))))))"

definition cmd_restore :: "(io_error \<Rightarrow> bytes) \<Rightarrow> bytes \<Rightarrow> bytes \<Rightarrow> unit command" where
  "cmd_restore io_text src dest =
     bindS (getS (\<lambda>c. (case dirs c src of None \<Rightarrow> [] | Some d \<Rightarrow> d, dirs c dest))) (\<lambda>(d, target).
       case restore d target of
         (r, target) \<Rightarrow>
           bindS (set_dir dest target) (\<lambda>_.
             case r of
               Inl e \<Rightarrow> failed io_text e
             | Inr n \<Rightarrow> println (str ''restore: wrote '' @ dec n @ str '' files to '' @ dest)))"

section \<open>Arguments\<close>

datatype admin_command = CInspect | CStats | CCompact | CGc | CBackup | CRestore

definition command_name :: "bytes \<Rightarrow> admin_command option" where
  "command_name s =
     (if s = str ''inspect'' then Some CInspect
      else if s = str ''stats'' then Some CStats
      else if s = str ''compact'' then Some CCompact
      else if s = str ''gc'' then Some CGc
      else if s = str ''backup'' then Some CBackup
      else if s = str ''restore'' then Some CRestore
      else None)"

text \<open>The loop over the arguments: the directory, the command and the other words, or a message.\<close>

fun parse_args :: "bytes list \<Rightarrow> bytes \<Rightarrow> admin_command option \<Rightarrow> bytes list \<Rightarrow>
    bytes + (bytes \<times> admin_command option \<times> bytes list)" where
  "parse_args [] p cmd positionals = Inr (p, cmd, positionals)"
| "parse_args (a # args) p cmd positionals =
     (case command_name a of
        Some c \<Rightarrow>
          if cmd \<noteq> None then Inl (str ''error: multiple commands given'')
          else parse_args args p (Some c) positionals
      | None \<Rightarrow>
          if a = str ''--dir'' then
            (case args of
               [] \<Rightarrow> Inl (str ''error: --dir requires a value'')
             | q # args \<Rightarrow> parse_args args q cmd positionals)
          else if take 2 a = str ''--'' then Inl (str ''error: unknown argument: '' @ a)
          else parse_args args p cmd (positionals @ [a]))"

definition run_command :: "(io_error \<Rightarrow> bytes) \<Rightarrow> (bytes \<Rightarrow> 32 word) \<Rightarrow> bytes \<Rightarrow> admin_command \<Rightarrow> bytes list \<Rightarrow> unit command" where
  "run_command io_text crc p cmd positionals =
     (case cmd of
        CInspect \<Rightarrow> cmd_inspect io_text crc p
      | CStats \<Rightarrow> cmd_stats io_text crc p
      | CCompact \<Rightarrow> cmd_compact io_text crc p
      | CGc \<Rightarrow> cmd_gc io_text crc p
      | CBackup \<Rightarrow> (case positionals of
            [] \<Rightarrow> usage_error (str ''error: backup requires <dest>'')
          | dest # _ \<Rightarrow> cmd_backup io_text crc p dest)
      | CRestore \<Rightarrow> (case positionals of
            src # dest # _ \<Rightarrow> cmd_restore io_text src dest
          | _ \<Rightarrow> usage_error (str ''error: restore requires <src> <dest>'')))"

text \<open>\<^verbatim>\<open>run\<close> and \<^verbatim>\<open>main\<close>, which turns its result into the exit code.\<close>

definition admin_run :: "(io_error \<Rightarrow> bytes) \<Rightarrow> (bytes \<Rightarrow> 32 word) \<Rightarrow> bytes list \<Rightarrow> unit command" where
  "admin_run io_text crc args =
     (case parse_args (drop 1 args) (str ''.'') None [] of
        Inl msg \<Rightarrow> usage_error msg
      | Inr (p, None, _) \<Rightarrow>
          usage_error (str ''usage: lsm-admin <inspect|stats|compact|gc|backup|restore> [--dir <path>] <args...>'')
      | Inr (p, Some cmd, positionals) \<Rightarrow> run_command io_text crc p cmd positionals)"

definition admin_main :: "(io_error \<Rightarrow> bytes) \<Rightarrow> (bytes \<Rightarrow> 32 word) \<Rightarrow> bytes list \<Rightarrow> console \<Rightarrow> nat \<times> console" where
  "admin_main io_text crc args c =
     (case admin_run io_text crc args c of (Inl code, c) \<Rightarrow> (code, c) | (Inr _, c) \<Rightarrow> (0, c))"

section \<open>What a command leaves alone\<close>

text \<open>An operation that leaves a directory as it is, whatever it ends with.\<close>

definition leaves :: "bytes \<Rightarrow> dir \<Rightarrow> 'a command \<Rightarrow> bool" where
  "leaves q d m \<longleftrightarrow> (\<forall>c. dirs c q = Some d \<longrightarrow> dirs (snd (m c)) q = Some d)"

lemma leaves_bind [intro]:
  assumes "leaves q d m" and "\<And>x. leaves q d (f x)"
  shows "leaves q d (bindS m f)"
  using assms unfolding leaves_def bindS_def by (auto split: prod.split sum.split)

lemma leaves_case [intro]: "(\<And>a b. leaves q d (f a b)) \<Longrightarrow> leaves q d (case x of (a, b) \<Rightarrow> f a b)"
  by (cases x) simp

lemma leaves_simps [simp, intro]:
  "leaves q d (retS x)" "leaves q d (failS e)" "leaves q d (println s)" "leaves q d (eprintln s)" "leaves q d (getS g)"
  "leaves q d (Pair r)"
  by (simp_all add: leaves_def retS_def failS_def println_def eprintln_def modS_def getS_def)

lemma leaves_set_dir [simp, intro]: "p \<noteq> q \<Longrightarrow> leaves q d (set_dir p x)" "leaves q d (set_dir q (Some d))"
  by (simp_all add: leaves_def set_dir_def modS_def)

lemma leaves_failed [simp, intro]: "leaves q d (failed io_text e)" "leaves q d (usage_error s)"
  by (cases e) (auto simp: failed_def usage_error_def)

lemma leaves_print [simp, intro]: "leaves q d (forS ss println)"
  by (induction ss) auto

lemma leaves_open [simp, intro]: "p \<noteq> q \<Longrightarrow> leaves q d (open_ro io_text crc p)"
  unfolding open_ro_def by (rule leaves_bind) (auto split: prod.split sum.split)

lemma leaves_with_db [simp, intro]: "p \<noteq> q \<Longrightarrow> leaves q d (with_db io_text p f db)"
  unfolding with_db_def by (auto split: prod.split sum.split)

text \<open>Neither a backup nor a restore writes to a directory with files in it.\<close>

lemma backup_refuses: "d \<noteq> [] \<Longrightarrow> snd (snd (backup (Some d) db)) = Some d"
  by (auto simp: backup_def prepare_target_def split: prod.split sum.split)

lemma restore_refuses: "d \<noteq> [] \<Longrightarrow> snd (restore src (Some d)) = Some d"
  by (auto simp: restore_def prepare_target_def split: sum.split)

lemma leaves_backup_to:
  assumes "p \<noteq> q" and "d \<noteq> []"
  shows "leaves q d (backup_to io_text p dest db)"
proof -
  have "leaves q d (bindS (set_dir dest target) (\<lambda>_. with_db io_text p f db'))" if "dest = q \<longrightarrow> target = Some d" for target f and db'
    using that assms by (cases "dest = q") auto
  note last = this
  show ?thesis
    unfolding leaves_def
  proof (intro allI impI)
    fix c :: console assume c: "dirs c q = Some d"
    obtain r db' target where r: "backup (dirs c dest) db = (r, db', target)" by (metis prod_cases3)
    have "dest = q \<longrightarrow> target = Some d" using backup_refuses[OF assms(2)] c r by (metis snd_conv)
    from last[OF this, of "\<lambda>db. (r, db)" db'] show "dirs (snd (backup_to io_text p dest db c)) q = Some d"
      using c r by (simp add: leaves_def backup_to_def bindS_def getS_def)
  qed
qed

lemma leaves_restore:
  assumes "d \<noteq> []"
  shows "leaves q d (cmd_restore io_text src dest)"
  unfolding leaves_def
proof (intro allI impI)
  fix c :: console assume c: "dirs c q = Some d"
  obtain r target where r: "restore (case dirs c src of None \<Rightarrow> [] | Some d \<Rightarrow> d) (dirs c dest) = (r, target)" by fastforce
  have t: "dest = q \<longrightarrow> target = Some d" using restore_refuses[OF assms] c r by (metis snd_conv)
  let ?rest = "case r of Inl e \<Rightarrow> failed io_text e | Inr n \<Rightarrow> println (str ''restore: wrote '' @ dec n @ str '' files to '' @ dest)"
  have "leaves q d (bindS (set_dir dest target) (\<lambda>_. ?rest))"
    using t by (cases "dest = q") (auto split: sum.split)
  then show "dirs (snd (cmd_restore io_text src dest c)) q = Some d"
    using c r by (simp add: leaves_def cmd_restore_def bindS_def getS_def)
qed

lemmas leaves_intros = leaves_bind leaves_case leaves_simps leaves_set_dir(1) leaves_print leaves_open leaves_with_db leaves_backup_to

lemma leaves_command:
  assumes "p \<noteq> q" and "d \<noteq> []"
  shows "leaves q d (run_command io_text crc p cmd positionals)"
proof -
  have "leaves q d (cmd_inspect io_text crc p)" "leaves q d (cmd_stats io_text crc p)" "leaves q d (cmd_compact io_text crc p)"
      "leaves q d (cmd_gc io_text crc p)" "leaves q d (cmd_backup io_text crc p dest)" for dest
    unfolding cmd_inspect_def cmd_stats_def cmd_compact_def cmd_gc_def cmd_backup_def Let_def
    by (intro leaves_intros assms)+
  then show ?thesis
    using leaves_restore[OF assms(2)] by (cases cmd) (auto simp: run_command_def split: list.split)
qed

section \<open>What a command does to its own directory\<close>

text \<open>
  A directory with the files of a database in a reachable state, and room for one more table and one more
  compaction.
\<close>

definition next_fits :: "database \<Rightarrow> bool" where
  "next_fits db \<longleftrightarrow> mf_next_table_id (db_manifest db) < 2 ^ 64"

definition admin_ready :: "(bytes \<Rightarrow> 32 word) \<Rightarrow> nat \<Rightarrow> (bytes \<Rightarrow> bytes option) \<Rightarrow> dir \<Rightarrow> bool" where
  "admin_ready crc B v d \<longleftrightarrow> d \<noteq> [] \<and>
     (\<exists>db rs. fst (open_default crc d) = Inr db \<and> run crc B default_options db v (Some rs) \<and> mem_room db \<and>
        next_fits (snd (flush db)) \<and> next_fits (snd (compact_full db)) \<and> next_fits (snd (flush (snd (gc db)))))"

definition opens_to :: "(bytes \<Rightarrow> 32 word) \<Rightarrow> (bytes \<Rightarrow> bytes option) \<Rightarrow> dir \<Rightarrow> bool" where
  "opens_to crc v d \<longleftrightarrow> (\<exists>db. fst (open_default crc d) = Inr db \<and> db_value db = v)"

lemma opened:
  assumes "open_with crc opts d = (Inr db, d')"
  shows "d' = disk db" and "wal_buf (db_wal db) = []" and "\<not> db_closed db"
proof -
  have c: "db_dir db2 = db_dir db1 \<and> db_wal db2 = db_wal db1 \<and> db_closed db2 = db_closed db1"
    if "convert_legacy_l1 db1 = Inr db2" for db1 db2
    using that by (auto simp: convert_legacy_l1_def bindE_eq_Inr Let_def split: if_splits list.splits)
  show "d' = disk db" "wal_buf (db_wal db) = []" "\<not> db_closed db"
    using assms by (auto simp: open_with_def bindS_def bindE_eq_Inr Let_def replay_into_def initial_db_def wal_create_def disk_def
        dest!: c split: prod.splits sum.splits)
qed

text \<open>An open database with the map of a reachable state that can be flushed.\<close>

definition kept :: "(bytes \<Rightarrow> 32 word) \<Rightarrow> nat \<Rightarrow> (bytes \<Rightarrow> bytes option) \<Rightarrow> database \<Rightarrow> bool" where
  "kept crc B v db \<longleftrightarrow> (\<exists>rs. run_inv crc B default_options db v (Some rs)) \<and> mem_room db \<and> \<not> db_closed db \<and>
     next_fits (snd (flush db))"

lemma kept_bound: "kept crc B v db \<Longrightarrow> \<forall>db'. flush db = (Inr (), db') \<longrightarrow> mf_next_table_id (db_manifest db') < 2 ^ 64"
  unfolding kept_def next_fits_def by (metis snd_conv)

lemma kept_closed:
  assumes "kept crc B v db"
  shows "\<exists>db'. db_close db = (Inr (), db') \<and> opens_to crc v (db_drop db')" and "opens_to crc v (db_drop db)"
proof -
  obtain rs where "run_inv crc B default_options db v (Some rs)" "mem_room db" "\<not> db_closed db" using assms by (auto simp: kept_def)
  note c = run_inv_closed[OF this kept_bound[OF assms]]
  show "opens_to crc v (db_drop db)" using c[THEN conjunct2] by (simp only: opens_to_def open_default_def)
  obtain db' where "db_close db = (Inr (), db')" "db_closed db'" "opens_to crc v (disk db')"
    using c[THEN conjunct1] unfolding opens_to_def open_default_def by blast
  then show "\<exists>db'. db_close db = (Inr (), db') \<and> opens_to crc v (db_drop db')" by (auto simp: db_drop_def)
qed

text \<open>With nothing in memory a flush does nothing.\<close>

lemma kept_empty:
  assumes "run_inv crc B default_options db v (Some rs)" and "mt_map (db_memtable db) = []" and "\<not> db_closed db"
  shows "kept crc B v db"
proof -
  have "flush db = (Inr (), db)" using assms(2) by (simp add: flush_def mt_is_empty_def)
  moreover have "next_fits db" using assms(1) by (simp add: run_inv_def db_ok_def openable_def manifest_fits_def next_fits_def)
  moreover have "mem_room db" using assms(2) by (simp add: mem_room_def table_size_def)
  ultimately show ?thesis using assms by (auto simp: kept_def)
qed

lemma log_after_kept: "\<exists>rs'. log_after (Some rs) [] db = Some rs'"
  by (simp add: log_after_def)

lemma kept_flush:
  assumes "kept crc B v db"
  shows "\<exists>db'. flush db = (Inr (), db') \<and> kept crc B v db'"
proof -
  obtain rs where r: "run_inv crc B default_options db v (Some rs)" and m: "mem_room db" using assms by (auto simp: kept_def)
  obtain db' rs' where f: "flush db = (Inr (), db')" "run_inv crc B default_options db' v (Some rs')"
      "mt_map (db_memtable db') = []" "reorganised B db db'"
    using run_flushed[OF r m kept_bound[OF assms]] .
  have "\<not> db_closed db'" using f(4) assms by (simp add: reorganised_def kept_def)
  then show ?thesis using f kept_empty by blast
qed

lemma kept_compact:
  assumes "kept crc B v db" and "next_fits (snd (compact_full db))"
  shows "\<exists>n db'. compact_full db = (Inr n, db') \<and> kept crc B v db'"
proof -
  obtain rs where r: "run_inv crc B default_options db v (Some rs)" using assms(1) by (auto simp: kept_def)
  then have "db_inv db" "db_fits B db" "table_size (mt_map (db_memtable db)) < 2 ^ 32"
    using assms(1) by (auto simp: kept_def mem_room_def run_inv_def db_ok_def)
  from compact_full_correct[OF this] obtain n db' where
    c: "compact_full db = (Inr n, db')" "reorganised B db db'" "mt_map (db_memtable db') = []" by blast
  have "next_fits db'" using assms(2) c(1) by simp
  then obtain rs' where "run_inv crc B default_options db' v (Some rs')"
    using run_reorganised[OF r c(2)] log_after_kept by (metis next_fits_def)
  moreover have "\<not> db_closed db'" using c(2) assms(1) by (simp add: reorganised_def kept_def)
  ultimately show ?thesis using c kept_empty by blast
qed

lemma kept_gc:
  assumes "kept crc B v db" and "next_fits (snd (flush (snd (gc db))))"
  shows "\<exists>n db'. gc db = (Inr n, db') \<and> kept crc B v db'"
proof -
  obtain rs where r: "run_inv crc B default_options db v (Some rs)" using assms(1) by (auto simp: kept_def)
  then have ok: "db_ok B db" by (simp add: run_inv_def)
  obtain r' db' where g: "gc db = (r', db')" by fastforce
  from gc_files[OF this] obtain n d c where db': "r' = Inr n" "db' = db\<lparr>db_dir := d, db_cache := c\<rparr>" by blast
  have "db_ok B db'" "db_value db' = db_value db" using gc_keeps[OF ok g] by blast+
  then have "run_inv crc B default_options db' v (Some rs)"
    using r by (simp add: run_inv_def logged_def) (simp add: db'(2))
  moreover have "mem_room db'" "\<not> db_closed db'" using assms(1) by (simp_all add: kept_def mem_room_def db'(2))
  moreover have "next_fits (snd (flush db'))" using assms(2) g by simp
  ultimately show ?thesis using g db'(1) by (auto simp: kept_def)
qed

lemma kept_backup:
  assumes "kept crc B v db"
  shows "\<exists>r db' target'. backup target db = (r, db', target') \<and> kept crc B v db'"
  using kept_flush[OF assms] by (auto simp: backup_def split: sum.split prod.split)

text \<open>After a command the directory opens to the map \<open>v\<close>.\<close>

definition holds :: "(bytes \<Rightarrow> 32 word) \<Rightarrow> (bytes \<Rightarrow> bytes option) \<Rightarrow> bytes \<Rightarrow> 'a command \<Rightarrow> console \<Rightarrow> bool" where
  "holds crc v p m c \<longleftrightarrow> (\<exists>d'. dirs (snd (m c)) p = Some d' \<and> opens_to crc v d')"

lemma holds_set_dir: "opens_to crc v d \<Longrightarrow> holds crc v p (set_dir p (Some d)) c"
  by (simp add: holds_def set_dir_def modS_def)

lemma holds_bind:
  "m c = (Inr x, c') \<Longrightarrow> holds crc v p (bindS m f) c \<longleftrightarrow> holds crc v p (f x) c'"
  "m c = (Inl e, c') \<Longrightarrow> holds crc v p (bindS m f) c \<longleftrightarrow> holds crc v p m c"
  by (simp_all add: holds_def bindS_def)

lemma holds_failed:
  assumes "dirs c p = Some d" and "opens_to crc v d"
  shows "holds crc v p (failed io_text e) c" and "\<exists>code c'. failed io_text e c = (Inl code, c')"
  using assms by (cases e; simp add: holds_def failed_def bindS_def eprintln_def modS_def failS_def)+

lemma println_Inr: "println s c = (Inr (), c\<lparr>out_lines := out_lines c @ [s]\<rparr>)"
  by (simp add: println_def modS_def)

lemma with_db_Inr: "f db = (Inr x, db') \<Longrightarrow> with_db io_text p f db c = (Inr (x, db'), c\<lparr>dirs := (dirs c)(p \<mapsto> disk db')\<rparr>)"
  by (simp add: with_db_def bindS_def set_dir_def modS_def retS_def)

lemma with_db_Inl:
  "f db = (Inl e, db') \<Longrightarrow> with_db io_text p f db c = failed io_text e (c\<lparr>dirs := (dirs c)(p \<mapsto> db_drop db')\<rparr>)"
  by (simp add: with_db_def bindS_def set_dir_def modS_def)

lemma holds_closing:
  assumes "kept crc B v db"
  shows "holds crc v p (bindS (with_db io_text p db_close db) (\<lambda>(_, db). bindS (println s) (\<lambda>_. set_dir p (Some (db_drop db))))) c"
proof -
  obtain db' where d: "db_close db = (Inr (), db')" "opens_to crc v (db_drop db')" using kept_closed(1)[OF assms] by blast
  show ?thesis using holds_set_dir[OF d(2)] by (simp add: holds_bind(1) with_db_Inr[where f = db_close, OF d(1)] println_Inr)
qed

lemma forS_println: "forS ss println c = (Inr (), c\<lparr>out_lines := out_lines c @ ss\<rparr>)"
  by (induction ss arbitrary: c) (simp_all add: bindS_def println_def modS_def retS_def)

text \<open>The tables of a database are read without a change to it.\<close>

lemma holds_infos:
  assumes "kept crc B v db" and "\<And>tables c. holds crc v p (f (tables, db)) c"
  shows "holds crc v p (bindS (with_db io_text p (\<lambda>db. (table_infos db, db)) db) f) c"
proof (cases "table_infos db")
  case (Inl e)
  let ?m = "with_db io_text p (\<lambda>db. (table_infos db, db)) db"
  have m: "?m c = failed io_text e (c\<lparr>dirs := (dirs c)(p \<mapsto> db_drop db)\<rparr>)"
    by (rule with_db_Inl) (simp add: Inl)
  have "dirs (c\<lparr>dirs := (dirs c)(p \<mapsto> db_drop db)\<rparr>) p = Some (db_drop db)" by simp
  note l = holds_failed[OF this kept_closed(2)[OF assms(1)]]
  obtain code c' where e: "?m c = (Inl code, c')" using l(2) unfolding m by blast
  have "holds crc v p ?m c"
    using l(1)[where ?'a = "table_view list \<times> database"] unfolding holds_def m .
  then show ?thesis using e by (simp only: holds_bind(2)[where m = ?m])
next
  case (Inr tables)
  then show ?thesis using assms(2) by (simp add: holds_bind(1) with_db_Inr)
qed

text \<open>The database a command opens.\<close>

lemma ready_opens:
  assumes "admin_ready crc B v d" and "opts_ok B default_options" and "dirs c p = Some d"
  obtains db where "open_ro io_text crc p c = (Inr db, c\<lparr>dirs := (dirs c)(p \<mapsto> disk db)\<rparr>)" "kept crc B v db"
    "next_fits (snd (compact_full db))" "next_fits (snd (flush (snd (gc db))))" "opens_to crc v (disk db)"
proof -
  obtain db rs where d: "fst (open_default crc d) = Inr db" "run crc B default_options db v (Some rs)" "mem_room db"
      "next_fits (snd (flush db))" "next_fits (snd (compact_full db))" "next_fits (snd (flush (snd (gc db))))"
    using assms(1) by (auto simp: admin_ready_def)
  then obtain d' where o: "open_with crc default_options d = (Inr db, d')"
    unfolding open_default_def by (metis prod.collapse)
  note w = opened[OF o]
  have i: "run_inv crc B default_options db v (Some rs)" using d(2) assms(2) by (rule run_invariant)
  have "open_ro io_text crc p c = (Inr db, c\<lparr>dirs := (dirs c)(p \<mapsto> disk db)\<rparr>)"
    using o assms(3) unfolding w(1)
    by (simp add: open_ro_def open_default_def bindS_def getS_def set_dir_def modS_def retS_def)
  moreover have "kept crc B v db" using i d(3,4) w(3) by (auto simp: kept_def)
  moreover have "opens_to crc v (disk db)"
    using run_disk[OF i w(2)] by (auto simp: opens_to_def open_default_def)
  ultimately show thesis using that d(5,6) by blast
qed

lemma command_keeps:
  assumes "admin_ready crc B v d" and "opts_ok B default_options" and "dirs c p = Some d"
  shows "holds crc v p (cmd_inspect io_text crc p) c" and "holds crc v p (cmd_stats io_text crc p) c"
    and "holds crc v p (cmd_compact io_text crc p) c" and "holds crc v p (cmd_gc io_text crc p) c"
    and "holds crc v p (cmd_backup io_text crc p dest) c"
proof -
  obtain db where o: "open_ro io_text crc p c = (Inr db, c\<lparr>dirs := (dirs c)(p \<mapsto> disk db)\<rparr>)" and k: "kept crc B v db"
    and fits: "next_fits (snd (compact_full db))" "next_fits (snd (flush (snd (gc db))))" and v: "opens_to crc v (disk db)"
    using ready_opens[OF assms] .
  note start = holds_bind(1)[where m = "open_ro io_text crc p", OF o]
  have "opens_to crc v (close_without_flush db)" using v by (simp add: close_without_flush_def db_drop_def disk_def)
  then show "holds crc v p (cmd_inspect io_text crc p) c" "holds crc v p (cmd_stats io_text crc p) c"
    unfolding cmd_inspect_def cmd_stats_def start
    by (simp_all add: holds_bind(1) forS_println holds_set_dir holds_infos[OF k])
  obtain n db' where d: "compact_full db = (Inr n, db')" "kept crc B v db'" using kept_compact[OF k fits(1)] by blast
  show "holds crc v p (cmd_compact io_text crc p) c"
    unfolding cmd_compact_def Let_def start
    by (simp add: holds_bind(1)[where m = "with_db io_text p compact_full db", OF with_db_Inr] d(1) holds_closing[OF d(2)])
  obtain n db' where g: "gc db = (Inr n, db')" "kept crc B v db'" using kept_gc[OF k fits(2)] by blast
  show "holds crc v p (cmd_gc io_text crc p) c"
    unfolding cmd_gc_def start
    by (simp add: holds_bind(1)[where m = "with_db io_text p gc db", OF with_db_Inr] g(1) holds_closing[OF g(2)])
  let ?c = "c\<lparr>dirs := (dirs c)(p \<mapsto> disk db)\<rparr>"
  obtain r db' target where b: "backup (dirs ?c dest) db = (r, db', target)" "kept crc B v db'"
    using kept_backup[OF k] by blast
  let ?d = "?c\<lparr>dirs := (dirs ?c)(dest := target)\<rparr>"
  have to: "backup_to io_text p dest db ?c = with_db io_text p (\<lambda>db. (r, db)) db' ?d"
    using b(1) by (simp add: backup_to_def bindS_def getS_def set_dir_def modS_def)
  show "holds crc v p (cmd_backup io_text crc p dest) c"
  proof (cases r)
    case (Inl e)
    let ?f = "failed io_text e (?d\<lparr>dirs := (dirs ?d)(p \<mapsto> db_drop db')\<rparr>) :: (nat + nat \<times> database) \<times> console"
    have f: "backup_to io_text p dest db ?c = ?f"
      unfolding to by (rule with_db_Inl) (simp add: Inl)
    have "dirs (?d\<lparr>dirs := (dirs ?d)(p \<mapsto> db_drop db')\<rparr>) p = Some (db_drop db')" by simp
    note l = holds_failed[OF this kept_closed(2)[OF b(2)]]
    obtain code c' where e: "?f = (Inl code, c')" using l(2) by blast
    have "holds crc v p (backup_to io_text p dest db) ?c"
      using l(1)[where ?'a = "nat \<times> database"] unfolding holds_def f .
    then show ?thesis
      unfolding cmd_backup_def start using f e by (simp only: holds_bind(2)[where m = "backup_to io_text p dest db"])
  next
    case (Inr n)
    then have "backup_to io_text p dest db ?c = (Inr (n, db'), ?d\<lparr>dirs := (dirs ?d)(p \<mapsto> disk db')\<rparr>)"
      unfolding to by (intro with_db_Inr) simp
    then show ?thesis
      unfolding cmd_backup_def start by (simp add: holds_bind(1)[where m = "backup_to io_text p dest db"] holds_closing[OF b(2)])
  qed
qed

lemma ready_opens_to:
  assumes "admin_ready crc B v d" and "opts_ok B default_options"
  shows "d \<noteq> []" and "opens_to crc v d"
proof -
  show "d \<noteq> []" using assms(1) by (simp add: admin_ready_def)
  obtain db rs where "fst (open_default crc d) = Inr db" "run crc B default_options db v (Some rs)"
    using assms(1) by (auto simp: admin_ready_def)
  then show "opens_to crc v d"
    using run_invariant[OF _ assms(2), of crc db v "Some rs"] by (auto simp: opens_to_def run_inv_def)
qed

lemma holds_left:
  assumes "leaves p d m" and "dirs c p = Some d" and "opens_to crc v d"
  shows "holds crc v p m c"
  using assms by (auto simp: leaves_def holds_def)

lemma run_command_holds:
  assumes "admin_ready crc B v d" and "opts_ok B default_options" and "dirs c p = Some d"
  shows "holds crc v p (run_command io_text crc q cmd positionals) c"
proof -
  note o = ready_opens_to[OF assms(1,2)]
  show ?thesis
  proof (cases "q = p")
    case False
    show ?thesis by (rule holds_left[OF leaves_command[OF False o(1)] assms(3) o(2)])
  next
    case True
    have u: "holds crc v p (usage_error s :: unit command) c" for s by (rule holds_left[OF _ assms(3) o(2)]) simp
    have r: "holds crc v p (cmd_restore io_text src dest) c" for src dest
      by (rule holds_left[OF leaves_restore[OF o(1)] assms(3) o(2)])
    show ?thesis
      using command_keeps[OF assms] u r True by (cases cmd) (auto simp: run_command_def split: list.split)
  qed
qed

section \<open>Exit codes\<close>

text \<open>A command that has begun its work fails with code 1, or with the code of a panic.\<close>

definition fails_late :: "'a command \<Rightarrow> bool" where
  "fails_late m \<longleftrightarrow> (\<forall>c code c'. m c = (Inl code, c') \<longrightarrow> code = 1 \<or> code = 101)"

lemma late_bind [intro]:
  assumes "fails_late m" and "\<And>x. fails_late (f x)"
  shows "fails_late (bindS m f)"
  using assms unfolding fails_late_def bindS_def by (auto split: prod.splits sum.splits)

lemma late_case [intro]: "(\<And>a b. fails_late (f a b)) \<Longrightarrow> fails_late (case x of (a, b) \<Rightarrow> f a b)"
  by (cases x) simp

lemma late_simps [simp, intro]:
  "fails_late (retS x)" "fails_late (println s)" "fails_late (set_dir p d)" "fails_late (getS g)" "fails_late (Pair (Inr x))"
  by (simp_all add: fails_late_def retS_def println_def modS_def getS_def set_dir_def)

lemma late_failed [simp, intro]: "fails_late (failed io_text e)"
  by (cases e) (simp_all add: fails_late_def failed_def bindS_def eprintln_def modS_def failS_def)

lemma late_print [simp, intro]: "fails_late (forS ss println)"
  by (induction ss) auto

lemma late_steps [intro]: "fails_late (open_ro io_text crc p)" "fails_late (with_db io_text p f db)"
    "fails_late (backup_to io_text p dest db)"
proof -
  show o: "fails_late (with_db io_text p f db)" for f :: "(database, error, 'a) op" and db
    unfolding with_db_def by (auto split: prod.split sum.split)
  show "fails_late (open_ro io_text crc p)"
    unfolding open_ro_def by (rule late_bind) (auto split: prod.split sum.split)
  show "fails_late (backup_to io_text p dest db)"
    unfolding backup_to_def by (rule late_bind) (auto split: prod.split simp: with_db_def sum.case_eq_if)
qed

lemma late_restore: "fails_late (cmd_restore io_text src dest)"
  unfolding cmd_restore_def by (rule late_bind) (auto split: prod.split sum.split)

lemma run_command_codes:
  "fails_late (run_command io_text crc p cmd positionals) \<or>
   (\<exists>s. run_command io_text crc p cmd positionals = usage_error s)"
proof -
  have "fails_late (cmd_inspect io_text crc p)" "fails_late (cmd_stats io_text crc p)" "fails_late (cmd_compact io_text crc p)"
      "fails_late (cmd_gc io_text crc p)" "fails_late (cmd_backup io_text crc p dest)" for dest
    unfolding cmd_inspect_def cmd_stats_def cmd_compact_def cmd_gc_def cmd_backup_def Let_def
    by (intro late_bind late_case late_simps late_print late_steps)+
  then show ?thesis
    using late_restore by (cases cmd) (auto simp: run_command_def split: list.split)
qed

lemma admin_run_cases:
  "(\<exists>s. admin_run io_text crc args = usage_error s) \<or>
   (\<exists>p cmd ps. admin_run io_text crc args = run_command io_text crc p cmd ps)"
  by (auto simp: admin_run_def split: sum.split prod.split option.split)

section \<open>The room a compaction needs\<close>

lemma length_chunks: "length (chunks n xs) \<le> length xs"
proof (induction n xs rule: chunks.induct)
  case (1 n xs)
  show ?case
  proof (cases "xs = [] \<or> n = 0")
    case True
    then show ?thesis by (simp add: chunks.simps[of n xs])
  next
    case False
    then show ?thesis using 1 by (cases xs) (auto simp: chunks.simps[of n "_ # _"] intro: le_trans)
  qed
qed

lemma write_chunks_next:
  "mf_next_table_id (db_manifest (snd (write_chunks cs db))) \<le> mf_next_table_id (db_manifest db) + length cs"
proof (induction cs arbitrary: db)
  case (Cons c cs)
  define db1 where "db1 = snd (write_table c db)"
  have "mf_next_table_id (db_manifest db1) = mf_next_table_id (db_manifest db) + 1"
    by (simp add: db1_def write_table_def Let_def)
  moreover obtain i where "write_table c db = (Inr i, db1)" by (simp add: db1_def write_table_def Let_def)
  ultimately show ?case
    using Cons[of db] Cons[of db1] by (auto simp: bindS_def retS_def split: prod.split sum.split)
qed (simp add: retS_def)

text \<open>A full compaction of an empty memory writes at most one table for each key.\<close>

lemma compact_next:
  assumes "run_inv crc B default_options db v (Some rs)" and "mt_map (db_memtable db) = []" and "finite (dom v)"
  shows "mf_next_table_id (db_manifest (snd (compact_full db))) \<le> mf_next_table_id (db_manifest db) + card (dom v)"
proof -
  let ?ids = "table_order (db_manifest db)"
  have i: "db_inv db" "db_value db = v" "db_opts db = default_options" using assms(1) by (simp_all add: run_inv_def db_ok_def)
  then have "\<forall>i \<in> set ?ids. table_at (db_dir db) i" using order_tables by (auto simp: db_inv_def)
  from merge_ids_correct[OF this] obtain recs where m: "merge_ids ?ids True db = Inr recs" "ssorted (map fst recs)"
      "\<And>k. map_of recs k = live (layers (map (file_records (db_dir db)) ?ids) k)" by blast
  have k: "v k = flat (map_of recs k)" for k using i(2) assms(2) unfolding m(3) by (auto simp: value_layers)
  have nn: "map_of recs k \<noteq> Some None" for k unfolding m(3) live_def by (auto split: option.split)
  have "map_of recs k = None \<longleftrightarrow> v k = None" for k
    using k[of k] nn[of k] by (cases "map_of recs k"; cases "the (map_of recs k)") (auto simp: flat_def)
  then have "fst ` set recs = dom v" unfolding dom_map_of_conv_image_fst[symmetric] by (auto simp: dom_def)
  moreover have "distinct (map fst recs)" using m(2) by (rule ssorted_distinct)
  ultimately have len: "length recs = card (dom v)" by (metis distinct_card length_map set_map)
  have fl: "flush db = (Inr (), db)" using assms(2) by (simp add: flush_def mt_is_empty_def)
  obtain r db1 where w: "write_segments recs db = (r, db1)" by fastforce
  then have "db1 = snd (write_chunks (chunks (segment_max_records default_options) recs) db)"
    by (simp add: write_segments_def i(3) default_options_def)
  then have "mf_next_table_id (db_manifest db1) \<le> mf_next_table_id (db_manifest db) + length recs"
    using write_chunks_next[of "chunks (segment_max_records default_options) recs" db]
      length_chunks[of "segment_max_records default_options" recs] by simp
  moreover have "mf_next_table_id (db_manifest (snd (compact_full db))) = mf_next_table_id (db_manifest db1)"
    using fl m(1) w
    by (cases r) (simp_all add: compact_full_def compact_all_def table_order_def bindS_def liftS_def modS_def Let_def
        commit_segments_def remove_tables_def set_level0_def)
  ultimately show ?thesis using len by simp
qed

text \<open>
  C23: No call of the tool loses data. Whatever its arguments are, a directory that holds a database,
  be it the one worked on, the target of a backup or of a restore or another one, opens to the same map
  afterwards; the exit code is 0, 1, 2 or that of a panic, and a wrong call, code 2, touches no directory.
\<close>

theorem admin_keeps_data:
  assumes "dirs c p = Some d" and "admin_ready crc B v d" and "opts_ok B default_options"
    and "admin_main io_text crc args c = (code, c')"
  shows "(\<exists>d'. dirs c' p = Some d' \<and> opens_to crc v d') \<and> code \<in> {0, 1, 2, 101} \<and> (code = 2 \<longrightarrow> dirs c' = dirs c)"
proof -
  obtain r where run: "admin_run io_text crc args c = (r, c')" "code = (case r of Inl code \<Rightarrow> code | Inr _ \<Rightarrow> 0)"
    using assms(4) by (auto simp: admin_main_def split: prod.splits sum.splits)
  have ne: "d \<noteq> []" and o: "opens_to crc v d" using ready_opens_to[OF assms(2,3)] by blast+
  have usage: ?thesis if "admin_run io_text crc args = usage_error s" for s
    using run o assms(1) unfolding that
    by (auto simp: usage_error_def bindS_def eprintln_def modS_def failS_def)
  consider s where "admin_run io_text crc args = usage_error s"
    | q cmd ps where "admin_run io_text crc args = run_command io_text crc q cmd ps"
    using admin_run_cases by blast
  then show ?thesis
  proof cases
    case (2 q cmd ps)
    consider s where "run_command io_text crc q cmd ps = usage_error s" | "fails_late (run_command io_text crc q cmd ps)"
      using run_command_codes by blast
    then show ?thesis
    proof cases
      case late: 2
      have "code \<in> {0, 1, 101}" using late run unfolding 2 fails_late_def by (cases r) auto
      moreover have "holds crc v p (run_command io_text crc q cmd ps) c"
        by (rule run_command_holds[OF assms(2,3,1)])
      ultimately show ?thesis using run(1) unfolding 2 by (auto simp: holds_def)
    qed (use usage 2 in simp)
  qed (use usage in blast)
qed

text \<open>The files of a database with one table.\<close>

definition sample_dir :: dir where
  "sample_dir = fs_write WAL_FILE [] (db_dir sample_flushed)"

lemma sample_dir_ready: "admin_ready (\<lambda>_. 0) 1000 [str ''a'' \<mapsto> str ''1''] sample_dir"
proof -
  let ?v = "[str ''a'' \<mapsto> str ''1'']"
  have op: "openable sample_flushed" using sample_ok by (simp add: db_ok_def)
  obtain db where d: "fst (open_with (\<lambda>_. 0) default_options sample_dir) = Inr db" "reopened sample_flushed [] db"
      "db_opts db = default_options"
    using open_openable[OF op, of sample_dir "\<lambda>_. 0" "[]" default_options] by (auto simp: sample_dir_def log_file_def)
  have "fst (open_with (\<lambda>_. 0) default_options (fs_write WAL_FILE (take 0 (wal_log (db_wal sample_flushed))) (db_dir sample_flushed)))
      = Inr db" using d(1) by (simp add: sample_dir_def)
  from run_crash[OF sample_flushed_run this]
  have r: "run (\<lambda>_. 0) 1000 default_options db (value_over sample_flushed []) (Some [])" by (simp add: log_cut_def)
  have "mt_get (db_memtable sample_flushed) = Map.empty"
    by (simp add: sample_flushed_def sample_flush flushed_simps memtable_new_def mt_get_def fun_eq_iff)
  then have "value_over sample_flushed [] = ?v"
    unfolding sample_value[symmetric] by (simp add: fun_eq_iff value_over_def value_layers flip: mt_get_def)
  with r have r: "run (\<lambda>_. 0) 1000 default_options db ?v (Some [])" by simp
  have i: "run_inv (\<lambda>_. 0) 1000 default_options db ?v (Some [])" using r sample_opts by (rule run_invariant)
  have "mt_get (db_memtable db) = Map.empty" using d(2) by (simp add: reopened_def)
  then have "map_of (mt_map (db_memtable db)) = Map.empty" by (simp add: mt_get_def fun_eq_iff)
  then have mem: "mt_map (db_memtable db) = []" by simp
  have fl: "flush x = (Inr (), x)" if "db_memtable x = db_memtable db" for x
    using mem that by (simp add: flush_def mt_is_empty_def)
  have "mf_next_table_id (db_manifest db) = mf_next_table_id (db_manifest sample_flushed)"
    using d(2) by (simp add: reopened_def same_tables_def)
  then have n: "mf_next_table_id (db_manifest db) = 2"
    unfolding sample_flushed_def sample_flush snd_conv flushed_simps
    by (simp add: sample_db_eq written_def fresh_db_def manifest_new_def set_level0_def)
  have "mf_next_table_id (db_manifest (snd (compact_full db))) \<le> 2 + card (dom ?v)"
    using compact_next[OF i mem] unfolding n by simp
  then have "next_fits (snd (compact_full db))" by (simp add: next_fits_def)
  moreover have "next_fits (snd (flush db))" by (simp add: fl n next_fits_def)
  moreover have "next_fits (snd (flush (snd (gc db))))"
  proof -
    have "snd (gc db) = db\<lparr>db_dir := db_dir (snd (gc db)), db_cache := db_cache (snd (gc db))\<rparr>"
      by (simp add: gc_def Let_def split: prod.split)
    then have "db_memtable (snd (gc db)) = db_memtable db" "db_manifest (snd (gc db)) = db_manifest db"
      by (metis (no_types, lifting) database.surjective database.update_convs database.select_convs)+
    then show ?thesis by (simp add: fl n next_fits_def)
  qed
  moreover have "mem_room db" using mem by (simp add: mem_room_def table_size_def)
  moreover have "sample_dir \<noteq> []" by (simp add: sample_dir_def fs_write_def)
  ultimately show ?thesis using d(1) r by (auto simp: admin_ready_def open_default_def)
qed

theorem admin_keeps_data_witness:
  "\<exists>code c' d'. admin_main (\<lambda>_. []) (\<lambda>_. 0) [str ''lsm-admin'', str ''compact'', str ''--dir'', str ''db'']
       \<lparr>out_lines = [], err_lines = [], dirs = [str ''db'' \<mapsto> sample_dir]\<rparr> = (code, c') \<and>
     dirs c' (str ''db'') = Some d' \<and> opens_to (\<lambda>_. 0) [str ''a'' \<mapsto> str ''1''] d'"
proof -
  let ?c = "\<lparr>out_lines = [], err_lines = [], dirs = [str ''db'' \<mapsto> sample_dir]\<rparr>"
  have "dirs ?c (str ''db'') = Some sample_dir" by simp
  from admin_keeps_data[OF this sample_dir_ready sample_opts surjective_pairing, of "\<lambda>_. []"
      "[str ''lsm-admin'', str ''compact'', str ''--dir'', str ''db'']"]
  show ?thesis by (metis surjective_pairing)
qed

end
