(* ===== verification/Spec2Isabelle.thy ===== *)
theory Spec2Isabelle
  imports Composites Building Answered Lsmql Admin
begin

text \<open>
  A verification library for my-lsm-db, an embedded key-value database with a log-structured merge tree, a layer of
  entities with secondary indexes and transactions over it, a query planner, the query language LSMQL and an
  administration tool.

  \<^bold>\<open>The program.\<close> The engine (\<^verbatim>\<open>src/lib.rs\<close>) keeps one directory: a write-ahead log, sorted tables, a manifest that names
  the tables, and a version file. A write goes to the log and to memory; a memory over its limit is flushed to a table of
  level 0, and a full level 0 is merged into disjoint segments of level 1. A read looks at memory, level 0 from new to old
  and the one segment of the key; a scan merges all of them lazily. Opening checks version, manifest and tables and replays
  the log. The layer of entities (\<^verbatim>\<open>src/entity.rs\<close>) stores each field of an entity under a key of its own, keeps the entries
  of the indexes (\<^verbatim>\<open>src/index.rs\<close>) and the registry of names (\<^verbatim>\<open>src/schema.rs\<close>), and reads and writes through the interface
  \<^verbatim>\<open>Mutator\<close>, which the engine and the view of a transaction implement. Queries (\<^verbatim>\<open>src/query\<close>) are planned over the indexes
  and executed on such a view; LSMQL (\<^verbatim>\<open>src/lsmql\<close>) is a text form of them. The tool (\<^verbatim>\<open>src/bin/lsm-admin.rs\<close>) runs the
  engine's maintenance on directories.

  \<^bold>\<open>How it is modelled.\<close> A byte is an 8-bit word; strings, keys, values and files are lists of bytes in lexicographic
  order. A fallible function returns a sum with the error on the left; an operation on a state returns result and state, and
  its state is kept when it fails, as the program's is. A Rust panic is the error \<open>Panic\<close>. Identifiers of collections,
  fields and indexes are 32-bit words, transaction ids 64-bit words, and floats their 64 bits. Table ids, sizes and
  positions are natural numbers; where a format stores them in 32 or 64 bits the theorems carry the bound. A directory is
  an association list of file names and contents; the log's \<^verbatim>\<open>BufWriter\<close> is the written file and the bytes still in its
  buffer, so a crash is a directory with some prefix of their concatenation. Hash maps whose order does not show are maps;
  where the order shows the list of the model stands for any.

  \<^bold>\<open>Theories, in the order they build on each other.\<close>

  \<^item> \<open>Prelude\<close>, \<open>Bytes\<close>, \<open>Text\<close>, \<open>Fs\<close>, \<open>Errors\<close>: types, the monad of operations, sorted association lists, encodings, text
    functions and files of the standard library, \<^verbatim>\<open>src/error.rs\<close>.
  \<^item> \<open>Codec\<close> (\<^verbatim>\<open>codec.rs\<close>), \<open>Ordering\<close> (\<^verbatim>\<open>ordering.rs\<close>), \<open>Keycodec\<close> (\<^verbatim>\<open>keycodec.rs\<close>): encodings of values and keys, with their
    inverses, and the proof that the bytes are ordered as the values are and that a range of keys holds what it should.
  \<^item> \<open>Memtable\<close>, \<open>Wal\<close>, \<open>Recovery\<close> (\<^verbatim>\<open>memtable.rs\<close>, \<^verbatim>\<open>wal.rs\<close>): memory and log; what replay recovers from a log cut at any
    byte, and the atomicity of the blocks of transactions.
  \<^item> \<open>Bloom\<close>, \<open>Sstable\<close>, \<open>Table\<close> (\<^verbatim>\<open>sstable.rs\<close>, \<^verbatim>\<open>compaction.rs\<close>): the file of a table, its reader, and their agreement.
  \<^item> \<open>Iterator\<close>, \<open>Merge\<close> (\<^verbatim>\<open>iterator.rs\<close>): the merge with its heap. The locale \<open>sorted_source\<close> is the contract of
    \<^verbatim>\<open>ScanSource\<close>, interpreted on the vector, the table and the source that is either.
  \<^item> \<open>Version\<close>, \<open>Manifest\<close> (\<^verbatim>\<open>version.rs\<close>, \<^verbatim>\<open>manifest.rs\<close>): the text files, validation, round trips.
  \<^item> \<open>Database\<close> (\<^verbatim>\<open>lib.rs\<close>): state and operations of the engine. \<open>Engine\<close>, \<open>Segments\<close>, \<open>Compaction\<close>, \<open>Writes\<close>, \<open>Opening\<close>,
    \<open>Commits\<close> prove of each operation that it keeps the invariant and has its effect on the map \<open>db_value\<close> the layers stand
    for. \<open>Store\<close> has the state machine \<open>run\<close> of operations and crashes with the invariant of its reachable states, and
    \<open>Guarantees\<close> the properties that follow. \<open>Maintenance\<close> has close, drop, garbage collection, backup, restore, inspection.
  \<^item> \<open>Admin\<close> (\<^verbatim>\<open>bin/lsm-admin.rs\<close>): arguments, commands, output, exit codes, over a map of directories.
  \<^item> \<open>Schema\<close>, \<open>Registry\<close> (\<^verbatim>\<open>schema.rs\<close>): the registry, its file, its invariant.
  \<^item> \<open>Mutator\<close>: the trait as a record of operations. The locales \<open>kv_read\<close> and \<open>kv_write\<close> are its contract (an operation
    reads and changes the abstract map of entries), interpreted on the engine here and on a transaction in \<open>Transactions\<close>.
  \<^item> \<open>Indexes\<close>, \<open>Entity\<close>, \<open>Entities\<close>, \<open>Transactions\<close> (\<^verbatim>\<open>index.rs\<close>, \<^verbatim>\<open>entity.rs\<close>): the operations. \<open>Candidates\<close>, \<open>Upkeep\<close>,
    \<open>Updates\<close> prove them inside the locales, for any view: a put or delete is a list of writes along which no index ever
    misses an entity. \<open>Collections\<close> draws the conclusions for the store and for transactions, \<open>Composites\<close> those for the
    order of a put's writes on the engine and for composite indexes, \<open>Building\<close> those for the creation of an index.
  \<^item> \<open>Predicates\<close>, \<open>Planner\<close>, \<open>Executor\<close>, \<open>Queries\<close> (\<^verbatim>\<open>query\<close>): predicates, plans, iterators, aggregation, explanation.
    \<open>Answers\<close>, \<open>Assembly\<close>, \<open>Exactness\<close>, \<open>Answered\<close> prove that a plan answers what the predicate says.
  \<^item> \<open>Lexer\<close>, \<open>Parser\<close>, \<open>Translate\<close> (\<^verbatim>\<open>lsmql\<close>): the language, from its text to the builder of a query. \<open>Grammar\<close> proves that the
    parser returns and reads back what the grammar writes; \<open>Lsmql\<close> has the errors of the front end and the answer of a query
    from its text on.

  \<^bold>\<open>What is proved, by kind.\<close> Refinement: reads, scans and commits against the map of all writes. Crash safety: any prefix of
  the log, a commit cut anywhere, synced and closed databases, and what a crash inside a flush can do. Invariants: files and
  manifest, indexes and their creation, registry. Round trips: backup, manifest, registry, parser, entities. Equivalence: query plans, normal
  forms, the order of encodings, the query language. Errors: conditional updates, the front end, unreadable registries.
  Liveness and termination: writes succeed within the limits, the parser and every merge return. Bounds: memory and level 0.

  \<^bold>\<open>Bounds and fuel.\<close> The engine's theorems assume a bound \<open>B\<close> on the size of an entry with \<open>segment_max_records * B < 2 ^ 32\<close>, the
  limit of the 32-bit offsets of a table, and table ids below \<open>2 ^ 64\<close>; the empty key is excluded where a segment may start with
  it. The recursive descent of the parser has the depth \<open>4 * length ts + 4\<close>: each token is consumed within four calls, so the
  depth is never exhausted, which is the theorem on its termination. The loops of the merge, the lexer, the log reader and the
  iterators end by measures on what is left of their input.

  \<^bold>\<open>Parameters.\<close> \<open>crc\<close> is the checksum of the log (the crate \<^verbatim>\<open>crc32fast\<close>, of which only that it is a function is used); \<open>io_text\<close>
  the operating system's message of an error; \<open>shown\<close>, \<open>quoted\<close> and \<open>dbg\<close> the standard library's formatting of floats, strings
  and tokens in messages.

  \<^bold>\<open>Not modelled.\<close> The counters and the value cache behind the feature \<^verbatim>\<open>bench-diag\<close>, which only benchmarks turn on; the crash
  tester, the examples, the benchmarks and the tests, which call the public operations; and errors of the disk other than a
  missing, short or damaged file. Two processes on one directory are outside the program's contract. A subdirectory inside a
  database's directory is not in the model, and different paths of the tool are different directories. The stream of a scan is
  the list of its items up to its first error. The minimum or maximum of several zeros may be either zero, as Rust leaves it
  open; the sum of limit and offset wraps as in a release build. The equality of queries with the predicate is for plans
  without a composite index, without a sort under a limit in the order of an index, and without a conjunction that bounds a
  field by one value inclusively and exclusively: there the program can depart from the predicate. What survives a sync is
  stated for logs of whole records, as a record behind a damaged one is lost, which is a theorem of its own. Within a put the
  composite indexes are not complete; they are at its end.
\<close>

end
